(* ===== verification/Prelude.thy ===== *)
theory Prelude
  imports Main "HOL-Library.Word" "HOL-Library.Multiset"
begin

text \<open>
  What every theory of the development shares: the types that stand for C pointers, C strings
  and the outcome of a C call, the decimal printing that \<open>sprintf\<close> does for \<open>%d\<close>, and the
  generic lemmas on lists and maps the components use.

  \<^item> A pointer is an address (\<open>addr\<close>) when the code only ever passes a non-null one, and an
    \<open>addr option\<close> (\<open>ptr\<close>) when \<open>NULL\<close> is possible.
  \<^item> A C string is the list of its characters before the terminating zero byte, so \<open>strlen\<close> is
    \<open>length\<close>, \<open>strcmp(a, b) == 0\<close> is \<open>a = b\<close> and \<open>strcat(a, b)\<close> is \<open>a @ b\<close>.
  \<^item> \<open>malloc\<close> never fails in the model and returns an address never returned before.
\<close>

section \<open>Names of the model's types\<close>

type_synonym addr = nat

type_synonym ptr = "addr option"

type_synonym cstring = string

text \<open>Facts that evaluate the operations of a component on a well-formed state.\<close>

named_theorems ops_eval

text \<open>Facts that say which parts of the state an operation leaves alone.\<close>

named_theorems frame_simps

section \<open>Lists\<close>

lemma map_of_append_fresh:
  "k \<notin> fst ` set xs \<Longrightarrow> map_of (xs @ [(k, d)]) = (map_of xs)(k \<mapsto> d)"
proof -
  assume "k \<notin> fst ` set xs"
  then have "map_of xs k = None" by (simp add: map_of_eq_None_iff)
  then show ?thesis by (auto simp: fun_eq_iff map_add_def split: option.splits)
qed

lemma map_of_filter_neq:
  "map_of (filter (\<lambda>p. fst p \<noteq> k) xs) = (map_of xs)(k := None)"
  by (induction xs) (auto simp: fun_eq_iff)

text \<open>A list of disjoint lists without repetitions has none itself; the lists may be empty.\<close>

lemma distinct_concat_nth:
  assumes "\<And>i. i < length xss \<Longrightarrow> distinct (xss ! i)"
    and "\<And>i j. i < length xss \<Longrightarrow> j < length xss \<Longrightarrow> i \<noteq> j \<Longrightarrow> set (xss ! i) \<inter> set (xss ! j) = {}"
  shows "distinct (concat xss)"
  using assms
proof (induction xss)
  case Nil
  then show ?case by simp
next
  case (Cons xs xss)
  have "distinct (concat xss)"
    using Cons.prems(1) [of "Suc _"] Cons.prems(2) [of "Suc _" "Suc _"] by (intro Cons.IH) auto
  moreover have "set xs \<inter> set ys = {}" if "ys \<in> set xss" for ys
    using Cons.prems(2) [of 0 "Suc _"] that by (fastforce simp: in_set_conv_nth)
  ultimately show ?case using Cons.prems(1) [of 0] by auto
qed

section \<open>Maps as memories\<close>

text \<open>
  A memory is a partial map from addresses to objects; \<open>free\<close> removes an address, so that a later
  dereference finds nothing.
\<close>

definition free_at :: "addr \<Rightarrow> (addr \<rightharpoonup> 'a) \<Rightarrow> (addr \<rightharpoonup> 'a)" where
  "free_at a h = h(a := None)"

lemma free_at_apply [simp]: "free_at a h b = (if b = a then None else h b)"
  by (simp add: free_at_def)

section \<open>Decimal printing\<close>

text \<open>
  The text that \<open>printf\<close> gives a decimal conversion \<open>%d\<close>: the digits of the magnitude, most
  significant first, after a minus sign for a negative number.
\<close>

fun nat_digits :: "nat \<Rightarrow> cstring" where
  "nat_digits n = (if n < 10 then [char_of (48 + n)]
                   else nat_digits (n div 10) @ [char_of (48 + n mod 10)])"

declare nat_digits.simps [simp del]

definition fmt_d :: "int \<Rightarrow> cstring" where
  "fmt_d i = (if i < 0 then CHR ''-'' # nat_digits (nat (- i)) else nat_digits (nat i))"

definition is_digit :: "char \<Rightarrow> bool" where
  "is_digit c \<longleftrightarrow> 48 \<le> (of_char c :: nat) \<and> (of_char c :: nat) \<le> 57"

text \<open>The number a string of digits denotes, read left to right.\<close>

definition digits_value :: "cstring \<Rightarrow> nat" where
  "digits_value s = foldl (\<lambda>v c. 10 * v + (of_char c - 48)) 0 s"

lemma of_char_digit: "d < 10 \<Longrightarrow> (of_char (char_of (48 + d) :: char) :: nat) = 48 + d"
  by simp

lemma nat_digits_are_digits: "c \<in> set (nat_digits n) \<Longrightarrow> is_digit c"
proof (induction n rule: nat_digits.induct)
  case (1 n)
  show ?case
  proof (cases "n < 10")
    case True
    with "1.prems" show ?thesis
      by (subst (asm) nat_digits.simps) (simp add: is_digit_def)
  next
    case False
    with 1 show ?thesis
      by (subst (asm) nat_digits.simps) (auto simp: is_digit_def)
  qed
qed

lemma nat_digits_nonempty [simp]: "nat_digits n \<noteq> []"
  by (subst nat_digits.simps) simp

lemma digits_value_snoc: "digits_value (s @ [c]) = 10 * digits_value s + (of_char c - 48)"
  by (simp add: digits_value_def)

lemma digits_value_nat_digits [simp]: "digits_value (nat_digits n) = n"
proof (induction n rule: nat_digits.induct)
  case (1 n)
  show ?case
  proof (cases "n < 10")
    case True
    then show ?thesis by (subst nat_digits.simps) (simp add: digits_value_def)
  next
    case False
    with 1 have "digits_value (nat_digits (n div 10)) = n div 10" by simp
    with False show ?thesis by (subst nat_digits.simps) (simp add: digits_value_snoc)
  qed
qed

lemma nat_digits_inj: "nat_digits m = nat_digits n \<Longrightarrow> m = n"
  by (metis digits_value_nat_digits)

lemma length_nat_digits: "n < 10 ^ Suc k \<Longrightarrow> length (nat_digits n) \<le> Suc k"
proof (induction k arbitrary: n)
  case 0
  then show ?case by (subst nat_digits.simps) simp
next
  case (Suc k)
  show ?case
  proof (cases "n < 10")
    case True
    then show ?thesis by (subst nat_digits.simps) simp
  next
    case False
    have "n div 10 < 10 ^ Suc k" using Suc.prems by (simp add: less_mult_imp_div_less)
    then have "length (nat_digits (n div 10)) \<le> Suc k" by (rule Suc.IH)
    with False show ?thesis by (subst nat_digits.simps) simp
  qed
qed

text \<open>
  A number printed in front of a text that does not start with a digit can be read back: both the
  number and the text are determined.
\<close>

lemma digits_prefix_inj:
  assumes "ds @ xs = es @ ys"
    and "\<forall>c \<in> set ds. is_digit c" "\<forall>c \<in> set es. is_digit c"
    and "xs = [] \<or> \<not> is_digit (hd xs)" "ys = [] \<or> \<not> is_digit (hd ys)"
  shows "ds = es \<and> xs = ys"
  using assms
proof (induction ds arbitrary: es)
  case Nil
  then show ?case by (cases es) auto
next
  case (Cons d ds)
  then show ?case by (cases es) auto
qed

text \<open>Sorting the images of a list.\<close>

lemma insort_key_map: "insort_key f (g x) (map g xs) = map g (insort_key (\<lambda>x. f (g x)) x xs)"
  by (induction xs) auto

lemma sort_key_map: "sort_key f (map g xs) = map g (sort_key (\<lambda>x. f (g x)) xs)"
  by (induction xs) (simp_all add: insort_key_map)

end
