(* ===== verification/HashTable.thy ===== *)
theory HashTable
  imports Prelude "HOL-Library.Monad_Syntax"
begin

text \<open>
  The hash table of \<open>Assig4/hashtable.c\<close> and \<open>Assig4/hashtable.h\<close>, at the level of its pointers.

  A table is an array of \<open>HT_SIZ\<close> pointers to entries, each the head of a linked list; the entries
  are objects of a memory of nodes. \<open>h_init\<close> puts a dummy entry, marked by the index \<open>-1\<close>, in
  every slot. The type \<open>'d\<close> is the type of the data pointers a client stores (never \<open>NULL\<close>).
  \<open>None\<close> as the result of an operation stands for undefined behaviour (reading a dead object or an
  indeterminate field, a failed \<open>assert\<close>) or for a loop that never ends; an indeterminate field is
  \<open>None\<close> too. The struct field \<open>next\<close> is called \<open>link\<close> here.
\<close>

section \<open>Data\<close>

definition HT_SIZ :: nat where
  "HT_SIZ = 100"

record 'd entry_t =
  index :: "32 word"
  key :: "cstring option"
  data :: "'d option"
  link :: ptr

record 'd htable =
  slots :: "addr list"
  nodes :: "addr \<rightharpoonup> 'd entry_t"
  brk :: addr

text \<open>\<open>malloc\<close> of one entry: the object is stored at the next unused address.\<close>

definition malloc_node :: "'d entry_t \<Rightarrow> 'd htable \<Rightarrow> addr \<times> 'd htable" where
  "malloc_node e t = (brk t, t\<lparr>nodes := (nodes t)(brk t \<mapsto> e), brk := Suc (brk t)\<rparr>)"

text \<open>Reading \<open>h_table[i]\<close>, undefined out of the array.\<close>

definition slot :: "'d htable \<Rightarrow> nat \<Rightarrow> addr option" where
  "slot t i = (if i < length (slots t) then Some (slots t ! i) else None)"

section \<open>The hash function\<close>

text \<open>
  \<open>char\<close> is signed on the compiler's target, so \<open>sum += text[i]\<close> adds the sign-extended byte,
  modulo $2^{32}$.
\<close>

definition char_word :: "char \<Rightarrow> 32 word" where
  "char_word c = word_of_int (signed_take_bit 7 (of_char c))"

definition hash :: "cstring \<Rightarrow> nat" where
  "hash text = unat (foldl (\<lambda>sum c. sum + char_word c) 0 text mod of_nat HT_SIZ)"

section \<open>Linked lists\<close>

text \<open>The \<open>do ... while\<close> loop of \<open>ll_search\<close>.\<close>

partial_function (option) ll_search_loop ::
  "(addr \<rightharpoonup> 'd entry_t) \<Rightarrow> addr \<Rightarrow> cstring \<Rightarrow> ptr option" where
  "ll_search_loop h handle k =
     (case h handle of
        None \<Rightarrow> None
      | Some e \<Rightarrow>
         (case key e of
            None \<Rightarrow> None
          | Some k' \<Rightarrow>
             if k' = k then Some (Some handle)
             else (case link e of
                     None \<Rightarrow> Some None
                   | Some n \<Rightarrow> ll_search_loop h n k)))"

definition ll_search :: "(addr \<rightharpoonup> 'd entry_t) \<Rightarrow> ptr \<Rightarrow> cstring \<Rightarrow> ptr option" where
  "ll_search h first k =
     (case first of None \<Rightarrow> None | Some handle \<Rightarrow> ll_search_loop h handle k)"

text \<open>The loop \<open>while (handle->next) handle = handle->next\<close> of \<open>ll_insert\<close>.\<close>

partial_function (option) ll_last :: "(addr \<rightharpoonup> 'd entry_t) \<Rightarrow> addr \<Rightarrow> addr option" where
  "ll_last h handle =
     (case h handle of
        None \<Rightarrow> None
      | Some e \<Rightarrow> (case link e of None \<Rightarrow> Some handle | Some n \<Rightarrow> ll_last h n))"

definition ll_insert ::
  "(addr \<rightharpoonup> 'd entry_t) \<Rightarrow> ptr \<Rightarrow> ptr \<Rightarrow> (bool \<times> (addr \<rightharpoonup> 'd entry_t)) option" where
  "ll_insert h first node =
     do {
       fst_a \<leftarrow> first;
       node_a \<leftarrow> node;
       nd \<leftarrow> h node_a;
       k \<leftarrow> key nd;
       found \<leftarrow> ll_search h (Some fst_a) k;
       if found \<noteq> None then Some (False, h)
       else do {
         last_a \<leftarrow> ll_last h fst_a;
         e \<leftarrow> h last_a;
         Some (True, h(last_a \<mapsto> e\<lparr>link := Some node_a\<rparr>))
       }
     }"

section \<open>The table\<close>

definition h_insert_entry :: "'d htable \<Rightarrow> addr \<Rightarrow> (bool \<times> 'd htable) option" where
  "h_insert_entry t ent =
     do {
       e \<leftarrow> nodes t ent;
       let i = unat (index e);
       a \<leftarrow> slot t i;
       hd_e \<leftarrow> nodes t a;
       if index hd_e = -1
       then Some (True, t\<lparr>nodes := free_at a (nodes t), slots := (slots t)[i := ent]\<rparr>)
       else do {
         (ok, h) \<leftarrow> ll_insert (nodes t) (Some a) (Some ent);
         Some (ok, t\<lparr>nodes := h\<rparr>)
       }
     }"

definition h_get_entry :: "'d htable \<Rightarrow> cstring \<Rightarrow> ptr option" where
  "h_get_entry t k =
     do {
       a \<leftarrow> slot t (hash k);
       e \<leftarrow> nodes t a;
       if index e = -1 then Some None else ll_search (nodes t) (Some a) k
     }"

text \<open>The body of the loop of \<open>h_init\<close>, run \<open>n\<close> times; slot \<open>i\<close> is written at step \<open>i\<close>.\<close>

primrec h_init_loop :: "nat \<Rightarrow> 'd htable \<Rightarrow> 'd htable" where
  "h_init_loop 0 t = t"
| "h_init_loop (Suc n) t =
     (let (a, t') = malloc_node \<lparr>index = -1, key = None, data = None, link = None\<rparr> t
      in h_init_loop n (t'\<lparr>slots := slots t' @ [a]\<rparr>))"

definition h_init :: "unit \<Rightarrow> 'd htable" where
  "h_init _ = h_init_loop HT_SIZ \<lparr>slots = [], nodes = Map.empty, brk = 0\<rparr>"

definition h_insert :: "'d htable \<Rightarrow> cstring \<Rightarrow> 'd \<Rightarrow> (bool \<times> 'd htable) option" where
  "h_insert t k d =
     (let (ent, t') = malloc_node
            \<lparr>index = of_nat (hash k), key = Some k, data = Some d, link = None\<rparr> t
      in h_insert_entry t' ent)"

text \<open>The outer option is definedness, the inner one the returned pointer.\<close>

definition h_get :: "'d htable \<Rightarrow> cstring \<Rightarrow> 'd option option" where
  "h_get t k =
     do {
       found \<leftarrow> h_get_entry t k;
       (case found of
          None \<Rightarrow> Some None
        | Some a \<Rightarrow> do { e \<leftarrow> nodes t a; d \<leftarrow> data e; Some (Some d) })
     }"

section \<open>Listing the table\<close>

text \<open>First pass of \<open>ht_to_list\<close>: count the entries of one list, then of all slots.\<close>

partial_function (option) ll_count ::
  "(addr \<rightharpoonup> 'd entry_t) \<Rightarrow> addr \<Rightarrow> nat \<Rightarrow> nat option" where
  "ll_count h handle cnt =
     (case h handle of
        None \<Rightarrow> None
      | Some e \<Rightarrow> (case link e of None \<Rightarrow> Some (Suc cnt) | Some n \<Rightarrow> ll_count h n (Suc cnt)))"

fun ht_count :: "(addr \<rightharpoonup> 'd entry_t) \<Rightarrow> addr list \<Rightarrow> nat \<Rightarrow> nat option" where
  "ht_count h [] cnt = Some cnt"
| "ht_count h (a # as) cnt =
     do {
       e \<leftarrow> h a;
       if index e = -1 then ht_count h as cnt
       else do { cnt' \<leftarrow> ll_count h a cnt; ht_count h as cnt' }
     }"

text \<open>
  Second pass: \<open>list[ind++] = handle->data\<close>, where \<open>list\<close> has room for \<open>cap\<close> pointers and \<open>ind\<close> is
  the length of the part written so far; a write past the block is undefined.
\<close>

partial_function (option) ll_copy ::
  "(addr \<rightharpoonup> 'd entry_t) \<Rightarrow> addr \<Rightarrow> nat \<Rightarrow> 'd list \<Rightarrow> 'd list option" where
  "ll_copy h handle cap xs =
     (case h handle of
        None \<Rightarrow> None
      | Some e \<Rightarrow>
         (case data e of
            None \<Rightarrow> None
          | Some d \<Rightarrow>
             if length xs < cap
             then (case link e of
                     None \<Rightarrow> Some (xs @ [d])
                   | Some n \<Rightarrow> ll_copy h n cap (xs @ [d]))
             else None))"

fun ht_copy :: "(addr \<rightharpoonup> 'd entry_t) \<Rightarrow> addr list \<Rightarrow> nat \<Rightarrow> 'd list \<Rightarrow> 'd list option" where
  "ht_copy h [] cap xs = Some xs"
| "ht_copy h (a # as) cap xs =
     do {
       e \<leftarrow> h a;
       if index e = -1 then ht_copy h as cap xs
       else do { xs' \<leftarrow> ll_copy h a cap xs; ht_copy h as cap xs' }
     }"

text \<open>The returned array; its length is what the code stores in \<open>*size\<close>.\<close>

definition ht_to_list :: "'d htable \<Rightarrow> 'd list option" where
  "ht_to_list t =
     do {
       cnt \<leftarrow> ht_count (nodes t) (slots t) 0;
       ht_copy (nodes t) (slots t) cnt []
     }"

section \<open>Removal\<close>

text \<open>The loop of \<open>h_remove\<close> that walks to \<open>found\<close> and remembers the entry before it.\<close>

partial_function (option) find_prev ::
  "(addr \<rightharpoonup> 'd entry_t) \<Rightarrow> ptr \<Rightarrow> addr \<Rightarrow> addr \<Rightarrow> ptr option" where
  "find_prev h prev cur found =
     (if cur = found then Some prev
      else (case h cur of
              None \<Rightarrow> None
            | Some e \<Rightarrow>
               (case link e of None \<Rightarrow> None | Some n \<Rightarrow> find_prev h (Some cur) n found)))"

text \<open>
  The result holds the returned flag, the table, and the data pointer that was handed to \<open>free\<close>.
  When the entry is the head of its list, the code marks the slot's entry empty and clears its
  \<open>next\<close> pointer.
\<close>

definition h_remove :: "'d htable \<Rightarrow> cstring \<Rightarrow> (bool \<times> 'd htable \<times> 'd option) option" where
  "h_remove t k =
     do {
       found \<leftarrow> h_get_entry t k;
       (case found of
          None \<Rightarrow> Some (False, t, None)
        | Some cur \<Rightarrow>
           do {
             first \<leftarrow> slot t (hash k);
             prev \<leftarrow> find_prev (nodes t) None first cur;
             e \<leftarrow> nodes t cur;
             d \<leftarrow> data e;
             (case prev of
                Some p \<Rightarrow>
                  do {
                    pe \<leftarrow> nodes t p;
                    Some (True, t\<lparr>nodes := (nodes t)(p \<mapsto> pe\<lparr>link := link e\<rparr>)\<rparr>, Some d)
                  }
              | None \<Rightarrow>
                  Some (True, t\<lparr>nodes := (nodes t)(cur \<mapsto> e\<lparr>index := -1, link := None\<rparr>)\<rparr>, Some d))
           })
     }"

text \<open>The loops are computed by their own equations.\<close>

lemmas ht_loop_simps [code] =
  ll_search_loop.simps ll_last.simps ll_count.simps ll_copy.simps find_prev.simps

end
