(* ===== verification/HashTableInv.thy ===== *)
theory HashTableInv
  imports HashTable
begin

text \<open>
  The heap shape of the hash table of \<open>HashTable\<close>, its content, and what each operation does to
  it. The content \<open>ht_view\<close> is, slot by slot, the list of key and data pairs in the order of the
  linked list. \<open>ht_inv\<close> says that the slots hold disjoint, finite lists of live entries whose keys
  are distinct and hash to their slot, or one dummy entry.
\<close>

section \<open>Lists in the memory of nodes\<close>

fun chain :: "(addr \<rightharpoonup> 'd entry_t) \<Rightarrow> ptr \<Rightarrow> addr list \<Rightarrow> bool" where
  "chain h p [] \<longleftrightarrow> p = None"
| "chain h p (a # as) \<longleftrightarrow>
     p = Some a \<and> (case h a of None \<Rightarrow> False | Some e \<Rightarrow> chain h (link e) as)"

definition node_key :: "(addr \<rightharpoonup> 'd entry_t) \<Rightarrow> addr \<Rightarrow> cstring" where
  "node_key h b = the (key (the (h b)))"

definition node_data :: "(addr \<rightharpoonup> 'd entry_t) \<Rightarrow> addr \<Rightarrow> 'd" where
  "node_data h b = the (data (the (h b)))"

definition node_kv :: "(addr \<rightharpoonup> 'd entry_t) \<Rightarrow> addr \<Rightarrow> cstring \<times> 'd" where
  "node_kv h b = (node_key h b, node_data h b)"

text \<open>A node of slot \<open>i\<close> with its fields filled in.\<close>

definition live :: "nat \<Rightarrow> 'd entry_t \<Rightarrow> bool" where
  "live i e \<longleftrightarrow> index e = of_nat i \<and> key e \<noteq> None \<and> hash (the (key e)) = i \<and> data e \<noteq> None"

definition bucket_ok :: "(addr \<rightharpoonup> 'd entry_t) \<Rightarrow> nat \<Rightarrow> addr \<Rightarrow> addr list \<Rightarrow> bool" where
  "bucket_ok h i a as \<longleftrightarrow>
     as \<noteq> [] \<and> hd as = a \<and> distinct as \<and> chain h (Some a) as \<and>
     (as = [a] \<and> index (the (h a)) = -1 \<or>
      (\<forall>b \<in> set as. live i (the (h b))) \<and> distinct (map (node_key h) as))"

definition ht_inv_with :: "'d htable \<Rightarrow> (nat \<Rightarrow> addr list) \<Rightarrow> bool" where
  "ht_inv_with t foot \<longleftrightarrow>
     length (slots t) = HT_SIZ \<and>
     (\<forall>a. nodes t a \<noteq> None \<longrightarrow> a < brk t) \<and>
     (\<forall>i < HT_SIZ. bucket_ok (nodes t) i (slots t ! i) (foot i)) \<and>
     (\<forall>i < HT_SIZ. \<forall>j < HT_SIZ. i \<noteq> j \<longrightarrow> set (foot i) \<inter> set (foot j) = {})"

definition ht_inv :: "'d htable \<Rightarrow> bool" where
  "ht_inv t \<longleftrightarrow> (\<exists>foot. ht_inv_with t foot)"

section \<open>The content of a table\<close>

partial_function (option) ll_addrs :: "(addr \<rightharpoonup> 'd entry_t) \<Rightarrow> addr \<Rightarrow> addr list option" where
  "ll_addrs h a =
     (case h a of
        None \<Rightarrow> None
      | Some e \<Rightarrow>
         (case link e of
            None \<Rightarrow> Some [a]
          | Some n \<Rightarrow> Option.bind (ll_addrs h n) (\<lambda>as. Some (a # as))))"

definition slot_view :: "(addr \<rightharpoonup> 'd entry_t) \<Rightarrow> addr \<Rightarrow> (cstring \<times> 'd) list" where
  "slot_view h a =
     (case h a of
        None \<Rightarrow> []
      | Some e \<Rightarrow> if index e = -1 then [] else map (node_kv h) (the (ll_addrs h a)))"

definition ht_view :: "'d htable \<Rightarrow> (cstring \<times> 'd) list list" where
  "ht_view t = map (slot_view (nodes t)) (slots t)"

text \<open>The content as a finite map.\<close>

definition ht_map :: "'d htable \<Rightarrow> cstring \<rightharpoonup> 'd" where
  "ht_map t k = map_of (ht_view t ! hash k) k"

section \<open>Reasoning about chains\<close>

lemma hash_less [simp]: "hash k < HT_SIZ"
proof -
  have "hash k = unat (foldl (\<lambda>sum c. sum + char_word c) 0 k) mod HT_SIZ"
    by (simp add: hash_def HT_SIZ_def unat_mod)
  then show ?thesis by (simp add: HT_SIZ_def)
qed

lemma chain_cong:
  "(\<And>b. b \<in> set as \<Longrightarrow> h' b = h b) \<Longrightarrow> chain h' p as = chain h p as"
  by (induction as arbitrary: p) (auto split: option.splits)

lemma chain_defined: "chain h p as \<Longrightarrow> b \<in> set as \<Longrightarrow> \<exists>e. h b = Some e"
  by (induction as arbitrary: p) (auto split: option.splits)

lemma chain_Cons_start: "chain h (Some a) as \<Longrightarrow> \<exists>bs. as = a # bs"
  by (cases as) auto

lemma chain_ConsE:
  assumes "chain h (Some a) (b # bs)"
  obtains e where "h a = Some e" "b = a" "chain h (link e) bs"
  using assms by (cases "h a") auto

text \<open>Induction along a chain: the last node, or a node in front of a chain.\<close>

lemma chain_induct [consumes 1, case_names last step]:
  assumes "chain h (Some a) as"
    and "\<And>a e. h a = Some e \<Longrightarrow> link e = None \<Longrightarrow> P a [a]"
    and "\<And>a e n as. h a = Some e \<Longrightarrow> link e = Some n \<Longrightarrow> chain h (Some n) as \<Longrightarrow> P n as \<Longrightarrow> P a (a # as)"
  shows "P a as"
  using assms(1)
proof (induction as arbitrary: a)
  case Nil
  then show ?case by simp
next
  case (Cons b bs)
  then obtain e where e: "h a = Some e" "b = a" "chain h (link e) bs"
    by (blast elim: chain_ConsE)
  show ?case
  proof (cases "link e")
    case None
    with e have "bs = []" by (cases bs) auto
    with e None assms(2) show ?thesis by auto
  next
    case (Some n)
    with e Cons.IH [of n] assms(3) [of a e n bs] show ?thesis by auto
  qed
qed

lemma chain_hd: "chain h p as \<Longrightarrow> as \<noteq> [] \<Longrightarrow> p = Some (hd as)"
  by (cases as) auto

lemma chain_nonempty: "chain h (Some a) as \<Longrightarrow> as \<noteq> []"
  by auto

lemma chain_last:
  "chain h (Some a) as \<Longrightarrow> \<exists>e. h (last as) = Some e \<and> link e = None"
  by (induction rule: chain_induct) (auto dest: chain_nonempty)

lemma chain_snoc:
  assumes "chain h (Some a) as" and "distinct as" and "n \<notin> set as"
    and "h (last as) = Some e" and "h n = Some nd" and "link nd = None"
  shows "chain (h(last as \<mapsto> e\<lparr>link := Some n\<rparr>)) (Some a) (as @ [n])"
  using assms
proof (induction rule: chain_induct)
  case (last a e')
  then show ?case by auto
next
  case (step a e' m as)
  moreover from step have "last as \<in> set as" by (auto dest: chain_nonempty)
  ultimately show ?case by (auto dest: chain_nonempty)
qed

lemma ll_search_loop_chain:
  assumes "chain h (Some a) as" and "\<forall>b \<in> set as. key (the (h b)) \<noteq> None"
  shows "ll_search_loop h a k = Some (find (\<lambda>b. node_key h b = k) as)"
  using assms
  by (induction rule: chain_induct) (subst ll_search_loop.simps, auto simp: node_key_def)+

lemma ll_last_chain: "chain h (Some a) as \<Longrightarrow> ll_last h a = Some (last as)"
  by (induction rule: chain_induct) (subst ll_last.simps, auto dest: chain_nonempty)+

lemma ll_addrs_chain: "chain h (Some a) as \<Longrightarrow> ll_addrs h a = Some as"
  by (induction rule: chain_induct) (subst ll_addrs.simps, auto)+

lemma ll_count_chain: "chain h (Some a) as \<Longrightarrow> ll_count h a n = Some (n + length as)"
  by (induction arbitrary: n rule: chain_induct) (subst ll_count.simps, auto)+

lemma ll_copy_chain:
  assumes "chain h (Some a) as" and "\<forall>b \<in> set as. data (the (h b)) \<noteq> None"
    and "length xs + length as \<le> cap"
  shows "ll_copy h a cap xs = Some (xs @ map (node_data h) as)"
  using assms
proof (induction arbitrary: xs rule: chain_induct)
  case (last a e)
  then show ?case by (subst ll_copy.simps) (auto simp: node_data_def)
next
  case (step a e n as)
  then obtain d where "data e = Some d" by auto
  with step show ?case by (subst ll_copy.simps) (auto simp: node_data_def)
qed

text \<open>The walk to the found entry ends at it with the entry before it, or none at the head.\<close>

lemma find_prev_chain:
  assumes "chain h (Some a) (xs @ b # ys)" and "distinct (xs @ b # ys)"
  shows "find_prev h prev a b = Some (if xs = [] then prev else Some (last xs))"
  using assms
proof (induction xs arbitrary: a prev)
  case Nil
  then show ?case by (subst find_prev.simps) simp
next
  case (Cons x xs)
  from Cons.prems(1) obtain e where e: "h a = Some e" "x = a" "chain h (link e) (xs @ b # ys)"
    by (metis append_Cons chain_ConsE)
  then obtain n where n: "link e = Some n" using chain_hd by blast
  have "find_prev h (Some a) n b = Some (if xs = [] then Some a else Some (last xs))"
    using Cons.IH [of n "Some a"] e(3) n Cons.prems(2) by simp
  moreover have "a \<noteq> b" using Cons.prems(2) e(2) by auto
  ultimately show ?case using e(1,2) n by (subst find_prev.simps) simp
qed

text \<open>Unlinking an inner node leaves the chain without it.\<close>

lemma chain_unlink:
  assumes "chain h (Some a) (xs @ p # b # ys)" and "distinct (xs @ p # b # ys)"
    and "h p = Some pe" and "h b = Some e"
  shows "chain (h(p \<mapsto> pe\<lparr>link := link e\<rparr>)) (Some a) (xs @ p # ys)"
  using assms
proof (induction xs arbitrary: a)
  case Nil
  moreover from Nil have "chain (h(p \<mapsto> pe\<lparr>link := link e\<rparr>)) (link e) ys"
    by (subst chain_cong [where h = h]) auto
  ultimately show ?case by (auto simp del: fun_upd_apply simp: fun_upd_same)
next
  case (Cons x xs)
  from Cons.prems(1) obtain f where f: "h a = Some f" "x = a" "chain h (link f) (xs @ p # b # ys)"
    by (metis append_Cons chain_ConsE)
  then obtain n where n: "link f = Some n" using chain_hd by blast
  have "chain (h(p \<mapsto> pe\<lparr>link := link e\<rparr>)) (Some n) (xs @ p # ys)"
    using f(3) n Cons.prems by (intro Cons.IH) auto
  moreover have "x \<noteq> p" using Cons.prems(2) by auto
  ultimately show ?case using f(1,2) n by (simp del: fun_upd_apply add: fun_upd_other)
qed

section \<open>One bucket\<close>

lemma bucket_ok_cong:
  assumes eq: "\<forall>b \<in> set as. h' b = h b"
  shows "bucket_ok h' i a as = bucket_ok h i a as"
proof -
  have keys: "map (node_key h') as = map (node_key h) as"
    using eq by (simp add: node_key_def)
  have ch: "chain h' (Some a) as = chain h (Some a) as"
    using eq by (intro chain_cong) simp
  have lv: "(\<forall>b \<in> set as. live i (the (h' b))) = (\<forall>b \<in> set as. live i (the (h b)))"
    using eq by simp
  have hd_eq: "as = [a] \<Longrightarrow> h' a = h a" using eq by simp
  show ?thesis unfolding bucket_ok_def keys ch lv using hd_eq by auto
qed

lemma slot_view_bucket:
  assumes "bucket_ok h i a as"
  shows "slot_view h a = (if index (the (h a)) = -1 then [] else map (node_kv h) as)"
proof -
  from assms have c: "chain h (Some a) as" and "a \<in> set as"
    by (auto simp: bucket_ok_def)
  then obtain e where "h a = Some e" using chain_defined by blast
  with c show ?thesis by (simp add: slot_view_def ll_addrs_chain)
qed

lemma slot_view_cong:
  assumes b: "bucket_ok h i a as" and eq: "\<forall>b \<in> set as. h' b = h b"
  shows "slot_view h' a = slot_view h a"
proof -
  have b': "bucket_ok h' i a as" using b bucket_ok_cong [OF eq] by simp
  have kv: "map (node_kv h') as = map (node_kv h) as"
    using eq by (simp add: node_kv_def node_key_def node_data_def)
  have "a \<in> set as" using b by (auto simp: bucket_ok_def)
  then have "h' a = h a" using eq by blast
  then show ?thesis unfolding slot_view_bucket [OF b] slot_view_bucket [OF b'] kv by simp
qed

text \<open>A slot index is never the mark of an empty slot.\<close>

lemma index_not_mark: "i < HT_SIZ \<Longrightarrow> (of_nat i :: 32 word) \<noteq> -1"
proof
  assume i: "i < HT_SIZ" and eq: "(of_nat i :: 32 word) = -1"
  have "(-1 :: 32 word) = 4294967295" by simp
  with eq have "unat (of_nat i :: 32 word) = unat (4294967295 :: 32 word)" by (simp only:)
  with i show False by (simp add: HT_SIZ_def unat_of_nat)
qed

lemma unat_slot_index: "i < HT_SIZ \<Longrightarrow> unat (of_nat i :: 32 word) = i"
  by (simp add: unat_of_nat HT_SIZ_def)

text \<open>The two shapes of a slot: empty, or a list of live nodes.\<close>

lemma bucket_cases:
  assumes "bucket_ok h i a as" and "i < HT_SIZ"
  obtains (empty) e where "as = [a]" "h a = Some e" "index e = -1" "link e = None"
      "slot_view h a = []"
  | (live) e where "h a = Some e" "index e \<noteq> -1" "chain h (Some a) as" "distinct as"
      "\<forall>b \<in> set as. live i (the (h b))" "distinct (map (node_key h) as)"
      "slot_view h a = map (node_kv h) as" "as \<noteq> []" "hd as = a"
proof -
  from assms have b: "as \<noteq> []" "hd as = a" "distinct as" "chain h (Some a) as"
    by (auto simp: bucket_ok_def)
  then obtain e where e: "h a = Some e" using chain_defined hd_in_set by metis
  show thesis
  proof (cases "index e = -1")
    case True
    have "\<not> live i e" using index_not_mark [OF assms(2)] True by (auto simp: live_def)
    moreover have "a \<in> set as" using b by auto
    ultimately have "\<not> (\<forall>b \<in> set as. live i (the (h b)))"
      using e by (metis option.sel)
    then have "as = [a]" using assms(1) unfolding bucket_ok_def by blast
    moreover have "link e = None" using b(4) \<open>as = [a]\<close> e by simp
    ultimately show thesis
      using e True slot_view_bucket [OF assms(1)] by (intro empty [of e]) simp_all
  next
    case False
    with assms e have "\<forall>b \<in> set as. live i (the (h b))" "distinct (map (node_key h) as)"
      by (auto simp: bucket_ok_def)
    with b e False show thesis
      by (intro live [of e]) (auto simp: slot_view_bucket [OF assms(1)])
  qed
qed

end
