(* ===== verification/Dictionary.thy ===== *)
theory Dictionary
  imports Prelude "HOL-Library.Monad_Syntax"
begin

text \<open>
  The interfaces between the hash table and its clients (the symbol table and the type table), as
  locales: the operations a client calls with the laws it relies on. An operation returns \<open>None\<close>
  when it has no defined result; the laws say that it always has one on a table that satisfies
  the invariant. The lemmas inside the locales are the client's side; \<open>HashTableSpec\<close> interprets
  the locales on the code's model.
\<close>

section \<open>Association lists of one slot\<close>

text \<open>
  What a removal does to one slot. The other entries of the slot survive only when the removed one
  is not the first.
\<close>

definition bucket_remove :: "cstring \<Rightarrow> (cstring \<times> 'd) list \<Rightarrow> (cstring \<times> 'd) list" where
  "bucket_remove k b =
     (if b \<noteq> [] \<and> fst (hd b) = k then [] else filter (\<lambda>p. fst p \<noteq> k) b)"

lemma bucket_remove_split:
  assumes "distinct (map fst (xs @ p # ys))"
  shows "bucket_remove (fst p) (xs @ p # ys) = (if xs = [] then [] else xs @ ys)"
proof -
  have "\<forall>q \<in> set (xs @ ys). fst q \<noteq> fst p" using assms by (auto simp: image_iff)
  then have "filter (\<lambda>q. fst q \<noteq> fst p) (xs @ p # ys) = xs @ ys" by simp
  then show ?thesis using assms by (cases xs) (auto simp: bucket_remove_def)
qed

lemma bucket_remove_absent: "k \<notin> fst ` set b \<Longrightarrow> bucket_remove k b = b"
  by (cases b) (auto simp: bucket_remove_def image_iff intro!: filter_True)

lemma set_bucket_remove: "set (bucket_remove k b) \<subseteq> {p \<in> set b. fst p \<noteq> k}"
  by (auto simp: bucket_remove_def)

section \<open>Removing a set of entries\<close>

text \<open>
  The loop of a client that goes through a list of data pointers and removes those that satisfy
  \<open>doomed\<close>, each under its key \<open>key_of\<close>. The result is the table and the data handed to \<open>free\<close>.
\<close>

fun purge ::
  "('t \<Rightarrow> cstring \<Rightarrow> (bool \<times> 't \<times> 'd option) option) \<Rightarrow> ('d \<Rightarrow> cstring) \<Rightarrow> ('d \<Rightarrow> bool)
     \<Rightarrow> 't \<Rightarrow> 'd list \<Rightarrow> ('t \<times> 'd list) option" where
  "purge remove key_of doomed t [] = Some (t, [])"
| "purge remove key_of doomed t (d # ds) =
     (if \<not> doomed d then purge remove key_of doomed t ds
      else do {
        (ok, t', freed) \<leftarrow> remove t (key_of d);
        (t'', fs) \<leftarrow> purge remove key_of doomed t' ds;
        Some (t'', (case freed of None \<Rightarrow> fs | Some f \<Rightarrow> f # fs))
      })"

text \<open>
  A slot in which no doomed entry stands before one that is kept. Removing the doomed entries of
  such a slot, first to last, takes nothing else with it.
\<close>

definition kept_first :: "('d \<Rightarrow> bool) \<Rightarrow> (cstring \<times> 'd) list \<Rightarrow> bool" where
  "kept_first doomed b \<longleftrightarrow>
     b = filter (\<lambda>p. \<not> doomed (snd p)) b @ filter (\<lambda>p. doomed (snd p)) b"

section \<open>Dictionaries\<close>

locale dictionary =
  fixes inv :: "'t \<Rightarrow> bool"
    and lookup :: "'t \<Rightarrow> cstring \<rightharpoonup> 'd"
    and get :: "'t \<Rightarrow> cstring \<Rightarrow> 'd option option"
    and insert :: "'t \<Rightarrow> cstring \<Rightarrow> 'd \<Rightarrow> (bool \<times> 't) option"
    and empty :: "'t"
  assumes inv_empty: "inv empty"
    and lookup_empty: "lookup empty = Map.empty"
    and get_lookup: "inv t \<Longrightarrow> get t k = Some (lookup t k)"
    and insert_old: "inv t \<Longrightarrow> lookup t k \<noteq> None \<Longrightarrow>
      \<exists>t'. insert t k d = Some (False, t') \<and> inv t' \<and> lookup t' = lookup t"
    and insert_new: "inv t \<Longrightarrow> lookup t k = None \<Longrightarrow>
      \<exists>t'. insert t k d = Some (True, t') \<and> inv t' \<and> lookup t' = (lookup t)(k \<mapsto> d)"
begin

lemma insert_total: "inv t \<Longrightarrow> \<exists>ok t'. insert t k d = Some (ok, t')"
  using insert_old insert_new by metis

lemma insert_result:
  assumes "inv t" and "insert t k d = Some (ok, t')"
  shows "ok = (lookup t k = None)" and "inv t'"
    and "lookup t' = (if ok then (lookup t)(k \<mapsto> d) else lookup t)"
  using assms insert_old [of t k d] insert_new [of t k d] by (cases "lookup t k"; auto)+

lemma get_inserted: "inv t \<Longrightarrow> insert t k d = Some (True, t') \<Longrightarrow> get t' k = Some (Some d)"
  using insert_result [of t k d True t'] by (simp add: get_lookup)

lemma get_other:
  "inv t \<Longrightarrow> insert t k d = Some (ok, t') \<Longrightarrow> k' \<noteq> k \<Longrightarrow> get t' k' = get t k'"
  using insert_result [of t k d ok t'] by (simp add: get_lookup)

lemma insert_again:
  "inv t \<Longrightarrow> insert t k d = Some (ok, t') \<Longrightarrow>
     \<exists>t''. insert t' k d' = Some (False, t'') \<and> inv t'' \<and> lookup t'' = lookup t'"
  using insert_result [of t k d ok t'] insert_old [of t' k d'] by (cases ok) auto

end

section \<open>Chained hash tables\<close>

text \<open>
  The client that deletes entries also depends on the slots of the table, because a removal can
  take more than the removed entry with it.
\<close>

locale chained_dictionary = dictionary inv lookup get insert empty
  for inv :: "'t \<Rightarrow> bool" and lookup :: "'t \<Rightarrow> cstring \<rightharpoonup> 'd" and get insert empty +
  fixes view :: "'t \<Rightarrow> (cstring \<times> 'd) list list"
    and hsh :: "cstring \<Rightarrow> nat"
    and nslots :: nat
    and remove :: "'t \<Rightarrow> cstring \<Rightarrow> (bool \<times> 't \<times> 'd option) option"
    and list_data :: "'t \<Rightarrow> 'd list option"
  assumes hsh_less: "hsh k < nslots"
    and length_view: "inv t \<Longrightarrow> length (view t) = nslots"
    and view_hash: "inv t \<Longrightarrow> i < nslots \<Longrightarrow> p \<in> set (view t ! i) \<Longrightarrow> hsh (fst p) = i"
    and view_distinct: "inv t \<Longrightarrow> i < nslots \<Longrightarrow> distinct (map fst (view t ! i))"
    and lookup_view: "inv t \<Longrightarrow> lookup t k = map_of (view t ! hsh k) k"
    and list_data_view: "inv t \<Longrightarrow> list_data t = Some (map snd (concat (view t)))"
    and insert_view: "inv t \<Longrightarrow> insert t k d = Some (True, t') \<Longrightarrow>
      view t' = (view t)[hsh k := view t ! hsh k @ [(k, d)]]"
    and insert_view_old: "inv t \<Longrightarrow> insert t k d = Some (False, t') \<Longrightarrow> view t' = view t"
    and remove_none: "inv t \<Longrightarrow> lookup t k = None \<Longrightarrow> remove t k = Some (False, t, None)"
    and remove_some: "inv t \<Longrightarrow> lookup t k = Some d \<Longrightarrow>
      \<exists>t'. remove t k = Some (True, t', Some d) \<and> inv t' \<and>
           view t' = (view t)[hsh k := bucket_remove k (view t ! hsh k)]"
begin

text \<open>Every listed pair is found under its key.\<close>

lemma lookup_iff:
  "inv t \<Longrightarrow> lookup t k = Some d \<longleftrightarrow> (k, d) \<in> set (concat (view t))"
proof
  assume inv: "inv t"
  show "(k, d) \<in> set (concat (view t))" if "lookup t k = Some d"
    using that inv hsh_less length_view [OF inv] lookup_view [OF inv]
    by (metis concat_eq_concat_iff in_set_conv_nth map_of_SomeD UN_I set_concat)
  assume "(k, d) \<in> set (concat (view t))"
  then obtain b where "b \<in> set (view t)" "(k, d) \<in> set b" by auto
  then obtain i where i: "i < nslots" "(k, d) \<in> set (view t ! i)"
    using length_view [OF inv] by (metis in_set_conv_nth)
  then have "hsh k = i" using view_hash [OF inv, of i "(k, d)"] by simp
  with i show "lookup t k = Some d"
    using view_distinct [OF inv i(1)] lookup_view [OF inv, of k] by simp
qed

text \<open>No key is listed twice.\<close>

lemma view_keys_distinct:
  assumes inv: "inv t"
  shows "distinct (map fst (concat (view t)))"
proof -
  have "distinct (concat (map (map fst) (view t)))"
  proof (rule distinct_concat_nth)
    fix i j assume ij: "i < length (map (map fst) (view t))" "j < length (map (map fst) (view t))" "i \<noteq> j"
    then have "i < nslots" "j < nslots" using length_view [OF inv] by simp_all
    then have "\<forall>p \<in> set (view t ! i). hsh (fst p) = i" "\<forall>p \<in> set (view t ! j). hsh (fst p) = j"
      using view_hash [OF inv] by blast+
    then show "set (map (map fst) (view t) ! i) \<inter> set (map (map fst) (view t) ! j) = {}"
      using ij by (force simp: disjoint_iff)
  qed (use view_distinct [OF inv] length_view [OF inv] in simp)
  then show ?thesis by (simp add: map_concat)
qed

text \<open>Removing the only entry of a slot, or an entry that is not the first, loses nothing else.\<close>

lemma remove_exact:
  assumes "inv t" and "lookup t k = Some d"
    and "view t ! hsh k = [(k, d)] \<or> fst (hd (view t ! hsh k)) \<noteq> k"
  shows "\<exists>t'. remove t k = Some (True, t', Some d) \<and> inv t' \<and> lookup t' = (lookup t)(k := None)"
proof -
  obtain t' where t': "remove t k = Some (True, t', Some d)" "inv t'"
    "view t' = (view t)[hsh k := bucket_remove k (view t ! hsh k)]"
    using remove_some [OF assms(1,2)] by blast
  have "map_of (bucket_remove k (view t ! hsh k)) = (map_of (view t ! hsh k))(k := None)"
    using assms(3) by (auto simp: bucket_remove_def map_of_filter_neq)
  then have "lookup t' j = ((lookup t)(k := None)) j" for j
    using assms(1) t'(2,3) hsh_less length_view
    by (cases "hsh j = hsh k") (auto simp: lookup_view)
  with t' show ?thesis by (auto simp: fun_eq_iff)
qed

text \<open>
  A state of the purge: of each slot there is what is kept, followed by the doomed entries that
  are still to come, or nothing at all when the slot keeps nothing.
\<close>

definition purge_state ::
  "('d \<Rightarrow> bool) \<Rightarrow> (cstring \<times> 'd) list list \<Rightarrow> (cstring \<times> 'd) list \<Rightarrow> 't \<Rightarrow> bool" where
  "purge_state doomed v todo t \<longleftrightarrow>
     inv t \<and>
     (\<forall>i < nslots.
        let keep = filter (\<lambda>p. \<not> doomed (snd p)) (v ! i);
            rest = filter (\<lambda>p. doomed (snd p) \<and> hsh (fst p) = i) todo
        in view t ! i = keep @ rest \<or> keep = [] \<and> view t ! i = [])"

lemma purge_state_skip:
  "purge_state doomed v (p # todo) t \<Longrightarrow> \<not> doomed (snd p) \<Longrightarrow> purge_state doomed v todo t"
  by (simp add: purge_state_def Let_def)

lemma purge_state_remove:
  assumes st: "purge_state doomed v ((k, d) # todo) t" and d: "doomed d"
  shows "\<exists>ok t' f. remove t k = Some (ok, t', f) \<and> purge_state doomed v todo t' \<and>
           f \<in> {None, Some d}"
proof -
  let ?i = "hsh k"
  let ?keep = "filter (\<lambda>p. \<not> doomed (snd p)) (v ! ?i)"
  let ?rest = "filter (\<lambda>p. doomed (snd p) \<and> hsh (fst p) = ?i) todo"
  have inv: "inv t" and at: "view t ! ?i = ?keep @ (k, d) # ?rest \<or> ?keep = [] \<and> view t ! ?i = []"
    using st d hsh_less [of k] by (auto simp: purge_state_def Let_def)
  have other: "purge_state doomed v todo t'"
    if "inv t'" "view t' = (view t)[?i := b]" "b = ?keep @ ?rest \<or> ?keep = [] \<and> b = []" for t' b
  proof -
    have "let keep = filter (\<lambda>p. \<not> doomed (snd p)) (v ! j);
              rest = filter (\<lambda>p. doomed (snd p) \<and> hsh (fst p) = j) todo
          in view t' ! j = keep @ rest \<or> keep = [] \<and> view t' ! j = []" if j: "j < nslots" for j
    proof (cases "j = ?i")
      case True
      then show ?thesis
        using \<open>view t' = _\<close> \<open>b = _ \<or> _\<close> length_view [OF inv] hsh_less by (auto simp: Let_def)
    next
      case False
      then have "view t' ! j = view t ! j" using \<open>view t' = _\<close> by simp
      moreover have "let keep = filter (\<lambda>p. \<not> doomed (snd p)) (v ! j);
              rest = filter (\<lambda>p. doomed (snd p) \<and> hsh (fst p) = j) ((k, d) # todo)
          in view t ! j = keep @ rest \<or> keep = [] \<and> view t ! j = []"
        using st j by (simp only: purge_state_def)
      ultimately show ?thesis using False by (simp add: Let_def)
    qed
    then show ?thesis using \<open>inv t'\<close> by (simp add: purge_state_def)
  qed
  show ?thesis
  proof (cases "view t ! ?i = []")
    case True
    then have "lookup t k = None" using lookup_view [OF inv] by simp
    moreover have "(view t)[?i := []] = view t" using True by (metis list_update_id)
    ultimately show ?thesis using other [OF inv, of "[]"] remove_none [OF inv] at True by auto
  next
    case False
    with at have v: "view t ! ?i = ?keep @ (k, d) # ?rest" by blast
    have dis: "distinct (map fst (?keep @ (k, d) # ?rest))"
      using view_distinct [OF inv hsh_less, of k] v by simp
    have "lookup t k = Some d"
      using lookup_view [OF inv, of k] dis v by (simp add: map_of_eq_Some_iff del: map_of_append)
    then obtain t' where t': "remove t k = Some (True, t', Some d)" "inv t'"
      "view t' = (view t)[?i := bucket_remove k (view t ! ?i)]"
      using remove_some [OF inv] by blast
    have "bucket_remove k (view t ! ?i) = (if ?keep = [] then [] else ?keep @ ?rest)"
      using bucket_remove_split [OF dis] v by simp
    with other [OF t'(2,3)] t'(1) show ?thesis by auto
  qed
qed

lemma purge_run:
  assumes "purge_state doomed v todo t" and "\<forall>p \<in> set todo. fst p = key_of (snd p)"
  shows "\<exists>t' fs. purge remove key_of doomed t (map snd todo) = Some (t', fs) \<and>
     purge_state doomed v [] t' \<and> set fs \<subseteq> {d. doomed d \<and> d \<in> snd ` set todo}"
  using assms
proof (induction todo arbitrary: t)
  case Nil
  then show ?case by simp
next
  case (Cons p todo)
  obtain k d where p: "p = (k, d)" "k = key_of d" using Cons.prems(2) by (cases p) auto
  show ?case
  proof (cases "doomed d")
    case False
    then show ?thesis using Cons.IH [of t] purge_state_skip Cons.prems p by fastforce
  next
    case True
    then obtain ok t1 f where t1: "remove t k = Some (ok, t1, f)" "purge_state doomed v todo t1"
      "f \<in> {None, Some d}"
      using purge_state_remove Cons.prems(1) p by blast
    then obtain t' fs where "purge remove key_of doomed t1 (map snd todo) = Some (t', fs)"
      "purge_state doomed v [] t'" "set fs \<subseteq> {d. doomed d \<and> d \<in> snd ` set todo}"
      using Cons.IH [OF t1(2)] Cons.prems(2) by auto
    then show ?thesis using t1 True p by auto
  qed
qed

text \<open>A table whose slots list kept entries first is a state of the purge with everything to do.\<close>

lemma purge_state_init:
  assumes inv: "inv t" and first: "\<forall>b \<in> set (view t). kept_first doomed b"
  shows "purge_state doomed (view t) (concat (view t)) t"
proof -
  have slot: "filter (\<lambda>p. doomed (snd p) \<and> hsh (fst p) = i) (concat (view t))
      = filter (\<lambda>p. doomed (snd p)) (view t ! i)" if i: "i < nslots" for i
  proof -
    have len: "i < length (view t)" using i length_view [OF inv] by simp
    have other: "filter (\<lambda>p. doomed (snd p) \<and> hsh (fst p) = i) (view t ! j) = []"
      if "j < length (view t)" "j \<noteq> i" for j
      using view_hash [OF inv, of j] that length_view [OF inv] by (auto simp: filter_empty_conv)
    have split: "view t = take i (view t) @ view t ! i # drop (Suc i) (view t)"
      using len by (rule id_take_nth_drop)
    have pre: "concat (map (filter (\<lambda>p. doomed (snd p) \<and> hsh (fst p) = i)) (take i (view t))) = []"
      using other len by (auto simp: concat_eq_Nil_conv in_set_conv_nth)
    have post: "concat (map (filter (\<lambda>p. doomed (snd p) \<and> hsh (fst p) = i)) (drop (Suc i) (view t))) = []"
      using other len by (auto simp: concat_eq_Nil_conv in_set_conv_nth)
    have "filter (\<lambda>p. doomed (snd p) \<and> hsh (fst p) = i) (view t ! i)
        = filter (\<lambda>p. doomed (snd p)) (view t ! i)"
      using view_hash [OF inv i] by (auto intro: filter_cong)
    moreover have "filter (\<lambda>p. doomed (snd p) \<and> hsh (fst p) = i) (concat (view t))
        = concat (map (filter (\<lambda>p. doomed (snd p) \<and> hsh (fst p) = i)) (take i (view t))) @
          filter (\<lambda>p. doomed (snd p) \<and> hsh (fst p) = i) (view t ! i) @
          concat (map (filter (\<lambda>p. doomed (snd p) \<and> hsh (fst p) = i)) (drop (Suc i) (view t)))"
      by (subst split) (simp add: filter_concat)
    ultimately show ?thesis by (simp only: pre post append_Nil append_Nil2)
  qed
  have "kept_first doomed (view t ! i)" if "i < nslots" for i
    using first that length_view [OF inv] by simp
  then show ?thesis
    using inv slot by (auto simp: purge_state_def Let_def kept_first_def)
qed

text \<open>
  Purging a table whose slots list kept entries first leaves exactly the kept entries, in their
  order; a removal that empties a slot does no harm there.
\<close>

lemma purge_exact:
  assumes inv: "inv t" and keys: "\<forall>p \<in> set (concat (view t)). fst p = key_of (snd p)"
    and first: "\<forall>b \<in> set (view t). kept_first doomed b"
  shows "\<exists>t' fs. purge remove key_of doomed t (map snd (concat (view t))) = Some (t', fs) \<and> inv t' \<and>
     view t' = map (filter (\<lambda>p. \<not> doomed (snd p))) (view t) \<and>
     set fs \<subseteq> {d. doomed d \<and> d \<in> snd ` set (concat (view t))}"
proof -
  from purge_run [OF purge_state_init [OF inv first] keys] obtain t' fs where t':
    "purge remove key_of doomed t (map snd (concat (view t))) = Some (t', fs)"
    "purge_state doomed (view t) [] t'" "set fs \<subseteq> {d. doomed d \<and> d \<in> snd ` set (concat (view t))}"
    by blast
  have "view t' = map (filter (\<lambda>p. \<not> doomed (snd p))) (view t)"
    using t'(2) length_view [OF inv] length_view
    by (intro nth_equalityI) (auto simp: purge_state_def Let_def)
  with t' show ?thesis by (auto simp: purge_state_def)
qed

end

end
