(* ===== verification/HashTableOps.thy ===== *)
theory HashTableOps
  imports HashTableInv Dictionary
begin

text \<open>
  Every operation of the hash table on a table that satisfies \<open>ht_inv\<close>: it returns (no undefined
  behaviour, no endless loop), it keeps the invariant, and its effect on the content \<open>ht_view\<close> is
  the list operation stated here. The removal of the first entry of a list empties the whole slot,
  as the code does it.
\<close>

section \<open>The content of a well-formed table\<close>

lemma length_ht_view: "ht_inv t \<Longrightarrow> length (ht_view t) = HT_SIZ"
  by (auto simp: ht_inv_def ht_inv_with_def ht_view_def)

lemma nth_ht_view:
  "ht_inv_with t foot \<Longrightarrow> i < HT_SIZ \<Longrightarrow> ht_view t ! i = slot_view (nodes t) (slots t ! i)"
  by (auto simp: ht_inv_with_def ht_view_def)

lemma ht_bucket:
  "ht_inv_with t foot \<Longrightarrow> i < HT_SIZ \<Longrightarrow> bucket_ok (nodes t) i (slots t ! i) (foot i)"
  by (simp add: ht_inv_with_def)

lemma ht_slot: "ht_inv_with t foot \<Longrightarrow> i < HT_SIZ \<Longrightarrow> slot t i = Some (slots t ! i)"
  by (simp add: ht_inv_with_def slot_def)

lemma fst_node_kv [simp]: "fst (node_kv h b) = node_key h b"
  and snd_node_kv [simp]: "snd (node_kv h b) = node_data h b"
  by (simp_all add: node_kv_def)

lemma comp_node_kv [simp]: "fst \<circ> node_kv h = node_key h" "snd \<circ> node_kv h = node_data h"
  by (simp_all add: fun_eq_iff)

lemma bucket_view_keys:
  assumes "bucket_ok h i a as" and "i < HT_SIZ"
  shows "\<forall>p \<in> set (slot_view h a). hash (fst p) = i" and "distinct (map fst (slot_view h a))"
proof -
  have "(\<forall>p \<in> set (slot_view h a). hash (fst p) = i) \<and> distinct (map fst (slot_view h a))"
    using assms by (cases rule: bucket_cases) (auto simp: live_def node_key_def node_kv_def)
  then show "\<forall>p \<in> set (slot_view h a). hash (fst p) = i" "distinct (map fst (slot_view h a))"
    by blast+
qed

lemma ht_view_keys:
  assumes "ht_inv t" and "i < HT_SIZ"
  shows "\<forall>p \<in> set (ht_view t ! i). hash (fst p) = i" and "distinct (map fst (ht_view t ! i))"
  using assms unfolding ht_inv_def
  by (metis ht_bucket bucket_view_keys nth_ht_view)+

lemma find_map_of:
  "map_of (map (node_kv h) as) k = map_option (node_data h) (find (\<lambda>b. node_key h b = k) as)"
  by (induction as) (auto simp: node_kv_def)

section \<open>Rebuilding the invariant after one slot has changed\<close>

lemma ht_inv_update:
  assumes inv: "ht_inv_with t foot" and i: "i < HT_SIZ"
    and b: "bucket_ok (nodes t') i a' as'"
    and s: "slots t' = (slots t)[i := a']"
    and same: "\<forall>j < HT_SIZ. j \<noteq> i \<longrightarrow> (\<forall>b \<in> set (foot j). nodes t' b = nodes t b)"
    and dis: "\<And>j. j < HT_SIZ \<Longrightarrow> j \<noteq> i \<Longrightarrow> set as' \<inter> set (foot j) = {}"
    and lim: "\<And>a. nodes t' a \<noteq> None \<Longrightarrow> a < brk t'"
  shows "ht_inv_with t' (foot(i := as'))"
    and "ht_view t' = (ht_view t)[i := slot_view (nodes t') a']"
proof -
  have len: "length (slots t) = HT_SIZ" using inv by (simp add: ht_inv_with_def)
  have bk: "bucket_ok (nodes t') j (slots t ! j) (foot j)" if "j < HT_SIZ" "j \<noteq> i" for j
    using ht_bucket [OF inv that(1)] same that bucket_ok_cong by blast
  show "ht_inv_with t' (foot(i := as'))"
    unfolding ht_inv_with_def
  proof (intro conjI allI impI)
    show "length (slots t') = HT_SIZ" using s len by simp
    show "a < brk t'" if "nodes t' a \<noteq> None" for a using lim that .
    show "bucket_ok (nodes t') j (slots t' ! j) ((foot(i := as')) j)" if "j < HT_SIZ" for j
      using that b bk [of j] s len by (cases "j = i") simp_all
    show "set ((foot(i := as')) j) \<inter> set ((foot(i := as')) l) = {}"
      if "j < HT_SIZ" "l < HT_SIZ" "j \<noteq> l" for j l
    proof -
      have "set (foot j) \<inter> set (foot l) = {}"
        using inv that by (simp add: ht_inv_with_def)
      then show ?thesis using that dis [of j] dis [of l] by auto
    qed
  qed
  have sv: "slot_view (nodes t') (slots t ! j) = slot_view (nodes t) (slots t ! j)"
    if "j < HT_SIZ" "j \<noteq> i" for j
    using slot_view_cong [OF ht_bucket [OF inv that(1)]] same that by blast
  show "ht_view t' = (ht_view t)[i := slot_view (nodes t') a']"
  proof (rule nth_equalityI)
    fix j assume "j < length (ht_view t')"
    then have "j < HT_SIZ" by (simp add: ht_view_def s len)
    then show "ht_view t' ! j = (ht_view t)[i := slot_view (nodes t') a'] ! j"
      using sv [of j] i by (cases "j = i") (simp_all add: ht_view_def s len)
  qed (simp add: ht_view_def s len)
qed

text \<open>Allocating a node does not touch the table.\<close>

lemma malloc_node_inv:
  assumes inv: "ht_inv_with t foot" and "malloc_node e t = (a, t')"
  shows "ht_inv_with t' foot" and "ht_view t' = ht_view t" and "nodes t a = None"
    and "nodes t' = (nodes t)(a \<mapsto> e)" and "\<And>i. i < HT_SIZ \<Longrightarrow> a \<notin> set (foot i)"
    and "slots t' = slots t"
proof -
  have t': "a = brk t" "t' = t\<lparr>nodes := (nodes t)(brk t \<mapsto> e), brk := Suc (brk t)\<rparr>"
    using assms(2) by (auto simp: malloc_node_def)
  show fresh: "nodes t a = None" using inv t'(1) by (auto simp: ht_inv_with_def)
  show nd: "nodes t' = (nodes t)(a \<mapsto> e)" and sl: "slots t' = slots t" using t' by simp_all
  show ni: "a \<notin> set (foot i)" if "i < HT_SIZ" for i
    using chain_defined [of "nodes t" _ "foot i" a] ht_bucket [OF inv that] fresh
    by (auto simp: bucket_ok_def)
  have i0: "0 < HT_SIZ" by (simp add: HT_SIZ_def)
  have same: "\<forall>b \<in> set (foot j). nodes t' b = nodes t b" if "j < HT_SIZ" for j
    using ni [OF that] nd by auto
  have lim: "b < brk t'" if "nodes t' b \<noteq> None" for b
    using that inv t' by (auto simp: ht_inv_with_def less_Suc_eq split: if_splits)
  have s0: "slots t' = (slots t)[0 := slots t ! 0]" using sl by simp
  have d0: "set (foot 0) \<inter> set (foot j) = {}" if "j < HT_SIZ" "j \<noteq> 0" for j
    using inv that i0 by (simp add: ht_inv_with_def)
  have b0: "bucket_ok (nodes t') 0 (slots t ! 0) (foot 0)"
    using ht_bucket [OF inv i0] bucket_ok_cong [OF same [OF i0]] by simp
  note upd = ht_inv_update [OF inv i0 b0 s0 _ d0 lim]
  show "ht_inv_with t' foot" using upd(1) same by simp
  have "slot_view (nodes t') (slots t ! 0) = ht_view t ! 0"
    using slot_view_cong [OF ht_bucket [OF inv i0] same [OF i0]] nth_ht_view [OF inv i0] by simp
  then show "ht_view t' = ht_view t" using upd(2) same by simp
qed

section \<open>Looking up\<close>

lemma h_get_entry_spec:
  assumes inv: "ht_inv_with t foot"
  shows "h_get_entry t k =
    Some (if ht_view t ! hash k = [] then None
          else find (\<lambda>b. node_key (nodes t) b = k) (foot (hash k)))"
proof -
  let ?i = "hash k"
  have b: "bucket_ok (nodes t) ?i (slots t ! ?i) (foot ?i)" using ht_bucket [OF inv] by simp
  have sl: "slot t ?i = Some (slots t ! ?i)" using ht_slot [OF inv] by simp
  have v: "ht_view t ! ?i = slot_view (nodes t) (slots t ! ?i)" using nth_ht_view [OF inv] by simp
  from b hash_less show ?thesis
  proof (cases rule: bucket_cases)
    case (empty e)
    then show ?thesis by (simp add: h_get_entry_def sl v)
  next
    case (live e)
    then have "ll_search_loop (nodes t) (slots t ! ?i) k
      = Some (find (\<lambda>b. node_key (nodes t) b = k) (foot ?i))"
      by (intro ll_search_loop_chain) (auto simp: live_def)
    with live show ?thesis by (simp add: h_get_entry_def sl v ll_search_def)
  qed
qed

lemma live_bucket:
  assumes inv: "ht_inv_with t foot" and i: "i < HT_SIZ" and ne: "ht_view t ! i \<noteq> []"
  obtains e where "nodes t (slots t ! i) = Some e" "index e \<noteq> -1"
    "chain (nodes t) (Some (slots t ! i)) (foot i)" "distinct (foot i)"
    "\<forall>b \<in> set (foot i). live i (the (nodes t b))" "distinct (map (node_key (nodes t)) (foot i))"
    "ht_view t ! i = map (node_kv (nodes t)) (foot i)" "foot i \<noteq> []" "hd (foot i) = slots t ! i"
  using ht_bucket [OF inv i] i
  by (cases rule: bucket_cases) (use ne nth_ht_view [OF inv i] in auto)

lemma live_bucketD:
  assumes "ht_inv_with t foot" and "i < HT_SIZ" and "ht_view t ! i \<noteq> []"
  shows "chain (nodes t) (Some (slots t ! i)) (foot i)" and "distinct (foot i)"
    and "\<forall>b \<in> set (foot i). live i (the (nodes t b))"
    and "distinct (map (node_key (nodes t)) (foot i))"
    and "ht_view t ! i = map (node_kv (nodes t)) (foot i)"
    and "foot i \<noteq> []" and "hd (foot i) = slots t ! i"
  using live_bucket [OF assms] by blast+

lemma live_node:
  assumes "chain h (Some a) as" and "\<forall>b \<in> set as. live i (the (h b))" and "b \<in> set as"
  obtains e where "h b = Some e" "key e = Some (node_key h b)" "data e = Some (node_data h b)"
    "index e = of_nat i" "hash (node_key h b) = i"
  using chain_defined [OF assms(1,3)] assms(2,3)
  by (fastforce simp: live_def node_key_def node_data_def)

lemma h_get_view:
  assumes "ht_inv t"
  shows "h_get t k = Some (ht_map t k)"
proof -
  from assms obtain foot where inv: "ht_inv_with t foot" by (auto simp: ht_inv_def)
  show ?thesis
  proof (cases "ht_view t ! hash k = []")
    case True
    then show ?thesis by (simp add: h_get_def h_get_entry_spec [OF inv] ht_map_def)
  next
    case False
    with inv show ?thesis
    proof (rule live_bucket [OF _ hash_less], goal_cases)
      case (1 e)
      show ?case
      proof (cases "find (\<lambda>b. node_key (nodes t) b = k) (foot (hash k))")
        case None
        with 1 False show ?thesis
          by (simp add: h_get_def h_get_entry_spec [OF inv] ht_map_def find_map_of)
      next
        case (Some b)
        then have "b \<in> set (foot (hash k))" by (auto simp: find_Some_iff)
        then obtain eb where "nodes t b = Some eb" "data eb = Some (node_data (nodes t) b)"
          using 1 by (blast elim: live_node)
        with 1 False Some show ?thesis
          by (simp add: h_get_def h_get_entry_spec [OF inv] ht_map_def find_map_of)
      qed
    qed
  qed
qed

section \<open>Inserting\<close>

text \<open>What a successful insertion does to the content: the new pair goes to the end of its slot.\<close>

definition view_insert ::
  "(cstring \<times> 'd) list list \<Rightarrow> cstring \<Rightarrow> 'd \<Rightarrow> (cstring \<times> 'd) list list" where
  "view_insert v k d = v[hash k := v ! hash k @ [(k, d)]]"

lemma ll_insert_spec:
  assumes c: "chain h (Some a) as" and d: "distinct as"
    and lv: "\<forall>b \<in> set as. live i (the (h b))"
    and n: "h ent = Some nd" "key nd = Some k" "link nd = None" "ent \<notin> set as"
  shows "find (\<lambda>b. node_key h b = k) as \<noteq> None \<Longrightarrow> ll_insert h (Some a) (Some ent) = Some (False, h)"
    and "find (\<lambda>b. node_key h b = k) as = None \<Longrightarrow>
      \<exists>e. h (last as) = Some e \<and>
        ll_insert h (Some a) (Some ent) = Some (True, h(last as \<mapsto> e\<lparr>link := Some ent\<rparr>)) \<and>
        chain (h(last as \<mapsto> e\<lparr>link := Some ent\<rparr>)) (Some a) (as @ [ent])"
proof -
  have s: "ll_search h (Some a) k = Some (find (\<lambda>b. node_key h b = k) as)"
    using ll_search_loop_chain [OF c] lv by (auto simp: ll_search_def live_def)
  show "ll_insert h (Some a) (Some ent) = Some (False, h)"
    if "find (\<lambda>b. node_key h b = k) as \<noteq> None"
    using that n s by (simp add: ll_insert_def)
  obtain e where e: "h (last as) = Some e" "link e = None"
    using chain_last [OF c] by blast
  show "\<exists>e. h (last as) = Some e \<and>
        ll_insert h (Some a) (Some ent) = Some (True, h(last as \<mapsto> e\<lparr>link := Some ent\<rparr>)) \<and>
        chain (h(last as \<mapsto> e\<lparr>link := Some ent\<rparr>)) (Some a) (as @ [ent])"
    if "find (\<lambda>b. node_key h b = k) as = None"
    using that n s e ll_last_chain [OF c] chain_snoc [OF c d n(4) e(1) n(1,3)]
    by (auto simp: ll_insert_def)
qed

lemma live_link [simp]: "live i (e\<lparr>link := l\<rparr>) = live i e"
  by (simp add: live_def)

text \<open>Relinking the last node and appending a live one keeps the nodes' keys and data.\<close>

lemma live_snoc:
  assumes c: "chain h (Some a) as" and d: "distinct as" "distinct (map (node_key h) as)"
    and lv: "\<forall>b \<in> set as. live i (the (h b))" and i: "i < HT_SIZ"
    and n: "h ent = Some nd" "live i nd" "ent \<notin> set as"
    and k: "node_key h ent \<notin> node_key h ` set as"
    and e: "h (last as) = Some e"
    and c': "chain (h(last as \<mapsto> e\<lparr>link := l\<rparr>)) (Some a) (as @ [ent])"
  shows "bucket_ok (h(last as \<mapsto> e\<lparr>link := l\<rparr>)) i a (as @ [ent])"
    and "slot_view (h(last as \<mapsto> e\<lparr>link := l\<rparr>)) a = map (node_kv h) (as @ [ent])"
proof -
  let ?h = "h(last as \<mapsto> e\<lparr>link := l\<rparr>)"
  have ne: "as \<noteq> []" "last as \<in> set as" using chain_nonempty [OF c] by simp_all
  have hd: "hd as = a" using chain_hd [OF c] ne by simp
  have key_eq: "node_key ?h b = node_key h b" and data_eq: "node_data ?h b = node_data h b" for b
    using e by (simp_all add: node_key_def node_data_def)
  then have kv: "node_kv ?h = node_kv h" and ky: "node_key ?h = node_key h"
    by (auto simp: node_kv_def)
  have "live i e" using lv ne(2) e by (metis option.sel)
  then have lv': "\<forall>b \<in> set (as @ [ent]). live i (the (?h b))"
    using lv n by auto
  show b: "bucket_ok ?h i a (as @ [ent])"
    using c' d n(3) k lv' ne hd by (simp add: bucket_ok_def ky del: fun_upd_apply)
  have "index (the (?h a)) \<noteq> -1"
    using lv' ne hd i index_not_mark [OF i] by (auto simp: live_def simp del: fun_upd_apply)
  then show "slot_view ?h a = map (node_kv h) (as @ [ent])"
    using slot_view_bucket [OF b] by (simp add: kv)
qed

text \<open>The two cases of \<open>h_insert_entry\<close>: an empty slot, and a slot with a list.\<close>

lemma h_insert_entry_empty:
  assumes inv: "ht_inv_with t foot" and i: "i < HT_SIZ"
    and n: "nodes t ent = Some nd" "live i nd" "link nd = None"
    and fresh: "\<And>j. j < HT_SIZ \<Longrightarrow> ent \<notin> set (foot j)"
    and e: "foot i = [slots t ! i]" "nodes t (slots t ! i) = Some e" "index e = -1"
  shows "\<exists>t'. h_insert_entry t ent = Some (True, t') \<and> ht_inv t' \<and>
           ht_view t' = (ht_view t)[i := [node_kv (nodes t) ent]]"
proof -
  let ?h = "nodes t" and ?a = "slots t ! i"
  let ?t = "t\<lparr>nodes := free_at ?a ?h, slots := (slots t)[i := ent]\<rparr>"
  have ea: "ent \<noteq> ?a" using fresh [OF i] e(1) by auto
  have "unat (index nd) = i" using n(2) i by (simp add: live_def unat_slot_index)
  then have op: "h_insert_entry t ent = Some (True, ?t)"
    using n ht_slot [OF inv i] e by (simp add: h_insert_entry_def Let_def)
  have bo: "bucket_ok (nodes ?t) i ent [ent]" using n ea by (simp add: bucket_ok_def)
  have "index (the (nodes ?t ent)) \<noteq> -1"
    using n ea index_not_mark [OF i] by (simp add: live_def)
  then have sv: "slot_view (nodes ?t) ent = [node_kv ?h ent]"
    using slot_view_bucket [OF bo] n ea by (simp add: node_kv_def node_key_def node_data_def)
  have dis: "?a \<notin> set (foot j)" if "j < HT_SIZ" "j \<noteq> i" for j
    using inv that i e(1) unfolding ht_inv_with_def
    by (metis disjoint_iff list.set_intros(1))
  have sm: "\<forall>j < HT_SIZ. j \<noteq> i \<longrightarrow> (\<forall>b \<in> set (foot j). nodes ?t b = ?h b)"
    using dis by auto
  have ds: "set [ent] \<inter> set (foot j) = {}" if "j < HT_SIZ" "j \<noteq> i" for j
    using fresh [OF that(1)] by simp
  have lm: "c < brk ?t" if "nodes ?t c \<noteq> None" for c
    using that inv by (auto simp: ht_inv_with_def split: if_splits)
  show ?thesis
    using op sv ht_inv_update [OF inv i bo _ sm ds lm] by (auto simp: ht_inv_def)
qed

lemma h_insert_entry_live:
  assumes inv: "ht_inv_with t foot" and i: "i < HT_SIZ"
    and n: "nodes t ent = Some nd" "live i nd" "link nd = None"
    and fresh: "\<And>j. j < HT_SIZ \<Longrightarrow> ent \<notin> set (foot j)"
    and ne: "ht_view t ! i \<noteq> []"
  shows "node_key (nodes t) ent \<in> fst ` set (ht_view t ! i) \<Longrightarrow>
      h_insert_entry t ent = Some (False, t)"
    and "node_key (nodes t) ent \<notin> fst ` set (ht_view t ! i) \<Longrightarrow>
      \<exists>t'. h_insert_entry t ent = Some (True, t') \<and> ht_inv t' \<and>
           ht_view t' = (ht_view t)[i := ht_view t ! i @ [node_kv (nodes t) ent]]"
proof -
  let ?h = "nodes t" and ?a = "slots t ! i" and ?as = "foot i"
  let ?k = "node_key ?h ent"
  obtain e where lv: "?h ?a = Some e" "index e \<noteq> -1" "chain ?h (Some ?a) ?as" "distinct ?as"
    "\<forall>b \<in> set ?as. live i (the (?h b))" "distinct (map (node_key ?h) ?as)"
    "ht_view t ! i = map (node_kv ?h) ?as" "?as \<noteq> []"
    using live_bucket [OF inv i ne] by metis
  have "unat (index nd) = i" using n(2) i by (simp add: live_def unat_slot_index)
  then have op: "h_insert_entry t ent = Option.bind (ll_insert ?h (Some ?a) (Some ent))
              (\<lambda>(ok, h). Some (ok, t\<lparr>nodes := h\<rparr>))"
    using n lv ht_slot [OF inv i] by (simp add: h_insert_entry_def Let_def)
  have k: "key nd = Some ?k" using n by (auto simp: live_def node_key_def)
  have f: "(find (\<lambda>b. node_key ?h b = ?k) ?as = None) = (?k \<notin> fst ` set (ht_view t ! i))"
    by (simp add: find_None_iff lv(7) image_iff) metis
  note ins = ll_insert_spec [OF lv(3,4,5) n(1) k n(3) fresh [OF i]]
  show "h_insert_entry t ent = Some (False, t)" if "?k \<in> fst ` set (ht_view t ! i)"
    using that f ins(1) op by simp
  assume new: "?k \<notin> fst ` set (ht_view t ! i)"
  then obtain l where l: "?h (last ?as) = Some l"
    "ll_insert ?h (Some ?a) (Some ent) = Some (True, ?h(last ?as \<mapsto> l\<lparr>link := Some ent\<rparr>))"
    "chain (?h(last ?as \<mapsto> l\<lparr>link := Some ent\<rparr>)) (Some ?a) (?as @ [ent])"
    using ins(2) [OF f [THEN iffD2, OF new]] by metis
  let ?t = "t\<lparr>nodes := ?h(last ?as \<mapsto> l\<lparr>link := Some ent\<rparr>)\<rparr>"
  have "?k \<notin> node_key ?h ` set ?as" using new by (simp add: lv(7) image_image)
  note ls = live_snoc [OF lv(3,4,6,5) i n(1,2) fresh [OF i] this l(1,3)]
  have dis: "set ?as \<inter> set (foot j) = {}" if "j < HT_SIZ" "j \<noteq> i" for j
    using inv that i unfolding ht_inv_with_def by metis
  then have ds: "set (?as @ [ent]) \<inter> set (foot j) = {}" if "j < HT_SIZ" "j \<noteq> i" for j
    using that fresh [OF that(1)] by auto
  have sm: "\<forall>j < HT_SIZ. j \<noteq> i \<longrightarrow> (\<forall>b \<in> set (foot j). nodes ?t b = ?h b)"
    using dis last_in_set [OF lv(8)] by (auto simp: disjoint_iff)
  have lm: "c < brk ?t" if "nodes ?t c \<noteq> None" for c
    using that inv l(1) by (auto simp: ht_inv_with_def split: if_splits)
  have bo: "bucket_ok (nodes ?t) i ?a (?as @ [ent])" using ls(1) by simp
  show "\<exists>t'. h_insert_entry t ent = Some (True, t') \<and> ht_inv t' \<and>
           ht_view t' = (ht_view t)[i := ht_view t ! i @ [node_kv (nodes t) ent]]"
    using op l(2) ls(2) lv(7) ht_inv_update [OF inv i bo _ sm ds lm]
    by (auto simp: ht_inv_def)
qed

lemma ht_map_None_iff:
  "ht_map t k = None \<longleftrightarrow> k \<notin> fst ` set (ht_view t ! hash k)"
  by (simp add: ht_map_def map_of_eq_None_iff)

lemma h_insert_view:
  assumes "ht_inv t"
  shows "ht_map t k \<noteq> None \<Longrightarrow>
      \<exists>t'. h_insert t k d = Some (False, t') \<and> ht_inv t' \<and> ht_view t' = ht_view t"
    and "ht_map t k = None \<Longrightarrow>
      \<exists>t'. h_insert t k d = Some (True, t') \<and> ht_inv t' \<and> ht_view t' = view_insert (ht_view t) k d"
proof -
  let ?nd = "\<lparr>index = of_nat (hash k), key = Some k, data = Some d, link = None\<rparr>"
  obtain foot where inv: "ht_inv_with t foot" using assms by (auto simp: ht_inv_def)
  obtain ent t1 where m: "malloc_node ?nd t = (ent, t1)" by fastforce
  note inv1 = malloc_node_inv [OF inv m]
  have op: "h_insert t k d = h_insert_entry t1 ent" using m by (simp add: h_insert_def)
  have nd: "nodes t1 ent = Some ?nd" "live (hash k) ?nd" "link ?nd = None"
    using inv1(4) by (simp_all add: live_def)
  have kv: "node_kv (nodes t1) ent = (k, d)" "node_key (nodes t1) ent = k"
    using nd by (simp_all add: node_kv_def node_key_def node_data_def)
  note live = h_insert_entry_live [OF inv1(1) hash_less nd inv1(5), unfolded kv inv1(2)]
  have ne: "ht_map t k \<noteq> None \<Longrightarrow> ht_view t ! hash k \<noteq> []" by (auto simp: ht_map_def)
  show "\<exists>t'. h_insert t k d = Some (False, t') \<and> ht_inv t' \<and> ht_view t' = ht_view t"
    if "ht_map t k \<noteq> None"
    using live(1) ne that op inv1(1,2) ht_map_None_iff [of t k] by (auto simp: ht_inv_def)
  assume new: "ht_map t k = None"
  show "\<exists>t'. h_insert t k d = Some (True, t') \<and> ht_inv t' \<and> ht_view t' = view_insert (ht_view t) k d"
  proof (cases "ht_view t ! hash k = []")
    case False
    then show ?thesis using live(2) new op ht_map_None_iff [of t k] by (auto simp: view_insert_def)
  next
    case True
    have "slot_view (nodes t1) (slots t1 ! hash k) = []"
      using True nth_ht_view [OF inv1(1) hash_less] inv1(2) by simp
    then obtain e where "foot (hash k) = [slots t1 ! hash k]"
      "nodes t1 (slots t1 ! hash k) = Some e" "index e = -1"
      by (rule_tac bucket_cases [OF ht_bucket [OF inv1(1) hash_less [of k]] hash_less]) auto
    from h_insert_entry_empty [OF inv1(1) hash_less nd inv1(5) this] show ?thesis
      using True op kv inv1(2) by (auto simp: view_insert_def)
  qed
qed

section \<open>Removing\<close>

definition view_remove ::
  "(cstring \<times> 'd) list list \<Rightarrow> cstring \<Rightarrow> (cstring \<times> 'd) list list" where
  "view_remove v k = v[hash k := bucket_remove k (v ! hash k)]"

text \<open>Clearing the head entry of a slot.\<close>

lemma remove_head_inv:
  assumes inv: "ht_inv_with t foot" and i: "i < HT_SIZ" and e: "nodes t (slots t ! i) = Some e"
  shows "ht_inv (t\<lparr>nodes := (nodes t)(slots t ! i \<mapsto> e\<lparr>index := -1, link := None\<rparr>)\<rparr>) \<and>
    ht_view (t\<lparr>nodes := (nodes t)(slots t ! i \<mapsto> e\<lparr>index := -1, link := None\<rparr>)\<rparr>)
      = (ht_view t)[i := []]"
proof -
  let ?a = "slots t ! i"
  let ?t = "t\<lparr>nodes := (nodes t)(?a \<mapsto> e\<lparr>index := -1, link := None\<rparr>)\<rparr>"
  have a: "?a \<in> set (foot i)" using ht_bucket [OF inv i] hd_in_set by (metis bucket_ok_def)
  have dis: "set (foot i) \<inter> set (foot j) = {}" if "j < HT_SIZ" "j \<noteq> i" for j
    using inv that i unfolding ht_inv_with_def by metis
  have bo: "bucket_ok (nodes ?t) i ?a [?a]" by (simp add: bucket_ok_def)
  have sv: "slot_view (nodes ?t) ?a = []" by (simp add: slot_view_def)
  have sm: "\<forall>j < HT_SIZ. j \<noteq> i \<longrightarrow> (\<forall>b \<in> set (foot j). nodes ?t b = nodes t b)"
    using dis a by (auto simp: disjoint_iff)
  have ds: "set [?a] \<inter> set (foot j) = {}" if "j < HT_SIZ" "j \<noteq> i" for j
    using dis [OF that] a by auto
  have lm: "c < brk ?t" if "nodes ?t c \<noteq> None" for c
    using that inv e by (auto simp: ht_inv_with_def split: if_splits)
  show ?thesis
    using ht_inv_update [OF inv i bo _ sm ds lm] sv by (auto simp: ht_inv_def)
qed

text \<open>Unlinking an entry behind \<open>p\<close>.\<close>

lemma remove_inner_inv:
  assumes inv: "ht_inv_with t foot" and i: "i < HT_SIZ" and ne: "ht_view t ! i \<noteq> []"
    and f: "foot i = xs @ p # b # ys" and p: "nodes t p = Some pe" and e: "nodes t b = Some e"
  shows "ht_inv (t\<lparr>nodes := (nodes t)(p \<mapsto> pe\<lparr>link := link e\<rparr>)\<rparr>) \<and>
    ht_view (t\<lparr>nodes := (nodes t)(p \<mapsto> pe\<lparr>link := link e\<rparr>)\<rparr>)
      = (ht_view t)[i := map (node_kv (nodes t)) (xs @ p # ys)]"
proof -
  let ?a = "slots t ! i" and ?h = "nodes t"
  let ?h' = "(nodes t)(p \<mapsto> pe\<lparr>link := link e\<rparr>)"
  let ?t = "t\<lparr>nodes := ?h'\<rparr>"
  note lv = live_bucketD [OF inv i ne]
  have dis: "set (foot i) \<inter> set (foot j) = {}" if "j < HT_SIZ" "j \<noteq> i" for j
    using inv that i unfolding ht_inv_with_def by metis
  have c: "chain ?h' (Some ?a) (xs @ p # ys)" using chain_unlink lv(1,2) p e unfolding f by metis
  have "node_key ?h' = node_key ?h" "node_data ?h' = node_data ?h"
    using p by (auto simp: node_key_def node_data_def)
  then have kd: "node_key ?h' = node_key ?h" "node_kv ?h' = node_kv ?h"
    by (auto simp: node_kv_def)
  have "live i pe" using lv(3) p f by (metis in_set_conv_decomp option.sel)
  then have lv': "\<forall>b \<in> set (xs @ p # ys). live i (the (?h' b))" using lv(3) f by auto
  have hd: "hd (xs @ p # ys) = ?a" using lv(7) f by (cases xs) simp_all
  have bo: "bucket_ok (nodes ?t) i ?a (xs @ p # ys)"
    using c lv' hd lv(2,4) f kd by (simp add: bucket_ok_def del: fun_upd_apply)
  have "live i (the (?h' ?a))" using lv' hd by (metis hd_in_set list.distinct(1) append_is_Nil_conv)
  then have sv: "slot_view (nodes ?t) ?a = map (node_kv ?h) (xs @ p # ys)"
    using slot_view_bucket [OF bo] index_not_mark [OF i] kd by (simp add: live_def del: fun_upd_apply)
  have sm: "\<forall>j < HT_SIZ. j \<noteq> i \<longrightarrow> (\<forall>b \<in> set (foot j). nodes ?t b = nodes t b)"
    using dis f by (auto simp: disjoint_iff)
  have ds: "set (xs @ p # ys) \<inter> set (foot j) = {}" if "j < HT_SIZ" "j \<noteq> i" for j
    using dis [OF that] f by auto
  have lm: "d < brk ?t" if "nodes ?t d \<noteq> None" for d
    using that inv p by (auto simp: ht_inv_with_def split: if_splits)
  show ?thesis
    using ht_inv_update [OF inv i bo _ sm ds lm] sv by (auto simp: ht_inv_def)
qed

lemma h_remove_view:
  assumes "ht_inv t"
  shows "ht_map t k = None \<Longrightarrow> h_remove t k = Some (False, t, None)"
    and "ht_map t k = Some d \<Longrightarrow>
      \<exists>t'. h_remove t k = Some (True, t', Some d) \<and> ht_inv t' \<and> ht_view t' = view_remove (ht_view t) k"
proof -
  let ?i = "hash k"
  obtain foot where inv: "ht_inv_with t foot" using assms by (auto simp: ht_inv_def)
  note get = h_get_entry_spec [OF inv, of k]
  have fm: "ht_map t k = map_option (node_data (nodes t)) (find (\<lambda>b. node_key (nodes t) b = k) (foot ?i))"
    if "ht_view t ! ?i \<noteq> []"
    using live_bucketD(5) [OF inv hash_less that] by (simp add: find_map_of ht_map_def)
  show "h_remove t k = Some (False, t, None)" if "ht_map t k = None"
    using that get fm by (cases "ht_view t ! ?i = []") (simp_all add: h_remove_def)
  assume d: "ht_map t k = Some d"
  then have ne: "ht_view t ! ?i \<noteq> []" by (auto simp: ht_map_def)
  then obtain b where b: "find (\<lambda>b. node_key (nodes t) b = k) (foot ?i) = Some b"
    "node_data (nodes t) b = d" using fm [OF ne] d by (metis map_option_eq_Some)
  then have "b \<in> set (foot ?i)" "node_key (nodes t) b = k" by (auto simp: find_Some_iff)
  then obtain xs ys where f: "foot ?i = xs @ b # ys" by (meson split_list)
  note lv = live_bucketD [OF inv hash_less ne]
  obtain e where e: "nodes t b = Some e" "data e = Some d"
    using live_node [OF lv(1,3) \<open>b \<in> set (foot ?i)\<close>] b(2) by metis
  have fp: "find_prev (nodes t) None (slots t ! ?i) b = Some (if xs = [] then None else Some (last xs))"
    using find_prev_chain lv(1,2) unfolding f by metis
  have br: "bucket_remove k (ht_view t ! ?i)
      = (if xs = [] then [] else map (node_kv (nodes t)) (xs @ ys))"
  proof -
    have "ht_view t ! ?i = map (node_kv (nodes t)) xs @ node_kv (nodes t) b # map (node_kv (nodes t)) ys"
      using lv(5) f by simp
    with bucket_remove_split [of "map (node_kv (nodes t)) xs" "node_kv (nodes t) b"
        "map (node_kv (nodes t)) ys"] ht_view_keys(2) [OF assms hash_less, of k]
    show ?thesis using \<open>node_key (nodes t) b = k\<close> by simp
  qed
  show "\<exists>t'. h_remove t k = Some (True, t', Some d) \<and> ht_inv t' \<and> ht_view t' = view_remove (ht_view t) k"
  proof (cases "xs = []")
    case True
    then have "b = slots t ! ?i" using f lv(7) by simp
    then show ?thesis
      using remove_head_inv [OF inv hash_less [of k]] e get ne b(1) ht_slot [OF inv hash_less] fp br True
      by (simp add: h_remove_def view_remove_def)
  next
    case False
    then obtain zs p where zs: "xs = zs @ [p]" by (metis rev_exhaust)
    then obtain pe where p: "nodes t p = Some pe"
      using chain_defined [OF lv(1)] f by (metis append.assoc append_Cons in_set_conv_decomp)
    have f': "foot ?i = zs @ p # b # ys" using f zs by simp
    show ?thesis
      using remove_inner_inv [OF inv hash_less ne f' p e(1)] e get ne b(1) p zs
        ht_slot [OF inv hash_less] fp br
      by (simp add: h_remove_def view_remove_def)
  qed
qed

section \<open>Listing\<close>

definition well_slots :: "(addr \<rightharpoonup> 'd entry_t) \<Rightarrow> addr list \<Rightarrow> bool" where
  "well_slots h as \<longleftrightarrow> (\<forall>a \<in> set as. \<exists>i < HT_SIZ. \<exists>f. bucket_ok h i a f)"

lemma ht_count_slots:
  "well_slots h as \<Longrightarrow> ht_count h as n = Some (n + length (concat (map (slot_view h) as)))"
proof (induction as arbitrary: n)
  case Nil
  then show ?case by simp
next
  case (Cons a as)
  then obtain i f where b: "bucket_ok h i a f" "i < HT_SIZ" by (auto simp: well_slots_def)
  have "well_slots h as" using Cons.prems by (simp add: well_slots_def)
  note IH = Cons.IH [OF this]
  from b show ?case
    by (cases rule: bucket_cases) (simp_all add: IH ll_count_chain)
qed

lemma ht_copy_slots:
  "well_slots h as \<Longrightarrow> length xs + length (concat (map (slot_view h) as)) \<le> cap \<Longrightarrow>
     ht_copy h as cap xs = Some (xs @ map snd (concat (map (slot_view h) as)))"
proof (induction as arbitrary: xs)
  case Nil
  then show ?case by simp
next
  case (Cons a as)
  then obtain i f where b: "bucket_ok h i a f" "i < HT_SIZ" by (auto simp: well_slots_def)
  have w: "well_slots h as" using Cons.prems by (simp add: well_slots_def)
  from b show ?case
  proof (cases rule: bucket_cases)
    case (empty e)
    then show ?thesis using Cons.IH [OF w] Cons.prems by simp
  next
    case (live e)
    then have "ll_copy h a cap xs = Some (xs @ map (node_data h) f)"
      using Cons.prems by (intro ll_copy_chain) (auto simp: live_def)
    then show ?thesis using live Cons.IH [OF w] Cons.prems by simp
  qed
qed

lemma ht_to_list_view:
  assumes "ht_inv t"
  shows "ht_to_list t = Some (map snd (concat (ht_view t)))"
proof -
  obtain foot where inv: "ht_inv_with t foot" using assms by (auto simp: ht_inv_def)
  have "well_slots (nodes t) (slots t)"
    using inv unfolding well_slots_def ht_inv_with_def by (metis in_set_conv_nth)
  then show ?thesis
    by (simp add: ht_to_list_def ht_count_slots ht_copy_slots ht_view_def)
qed

section \<open>The empty table\<close>

lemma h_init_loop_shape:
  "h_init_loop n t =
     t\<lparr>slots := slots t @ [brk t ..< brk t + n],
       nodes := (\<lambda>a. if brk t \<le> a \<and> a < brk t + n
                     then Some \<lparr>index = -1, key = None, data = None, link = None\<rparr> else nodes t a),
       brk := brk t + n\<rparr>"
proof (induction n arbitrary: t)
  case 0
  have "(\<lambda>a. if brk t \<le> a \<and> a < brk t then x else nodes t a) = nodes t" for x
    by (rule ext) auto
  then show ?case by simp
next
  case (Suc n)
  have "[brk t ..< brk t + Suc n] = brk t # [Suc (brk t) ..< Suc (brk t) + n]"
    by (simp add: upt_conv_Cons del: upt_Suc)
  then show ?case
    by (simp add: Suc malloc_node_def Let_def fun_eq_iff less_Suc_eq_le not_less_eq_eq del: upt_Suc)
qed

lemma h_init_view: "ht_inv (h_init ())" "ht_view (h_init ()) = replicate HT_SIZ []"
proof -
  let ?d = "\<lparr>index = -1, key = None, data = None, link = None\<rparr>"
  have sh: "h_init () = \<lparr>slots = [0 ..< HT_SIZ],
      nodes = (\<lambda>a. if a < HT_SIZ then Some ?d else None), brk = HT_SIZ\<rparr>"
    by (simp add: h_init_def h_init_loop_shape fun_eq_iff)
  have "ht_inv_with (h_init ()) (\<lambda>i. [i])"
    unfolding sh by (auto simp: ht_inv_with_def bucket_ok_def split: if_splits)
  then show "ht_inv (h_init ())" by (auto simp: ht_inv_def)
  have "map (slot_view (nodes (h_init ()))) [0 ..< HT_SIZ] = map (\<lambda>_. []) [0 ..< HT_SIZ]"
    by (rule map_cong [OF refl]) (simp add: sh slot_view_def)
  then show "ht_view (h_init ()) = replicate HT_SIZ []"
    unfolding ht_view_def by (simp add: sh map_replicate_const)
qed

end
