(* ===== verification/HashTableSpec.thy ===== *)
theory HashTableSpec
  imports HashTableOps
begin

text \<open>
  The contract of \<open>hashtable.h\<close>: the hash table is a dictionary from strings to data pointers,
  and a chained one. The interpretations discharge the laws of \<open>Dictionary\<close> for the pointer-level
  model; what the locales prove is then available for it as \<open>ht.<name>\<close>. The properties of the
  table stand at the end.
\<close>

section \<open>The table is a chained dictionary\<close>

lemma ht_map_view_eqI:
  "(\<And>i. i < HT_SIZ \<Longrightarrow> ht_view t' ! i = ht_view t ! i) \<Longrightarrow> ht_map t' = ht_map t"
  by (simp add: ht_map_def fun_eq_iff)

lemma ht_map_insert:
  assumes "ht_inv t" and "ht_map t k = None" and "ht_view t' = view_insert (ht_view t) k d"
  shows "ht_map t' = (ht_map t)(k \<mapsto> d)"
proof
  fix j
  have "k \<notin> fst ` set (ht_view t ! hash k)" using assms(2) ht_map_None_iff by blast
  then show "ht_map t' j = ((ht_map t)(k \<mapsto> d)) j"
    using assms(3) length_ht_view [OF assms(1)]
    by (cases "hash j = hash k")
      (auto simp: ht_map_def view_insert_def map_of_append_fresh simp del: map_of_append)
qed

interpretation ht: chained_dictionary ht_inv ht_map h_get h_insert "h_init ()"
  ht_view hash HT_SIZ h_remove ht_to_list
proof (unfold_locales, goal_cases)
  case 1 then show ?case by (rule h_init_view)
next
  case 2 then show ?case by (simp add: fun_eq_iff ht_map_def h_init_view)
next
  case (3 t k) then show ?case by (rule h_get_view)
next
  case (4 t k d) then show ?case
    using h_insert_view(1) [of t k d] ht_map_view_eqI by metis
next
  case (5 t k d) then show ?case
    using h_insert_view(2) [of t k d] ht_map_insert by metis
next
  case (6 k) then show ?case by simp
next
  case (7 t) then show ?case by (rule length_ht_view)
next
  case (8 t i p) then show ?case using ht_view_keys(1) by blast
next
  case (9 t i) then show ?case by (rule ht_view_keys(2))
next
  case (10 t k) then show ?case by (simp add: ht_map_def)
next
  case (11 t) then show ?case by (rule ht_to_list_view)
next
  case (12 t k d t') then show ?case
    using h_insert_view [of t k d] by (cases "ht_map t k") (auto simp: view_insert_def)
next
  case (13 t k d t') then show ?case
    using h_insert_view [of t k d] by (cases "ht_map t k") auto
next
  case (14 t k) then show ?case by (rule h_remove_view)
next
  case (15 t k d) then show ?case
    using h_remove_view(2) [of t k d] by (simp add: view_remove_def)
qed

end
