(* ===== verification/HashTableProps.thy ===== *)
theory HashTableProps
  imports HashTableSpec
begin

text \<open>
  The contract of \<open>hashtable.h\<close> as a whole: clients run arbitrary sequences of the four calls on a
  table that \<open>h_init\<close> returned. The specification keeps one association list per slot; the
  pointer-level table refines it. A second, simpler specification is a finite map; the table
  refines it as long as no removed key shares its slot with another key.
\<close>

section \<open>Sequences of calls\<close>

datatype 'd ht_op = Insert cstring 'd | Get cstring | Remove cstring | To_list

datatype 'd ht_result = Inserted bool | Found "'d option" | Removed bool | Listed "'d list"

text \<open>
  One call of \<open>hashtable.h\<close> on the model of the code. \<open>h_remove\<close> hands the data pointer of the removed
  entry to \<open>free\<close>, so the state also has the data that were freed, and to free one of them again is
  undefined behaviour. A data pointer stands for one block of the client: a block that is allocated later is another one.
\<close>

definition free_data :: "'d option \<Rightarrow> 'd set \<Rightarrow> 'd set option" where
  "free_data freed F =
     (case freed of None \<Rightarrow> Some F | Some d \<Rightarrow> if d \<in> F then None else Some (insert d F))"

fun ht_call :: "'d htable \<times> 'd set \<Rightarrow> 'd ht_op \<Rightarrow> ('d ht_result \<times> 'd htable \<times> 'd set) option" where
  "ht_call (t, F) (Insert k d) = do { (ok, t') \<leftarrow> h_insert t k d; Some (Inserted ok, t', F) }"
| "ht_call (t, F) (Get k) = do { p \<leftarrow> h_get t k; Some (Found p, t, F) }"
| "ht_call (t, F) (Remove k) =
     do {
       (ok, t', freed) \<leftarrow> h_remove t k;
       F' \<leftarrow> free_data freed F;
       Some (Removed ok, t', F')
     }"
| "ht_call (t, F) To_list = do { xs \<leftarrow> ht_to_list t; Some (Listed xs, t, F) }"

fun ht_calls :: "'d htable \<times> 'd set \<Rightarrow> 'd ht_op list \<Rightarrow> ('d ht_result list \<times> 'd htable \<times> 'd set) option" where
  "ht_calls s [] = Some ([], s)"
| "ht_calls s (c # cs) =
     do { (r, s') \<leftarrow> ht_call s c; (rs, s'') \<leftarrow> ht_calls s' cs; Some (r # rs, s'') }"

section \<open>The specification by slots\<close>

fun slot_step :: "(cstring \<times> 'd) list list \<times> 'd set \<Rightarrow> 'd ht_op \<Rightarrow>
    ('d ht_result \<times> (cstring \<times> 'd) list list \<times> 'd set) option" where
  "slot_step (v, F) (Insert k d) =
     (let b = v ! hash k
      in Some (if map_of b k = None then (Inserted True, v[hash k := b @ [(k, d)]], F) else (Inserted False, v, F)))"
| "slot_step (v, F) (Get k) = Some (Found (map_of (v ! hash k) k), v, F)"
| "slot_step (v, F) (Remove k) =
     (let b = v ! hash k
      in case map_of b k of
           None \<Rightarrow> Some (Removed False, v, F)
         | Some d \<Rightarrow> if d \<in> F then None else Some (Removed True, v[hash k := bucket_remove k b], insert d F))"
| "slot_step (v, F) To_list = Some (Listed (map snd (concat v)), v, F)"

fun slot_steps :: "(cstring \<times> 'd) list list \<times> 'd set \<Rightarrow> 'd ht_op list \<Rightarrow>
    ('d ht_result list \<times> (cstring \<times> 'd) list list \<times> 'd set) option" where
  "slot_steps s [] = Some ([], s)"
| "slot_steps s (c # cs) =
     do { (r, s') \<leftarrow> slot_step s c; (rs, s'') \<leftarrow> slot_steps s' cs; Some (r # rs, s'') }"

lemma ht_call_slot_step:
  assumes inv: "ht_inv t"
  shows "case slot_step (ht_view t, F) c of
      None \<Rightarrow> ht_call (t, F) c = None
    | Some (r, v, F') \<Rightarrow> \<exists>t'. ht_call (t, F) c = Some (r, t', F') \<and> ht_inv t' \<and> ht_view t' = v"
proof (cases c)
  case (Insert k d)
  show ?thesis
  proof (cases "ht_map t k")
    case None
    then show ?thesis
      using Insert h_insert_view(2) [OF inv None, of d] by (auto simp: ht_map_def Let_def view_insert_def)
  next
    case (Some d')
    then show ?thesis
      using Insert h_insert_view(1) [OF inv, of k d] by (auto simp: ht_map_def Let_def)
  qed
next
  case (Get k)
  then show ?thesis using inv by (simp add: ht.get_lookup ht.lookup_view)
next
  case (Remove k)
  show ?thesis
  proof (cases "ht_map t k")
    case None
    then show ?thesis using Remove ht.remove_none [OF inv None] inv by (simp add: ht_map_def free_data_def)
  next
    case (Some d)
    then show ?thesis using Remove ht.remove_some [OF inv Some] by (auto simp: ht_map_def Let_def free_data_def)
  qed
next
  case To_list
  then show ?thesis using inv by (simp add: ht.list_data_view)
qed

lemma ht_calls_slot_steps:
  "ht_inv t \<Longrightarrow> case slot_steps (ht_view t, F) cs of
     None \<Rightarrow> ht_calls (t, F) cs = None
   | Some (rs, v, F') \<Rightarrow> \<exists>t'. ht_calls (t, F) cs = Some (rs, t', F') \<and> ht_inv t' \<and> ht_view t' = v"
proof (induction cs arbitrary: t F)
  case Nil
  then show ?case by simp
next
  case (Cons c cs)
  show ?case
  proof (cases "slot_step (ht_view t, F) c")
    case None
    then show ?thesis using ht_call_slot_step [OF Cons.prems, of F c] by simp
  next
    case (Some s)
    obtain r v F' where s: "s = (r, v, F')" by (cases s) auto
    then obtain t' where t': "ht_call (t, F) c = Some (r, t', F')" "ht_inv t'" "ht_view t' = v"
      using ht_call_slot_step [OF Cons.prems, of F c] Some by auto
    then show ?thesis
      using Cons.IH [OF t'(2), of F'] Some s by (cases "slot_steps (v, F') cs") auto
  qed
qed

section \<open>The specification by a map\<close>

fun map_step :: "(cstring \<rightharpoonup> 'd) \<Rightarrow> 'd ht_op \<Rightarrow> 'd ht_result \<times> (cstring \<rightharpoonup> 'd)" where
  "map_step m (Insert k d) = (if m k = None then (Inserted True, m(k \<mapsto> d)) else (Inserted False, m))"
| "map_step m (Get k) = (Found (m k), m)"
| "map_step m (Remove k) = (Removed (m k \<noteq> None), m(k := None))"
| "map_step m To_list = (Listed [], m)"

fun map_steps :: "(cstring \<rightharpoonup> 'd) \<Rightarrow> 'd ht_op list \<Rightarrow> 'd ht_result list" where
  "map_steps m [] = []"
| "map_steps m (c # cs) = (let (r, m') = map_step m c in r # map_steps m' cs)"

text \<open>
  A removal is harmless in a run when no other key that the run inserts is in the same slot.
\<close>

fun inserted_keys :: "'d ht_op list \<Rightarrow> cstring list" where
  "inserted_keys [] = []"
| "inserted_keys (Insert k d # cs) = k # inserted_keys cs"
| "inserted_keys (c # cs) = inserted_keys cs"

fun removed_keys :: "'d ht_op list \<Rightarrow> cstring list" where
  "removed_keys [] = []"
| "removed_keys (Remove k # cs) = k # removed_keys cs"
| "removed_keys (c # cs) = removed_keys cs"

fun inserted_data :: "'d ht_op list \<Rightarrow> 'd list" where
  "inserted_data [] = []"
| "inserted_data (Insert k d # cs) = d # inserted_data cs"
| "inserted_data (c # cs) = inserted_data cs"

definition removals_alone :: "'d ht_op list \<Rightarrow> bool" where
  "removals_alone cs \<longleftrightarrow>
     To_list \<notin> set cs \<and>
     (\<forall>k \<in> set (removed_keys cs). \<forall>k' \<in> set (inserted_keys cs). hash k' = hash k \<longrightarrow> k' = k)"

text \<open>The keys of a table are among those the run may insert.\<close>

lemma alone_slot:
  assumes inv: "ht_inv t" and dom: "dom (ht_map t) \<subseteq> K" and "ht_map t k = Some d"
    and "\<forall>k' \<in> K. hash k' = hash k \<longrightarrow> k' = k"
  shows "ht_view t ! hash k = [(k, d)]"
proof -
  let ?b = "ht_view t ! hash k"
  have keys: "fst p = k" if "p \<in> set ?b" for p
  proof -
    have "hash (fst p) = hash k" using ht.view_hash [OF inv ht.hsh_less that] .
    moreover have "fst p \<in> dom (ht_map t)"
      using that calculation by (metis domIff ht_map_None_iff imageI)
    ultimately show ?thesis using dom assms(4) by blast
  qed
  have "(k, d) \<in> set ?b" using assms(3) ht.lookup_view [OF inv] map_of_SomeD by fastforce
  moreover have "length ?b \<le> 1"
    using ht.view_distinct [OF inv ht.hsh_less, of k] keys
    by (cases ?b rule: remdups_adj.cases) auto
  ultimately show ?thesis by (cases ?b) auto
qed

text \<open>
  No block is freed twice as long as every block is inserted once: the data in the table are all
  different, and neither freed nor still to be inserted.
\<close>

definition data_ok :: "(cstring \<rightharpoonup> 'd) \<Rightarrow> 'd set \<Rightarrow> 'd list \<Rightarrow> bool" where
  "data_ok m F ds \<longleftrightarrow>
     inj_on m (dom m) \<and> (\<forall>k d. m k = Some d \<longrightarrow> d \<notin> F \<and> d \<notin> set ds) \<and> distinct ds \<and> F \<inter> set ds = {}"

lemma data_ok_insert: "data_ok m F (d # ds) \<Longrightarrow> data_ok (m(k \<mapsto> d)) F ds"
  unfolding data_ok_def inj_on_def by (auto simp: dom_def split: if_splits) metis+

lemma data_ok_skip: "data_ok m F (d # ds) \<Longrightarrow> data_ok m F ds"
  by (auto simp: data_ok_def)

lemma data_ok_remove:
  assumes "data_ok m F ds" and "m k = Some d" and "m' \<subseteq>\<^sub>m m" and "m' k = None"
  shows "data_ok m' (insert d F) ds"
proof -
  have sub: "m j = Some x" if "m' j = Some x" for j x using assms(3) that by (auto simp: map_le_def dom_def)
  have "x \<noteq> d" if "m' j = Some x" for j x
    using sub [OF that] assms(1,2,4) that unfolding data_ok_def inj_on_def by (metis domI option.distinct(1))
  moreover have "inj_on m' (dom m')"
    using assms(1) sub unfolding data_ok_def inj_on_def by (metis domD domI)
  ultimately show ?thesis using assms(1,2) sub unfolding data_ok_def by fastforce
qed

lemma h_remove_submap:
  assumes "ht_inv t" and "ht_map t k = Some d"
  shows "\<exists>t'. h_remove t k = Some (True, t', Some d) \<and> ht_inv t' \<and> ht_map t' \<subseteq>\<^sub>m ht_map t \<and> ht_map t' k = None"
proof -
  obtain t' where t': "h_remove t k = Some (True, t', Some d)" "ht_inv t'"
    "ht_view t' = (ht_view t)[hash k := bucket_remove k (ht_view t ! hash k)]"
    using ht.remove_some [OF assms] by blast
  have "(j, x) \<in> set (bucket_remove k (ht_view t ! hash k)) \<Longrightarrow> j \<noteq> k \<and> (j, x) \<in> set (ht_view t ! hash k)" for j x
    using set_bucket_remove by fastforce
  then have "ht_map t' j = Some x \<Longrightarrow> j \<noteq> k \<and> ht_map t j = Some x" for j x
    using ht.lookup_iff [OF assms(1), of j x] ht.lookup_view [OF t'(2), of j] ht.lookup_view [OF assms(1), of j]
      t'(3) ht.hsh_less [of k] ht.length_view [OF assms(1)] ht.view_distinct [OF assms(1) ht.hsh_less, of k]
    by (cases "hash j = hash k") (fastforce dest: map_of_SomeD intro: map_of_is_SomeI)+
  note m = this
  have "ht_map t' \<subseteq>\<^sub>m ht_map t" using m by (auto simp: map_le_def)
  moreover have "ht_map t' k = None" using m by (cases "ht_map t' k") auto
  ultimately show ?thesis using t'(1,2) by blast
qed

lemma ht_call_data_ok:
  assumes inv: "ht_inv t" and ok: "data_ok (ht_map t) F (inserted_data (c # cs))"
  shows "\<exists>r t' F'. ht_call (t, F) c = Some (r, t', F') \<and> ht_inv t' \<and> data_ok (ht_map t') F' (inserted_data cs)"
proof (cases c)
  case (Insert k d)
  then show ?thesis
    using ht.insert_old [OF inv, of k d] ht.insert_new [OF inv, of k d] ok data_ok_insert [of "ht_map t"]
      data_ok_skip [of "ht_map t"]
    by (cases "ht_map t k") fastforce+
next
  case (Get k)
  then show ?thesis using inv ok by (simp add: ht.get_lookup)
next
  case (Remove k)
  show ?thesis
  proof (cases "ht_map t k")
    case None
    then show ?thesis using Remove ht.remove_none [OF inv None] inv ok by (simp add: free_data_def)
  next
    case (Some d)
    obtain t' where t': "h_remove t k = Some (True, t', Some d)" "ht_inv t'" "ht_map t' \<subseteq>\<^sub>m ht_map t" "ht_map t' k = None"
      using h_remove_submap [OF inv Some] by blast
    have "d \<notin> F" using ok Some by (simp add: data_ok_def)
    moreover have "data_ok (ht_map t') (insert d F) (inserted_data cs)"
      using data_ok_remove [OF _ Some t'(3,4)] ok Remove by simp
    ultimately show ?thesis using t' Remove by (simp add: free_data_def)
  qed
next
  case To_list
  then show ?thesis using inv ok by (simp add: ht.list_data_view)
qed

lemma ht_calls_defined:
  "ht_inv t \<Longrightarrow> data_ok (ht_map t) F (inserted_data cs) \<Longrightarrow> ht_calls (t, F) cs \<noteq> None"
proof (induction cs arbitrary: t F)
  case (Cons c cs)
  then obtain r t' F' where "ht_call (t, F) c = Some (r, t', F')" "ht_inv t'" "data_ok (ht_map t') F' (inserted_data cs)"
    using ht_call_data_ok [of t F c cs] by blast
  then show ?case using Cons.IH [of t' F'] by auto
qed simp

lemma ht_calls_map_steps:
  assumes "ht_inv t" and "dom (ht_map t) \<subseteq> K" and "set (inserted_keys cs) \<subseteq> K" and "To_list \<notin> set cs"
    and "\<forall>k \<in> set (removed_keys cs). \<forall>k' \<in> K. hash k' = hash k \<longrightarrow> k' = k"
    and "data_ok (ht_map t) F (inserted_data cs)"
  shows "\<exists>s. ht_calls (t, F) cs = Some (map_steps (ht_map t) cs, s)"
  using assms
proof (induction cs arbitrary: t F)
  case Nil
  then show ?case by simp
next
  case (Cons c cs)
  note inv = Cons.prems(1)
  obtain r t1 F1 where t1: "ht_call (t, F) c = Some (r, t1, F1)" "ht_inv t1" "data_ok (ht_map t1) F1 (inserted_data cs)"
    using ht_call_data_ok [OF inv Cons.prems(6)] by blast
  have "r = fst (map_step (ht_map t) c) \<and> ht_map t1 = snd (map_step (ht_map t) c) \<and> dom (ht_map t1) \<subseteq> K"
  proof (cases c)
    case (Insert k d)
    then show ?thesis
      using t1(1) ht.insert_old [OF inv, of k d] ht.insert_new [OF inv, of k d] Cons.prems(2,3)
      by (cases "ht_map t k") (auto simp: subset_iff domIff split: if_splits)
  next
    case (Get k)
    then show ?thesis using t1(1) inv Cons.prems(2) by (auto simp: ht.get_lookup)
  next
    case (Remove k)
    show ?thesis
    proof (cases "ht_map t k")
      case None
      then have "(ht_map t)(k := None) = ht_map t" by (simp add: fun_eq_iff)
      with None show ?thesis using t1(1) Remove ht.remove_none [OF inv None] Cons.prems(2) by (simp add: free_data_def)
    next
      case (Some d)
      then have "ht_view t ! hash k = [(k, d)]"
        using alone_slot [OF inv Cons.prems(2) Some] Cons.prems(5) Remove by simp
      moreover have "dom ((ht_map t)(k := None)) \<subseteq> K" using Cons.prems(2) by (simp add: subset_iff domIff)
      ultimately show ?thesis
        using t1(1) Remove Some ht.remove_exact [OF inv Some] by (auto simp: domIff subset_iff split: bind_splits if_splits)
    qed
  next
    case To_list
    then show ?thesis using Cons.prems(4) by simp
  qed
  then have m: "r = fst (map_step (ht_map t) c)" "ht_map t1 = snd (map_step (ht_map t) c)" "dom (ht_map t1) \<subseteq> K"
    by blast+
  have "set (inserted_keys cs) \<subseteq> K" using Cons.prems(3) by (cases c) simp_all
  moreover have "To_list \<notin> set cs" using Cons.prems(4) by simp
  moreover have "\<forall>k \<in> set (removed_keys cs). \<forall>k' \<in> K. hash k' = hash k \<longrightarrow> k' = k"
    using Cons.prems(5) by (cases c) simp_all
  ultimately have "\<exists>s. ht_calls (t1, F1) cs = Some (map_steps (ht_map t1) cs, s)"
    using Cons.IH [OF t1(2) m(3) _ _ _ t1(3)] by blast
  then show ?case using t1 m by (auto simp: Let_def split: prod.split)
qed

section \<open>Two keys in one slot\<close>

lemma ht_insert_two:
  assumes "hash k = hash k'" and "k \<noteq> k'"
  shows "\<exists>t. ht_calls (h_init (), {}) [Insert k d, Insert k' d'] = Some ([Inserted True, Inserted True], t, {}) \<and>
    ht_inv t \<and> ht_view t ! hash k = [(k, d), (k', d')]"
  using ht_calls_slot_steps [OF h_init_view(1), of "{}" "[Insert k d, Insert k' d']"] assms ht.hsh_less [of k']
  by (auto simp: h_init_view(2))

section \<open>Properties\<close>

text \<open>C6: every sequence of calls on a table returned by \<open>h_init\<close> does what the specification by
  slots says: it runs to its end without failing assertion or endless loop, returns the same results,
  frees the same data, and leaves a table that satisfies the invariant and holds the specification's lists,
  unless the specification says that it frees some data twice, which is undefined. No sequence
  that inserts every data pointer at most once does that.\<close>

theorem ht_refines_slots:
  "(case slot_steps (replicate HT_SIZ [], {}) cs of
      None \<Rightarrow> ht_calls (h_init (), {}) cs = None
    | Some (rs, v, F) \<Rightarrow>
        \<exists>t'. ht_calls (h_init (), {}) cs = Some (rs, t', F) \<and> ht_inv t' \<and> ht_view t' = v) \<and>
   (distinct (inserted_data cs) \<longrightarrow> slot_steps (replicate HT_SIZ [], {}) cs \<noteq> None)"
proof
  show *: "case slot_steps (replicate HT_SIZ [], {}) cs of
      None \<Rightarrow> ht_calls (h_init (), {}) cs = None
    | Some (rs, v, F) \<Rightarrow>
        \<exists>t'. ht_calls (h_init (), {}) cs = Some (rs, t', F) \<and> ht_inv t' \<and> ht_view t' = v"
    using ht_calls_slot_steps [OF h_init_view(1), of "{}" cs] by (simp add: h_init_view(2))
  have "ht_calls (h_init (), {}) cs \<noteq> None" if "distinct (inserted_data cs)"
    using ht_calls_defined [OF h_init_view(1), of "{}" cs] that by (simp add: ht.lookup_empty data_ok_def)
  with * show "distinct (inserted_data cs) \<longrightarrow> slot_steps (replicate HT_SIZ [], {}) cs \<noteq> None"
    by (auto split: option.splits)
qed

theorem ht_refines_slots_witness:
  "(\<exists>s. ht_calls (h_init (), {}) [Insert ''1b'' (1::nat), Insert ''0c'' 2, Remove ''1b'', Get ''0c'', To_list] =
      Some ([Inserted True, Inserted True, Removed True, Found None, Listed []], s)) \<and>
   slot_steps (replicate HT_SIZ [], {}) [Insert ''1b'' (1::nat), Insert ''0c'' 2, Remove ''1b''] \<noteq> None \<and>
   ht_calls (h_init (), {}) [Insert ''1a'' (1::nat), Insert ''1b'' 1, Remove ''1a'', Remove ''1b''] = None"
proof -
  have h: "hash ''1a'' = 46" "hash ''1b'' = 47" "hash ''0c'' = 47"
    by (simp_all add: hash_def char_word_def HT_SIZ_def)
  have "concat (replicate n []) = []" for n by (induction n) auto
  then have "slot_steps (replicate HT_SIZ [], {}) [Insert ''1b'' (1::nat), Insert ''0c'' 2, Remove ''1b'', Get ''0c'', To_list] =
      Some ([Inserted True, Inserted True, Removed True, Found None, Listed []], replicate HT_SIZ [], {1})"
    by (simp add: h HT_SIZ_def bucket_remove_def numeral_nat)
  moreover have "slot_steps (replicate HT_SIZ [], {}) [Insert ''1a'' (1::nat), Insert ''1b'' 1, Remove ''1a'', Remove ''1b''] = None"
    by (simp add: h HT_SIZ_def Let_def)
  ultimately show ?thesis
    using ht_refines_slots [of "[Insert ''1b'' (1::nat), Insert ''0c'' 2, Remove ''1b'', Get ''0c'', To_list]"]
      ht_refines_slots [of "[Insert ''1b'' (1::nat), Insert ''0c'' 2, Remove ''1b'']"]
      ht_refines_slots [of "[Insert ''1a'' (1::nat), Insert ''1b'' 1, Remove ''1a'', Remove ''1b'']"]
    by auto
qed

text \<open>C5: the table behaves as a finite map in every run of insertions, lookups and removals in which every data
  pointer is inserted at most once and no removed key shares its slot with another inserted key.\<close>

theorem ht_refines_map:
  assumes "removals_alone cs" and "distinct (inserted_data cs)"
  shows "\<exists>s. ht_calls (h_init (), {}) cs = Some (map_steps Map.empty cs, s)"
  using ht_calls_map_steps [OF h_init_view(1), of "set (inserted_keys cs)" cs "{}"] assms
  by (simp add: ht.lookup_empty removals_alone_def data_ok_def)

theorem ht_refines_map_witness:
  "\<exists>s. ht_calls (h_init (), {}) [Insert ''1a'' 7, Insert ''1b'' 8, Insert ''1a'' 9, Remove ''1a'',
       Get ''1a'', Get ''1b'']
     = Some ([Inserted True, Inserted True, Inserted False, Removed True, Found None,
              Found (Some (8::nat))], s)"
proof -
  have "hash ''1a'' = 46" "hash ''1b'' = 47" by (simp_all add: hash_def char_word_def HT_SIZ_def)
  then show ?thesis
    using ht_refines_map [of "[Insert ''1a'' 7, Insert ''1b'' 8, Insert ''1a'' 9, Remove ''1a'',
       Get ''1a'', Get ''1b'' :: nat ht_op]"]
    by (simp add: removals_alone_def)
qed

text \<open>C13: removing a present key returns true and frees exactly its data; if the key heads its slot,
  every other key of the slot is lost with it, and otherwise exactly the key is lost.\<close>

theorem h_remove_effect:
  assumes "ht_inv t" and "ht_map t k = Some d"
  shows "\<exists>t'. h_remove t k = Some (True, t', Some d) \<and> ht_inv t' \<and>
    ht_map t' = (\<lambda>j. if j = k \<or> hash j = hash k \<and> fst (hd (ht_view t ! hash k)) = k then None
                     else ht_map t j)"
proof -
  obtain t' where t': "h_remove t k = Some (True, t', Some d)" "ht_inv t'"
    "ht_view t' = (ht_view t)[hash k := bucket_remove k (ht_view t ! hash k)]"
    using ht.remove_some [OF assms] by blast
  have "ht_map t' j = (if j = k \<or> hash j = hash k \<and> fst (hd (ht_view t ! hash k)) = k then None
      else ht_map t j)" for j
    using assms t'(2,3) ht.hsh_less [of k] ht.length_view [OF assms(1)]
    by (cases "hash j = hash k") (auto simp: ht.lookup_view bucket_remove_def map_of_filter_neq)
  with t' show ?thesis by (auto simp: fun_eq_iff)
qed

theorem h_remove_effect_witness:
  "\<exists>t t'. ht_calls (h_init (), {}) [Insert ''1b'' (1::nat), Insert ''0c'' 2] = Some ([Inserted True, Inserted True], t, {}) \<and>
     h_remove t ''1b'' = Some (True, t', Some 1) \<and> ht_map t ''0c'' = Some 2 \<and> ht_map t' ''0c'' = None"
proof -
  have h: "hash ''1b'' = 47" "hash ''0c'' = 47" by (simp_all add: hash_def char_word_def HT_SIZ_def)
  then obtain t where t: "ht_calls (h_init (), {}) [Insert ''1b'' (1::nat), Insert ''0c'' 2] = Some ([Inserted True, Inserted True], t, {})"
    "ht_inv t" "ht_view t ! 47 = [(''1b'', 1), (''0c'', 2)]"
    using ht_insert_two [of "''1b''" "''0c''" "1::nat" 2] by auto
  then have "ht_map t ''1b'' = Some 1" "ht_map t ''0c'' = Some 2" using h by (simp_all add: ht_map_def)
  then show ?thesis using t h h_remove_effect [OF t(2), of "''1b''" 1] by auto
qed

text \<open>the hash is the sum of the signed character codes modulo $2^{32}$, reduced to a slot
  number, so that it is below \<open>HT_SIZ\<close> and every rearrangement of a key collides with it.\<close>

theorem hash_is_sum:
  "hash k = nat ((\<Sum>c\<leftarrow>k. signed_take_bit 7 (of_char c)) mod 2 ^ 32) mod 100"
proof -
  have "foldl (\<lambda>sum c. sum + char_word c) s k = s + word_of_int (\<Sum>c\<leftarrow>k. signed_take_bit 7 (of_char c))" for s
    by (induction k arbitrary: s) (simp_all add: char_word_def wi_hom_add [symmetric] algebra_simps)
  then show ?thesis
    by (simp add: hash_def HT_SIZ_def unat_mod_distrib unsigned_of_int take_bit_eq_mod unat_word_ariths)
qed

text \<open>the list of the table has every stored datum once, and its length is the number of
  stored keys, although the code counts and copies in separate passes over the lists.\<close>

theorem ht_to_list_complete:
  assumes "ht_inv t"
  shows "\<exists>kvs. ht_to_list t = Some (map snd kvs) \<and> distinct (map fst kvs) \<and> map_of kvs = ht_map t \<and>
    length kvs = card (dom (ht_map t))"
proof -
  let ?l = "concat (ht_view t)"
  have "map_of ?l k = Some d \<longleftrightarrow> ht_map t k = Some d" for k d
    using ht.lookup_iff [OF assms] ht.view_keys_distinct [OF assms] by (simp add: map_of_eq_Some_iff)
  then have m: "map_of ?l = ht_map t" by (metis not_Some_eq ext)
  then have "card (dom (ht_map t)) = length ?l"
    using ht.view_keys_distinct [OF assms] by (metis dom_map_of_conv_image_fst distinct_card length_map set_map)
  with m show ?thesis using ht.list_data_view [OF assms] ht.view_keys_distinct [OF assms] by metis
qed

theorem ht_to_list_complete_witness:
  "\<exists>t. ht_calls (h_init (), {}) [Insert ''1b'' (1::nat), Insert ''0c'' 2] = Some ([Inserted True, Inserted True], t, {}) \<and>
     (\<exists>kvs. ht_to_list t = Some (map snd kvs) \<and> distinct (map fst kvs) \<and> map_of kvs = ht_map t \<and>
        length kvs = card (dom (ht_map t)))"
proof -
  have "hash ''1b'' = hash ''0c''" by (simp add: hash_def char_word_def HT_SIZ_def)
  then show ?thesis
    using ht_insert_two [of "''1b''" "''0c''" "1::nat" 2] ht_to_list_complete by fastforce
qed

end
