(* ===== verification/Common.thy ===== *)
theory Common
  imports Prelude
begin

text \<open>
  The declarations all parts of the compiler share: \<open>Assig4/common.h\<close> and \<open>Assig4/common.c\<close>.
\<close>

datatype type_enum =
  VOID_TY | INT_TY | FLOAT_TY | TYPEDEF_TY | STRUCT_TY | UNION_TY | ARR_INT_TY | ARR_FLOAT_TY

text \<open>The size of the buffer of an identifier, and of a key of the symbol table.\<close>

definition ID_SIZ :: nat where
  "ID_SIZ = 257"

definition SYMTAB_KEY_SIZ :: nat where
  "SYMTAB_KEY_SIZ = 260"

text \<open>\<open>sprintf(retval, "%d", i)\<close> into a fresh buffer of \<open>SYMTAB_KEY_SIZ\<close> bytes.\<close>

definition myitoa :: "int \<Rightarrow> cstring" where
  "myitoa i = fmt_d i"

lemma myitoa_nonneg: "0 \<le> i \<Longrightarrow> myitoa i = nat_digits (nat i)"
  by (simp add: myitoa_def fmt_d_def)

lemma myitoa_digits: "0 \<le> i \<Longrightarrow> c \<in> set (myitoa i) \<Longrightarrow> is_digit c"
  by (simp add: myitoa_nonneg nat_digits_are_digits)

lemma myitoa_inj: "0 \<le> i \<Longrightarrow> 0 \<le> j \<Longrightarrow> myitoa i = myitoa j \<Longrightarrow> i = j"
  using nat_digits_inj [of "nat i" "nat j"] by (simp add: myitoa_nonneg)

lemma length_myitoa: "0 \<le> i \<Longrightarrow> i < 1000 \<Longrightarrow> length (myitoa i) \<le> 3"
  using length_nat_digits [of "nat i" 2] by (simp add: myitoa_nonneg)

end
