(* ===== verification/SymbolTable.thy ===== *)
theory SymbolTable
  imports Common HashTableSpec
begin

text \<open>
  The symbol table of \<open>Assig4/symboltable.c\<close> and \<open>Assig4/symboltable.h\<close>: symbols are objects of a
  memory of their own, the hash table \<open>symtab\<close> maps a key made of the scope number and the name to
  the address of a symbol. As in \<open>HashTable\<close>, \<open>None\<close> is undefined behaviour or a failed
  \<open>assert\<close>. Scope numbers are mathematical integers. The field \<open>type\<close> is called \<open>ty\<close> and \<open>next\<close> is
  called \<open>snext\<close>.
\<close>

section \<open>Data\<close>

datatype symkind = NONE | FUNCTION | ARRAY | PARAMETER

record symtab_entry =
  name :: cstring
  scope :: int
  ty :: type_enum
  kind :: symkind
  n_param :: int
  dim :: int
  snext :: ptr
  type_ptr :: ptr
  place :: cstring

record symstate =
  symtab :: "addr htable"
  syms :: "addr \<rightharpoonup> symtab_entry"
  syms_brk :: addr

section \<open>Operations\<close>

text \<open>\<open>init_symtab\<close> replaces the table; the symbols of the memory stay.\<close>

definition init_symtab :: "symstate \<Rightarrow> symstate" where
  "init_symtab st = st\<lparr>symtab := h_init ()\<rparr>"

definition gen_key :: "cstring \<Rightarrow> int \<Rightarrow> cstring" where
  "gen_key nm sc = myitoa sc @ nm"

text \<open>
  The label is written into the symbol before the insertion, whatever the insertion answers:
  \<open>strncpy(place, "_", 2)\<close>, then at most \<open>ID_SIZ - 2\<close> characters of the name.
\<close>

definition insert_symbol :: "symstate \<Rightarrow> addr \<Rightarrow> int \<Rightarrow> (bool \<times> symstate) option" where
  "insert_symbol st a sc =
     do {
       s \<leftarrow> syms st a;
       let s' = s\<lparr>place := ''_'' @ take (ID_SIZ - 2) (name s)\<rparr>;
       (ok, t) \<leftarrow> h_insert (symtab st) (gen_key (name s) sc) a;
       Some (ok, st\<lparr>syms := (syms st)(a \<mapsto> s'), symtab := t\<rparr>)
     }"

definition lookup_symtab :: "symstate \<Rightarrow> cstring \<Rightarrow> int \<Rightarrow> ptr option" where
  "lookup_symtab st id_name sc = h_get (symtab st) (gen_key id_name sc)"

text \<open>The loop \<open>while (!s && scope >= 0)\<close>.\<close>

function prevscope_loop :: "addr htable \<Rightarrow> cstring \<Rightarrow> ptr \<Rightarrow> int \<Rightarrow> ptr option" where
  "prevscope_loop t id_name s sc =
     (if s = None \<and> 0 \<le> sc
      then (case h_get t (gen_key id_name sc) of
              None \<Rightarrow> None
            | Some s' \<Rightarrow> prevscope_loop t id_name s' (sc - 1))
      else Some s)"
  by pat_completeness auto
termination
  by (relation "measure (\<lambda>(t, n, s, sc). nat (sc + 1))") auto

declare prevscope_loop.simps [simp del]

definition lookup_symtab_prevscope :: "symstate \<Rightarrow> cstring \<Rightarrow> int \<Rightarrow> ptr option" where
  "lookup_symtab_prevscope st id_name sc = prevscope_loop (symtab st) id_name None sc"

text \<open>\<open>malloc\<close> of a symbol.\<close>

definition alloc_sym :: "symtab_entry \<Rightarrow> symstate \<Rightarrow> addr \<times> symstate" where
  "alloc_sym s st =
     (syms_brk st, st\<lparr>syms := (syms st)(syms_brk st \<mapsto> s), syms_brk := Suc (syms_brk st)\<rparr>)"

text \<open>A symbol filled with zero bytes by \<open>memset\<close>.\<close>

definition zero_symbol :: symtab_entry where
  "zero_symbol = \<lparr>name = [], scope = 0, ty = VOID_TY, kind = NONE, n_param = 0, dim = 0,
                  snext = None, type_ptr = None, place = []\<rparr>"

definition create_symbol :: "symstate \<Rightarrow> cstring \<Rightarrow> int \<Rightarrow> (addr \<times> symstate) option" where
  "create_symbol st id_name sc =
     (if length id_name < 257
      then Some (alloc_sym (zero_symbol\<lparr>name := id_name, scope := sc\<rparr>) st)
      else None)"

definition copy_symbol :: "symstate \<Rightarrow> addr \<Rightarrow> (addr \<times> symstate) option" where
  "copy_symbol st a =
     do {
       s \<leftarrow> syms st a;
       (if length (name s) < 257
        then Some (alloc_sym (zero_symbol\<lparr>name := name s, ty := ty s, scope := scope s,
                     snext := snext s, type_ptr := type_ptr s\<rparr>) st)
        else None)
     }"

text \<open>The test that makes \<open>delete_scope\<close> skip a symbol.\<close>

definition keeps :: "int \<Rightarrow> symtab_entry \<Rightarrow> bool" where
  "keeps sc s \<longleftrightarrow> scope s < sc \<or> kind s = PARAMETER"

text \<open>The loop over the listed symbols; \<open>h_remove\<close> frees the symbol object.\<close>

fun delete_loop :: "symstate \<Rightarrow> int \<Rightarrow> addr list \<Rightarrow> symstate option" where
  "delete_loop st sc [] = Some st"
| "delete_loop st sc (a # as) =
     do {
       s \<leftarrow> syms st a;
       if keeps sc s then delete_loop st sc as
       else do {
         (ok, t, freed) \<leftarrow> h_remove (symtab st) (gen_key (name s) (scope s));
         delete_loop
           (st\<lparr>symtab := t,
               syms := (case freed of None \<Rightarrow> syms st | Some f \<Rightarrow> free_at f (syms st))\<rparr>) sc as
       }
     }"

definition delete_scope :: "symstate \<Rightarrow> int \<Rightarrow> symstate option" where
  "delete_scope st sc =
     do {
       xs \<leftarrow> ht_to_list (symtab st);
       delete_loop st sc xs
     }"

end
