(* ===== verification/SymbolTableInv.thy ===== *)
theory SymbolTableInv
  imports SymbolTable
begin

text \<open>
  The invariant of the symbol table and its operations on a table that satisfies it. The table
  is read through \<open>declared\<close>: the symbol a name has in one scope.
\<close>

section \<open>Keys\<close>

text \<open>The lexer's identifiers start with a letter, so never with a digit.\<close>

definition ident :: "cstring \<Rightarrow> bool" where
  "ident n \<longleftrightarrow> n \<noteq> [] \<and> \<not> is_digit (hd n)"

lemma gen_key_eq_iff:
  assumes "ident n" "ident m" "0 \<le> i" "0 \<le> j"
  shows "gen_key n i = gen_key m j \<longleftrightarrow> n = m \<and> i = j"
proof
  assume "gen_key n i = gen_key m j"
  then have "myitoa i = myitoa j \<and> n = m"
    using assms unfolding gen_key_def
    by (intro digits_prefix_inj) (auto simp: ident_def dest: myitoa_digits)
  then show "n = m \<and> i = j" using assms myitoa_inj by blast
qed simp

section \<open>The invariant\<close>

definition sym_ok :: "symstate \<Rightarrow> cstring \<Rightarrow> addr \<Rightarrow> bool" where
  "sym_ok st k a \<longleftrightarrow>
     (\<exists>s. syms st a = Some s \<and> ident (name s) \<and> 0 \<le> scope s \<and> k = gen_key (name s) (scope s))"

definition sym_inv :: "symstate \<Rightarrow> bool" where
  "sym_inv st \<longleftrightarrow>
     ht_inv (symtab st) \<and>
     (\<forall>k a. ht_map (symtab st) k = Some a \<longrightarrow> sym_ok st k a) \<and>
     (\<forall>a. syms st a \<noteq> None \<longrightarrow> a < syms_brk st)"

definition declared :: "symstate \<Rightarrow> cstring \<Rightarrow> int \<Rightarrow> ptr" where
  "declared st n sc = ht_map (symtab st) (gen_key n sc)"

lemma sym_invD:
  assumes "sym_inv st"
  shows "ht_inv (symtab st)"
    and "ht_map (symtab st) k = Some a \<Longrightarrow> sym_ok st k a"
    and "syms st a \<noteq> None \<Longrightarrow> a < syms_brk st"
  using assms by (auto simp: sym_inv_def)

lemma declared_sym:
  assumes "sym_inv st" and "ident n" and "0 \<le> j" and "declared st n j = Some a"
  obtains s where "syms st a = Some s" "name s = n" "scope s = j"
  using sym_invD(2) [OF assms(1), of "gen_key n j" a] assms gen_key_eq_iff [OF assms(2)]
  by (auto simp: declared_def sym_ok_def)

text \<open>Changing a symbol outside its name and scope keeps the invariant.\<close>

lemma sym_inv_upd:
  assumes "sym_inv st" and "syms st a = Some s" and "name s' = name s" "scope s' = scope s"
  shows "sym_inv (st\<lparr>syms := (syms st)(a \<mapsto> s')\<rparr>)"
proof -
  have "sym_ok (st\<lparr>syms := (syms st)(a \<mapsto> s')\<rparr>) k b" if "sym_ok st k b" for k b
    using that assms(2-4) by (cases "b = a") (auto simp: sym_ok_def)
  then show ?thesis using assms(1,2) by (auto simp: sym_inv_def)
qed

lemma sym_inv_alloc:
  assumes "sym_inv st" and "alloc_sym s st = (a, st')"
  shows "sym_inv st'" and "syms st a = None" and "syms st' = (syms st)(a \<mapsto> s)"
    and "symtab st' = symtab st"
proof -
  show fresh: "syms st a = None" using assms by (auto simp: alloc_sym_def sym_inv_def)
  show "syms st' = (syms st)(a \<mapsto> s)" and "symtab st' = symtab st"
    using assms by (auto simp: alloc_sym_def)
  have "sym_ok st' k b" if "sym_ok st k b" for k b
    using that assms fresh by (cases "b = a") (auto simp: sym_ok_def alloc_sym_def)
  then show "sym_inv st'"
    using assms unfolding sym_inv_def alloc_sym_def by (auto simp: less_Suc_eq)
qed

section \<open>Lookups\<close>

lemma lookup_symtab_declared:
  "sym_inv st \<Longrightarrow> lookup_symtab st n sc = Some (declared st n sc)"
  by (simp add: lookup_symtab_def declared_def ht.get_lookup sym_invD(1))

text \<open>
  The specification of scoping: the declaration of the innermost scope not above \<open>sc\<close> that has
  one.
\<close>

definition innermost :: "(int \<Rightarrow> ptr) \<Rightarrow> int \<Rightarrow> ptr \<Rightarrow> bool" where
  "innermost decl sc p \<longleftrightarrow>
     (case p of
        None \<Rightarrow> \<forall>j. 0 \<le> j \<and> j \<le> sc \<longrightarrow> decl j = None
      | Some a \<Rightarrow> \<exists>j. 0 \<le> j \<and> j \<le> sc \<and> decl j = Some a \<and> (\<forall>i. j < i \<and> i \<le> sc \<longrightarrow> decl i = None))"

lemma innermost_unique: "innermost decl sc p \<Longrightarrow> innermost decl sc q \<Longrightarrow> p = q"
  unfolding innermost_def
  by (cases p; cases q) (auto, metis linorder_neqE option.distinct(1) option.inject)

lemma prevscope_loop_innermost:
  "ht_inv t \<Longrightarrow> \<exists>p. prevscope_loop t n None sc = Some p \<and> innermost (\<lambda>j. ht_map t (gen_key n j)) sc p"
proof (induction "nat (sc + 1)" arbitrary: sc)
  case 0
  then have "sc < 0" by arith
  then have "\<forall>j. 0 \<le> j \<and> j \<le> sc \<longrightarrow> ht_map t (gen_key n j) = None" by arith
  with \<open>sc < 0\<close> show ?case by (subst prevscope_loop.simps) (simp add: innermost_def)
next
  case (Suc m)
  then have sc: "0 \<le> sc" "m = nat (sc - 1 + 1)" by simp_all
  show ?case
  proof (cases "ht_map t (gen_key n sc)")
    case None
    obtain p where p: "prevscope_loop t n None (sc - 1) = Some p"
      "innermost (\<lambda>j. ht_map t (gen_key n j)) (sc - 1) p"
      using Suc.hyps(1) [OF sc(2) Suc.prems] by blast
    have "innermost (\<lambda>j. ht_map t (gen_key n j)) sc p"
    proof (cases p)
      case None
      with p(2) \<open>ht_map t (gen_key n sc) = None\<close> show ?thesis
        by (auto simp: innermost_def) (metis order_le_less zle_diff1_eq)
    next
      case (Some a)
      then obtain j where j: "0 \<le> j" "j \<le> sc - 1" "ht_map t (gen_key n j) = Some a"
        "\<forall>i. j < i \<and> i \<le> sc - 1 \<longrightarrow> ht_map t (gen_key n i) = None"
        using p(2) by (auto simp: innermost_def)
      then have "\<forall>i. j < i \<and> i \<le> sc \<longrightarrow> ht_map t (gen_key n i) = None"
        using None by (metis order_le_less zle_diff1_eq)
      with j Some show ?thesis by (auto simp: innermost_def intro!: exI [of _ j])
    qed
    with p(1) None sc show ?thesis
      by (subst prevscope_loop.simps) (simp add: ht.get_lookup Suc.prems)
  next
    case (Some a)
    have "prevscope_loop t n (Some a) (sc - 1) = Some (Some a)"
      by (subst prevscope_loop.simps) simp
    with Some sc show ?thesis
      by (subst prevscope_loop.simps) (auto simp: ht.get_lookup Suc.prems innermost_def intro!: exI [of _ sc])
  qed
qed

lemma lookup_prevscope_innermost:
  "sym_inv st \<Longrightarrow>
     \<exists>p. lookup_symtab_prevscope st n sc = Some p \<and> innermost (declared st n) sc p"
  using prevscope_loop_innermost [OF sym_invD(1)]
  by (simp add: lookup_symtab_prevscope_def declared_def [abs_def])

section \<open>Insertion\<close>

lemma insert_symbol_declared:
  assumes inv: "sym_inv st" and s: "syms st a = Some s" "ident (name s)" "0 \<le> sc" "scope s = sc"
  shows "\<exists>ok st'. insert_symbol st a sc = Some (ok, st') \<and> sym_inv st' \<and>
    ok = (declared st (name s) sc = None) \<and>
    syms st' = (syms st)(a \<mapsto> s\<lparr>place := ''_'' @ take 255 (name s)\<rparr>) \<and>
    ht_map (symtab st') = (if ok then (ht_map (symtab st))(gen_key (name s) sc \<mapsto> a) else ht_map (symtab st))"
proof -
  let ?k = "gen_key (name s) sc" and ?s = "s\<lparr>place := ''_'' @ take 255 (name s)\<rparr>"
  obtain ok t where t: "h_insert (symtab st) ?k a = Some (ok, t)"
    using ht.insert_total [OF sym_invD(1) [OF inv]] by blast
  note r = ht.insert_result [OF sym_invD(1) [OF inv] t]
  let ?st = "st\<lparr>syms := (syms st)(a \<mapsto> ?s), symtab := t\<rparr>"
  have "insert_symbol st a sc = Some (ok, ?st)"
    using s t by (simp add: insert_symbol_def ID_SIZ_def Let_def)
  moreover have "sym_inv ?st"
  proof -
    have "sym_inv (st\<lparr>syms := (syms st)(a \<mapsto> ?s)\<rparr>)" by (rule sym_inv_upd [OF inv s(1)]) simp_all
    moreover have "sym_ok ?st ?k a" using s by (auto simp: sym_ok_def)
    ultimately show ?thesis
      using r unfolding sym_inv_def by (auto simp: sym_ok_def split: if_splits)
  qed
  ultimately show ?thesis using r by (simp add: declared_def)
qed

text \<open>What the insertion means for every name in every scope.\<close>

lemma insert_symbol_lookup:
  assumes inv: "sym_inv st" and s: "syms st a = Some s" "ident (name s)" "0 \<le> sc" "scope s = sc"
    and ins: "insert_symbol st a sc = Some (ok, st')" and m: "ident m" "0 \<le> j"
  shows "declared st' m j = (if ok \<and> m = name s \<and> j = sc then Some a else declared st m j)"
  using insert_symbol_declared [OF inv s] ins gen_key_eq_iff [OF m(1) s(2) m(2) s(3)]
  by (auto simp: declared_def)

section \<open>Deleting a scope\<close>

definition doomed :: "symstate \<Rightarrow> int \<Rightarrow> addr \<Rightarrow> bool" where
  "doomed st sc a \<longleftrightarrow> (\<exists>s. syms st a = Some s \<and> \<not> keeps sc s)"

definition sym_key :: "symstate \<Rightarrow> addr \<Rightarrow> cstring" where
  "sym_key st a = (case syms st a of None \<Rightarrow> [] | Some s \<Rightarrow> gen_key (name s) (scope s))"

text \<open>In every slot of the table the symbols to keep stand before those to delete.\<close>

definition delete_order :: "symstate \<Rightarrow> int \<Rightarrow> bool" where
  "delete_order st sc \<longleftrightarrow> (\<forall>b \<in> set (ht_view (symtab st)). kept_first (doomed st sc) b)"

lemma sym_inv_listed:
  assumes "sym_inv st" and "(k, a) \<in> set (concat (ht_view (symtab st)))"
  shows "sym_ok st k a" and "sym_key st a = k"
proof -
  have "ht_map (symtab st) k = Some a"
    using assms ht.lookup_iff [OF sym_invD(1) [OF assms(1)]] by simp
  then show "sym_ok st k a" using sym_invD(2) [OF assms(1)] by blast
  then show "sym_key st a = k" by (auto simp: sym_ok_def sym_key_def)
qed

text \<open>No symbol is listed twice, since its key is determined by its name and scope.\<close>

lemma sym_inv_distinct:
  assumes "sym_inv st"
  shows "distinct (map snd (concat (ht_view (symtab st))))"
proof -
  let ?l = "concat (ht_view (symtab st))"
  have "fst p = sym_key st (snd p)" if "p \<in> set ?l" for p
    using sym_inv_listed(2) [OF assms, of "fst p" "snd p"] that by simp
  then have "map fst ?l = map (sym_key st) (map snd ?l)"
    unfolding map_map comp_def by (rule map_cong [OF refl])
  then show ?thesis
    using ht.view_keys_distinct [OF sym_invD(1) [OF assms]] by (metis distinct_map)
qed

lemma free_list_apply: "fold free_at fs h a = (if a \<in> set fs then None else h a)"
  by (induction fs arbitrary: h) auto

text \<open>
  The loop of \<open>delete_scope\<close> is the generic purge of the table: although it frees symbols on its
  way, it never reads one it has freed.
\<close>

lemma delete_loop_purge:
  assumes "ht.purge_state (doomed st0 sc) v todo (symtab st)"
    and "distinct (map snd todo)"
    and "\<forall>p \<in> set todo. fst p = sym_key st0 (snd p) \<and> syms st (snd p) = syms st0 (snd p) \<and>
           syms st0 (snd p) \<noteq> None"
    and "purge h_remove (sym_key st0) (doomed st0 sc) (symtab st) (map snd todo) = Some (t', fs)"
  shows "delete_loop st sc (map snd todo) = Some (st\<lparr>symtab := t', syms := fold free_at fs (syms st)\<rparr>)"
  using assms
proof (induction todo arbitrary: st fs)
  case Nil
  then show ?case by simp
next
  case (Cons p todo)
  obtain k a where p: "p = (k, a)" by (cases p)
  obtain s where s: "syms st a = Some s" "syms st0 a = Some s" "k = gen_key (name s) (scope s)"
    using Cons.prems(3) p by (cases "syms st0 a") (auto simp: sym_key_def)
  show ?case
  proof (cases "doomed st0 sc a")
    case False
    then have "keeps sc s" using s by (simp add: doomed_def)
    moreover have "ht.purge_state (doomed st0 sc) v todo (symtab st)"
      using ht.purge_state_skip [OF Cons.prems(1)] False p by simp
    then have "delete_loop st sc (map snd todo)
        = Some (st\<lparr>symtab := t', syms := fold free_at fs (syms st)\<rparr>)"
      using Cons.prems(2,3,4) False p by (intro Cons.IH) simp_all
    ultimately show ?thesis using p s(1) by (simp del: free_at_apply)
  next
    case True
    then have k: "\<not> keeps sc s" using s by (simp add: doomed_def)
    have key: "sym_key st0 a = k" using s by (simp add: sym_key_def)
    obtain ok t1 f where r: "h_remove (symtab st) k = Some (ok, t1, f)"
      "ht.purge_state (doomed st0 sc) v todo t1" "f \<in> {None, Some a}"
      using ht.purge_state_remove [OF Cons.prems(1) [unfolded p] True] by blast
    obtain fs1 where fs1: "purge h_remove (sym_key st0) (doomed st0 sc) t1 (map snd todo) = Some (t', fs1)"
      "fs = (case f of None \<Rightarrow> fs1 | Some x \<Rightarrow> x # fs1)"
      using Cons.prems(4) p r(1) True key by (auto split: bind_splits)
    let ?st = "st\<lparr>symtab := t1, syms := (case f of None \<Rightarrow> syms st | Some x \<Rightarrow> free_at x (syms st))\<rparr>"
    have "delete_loop ?st sc (map snd todo)
        = Some (?st\<lparr>symtab := t', syms := fold free_at fs1 (syms ?st)\<rparr>)"
      using r fs1(1) Cons.prems(2,3) p by (intro Cons.IH) (auto split: option.splits)
    then show ?thesis using p s k r(1) fs1(2) by (cases f) (simp_all del: free_at_apply)
  qed
qed

text \<open>
  Under the order, deleting a scope returns and deletes exactly the doomed symbols: every other
  symbol keeps its place in the table and its memory.
\<close>

lemma delete_scope_exact:
  assumes inv: "sym_inv st" and ord: "delete_order st sc"
  shows "\<exists>st'. delete_scope st sc = Some st' \<and> sym_inv st' \<and>
    ht_view (symtab st') = map (filter (\<lambda>p. \<not> doomed st sc (snd p))) (ht_view (symtab st)) \<and>
    (\<forall>a. \<not> doomed st sc a \<longrightarrow> syms st' a = syms st a) \<and>
    (\<forall>a. syms st' a \<noteq> None \<longrightarrow> syms st' a = syms st a) \<and> syms_brk st' = syms_brk st"
proof -
  let ?t = "symtab st" and ?todo = "concat (ht_view (symtab st))"
  note h = sym_invD(1) [OF inv]
  have keys: "\<forall>p \<in> set ?todo. fst p = sym_key st (snd p)"
    using sym_inv_listed(2) [OF inv] by (metis prod.collapse)
  have objs: "\<forall>p \<in> set ?todo. syms st (snd p) \<noteq> None"
    using sym_inv_listed(1) [OF inv] unfolding sym_ok_def by (metis option.distinct(1) prod.collapse)
  obtain t' fs where p: "purge h_remove (sym_key st) (doomed st sc) ?t (map snd ?todo) = Some (t', fs)"
    "ht_inv t'" "ht_view t' = map (filter (\<lambda>p. \<not> doomed st sc (snd p))) (ht_view ?t)"
    "set fs \<subseteq> {d. doomed st sc d \<and> d \<in> snd ` set ?todo}"
    using ht.purge_exact [OF h keys ord [unfolded delete_order_def]] by blast
  let ?st = "st\<lparr>symtab := t', syms := fold free_at fs (syms st)\<rparr>"
  have "delete_loop st sc (map snd ?todo) = Some ?st"
    by (rule delete_loop_purge [OF ht.purge_state_init [OF h ord [unfolded delete_order_def]]
          sym_inv_distinct [OF inv] _ p(1)])
      (use keys objs in blast)
  then have run: "delete_scope st sc = Some ?st"
    by (simp add: delete_scope_def ht.list_data_view [OF h])
  have kept: "syms ?st a = syms st a" if "\<not> doomed st sc a" for a
    using that p(4) by (auto simp: free_list_apply)
  have "sym_ok ?st k a" if "ht_map t' k = Some a" for k a
  proof -
    have "(k, a) \<in> set (concat (ht_view t'))" using that ht.lookup_iff [OF p(2)] by simp
    then have "(k, a) \<in> set ?todo" and d: "\<not> doomed st sc a" by (auto simp: p(3))
    then have "sym_ok st k a" using sym_inv_listed(1) [OF inv] by blast
    then show ?thesis using kept [OF d] by (simp add: sym_ok_def)
  qed
  then have "sym_inv ?st" using p(2) inv by (auto simp: sym_inv_def free_list_apply)
  with run p(3) kept show ?thesis by (auto simp: free_list_apply)
qed

text \<open>Read through \<open>declared\<close>.\<close>

lemma delete_scope_declared:
  assumes inv: "sym_inv st" and ord: "delete_order st sc" and del: "delete_scope st sc = Some st'"
  shows "declared st' n j = (case declared st n j of
    None \<Rightarrow> None | Some a \<Rightarrow> if doomed st sc a then None else Some a)"
proof -
  have inv': "sym_inv st'" and v: "ht_view (symtab st')
      = map (filter (\<lambda>p. \<not> doomed st sc (snd p))) (ht_view (symtab st))"
    using delete_scope_exact [OF inv ord] del by auto
  note iff = ht.lookup_iff [OF sym_invD(1) [OF inv]] ht.lookup_iff [OF sym_invD(1) [OF inv']]
  have "declared st' n j = Some a \<longleftrightarrow> declared st n j = Some a \<and> \<not> doomed st sc a" for a
    unfolding declared_def iff v by auto
  then have "declared st' n j = Some a \<longleftrightarrow> (case declared st n j of
    None \<Rightarrow> None | Some b \<Rightarrow> if doomed st sc b then None else Some b) = Some a" for a
    by (auto split: option.split)
  then show ?thesis by (metis not_Some_eq)
qed

end
