(* ===== verification/SymbolTableProps.thy ===== *)
theory SymbolTableProps
  imports SymbolTableInv
begin

text \<open>
  The properties of the symbol table, with the concrete tables their witnesses use.
\<close>

section \<open>A table with one symbol\<close>

definition one_symbol :: "cstring \<Rightarrow> int \<Rightarrow> symstate" where
  "one_symbol n sc =
     \<lparr>symtab = h_init (), syms = [0 \<mapsto> zero_symbol\<lparr>name := n, scope := sc\<rparr>], syms_brk = 1\<rparr>"

lemma one_symbol_inv: "sym_inv (one_symbol n sc)"
  by (simp add: sym_inv_def one_symbol_def ht.inv_empty ht.lookup_empty)

lemma one_symbol_undeclared: "declared (one_symbol n sc) m j = None"
  by (simp add: declared_def one_symbol_def ht.lookup_empty)

text \<open>The same table after the insertion of the symbol.\<close>

lemma one_symbol_inserted:
  assumes "ident n" and "0 \<le> sc"
  shows "\<exists>st. insert_symbol (one_symbol n sc) 0 sc = Some (True, st) \<and> sym_inv st \<and>
    syms st 0 = Some (zero_symbol\<lparr>name := n, scope := sc, place := ''_'' @ take 255 n\<rparr>) \<and>
    ht_view (symtab st) = (replicate HT_SIZ [])[hash (gen_key n sc) := [(gen_key n sc, 0)]] \<and>
    (\<forall>m j. ident m \<longrightarrow> 0 \<le> j \<longrightarrow> declared st m j = (if m = n \<and> j = sc then Some 0 else None))"
proof -
  let ?s = "zero_symbol\<lparr>name := n, scope := sc\<rparr>"
  have s: "syms (one_symbol n sc) 0 = Some ?s" by (simp add: one_symbol_def)
  obtain st where st: "insert_symbol (one_symbol n sc) 0 sc = Some (True, st)" "sym_inv st"
    "syms st = (syms (one_symbol n sc))(0 \<mapsto> ?s\<lparr>place := ''_'' @ take 255 n\<rparr>)"
    using insert_symbol_declared [OF one_symbol_inv s] assms one_symbol_undeclared by auto
  have "h_insert (h_init ()) (gen_key n sc) 0 = Some (True, symtab st)"
    using st(1) s by (auto simp: insert_symbol_def one_symbol_def ID_SIZ_def split: bind_splits)
  then have "ht_view (symtab st) = (replicate HT_SIZ [])[hash (gen_key n sc) := [(gen_key n sc, 0)]]"
    using ht.insert_view [OF ht.inv_empty] ht.hsh_less by (simp add: h_init_view)
  moreover have "declared st m j = (if m = n \<and> j = sc then Some 0 else None)" if "ident m" "0 \<le> j" for m j
    using insert_symbol_lookup [OF one_symbol_inv s _ assms(2) _ st(1) that] assms(1)
    by (simp add: one_symbol_undeclared)
  ultimately show ?thesis using st s by simp
qed

section \<open>Properties\<close>

text \<open>C21: two identifiers of the language have the same key only if they are the same name in the
  same scope, although a key is just the scope number followed by the name.\<close>

theorem gen_key_unique:
  assumes "ident n" and "ident m" and "0 \<le> i" and "0 \<le> j"
  shows "gen_key n i = gen_key m j \<longleftrightarrow> n = m \<and> i = j"
  using assms by (rule gen_key_eq_iff)

theorem gen_key_unique_witness: "gen_key ''x1'' 1 \<noteq> gen_key ''x'' 11"
  using gen_key_unique [of "''x1''" "''x''" 1 11] by (simp add: ident_def is_digit_def)

text \<open>The key of a symbol fits into the \<open>SYMTAB_KEY_SIZ\<close> bytes of the buffer, with its
  terminating zero byte, for the longest names \<open>create_symbol\<close> accepts and scopes below 1000.\<close>

theorem gen_key_fits:
  assumes "length n < ID_SIZ" and "0 \<le> sc" and "sc < 1000"
  shows "length (gen_key n sc) + 1 \<le> SYMTAB_KEY_SIZ"
  using assms length_myitoa [of sc] by (simp add: gen_key_def ID_SIZ_def SYMTAB_KEY_SIZ_def)

theorem gen_key_fits_witness: "length (gen_key (replicate 256 CHR ''a'') 999) + 1 \<le> SYMTAB_KEY_SIZ"
  using gen_key_fits [of "replicate 256 CHR ''a''" 999] by (simp add: ID_SIZ_def)

text \<open>C10: the search through the scopes returns, and it returns the symbol declared in the
  innermost scope that declares the name, and \<open>NULL\<close> only if none does.\<close>

theorem lookup_prevscope_correct:
  assumes "sym_inv st"
  shows "\<exists>!p. lookup_symtab_prevscope st n sc = Some p \<and> innermost (declared st n) sc p"
  using lookup_prevscope_innermost [OF assms] by auto

theorem lookup_prevscope_correct_witness:
  "\<exists>st. insert_symbol (one_symbol ''x'' 0) 0 0 = Some (True, st) \<and> lookup_symtab_prevscope st ''x'' 2 = Some (Some 0)"
proof -
  have x: "ident ''x''" by (simp add: ident_def is_digit_def)
  obtain st where st: "insert_symbol (one_symbol ''x'' 0) 0 0 = Some (True, st)" "sym_inv st"
    "\<forall>j. 0 \<le> j \<longrightarrow> declared st ''x'' j = (if j = 0 then Some 0 else None)"
    using one_symbol_inserted [OF x, of 0] x by auto
  obtain p where p: "lookup_symtab_prevscope st ''x'' 2 = Some p" "innermost (declared st ''x'') 2 p"
    using lookup_prevscope_correct [OF st(2)] by blast
  have "innermost (declared st ''x'') 2 (Some 0)" using st(3) by (auto simp: innermost_def)
  then show ?thesis using p st(1) innermost_unique by blast
qed

text \<open>C11: inserting a symbol in its scope answers whether the name was free there; it declares the
  name in that scope if so, changes no other name or scope, and gives the symbol its label.\<close>

theorem insert_symbol_correct:
  assumes "sym_inv st" and "syms st a = Some s" and "ident (name s)" and "0 \<le> scope s"
  shows "\<exists>ok st'. insert_symbol st a (scope s) = Some (ok, st') \<and> sym_inv st' \<and>
    ok = (declared st (name s) (scope s) = None) \<and>
    syms st' = (syms st)(a \<mapsto> s\<lparr>place := ''_'' @ take 255 (name s)\<rparr>) \<and>
    (\<forall>m j. ident m \<and> 0 \<le> j \<longrightarrow>
       declared st' m j = (if ok \<and> m = name s \<and> j = scope s then Some a else declared st m j))"
proof -
  obtain ok st' where i: "insert_symbol st a (scope s) = Some (ok, st')" "sym_inv st'"
    "ok = (declared st (name s) (scope s) = None)"
    "syms st' = (syms st)(a \<mapsto> s\<lparr>place := ''_'' @ take 255 (name s)\<rparr>)"
    using insert_symbol_declared [OF assms refl] by blast
  have "declared st' m j = (if ok \<and> m = name s \<and> j = scope s then Some a else declared st m j)"
    if "ident m" "0 \<le> j" for m j
    by (rule insert_symbol_lookup [OF assms refl i(1) that])
  with i show ?thesis by blast
qed

theorem insert_symbol_correct_witness:
  "\<exists>st. insert_symbol (one_symbol ''x'' 1) 0 1 = Some (True, st) \<and>
     declared st ''x'' 1 = Some 0 \<and> declared st ''x'' 0 = None"
proof -
  let ?st = "one_symbol ''x'' 1" and ?s = "zero_symbol\<lparr>name := ''x'', scope := 1\<rparr>"
  have x: "ident ''x''" by (simp add: ident_def is_digit_def)
  have "syms ?st 0 = Some ?s" by (simp add: one_symbol_def)
  from insert_symbol_correct [OF one_symbol_inv this] x show ?thesis
    by (auto simp: one_symbol_undeclared)
qed

text \<open>C9: if no slot of the table has a symbol to delete before one to keep, closing a scope
  returns and deletes exactly the symbols of that scope and the deeper ones that are not
  parameters: everything else stays declared, in memory, and unchanged.\<close>

theorem delete_scope_correct:
  assumes "sym_inv st" and "delete_order st sc"
  shows "\<exists>st'. delete_scope st sc = Some st' \<and> sym_inv st' \<and>
    (\<forall>n j. declared st' n j = (case declared st n j of
       None \<Rightarrow> None | Some a \<Rightarrow> if doomed st sc a then None else Some a)) \<and>
    (\<forall>a. \<not> doomed st sc a \<longrightarrow> syms st' a = syms st a)"
  using delete_scope_exact [OF assms] delete_scope_declared [OF assms] by fast

theorem delete_scope_correct_witness:
  "\<exists>st st'. insert_symbol (one_symbol ''x'' 1) 0 1 = Some (True, st) \<and> declared st ''x'' 1 = Some 0 \<and>
     delete_scope st 1 = Some st' \<and> declared st' ''x'' 1 = None"
proof -
  have x: "ident ''x''" by (simp add: ident_def is_digit_def)
  obtain st where st: "insert_symbol (one_symbol ''x'' 1) 0 1 = Some (True, st)" "sym_inv st"
    "syms st 0 = Some (zero_symbol\<lparr>name := ''x'', scope := 1, place := ''_'' @ take 255 ''x''\<rparr>)"
    "ht_view (symtab st) = (replicate HT_SIZ [])[hash (gen_key ''x'' 1) := [(gen_key ''x'' 1, 0)]]"
    "declared st ''x'' 1 = Some 0"
    using one_symbol_inserted [OF x, of 1] x by auto
  have d: "doomed st 1 0" using st(3) by (simp add: doomed_def keeps_def zero_symbol_def)
  have "delete_order st 1"
    unfolding delete_order_def st(4)
    by (auto simp: kept_first_def d dest!: subsetD [OF set_update_subset_insert])
  from delete_scope_correct [OF st(2) this] d st(5) show ?thesis using st(1) by auto
qed

end
