(* ===== verification/SymbolTable3.thy ===== *)
theory SymbolTable3
  imports SymbolTableProps
begin

text \<open>
  The symbol table of the type checker, \<open>Assig3/symboltable.c\<close>. Its hash table, \<open>gen_key\<close>, \<open>init_symtab\<close>,
  \<open>create_symbol\<close> and the two searches are those of \<open>Assig4\<close>; \<open>insert_symbol\<close> writes no label and \<open>delete_scope\<close> deletes
  parameters too, for which there is no kind of symbols. A state of \<open>SymbolTable\<close> stands for one of \<open>Assig3\<close> when no
  symbol has the kind \<open>PARAMETER\<close>; the field \<open>place\<close> is not used.
\<close>

section \<open>Operations\<close>

definition insert_symbol3 :: "symstate \<Rightarrow> addr \<Rightarrow> int \<Rightarrow> (bool \<times> symstate) option" where
  "insert_symbol3 st a sc =
     do {
       s \<leftarrow> syms st a;
       (ok, t) \<leftarrow> h_insert (symtab st) (gen_key (name s) sc) a;
       Some (ok, st\<lparr>symtab := t\<rparr>)
     }"

fun delete_loop3 :: "symstate \<Rightarrow> int \<Rightarrow> addr list \<Rightarrow> symstate option" where
  "delete_loop3 st sc [] = Some st"
| "delete_loop3 st sc (a # as) =
     do {
       entry \<leftarrow> syms st a;
       if sc \<le> scope entry then do {
         (ok, t, freed) \<leftarrow> h_remove (symtab st) (gen_key (name entry) (scope entry));
         delete_loop3
           (st\<lparr>symtab := t,
               syms := (case freed of None \<Rightarrow> syms st | Some f \<Rightarrow> free_at f (syms st))\<rparr>) sc as
       }
       else delete_loop3 st sc as
     }"

definition delete_scope3 :: "symstate \<Rightarrow> int \<Rightarrow> symstate option" where
  "delete_scope3 st sc =
     do {
       xs \<leftarrow> ht_to_list (symtab st);
       delete_loop3 st sc xs
     }"

section \<open>The relation to the later version\<close>

definition no_parameters :: "symstate \<Rightarrow> bool" where
  "no_parameters st \<longleftrightarrow> (\<forall>a s. syms st a = Some s \<longrightarrow> kind s \<noteq> PARAMETER)"

lemma keeps_no_parameters: "no_parameters st \<Longrightarrow> syms st a = Some s \<Longrightarrow> keeps sc s \<longleftrightarrow> scope s < sc"
  by (auto simp: no_parameters_def keeps_def)

lemma no_parameters_free:
  "no_parameters st \<Longrightarrow> no_parameters (st\<lparr>symtab := t, syms := (case freed of None \<Rightarrow> syms st | Some f \<Rightarrow> free_at f (syms st))\<rparr>)"
  by (auto simp: no_parameters_def free_at_apply split: option.splits if_splits)

lemma delete_loop3_eq: "no_parameters st \<Longrightarrow> delete_loop3 st sc as = delete_loop st sc as"
proof (induction as arbitrary: st)
  case (Cons a as)
  show ?case
  proof (cases "syms st a")
    case None
    then show ?thesis by (simp only: delete_loop3.simps delete_loop.simps Option.bind.simps)
  next
    case (Some s)
    have k: "keeps sc s \<longleftrightarrow> \<not> sc \<le> scope s" unfolding keeps_no_parameters [OF Cons.prems Some] by auto
    have e: "delete_loop3 (st\<lparr>symtab := t, syms := (case freed of None \<Rightarrow> syms st | Some f \<Rightarrow> free_at f (syms st))\<rparr>) sc as =
        delete_loop (st\<lparr>symtab := t, syms := (case freed of None \<Rightarrow> syms st | Some f \<Rightarrow> free_at f (syms st))\<rparr>) sc as" for t freed
      by (rule Cons.IH [OF no_parameters_free [OF Cons.prems]])
    show ?thesis
      unfolding delete_loop3.simps delete_loop.simps Some Option.bind.simps k e Cons.IH [OF Cons.prems]
      by (cases "sc \<le> scope s") simp_all
  qed
qed simp

lemma delete_scope3_eq: "no_parameters st \<Longrightarrow> delete_scope3 st sc = delete_scope st sc"
  by (simp add: delete_scope3_def delete_scope_def delete_loop3_eq)

lemma insert_symbol3_eq:
  "insert_symbol3 st a sc = map_option (\<lambda>(ok, st'). (ok, st'\<lparr>syms := syms st\<rparr>)) (insert_symbol st a sc)"
  by (auto simp: insert_symbol3_def insert_symbol_def split: bind_splits)

section \<open>Properties\<close>

text \<open>C37: In the type checker, whose symbols never have the kind \<open>PARAMETER\<close> (\<open>no_parameters\<close>), when in no slot of the
  table a name to delete stands before one that is kept (\<open>delete_order\<close>; the removal of the head of a slot loses the
  rest of the slot), \<open>delete_scope\<close> forgets every name of the closed scope and of the scopes inside it, the names of a
  function's parameters among them, and no other.\<close>

theorem delete_scope3_correct:
  assumes "sym_inv st" and "delete_order st sc" and "no_parameters st"
  shows "\<exists>st'. delete_scope3 st sc = Some st' \<and> sym_inv st' \<and>
    (\<forall>n j. ident n \<longrightarrow> 0 \<le> j \<longrightarrow> declared st' n j = (if sc \<le> j then None else declared st n j))"
proof -
  obtain st' where d: "delete_scope st sc = Some st'" "sym_inv st'" using delete_scope_exact [OF assms(1,2)] by blast
  have "declared st' n j = (if sc \<le> j then None else declared st n j)" if n: "ident n" "0 \<le> j" for n j
  proof (cases "declared st n j")
    case None
    then show ?thesis unfolding delete_scope_declared [OF assms(1,2) d(1)] by simp
  next
    case (Some a)
    obtain s where s: "syms st a = Some s" "scope s = j" using declared_sym [OF assms(1) n Some] by blast
    have "keeps sc s \<longleftrightarrow> j < sc" using s unfolding keeps_no_parameters [OF assms(3) s(1)] by simp
    then have "doomed st sc a \<longleftrightarrow> sc \<le> j" using s(1) by (simp add: doomed_def not_less)
    then show ?thesis unfolding delete_scope_declared [OF assms(1,2) d(1)] Some by simp
  qed
  then show ?thesis unfolding delete_scope3_eq [OF assms(3)] using d by blast
qed

text \<open>A table with the symbol \<open>x\<close> in scope 1.\<close>

theorem delete_scope3_correct_witness:
  "\<exists>st st'. insert_symbol3 (one_symbol ''x'' 1) 0 1 = Some (True, st) \<and> delete_scope3 st 1 = Some st' \<and> declared st' ''x'' 1 = None"
proof -
  have x: "ident ''x''" by (simp add: ident_def is_digit_def)
  obtain st where st: "insert_symbol (one_symbol ''x'' 1) 0 1 = Some (True, st)" "sym_inv st"
    "ht_view (symtab st) = (replicate HT_SIZ [])[hash (gen_key ''x'' 1) := [(gen_key ''x'' 1, 0)]]"
    "syms st 0 = Some (zero_symbol\<lparr>name := ''x'', scope := 1, place := ''_'' @ take 255 ''x''\<rparr>)"
    using one_symbol_inserted [OF x, of 1] by auto
  let ?st = "st\<lparr>syms := syms (one_symbol ''x'' 1)\<rparr>"
  have i: "insert_symbol3 (one_symbol ''x'' 1) 0 1 = Some (True, ?st)" unfolding insert_symbol3_eq st(1) by simp
  have s: "syms ?st = [0 \<mapsto> zero_symbol\<lparr>name := ''x'', scope := 1\<rparr>]" by (simp add: one_symbol_def)
  have inv: "sym_inv ?st"
  proof -
    have "syms st = (syms (one_symbol ''x'' 1))(0 \<mapsto> zero_symbol\<lparr>name := ''x'', scope := 1, place := ''_'' @ take 255 ''x''\<rparr>)"
      using st(1) by (auto simp: insert_symbol_def one_symbol_def ID_SIZ_def split: bind_splits)
    then have "st\<lparr>syms := (syms st)(0 \<mapsto> zero_symbol\<lparr>name := ''x'', scope := 1\<rparr>)\<rparr> = ?st" by (simp add: one_symbol_def)
    then show ?thesis using sym_inv_upd [OF st(2,4), of "zero_symbol\<lparr>name := ''x'', scope := 1\<rparr>"] by simp
  qed
  have d: "doomed ?st 1 0" using s by (simp add: doomed_def keeps_def zero_symbol_def)
  have o: "delete_order ?st 1"
    unfolding delete_order_def by (auto simp: st(3) kept_first_def d dest!: subsetD [OF set_update_subset_insert])
  have p: "no_parameters ?st" by (simp add: no_parameters_def s zero_symbol_def)
  from delete_scope3_correct [OF inv o p] i x show ?thesis by fastforce
qed

end
