(* ===== verification/TypeTable.thy ===== *)
theory TypeTable
  imports Common HashTableSpec
begin

text \<open>
  The type table of \<open>Assig4/typetable.c\<close> and \<open>Assig4/typetable.h\<close>: the names of structures and
  typedefs, with the fields of a structure as a linked list. Types and fields are objects of two
  memories of their own; \<open>None\<close> is undefined behaviour, as in \<open>HashTable\<close>. The field \<open>next\<close> of a
  structure field is called \<open>f_next\<close>, and the fields of \<open>mytype_t\<close> have the prefix \<open>t_\<close>.
\<close>

section \<open>Data\<close>

record struct_field =
  f_type :: type_enum
  f_name :: cstring
  f_next :: ptr

record mytype_t =
  t_name :: cstring
  t_type :: type_enum
  t_head :: ptr

record typestate =
  typetab :: "addr htable"
  type_mem :: "addr \<rightharpoonup> mytype_t"
  type_brk :: addr
  field_mem :: "addr \<rightharpoonup> struct_field"
  field_brk :: addr

section \<open>Operations\<close>

definition init_typetab :: "typestate \<Rightarrow> typestate" where
  "init_typetab ts = ts\<lparr>typetab := h_init ()\<rparr>"

text \<open>
  The name is copied into a buffer of \<open>ID_SIZ\<close> bytes. The answer of \<open>h_insert\<close> is ignored: when
  the name is taken, the new object is returned but the table keeps the old one.
\<close>

definition insert_type :: "typestate \<Rightarrow> cstring \<Rightarrow> type_enum \<Rightarrow> (addr \<times> typestate) option" where
  "insert_type ts nm t =
     (if length nm < ID_SIZ
      then do {
        let a = type_brk ts;
        (ok, tab) \<leftarrow> h_insert (typetab ts) nm a;
        Some (a, ts\<lparr>typetab := tab, type_mem := (type_mem ts)(a \<mapsto> \<lparr>t_name = nm, t_type = t, t_head = None\<rparr>),
                    type_brk := Suc a\<rparr>)
      }
      else None)"

definition is_type_exists :: "typestate \<Rightarrow> cstring \<Rightarrow> bool option" where
  "is_type_exists ts nm = do { p \<leftarrow> h_get (typetab ts) nm; Some (p \<noteq> None) }"

definition get_type :: "typestate \<Rightarrow> cstring \<Rightarrow> type_enum option" where
  "get_type ts nm =
     do {
       p \<leftarrow> h_get (typetab ts) nm;
       (case p of
          None \<Rightarrow> Some INT_TY
        | Some a \<Rightarrow> do { t \<leftarrow> type_mem ts a; Some (t_type t) })
     }"

definition create_field :: "typestate \<Rightarrow> cstring \<Rightarrow> type_enum \<Rightarrow> (addr \<times> typestate) option" where
  "create_field ts nm t =
     (if length nm < ID_SIZ
      then let a = field_brk ts
           in Some (a, ts\<lparr>field_mem := (field_mem ts)(a \<mapsto> \<lparr>f_type = t, f_name = nm, f_next = None\<rparr>),
                          field_brk := Suc a\<rparr>)
      else None)"

text \<open>The loop of \<open>get_type_obj\<close>, which only visits the fields.\<close>

partial_function (option) walk_fields :: "(addr \<rightharpoonup> struct_field) \<Rightarrow> ptr \<Rightarrow> unit option" where
  "walk_fields h sf =
     (case sf of
        None \<Rightarrow> Some ()
      | Some a \<Rightarrow> (case h a of None \<Rightarrow> None | Some f \<Rightarrow> walk_fields h (f_next f)))"

declare walk_fields.simps [code]

text \<open>A name that is not in the table makes \<open>t->head\<close> a null pointer access.\<close>

definition get_type_obj :: "typestate \<Rightarrow> cstring \<Rightarrow> addr option" where
  "get_type_obj ts nm =
     do {
       p \<leftarrow> h_get (typetab ts) nm;
       a \<leftarrow> p;
       t \<leftarrow> type_mem ts a;
       u \<leftarrow> walk_fields (field_mem ts) (t_head t);
       Some a
     }"

section \<open>Invariant\<close>

text \<open>The names of a field list, from its first field on.\<close>

fun field_list :: "(addr \<rightharpoonup> struct_field) \<Rightarrow> ptr \<Rightarrow> addr list \<Rightarrow> bool" where
  "field_list h p [] \<longleftrightarrow> p = None"
| "field_list h p (a # as) \<longleftrightarrow> p = Some a \<and> (\<exists>f. h a = Some f \<and> field_list h (f_next f) as)"

definition type_ok :: "typestate \<Rightarrow> cstring \<Rightarrow> addr \<Rightarrow> bool" where
  "type_ok ts nm a \<longleftrightarrow> (\<exists>t. type_mem ts a = Some t \<and> t_name t = nm)"

definition type_inv :: "typestate \<Rightarrow> bool" where
  "type_inv ts \<longleftrightarrow>
     ht_inv (typetab ts) \<and>
     (\<forall>nm a. ht_map (typetab ts) nm = Some a \<longrightarrow> type_ok ts nm a) \<and>
     (\<forall>a t. type_mem ts a = Some t \<longrightarrow> a < type_brk ts \<and> (\<exists>fs. field_list (field_mem ts) (t_head t) fs)) \<and>
     (\<forall>a. field_mem ts a \<noteq> None \<longrightarrow> a < field_brk ts)"

lemma type_invD:
  assumes "type_inv ts"
  shows "ht_inv (typetab ts)"
    and "ht_map (typetab ts) nm = Some a \<Longrightarrow> type_ok ts nm a"
    and "type_mem ts a = Some t \<Longrightarrow> a < type_brk ts"
    and "type_mem ts a = Some t \<Longrightarrow> \<exists>fs. field_list (field_mem ts) (t_head t) fs"
    and "field_mem ts b \<noteq> None \<Longrightarrow> b < field_brk ts"
  using assms by (auto simp: type_inv_def)

lemma field_list_upd: "field_list h p as \<Longrightarrow> a \<notin> set as \<Longrightarrow> field_list (h(a := v)) p as"
  by (induction as arbitrary: p) auto

lemma field_list_live: "field_list h p as \<Longrightarrow> a \<in> set as \<Longrightarrow> h a \<noteq> None"
  by (induction as arbitrary: p) auto

lemma walk_fields_list: "field_list h p as \<Longrightarrow> walk_fields h p = Some ()"
proof (induction as arbitrary: p)
  case Nil
  then show ?case by (subst walk_fields.simps) simp
next
  case (Cons a as)
  then show ?case by (subst walk_fields.simps) auto
qed

text \<open>The type a name stands for.\<close>

definition type_of_name :: "typestate \<Rightarrow> cstring \<Rightarrow> type_enum option" where
  "type_of_name ts nm =
     (case ht_map (typetab ts) nm of None \<Rightarrow> None | Some a \<Rightarrow> map_option t_type (type_mem ts a))"

lemma init_type_inv: "type_inv (init_typetab \<lparr>typetab = t, type_mem = Map.empty, type_brk = 0,
    field_mem = Map.empty, field_brk = 0\<rparr>)"
  by (simp add: type_inv_def init_typetab_def ht.inv_empty ht.lookup_empty)

lemma insert_type_spec:
  assumes inv: "type_inv ts" and len: "length nm < ID_SIZ"
  shows "\<exists>ts'. insert_type ts nm t = Some (type_brk ts, ts') \<and> type_inv ts' \<and>
    field_mem ts' = field_mem ts \<and>
    type_mem ts' = (type_mem ts)(type_brk ts \<mapsto> \<lparr>t_name = nm, t_type = t, t_head = None\<rparr>) \<and>
    ht_map (typetab ts') = (if ht_map (typetab ts) nm = None then (ht_map (typetab ts))(nm \<mapsto> type_brk ts)
                            else ht_map (typetab ts))"
proof -
  obtain ok tab where ins: "h_insert (typetab ts) nm (type_brk ts) = Some (ok, tab)"
    using ht.insert_total [OF type_invD(1) [OF inv]] by blast
  note r = ht.insert_result [OF type_invD(1) [OF inv] ins]
  let ?a = "type_brk ts" and ?t = "\<lparr>t_name = nm, t_type = t, t_head = None\<rparr>"
  let ?ts = "ts\<lparr>typetab := tab, type_mem := (type_mem ts)(?a \<mapsto> ?t), type_brk := Suc ?a\<rparr>"
  have run: "insert_type ts nm t = Some (?a, ?ts)"
    using len ins by (simp add: insert_type_def Let_def)
  have old: "type_ok ?ts n b" if "ht_map (typetab ts) n = Some b" for n b
    using type_invD(2) [OF inv that] type_invD(3) [OF inv, of b] by (auto simp: type_ok_def)
  have new: "type_ok ?ts nm ?a" by (simp add: type_ok_def)
  have "\<exists>fs. field_list (field_mem ts) (t_head s) fs" if "type_mem ?ts b = Some s" for b s
    using that type_invD(4) [OF inv, of b s] by (auto split: if_splits intro: exI [of _ "[]"])
  moreover have "b < Suc ?a" if "type_mem ?ts b = Some s" for b s
    using that type_invD(3) [OF inv, of b s] by (auto split: if_splits)
  ultimately have "type_inv ?ts"
    using r(2,3) old new type_invD(5) [OF inv] by (auto simp: type_inv_def split: if_splits)
  with run r show ?thesis by auto
qed

lemma create_field_spec:
  assumes inv: "type_inv ts" and len: "length nm < ID_SIZ"
  shows "\<exists>ts'. create_field ts nm t = Some (field_brk ts, ts') \<and> type_inv ts' \<and>
    field_mem ts' = (field_mem ts)(field_brk ts \<mapsto> \<lparr>f_type = t, f_name = nm, f_next = None\<rparr>) \<and>
    typetab ts' = typetab ts \<and> type_mem ts' = type_mem ts \<and> field_mem ts (field_brk ts) = None"
proof -
  let ?a = "field_brk ts"
  have fresh: "field_mem ts ?a = None" using type_invD(5) [OF inv, of ?a] by (metis less_irrefl)
  have "\<exists>fs. field_list ((field_mem ts)(?a := v)) (t_head s) fs" if b: "type_mem ts b = Some s" for b s v
  proof -
    obtain fs where fs: "field_list (field_mem ts) (t_head s) fs" using type_invD(4) [OF inv b] by blast
    then have "?a \<notin> set fs" using fresh field_list_live by blast
    with fs show ?thesis using field_list_upd by blast
  qed
  then show ?thesis
    using inv len fresh unfolding type_inv_def create_field_def
    by (auto simp: type_ok_def less_Suc_eq Let_def)
qed

lemma get_type_spec:
  "type_inv ts \<Longrightarrow> get_type ts nm = Some (case type_of_name ts nm of None \<Rightarrow> INT_TY | Some t \<Rightarrow> t)"
  using type_invD(2) [of ts nm]
  by (auto simp: get_type_def type_of_name_def ht.get_lookup type_invD(1) type_ok_def split: option.split)

lemma get_type_obj_spec:
  "type_inv ts \<Longrightarrow> get_type_obj ts nm = ht_map (typetab ts) nm"
  using type_invD(2) [of ts nm] type_invD(4) [of ts] walk_fields_list
  by (cases "ht_map (typetab ts) nm")
    (fastforce simp: get_type_obj_def ht.get_lookup type_invD(1) type_ok_def)+

text \<open>A name keeps the type of its first insertion.\<close>

lemma type_of_name_insert:
  assumes inv: "type_inv ts" and ins: "insert_type ts nm t = Some (a, ts')" and len: "length nm < ID_SIZ"
  shows "type_of_name ts' n =
    (if n = nm \<and> type_of_name ts nm = None then Some t else type_of_name ts n)"
proof -
  have r: "type_mem ts' = (type_mem ts)(type_brk ts \<mapsto> \<lparr>t_name = nm, t_type = t, t_head = None\<rparr>)"
    "ht_map (typetab ts') = (if ht_map (typetab ts) nm = None then (ht_map (typetab ts))(nm \<mapsto> type_brk ts)
       else ht_map (typetab ts))"
    using insert_type_spec [OF inv len, of t] ins by auto
  have live: "type_ok ts m b" if "ht_map (typetab ts) m = Some b" for m b
    using type_invD(2) [OF inv that] .
  have old: "b \<noteq> type_brk ts" if "ht_map (typetab ts) m = Some b" for m b
    using live [OF that] type_invD(3) [OF inv, of b] by (auto simp: type_ok_def)
  have none: "type_of_name ts m = None \<longleftrightarrow> ht_map (typetab ts) m = None" for m
    using live by (auto simp: type_of_name_def type_ok_def split: option.split)
  show ?thesis
    using r old unfolding none by (auto simp: type_of_name_def split: option.split)
qed

section \<open>Properties\<close>

text \<open>C19: entering a type returns a fresh object in any case, but a name keeps the type it was first
  entered with; \<open>get_type\<close> gives that type, and \<open>INT_TY\<close> for a name that was never entered.\<close>

theorem insert_type_first_wins:
  assumes "type_inv ts" and "length nm < ID_SIZ"
  shows "\<exists>a ts'. insert_type ts nm t = Some (a, ts') \<and> type_inv ts' \<and> type_mem ts a = None \<and>
    (\<forall>n. get_type ts' n = Some (case type_of_name ts n of
        Some u \<Rightarrow> u | None \<Rightarrow> if n = nm then t else INT_TY))"
proof -
  obtain ts' where ts': "insert_type ts nm t = Some (type_brk ts, ts')" "type_inv ts'"
    using insert_type_spec [OF assms] by blast
  have "type_mem ts (type_brk ts) = None"
    using type_invD(3) [OF assms(1), of "type_brk ts"] by (cases "type_mem ts (type_brk ts)") auto
  moreover have "get_type ts' n = Some (case type_of_name ts n of
        Some u \<Rightarrow> u | None \<Rightarrow> if n = nm then t else INT_TY)" for n
    using get_type_spec [OF ts'(2)] type_of_name_insert [OF assms(1) ts'(1) assms(2)]
    by (auto split: option.split)
  ultimately show ?thesis using ts' by blast
qed

text \<open>The empty type table.\<close>

definition no_types :: typestate where
  "no_types = \<lparr>typetab = h_init (), type_mem = Map.empty, type_brk = 0, field_mem = Map.empty, field_brk = 0\<rparr>"

lemma no_types_inv: "type_inv no_types"
  by (simp add: type_inv_def no_types_def ht.inv_empty ht.lookup_empty)

lemma no_types_name: "type_of_name no_types n = None"
  by (simp add: type_of_name_def no_types_def ht.lookup_empty)

theorem insert_type_first_wins_witness:
  "\<exists>a b ts ts'. insert_type no_types ''S'' STRUCT_TY = Some (a, ts) \<and>
     insert_type ts ''S'' TYPEDEF_TY = Some (b, ts') \<and> get_type ts' ''S'' = Some STRUCT_TY"
proof -
  have len: "length ''S'' < ID_SIZ" by (simp add: ID_SIZ_def)
  obtain a ts where ts: "insert_type no_types ''S'' STRUCT_TY = Some (a, ts)" "type_inv ts"
    "get_type ts ''S'' = Some STRUCT_TY"
    using insert_type_first_wins [OF no_types_inv len, of STRUCT_TY] by (auto simp: no_types_name)
  have "type_of_name ts ''S'' = Some STRUCT_TY"
    using type_of_name_insert [OF no_types_inv ts(1) len] by (simp add: no_types_name)
  then show ?thesis
    using insert_type_first_wins [OF ts(2) len, of TYPEDEF_TY] ts(1) by auto
qed

text \<open>C20: \<open>get_type_obj\<close> returns the object of a name that is in the table, after a walk over its
  fields that ends; for any other name it follows a null pointer.\<close>

theorem get_type_obj_correct:
  assumes "type_inv ts"
  shows "get_type_obj ts nm = ht_map (typetab ts) nm \<and> is_type_exists ts nm = Some (get_type_obj ts nm \<noteq> None)"
  using assms by (simp add: get_type_obj_spec is_type_exists_def ht.get_lookup type_invD(1))

theorem get_type_obj_correct_witness:
  "\<exists>a ts. insert_type no_types ''S'' STRUCT_TY = Some (a, ts) \<and> get_type_obj ts ''S'' = Some a \<and>
     get_type_obj ts ''T'' = None"
proof -
  have len: "length ''S'' < ID_SIZ" by (simp add: ID_SIZ_def)
  obtain ts where ts: "insert_type no_types ''S'' STRUCT_TY = Some (type_brk no_types, ts)" "type_inv ts"
    "ht_map (typetab ts) = [''S'' \<mapsto> type_brk no_types]"
    using insert_type_spec [OF no_types_inv len, of STRUCT_TY] by (auto simp: no_types_def ht.lookup_empty)
  then show ?thesis using get_type_obj_correct [OF ts(2)] by simp
qed

end
