(* ===== verification/CodeGen.thy ===== *)
theory CodeGen
  imports Common "HOL-Library.Monad_Syntax"
begin

text \<open>
  The code generator of \<open>Assig4/codegen.c\<close> and \<open>Assig4/codegen.h\<close>: the output file, the table of
  string labels, the pool of temporary registers and the stack of labels. \<open>None\<close> is undefined
  behaviour, with one exception: \<open>mark_temp_reg_free\<close> writes a zero outside of \<open>temp_reg\<close> for
  operands that ordinary programs have, and register names overflow a buffer by one byte; the
  model keeps these two faults in a log and otherwise goes on as if nothing had happened.
\<close>

section \<open>The emitted lines\<close>

text \<open>
  A line of the output. \<open>render\<close> gives its text; a line is kept as data so that a machine can
  execute it. \<open>Lab l sp\<close> is a label with a trailing space or without; the note of an instruction
  includes the characters between the operands and the text.
\<close>

datatype asm =
    Directive cstring
  | Lab cstring cstring
  | Op cstring "cstring list" cstring
  | Note cstring
  | Word_data cstring
  | Asciiz_data cstring cstring
  | Framesize_data cstring int

fun commas :: "cstring list \<Rightarrow> cstring" where
  "commas [] = []"
| "commas [x] = x"
| "commas (x # y # zs) = x @ '', '' @ commas (y # zs)"

definition TAB :: cstring where
  "TAB = [CHR 0x09]"

fun render :: "asm \<Rightarrow> cstring" where
  "render (Directive d) = d"
| "render (Lab l sp) = l @ '':'' @ sp"
| "render (Op m args note) = TAB @ m @ (if args = [] then [] else '' '' @ commas args) @ note"
| "render (Note t) = TAB @ ''#'' @ t"
| "render (Word_data l) = l @ '': .word 0''"
| "render (Asciiz_data l s) = l @ '': .asciiz '' @ s"
| "render (Framesize_data nm n) = TAB @ ''_framesize_'' @ nm @ '': .word '' @ fmt_d n"

section \<open>State\<close>

record stringlabel =
  label :: cstring
  str :: cstring

datatype fault = Wild_temp_reg int | Reg_str_overflow cstring

record cgstate =
  yyout :: "asm list"
  slabel_arr :: "stringlabel list"
  sconst_label_counter :: nat
  sconst_label_gen :: nat
  temp_reg :: "int list"
  faults :: "fault list"

definition init_cgstate :: cgstate where
  "init_cgstate = \<lparr>yyout = [], slabel_arr = replicate 100 \<lparr>label = [], str = []\<rparr>,
     sconst_label_counter = 0, sconst_label_gen = 0, temp_reg = replicate 8 0, faults = []\<rparr>"

definition emit :: "asm \<Rightarrow> cgstate \<Rightarrow> cgstate" where
  "emit l cg = cg\<lparr>yyout := yyout cg @ [l]\<rparr>"

definition emits :: "asm list \<Rightarrow> cgstate \<Rightarrow> cgstate" where
  "emits ls cg = cg\<lparr>yyout := yyout cg @ ls\<rparr>"

section \<open>String labels\<close>

text \<open>
  The label fits its 20 bytes; a string of 100 characters or more, and the 101st label between two
  calls of \<open>gen_string_labels\<close>, are written out of bounds.
\<close>

definition push_string_label :: "cstring \<Rightarrow> cgstate \<Rightarrow> (cstring \<times> cgstate) option" where
  "push_string_label s cg =
     (let lab = ''_slabel'' @ fmt_d (int (sconst_label_gen cg)); n = sconst_label_counter cg
      in if n < length (slabel_arr cg) \<and> length s < 100 \<and> length lab < 20
         then Some (lab, cg\<lparr>slabel_arr := (slabel_arr cg)[n := \<lparr>label = lab, str = s\<rparr>],
                            sconst_label_counter := n + 1,
                            sconst_label_gen := sconst_label_gen cg + 1\<rparr>)
         else None)"

definition string_label_line :: "stringlabel \<Rightarrow> asm" where
  "string_label_line sl =
     (if take 4 (str sl) = ''____'' then Word_data (str sl) else Asciiz_data (label sl) (str sl))"

definition gen_string_labels :: "cgstate \<Rightarrow> cgstate" where
  "gen_string_labels cg =
     (emits (map string_label_line (take (sconst_label_counter cg) (slabel_arr cg))) cg)
       \<lparr>sconst_label_counter := 0\<rparr>"

section \<open>The label stack\<close>

definition STACK_SIZ :: nat where
  "STACK_SIZ = 1000"

text \<open>The cells of a new stack are indeterminate. The field \<open>index\<close> is called \<open>top_index\<close>.\<close>

record intstack_t =
  stack :: "int option list"
  top_index :: int

definition s_init :: "unit \<Rightarrow> intstack_t" where
  "s_init _ = \<lparr>stack = replicate STACK_SIZ None, top_index = -1\<rparr>"

definition s_push :: "intstack_t \<Rightarrow> int \<Rightarrow> (bool \<times> intstack_t) option" where
  "s_push s n =
     (if int STACK_SIZ \<le> top_index s then Some (False, s)
      else let i = top_index s + 1
           in if 0 \<le> i \<and> nat i < length (stack s)
              then Some (True, s\<lparr>stack := (stack s)[nat i := Some n], top_index := i\<rparr>)
              else None)"

definition s_get :: "intstack_t \<Rightarrow> int option" where
  "s_get s =
     (if top_index s < 0 then Some (-1)
      else if nat (top_index s) < length (stack s) then stack s ! nat (top_index s) else None)"

definition s_pop :: "intstack_t \<Rightarrow> bool \<times> intstack_t" where
  "s_pop s = (if top_index s < 0 then (False, s) else (True, s\<lparr>top_index := top_index s - 1\<rparr>))"

section \<open>Functions\<close>

definition func_prolog_lines :: "cstring \<Rightarrow> asm list" where
  "func_prolog_lines nm =
     [Directive ''.text'',
      Lab nm [],
      Op ''sw'' [''$ra'', ''0($sp)''] [],
      Op ''sw'' [''$fp'', ''-4($sp)''] [],
      Op ''add'' [''$fp'', ''$sp'', ''-4''] [],
      Op ''add'' [''$sp'', ''$sp'', ''-8''] [],
      Op ''lw'' [''$2'', ''_framesize_'' @ nm] [],
      Op ''sub'' [''$sp'', ''$sp'', ''$2''] [],
      Op ''sw'' [''$8'', ''32($sp)''] [],
      Op ''sw'' [''$9'', ''28($sp)''] [],
      Op ''sw'' [''$10'', ''24($sp)''] [],
      Op ''sw'' [''$11'', ''20($sp)''] [],
      Op ''sw'' [''$12'', ''16($sp)''] [],
      Op ''sw'' [''$13'', ''12($sp)''] [],
      Op ''sw'' [''$14'', ''8($sp)''] [],
      Op ''sw'' [''$15'', ''4($sp)''] [],
      Lab (''_begin_'' @ nm) []]"

definition gen_func_prolog :: "cstring \<Rightarrow> cgstate \<Rightarrow> cgstate" where
  "gen_func_prolog nm = emits (func_prolog_lines nm)"

definition func_epilog_lines :: "cstring \<Rightarrow> asm list" where
  "func_epilog_lines nm =
     [Lab (''_end_'' @ nm) [],
      Op ''lw'' [''$8'', ''32($sp)''] [],
      Op ''lw'' [''$9'', ''28($sp)''] [],
      Op ''lw'' [''$10'', ''24($sp)''] [],
      Op ''lw'' [''$11'', ''20($sp)''] [],
      Op ''lw'' [''$12'', ''16($sp)''] [],
      Op ''lw'' [''$13'', ''12($sp)''] [],
      Op ''lw'' [''$14'', ''8($sp)''] [],
      Op ''lw'' [''$15'', ''4($sp)''] [],
      Op ''lw'' [''$ra'', ''4($fp)''] [],
      Op ''add'' [''$sp'', ''$fp'', ''4''] [],
      Op ''lw'' [''$fp'', ''0($fp)''] []] @
     (if nm = ''main'' then [Op ''li'' [''$v0'', ''10''] [], Op ''syscall'' [] []]
      else [Op ''jr'' [''$ra''] []]) @
     [Directive ''.data'', Framesize_data nm (if nm = ''main'' then 36 else 32)]"

definition gen_func_epilog :: "cstring \<Rightarrow> cgstate \<Rightarrow> cgstate" where
  "gen_func_epilog nm cg = gen_string_labels (emits (func_epilog_lines nm) cg)"

section \<open>Temporary registers\<close>

text \<open>The first free slot from \<open>i\<close> on, as the loop finds it.\<close>

fun first_free :: "int list \<Rightarrow> nat \<Rightarrow> nat option" where
  "first_free [] i = None"
| "first_free (r # rs) i = (if r = 0 then Some i else first_free rs (Suc i))"

definition get_free_temp_reg :: "cgstate \<Rightarrow> int \<times> cgstate" where
  "get_free_temp_reg cg =
     (case first_free (temp_reg cg) 0 of
        None \<Rightarrow> (-1, cg)
      | Some i \<Rightarrow> (int i + 8, cg\<lparr>temp_reg := (temp_reg cg)[i := 1]\<rparr>))"

definition is_temp_reg :: "cstring \<Rightarrow> bool" where
  "is_temp_reg s \<longleftrightarrow> s \<noteq> [] \<and> hd s = CHR ''$''"

text \<open>Reading \<open>str[i]\<close>: a character, the terminating zero, or beyond the string.\<close>

definition str_at :: "cstring \<Rightarrow> nat \<Rightarrow> int option" where
  "str_at s i =
     (if i < length s then Some (signed_take_bit 7 (of_char (s ! i)))
      else if i = length s then Some 0 else None)"

definition reg_index :: "cstring \<Rightarrow> int option" where
  "reg_index s =
     do {
       c1 \<leftarrow> str_at s 1;
       if 56 \<le> c1 \<and> c1 \<le> 57 then Some (c1 - 56)
       else do { c2 \<leftarrow> str_at s 2; Some ((c1 - 48) * 10 + (c2 - 48) - 8) }
     }"

definition mark_temp_reg_free :: "cstring \<Rightarrow> cgstate \<Rightarrow> cgstate option" where
  "mark_temp_reg_free s cg =
     (if \<not> is_temp_reg s then Some cg
      else do {
        reg \<leftarrow> reg_index s;
        Some (if 0 \<le> reg \<and> nat reg < length (temp_reg cg)
              then cg\<lparr>temp_reg := (temp_reg cg)[nat reg := 0]\<rparr>
              else cg\<lparr>faults := faults cg @ [Wild_temp_reg reg]\<rparr>)
      })"

text \<open>The name of a register, as \<open>sprintf(reg_str, "$%d", reg)\<close> prints it, and the copy of a name
  into a local \<open>char reg_str[3]\<close>.\<close>

definition reg_name :: "int \<Rightarrow> cstring" where
  "reg_name r = ''$'' @ fmt_d r"

definition copy_reg_str :: "cstring \<Rightarrow> cgstate \<Rightarrow> cgstate" where
  "copy_reg_str s cg = (if length s < 3 then cg else cg\<lparr>faults := faults cg @ [Reg_str_overflow s]\<rparr>)"

end
