(* ===== verification/CodeGenInterfaces.thy ===== *)
theory CodeGenInterfaces
  imports Main
begin

text \<open>
  The interfaces between the parser and the code generator: the stack of label numbers that the
  actions of nested statements share, and the pool of temporary registers that the actions of
  expressions share. \<open>CodeGenSpec\<close> interprets both on the model of \<open>codegen.c\<close>.
\<close>

section \<open>A stack of bounded depth\<close>

locale bounded_stack =
  fixes inv :: "'s \<Rightarrow> bool"
    and contents :: "'s \<Rightarrow> int list"
    and capacity :: nat
    and push :: "'s \<Rightarrow> int \<Rightarrow> (bool \<times> 's) option"
    and top :: "'s \<Rightarrow> int option"
    and pop :: "'s \<Rightarrow> bool \<times> 's"
  assumes depth: "inv s \<Longrightarrow> length (contents s) \<le> capacity"
    and push_room: "inv s \<Longrightarrow> length (contents s) < capacity \<Longrightarrow>
      \<exists>s'. push s n = Some (True, s') \<and> inv s' \<and> contents s' = n # contents s"
    and top_contents: "inv s \<Longrightarrow> top s = Some (case contents s of [] \<Rightarrow> -1 | n # _ \<Rightarrow> n)"
    and pop_contents: "inv s \<Longrightarrow>
      \<exists>s'. pop s = (contents s \<noteq> [], s') \<and> inv s' \<and> contents s' = tl (contents s)"
begin

text \<open>What a statement pushes is on top again once its body has restored the stack.\<close>

lemma top_after_push:
  "inv s \<Longrightarrow> contents s = n # ns \<Longrightarrow> top s = Some n"
  by (simp add: top_contents)

lemma bracket:
  assumes "inv s" and "length (contents s) < capacity"
  obtains s' where "push s n = Some (True, s')" "inv s'" "contents s' = n # contents s"
    "\<And>s''. inv s'' \<Longrightarrow> contents s'' = contents s' \<Longrightarrow>
       top s'' = Some n \<and> inv (snd (pop s'')) \<and> contents (snd (pop s'')) = contents s"
proof -
  obtain s' where s': "push s n = Some (True, s')" "inv s'" "contents s' = n # contents s"
    using push_room [OF assms] by blast
  have "top s'' = Some n \<and> inv (snd (pop s'')) \<and> contents (snd (pop s'')) = contents s"
    if "inv s''" "contents s'' = contents s'" for s''
    using pop_contents [OF that(1)] top_contents [OF that(1)] that(2) s'(3) by auto
  with s' that show ?thesis by blast
qed

end

section \<open>A pool of registers\<close>

locale register_pool =
  fixes inv :: "'s \<Rightarrow> bool"
    and free :: "'s \<Rightarrow> nat set"
    and get :: "'s \<Rightarrow> int \<times> 's"
    and release :: "'n \<Rightarrow> 's \<Rightarrow> 's option"
    and regname :: "int \<Rightarrow> 'n"
    and regs :: "nat set"
  assumes free_regs: "inv s \<Longrightarrow> free s \<subseteq> regs"
    and finite_regs: "finite regs"
    and get_some: "inv s \<Longrightarrow> free s \<noteq> {} \<Longrightarrow>
      \<exists>s'. get s = (int (Min (free s)), s') \<and> inv s' \<and> free s' = free s - {Min (free s)}"
    and get_none: "inv s \<Longrightarrow> free s = {} \<Longrightarrow> get s = (-1, s)"
    and release_reg: "inv s \<Longrightarrow> r \<in> regs \<Longrightarrow>
      \<exists>s'. release (regname (int r)) s = Some s' \<and> inv s' \<and> free s' = insert r (free s)"
begin

lemma finite_free: "inv s \<Longrightarrow> finite (free s)"
  using free_regs finite_regs finite_subset by blast

lemma get_free:
  assumes "inv s" and "free s \<noteq> {}"
  obtains r s' where "get s = (int r, s')" "inv s'" "r \<in> free s" "r \<in> regs" "free s' = free s - {r}"
  using get_some [OF assms] Min_in [OF finite_free [OF assms(1)] assms(2)] free_regs [OF assms(1)]
  by blast

text \<open>A register that is taken and given back leaves the pool as it was.\<close>

lemma get_release:
  assumes "inv s" and "free s \<noteq> {}"
  shows "\<exists>r s' s''. get s = (int r, s') \<and> release (regname (int r)) s' = Some s'' \<and> inv s'' \<and> free s'' = free s"
proof -
  obtain r s' where r: "get s = (int r, s')" "inv s'" "r \<in> free s" "r \<in> regs" "free s' = free s - {r}"
    using get_free [OF assms] .
  then show ?thesis using release_reg [OF r(2,4)] by (metis insert_Diff)
qed

text \<open>Releasing a free register again changes nothing.\<close>

lemma release_free:
  "inv s \<Longrightarrow> r \<in> free s \<Longrightarrow> \<exists>s'. release (regname (int r)) s = Some s' \<and> inv s' \<and> free s' = free s"
  using release_reg [of s r] free_regs [of s] by (auto simp: insert_absorb)

end

end
