(* ===== verification/CodeGenSpec.thy ===== *)
theory CodeGenSpec
  imports CodeGen CodeGenInterfaces
begin

text \<open>
  The invariants of the code generator, and the interpretations of its interfaces: the label stack
  is a bounded stack and \<open>temp_reg\<close> is a pool of the registers 8 to 15.
\<close>

section \<open>The label stack\<close>

definition stack_inv :: "intstack_t \<Rightarrow> bool" where
  "stack_inv s \<longleftrightarrow>
     length (stack s) = STACK_SIZ \<and> -1 \<le> top_index s \<and> top_index s < int STACK_SIZ \<and>
     (\<forall>i. int i \<le> top_index s \<longrightarrow> stack s ! i \<noteq> None)"

definition stack_contents :: "intstack_t \<Rightarrow> int list" where
  "stack_contents s = rev (map the (take (nat (top_index s + 1)) (stack s)))"

lemma length_stack_contents: "stack_inv s \<Longrightarrow> length (stack_contents s) = nat (top_index s + 1)"
  unfolding stack_inv_def stack_contents_def by simp linarith

lemma stack_contents_step:
  assumes "stack_inv s" and "0 \<le> top_index s"
  shows "stack_contents s = the (stack s ! nat (top_index s)) # stack_contents (s\<lparr>top_index := top_index s - 1\<rparr>)"
proof -
  have "nat (top_index s + 1) = Suc (nat (top_index s))" and "nat (top_index s) < length (stack s)"
    using assms by (auto simp: stack_inv_def)
  then show ?thesis by (simp add: stack_contents_def take_Suc_conv_app_nth)
qed

lemma s_push_room:
  assumes inv: "stack_inv s" and room: "length (stack_contents s) < STACK_SIZ"
  shows "\<exists>s'. s_push s n = Some (True, s') \<and> stack_inv s' \<and> stack_contents s' = n # stack_contents s"
proof -
  let ?i = "top_index s + 1"
  let ?s = "s\<lparr>stack := (stack s)[nat ?i := Some n], top_index := ?i\<rparr>"
  have i: "0 \<le> ?i" "nat ?i < length (stack s)" "?i < int STACK_SIZ"
    using inv room length_stack_contents [OF inv] by (auto simp: stack_inv_def)
  then have run: "s_push s n = Some (True, ?s)" by (simp add: s_push_def Let_def)
  have "stack_inv ?s"
    using inv i by (auto simp: stack_inv_def nth_list_update)
  moreover from this have "stack_contents ?s = n # stack_contents s"
    using i stack_contents_step [of ?s] by (simp add: stack_contents_def)
  ultimately show ?thesis using run by blast
qed

lemma s_get_contents:
  assumes "stack_inv s"
  shows "s_get s = Some (case stack_contents s of [] \<Rightarrow> -1 | n # _ \<Rightarrow> n)"
proof (cases "top_index s < 0")
  case True
  then have "stack_contents s = []" by (simp add: stack_contents_def)
  with True show ?thesis by (simp add: s_get_def)
next
  case False
  then have "stack s ! nat (top_index s) \<noteq> None" "nat (top_index s) < length (stack s)"
    using assms by (auto simp: stack_inv_def)
  with False show ?thesis using stack_contents_step [OF assms] by (auto simp: s_get_def)
qed

lemma s_pop_contents:
  assumes "stack_inv s"
  shows "\<exists>s'. s_pop s = (stack_contents s \<noteq> [], s') \<and> stack_inv s' \<and> stack_contents s' = tl (stack_contents s)"
proof (cases "top_index s < 0")
  case True
  then have "stack_contents s = []" by (simp add: stack_contents_def)
  with True assms show ?thesis by (simp add: s_pop_def)
next
  case False
  then show ?thesis using stack_contents_step [OF assms] assms by (simp add: s_pop_def stack_inv_def)
qed

interpretation ls: bounded_stack stack_inv stack_contents STACK_SIZ s_push s_get s_pop
proof (unfold_locales, goal_cases)
  case (1 s) then show ?case by (auto simp: length_stack_contents stack_inv_def)
next
  case (2 s n) then show ?case by (rule s_push_room)
next
  case (3 s) then show ?case by (rule s_get_contents)
next
  case (4 s) then show ?case by (rule s_pop_contents)
qed

lemma s_push_full_iff:
  assumes "stack_inv s"
  shows "s_push s n = None \<longleftrightarrow> length (stack_contents s) = STACK_SIZ"
  unfolding length_stack_contents [OF assms]
  using assms by (auto simp: s_push_def stack_inv_def Let_def STACK_SIZ_def)

lemma s_init_stack: "stack_inv (s_init ())" "stack_contents (s_init ()) = []"
  by (simp_all add: s_init_def stack_inv_def stack_contents_def STACK_SIZ_def)

section \<open>The temporary registers\<close>

definition pool_inv :: "cgstate \<Rightarrow> bool" where
  "pool_inv cg \<longleftrightarrow> length (temp_reg cg) = 8"

definition free_regs :: "cgstate \<Rightarrow> nat set" where
  "free_regs cg = {i + 8 |i. i < length (temp_reg cg) \<and> temp_reg cg ! i = 0}"

lemma free_regs_iff:
  "n \<in> free_regs cg \<longleftrightarrow> 8 \<le> n \<and> n - 8 < length (temp_reg cg) \<and> temp_reg cg ! (n - 8) = 0"
  by (auto simp: free_regs_def intro: exI [of _ "n - 8"])

lemma first_free_None: "first_free rs i = None \<longleftrightarrow> (\<forall>j < length rs. rs ! j \<noteq> 0)"
  by (induction rs arbitrary: i) (auto simp: less_Suc_eq_0_disj)

lemma first_free_Some:
  "first_free rs i = Some k \<Longrightarrow> i \<le> k \<and> k - i < length rs \<and> rs ! (k - i) = 0 \<and> (\<forall>j < k - i. rs ! j \<noteq> 0)"
proof (induction rs arbitrary: i)
  case Nil
  then show ?case by simp
next
  case (Cons r rs)
  show ?case
  proof (cases "r = 0")
    case True
    then show ?thesis using Cons.prems by simp
  next
    case False
    then have IH: "Suc i \<le> k \<and> k - Suc i < length rs \<and> rs ! (k - Suc i) = 0 \<and> (\<forall>j < k - Suc i. rs ! j \<noteq> 0)"
      using Cons.IH [of "Suc i"] Cons.prems by simp
    then have "k - i = Suc (k - Suc i)" by linarith
    then show ?thesis using IH False by (auto simp: less_Suc_eq_0_disj)
  qed
qed

lemma get_free_temp_reg_none: "free_regs cg = {} \<Longrightarrow> get_free_temp_reg cg = (-1, cg)"
  using first_free_None [of "temp_reg cg" 0] by (auto simp: get_free_temp_reg_def free_regs_def)

lemma get_free_temp_reg_some:
  assumes "pool_inv cg" and "free_regs cg \<noteq> {}"
  shows "\<exists>cg'. get_free_temp_reg cg = (int (Min (free_regs cg)), cg') \<and> pool_inv cg' \<and>
    free_regs cg' = free_regs cg - {Min (free_regs cg)} \<and>
    cg' = cg\<lparr>temp_reg := temp_reg cg'\<rparr>"
proof -
  have "first_free (temp_reg cg) 0 \<noteq> None"
    using assms(2) by (auto simp: first_free_None free_regs_def)
  then obtain k where k: "first_free (temp_reg cg) 0 = Some k" by blast
  note f = first_free_Some [OF k]
  have "Min (free_regs cg) = k + 8"
  proof (rule Min_eqI)
    show "finite (free_regs cg)" by (simp add: free_regs_def)
    show "k + 8 \<le> y" if "y \<in> free_regs cg" for y
      using that f by (auto simp: free_regs_iff) (metis diff_zero le_diff_conv2 not_less)
    show "k + 8 \<in> free_regs cg" using f by (simp add: free_regs_iff)
  qed
  moreover have "free_regs (cg\<lparr>temp_reg := (temp_reg cg)[k := 1]\<rparr>) = free_regs cg - {k + 8}"
    using f by (auto simp: free_regs_iff nth_list_update split: if_splits)
  ultimately show ?thesis
    using k assms(1) by (simp add: get_free_temp_reg_def pool_inv_def)
qed

lemma reg_names:
  "reg_name 8 = ''$8''" "reg_name 9 = ''$9''" "reg_name 10 = ''$10''" "reg_name 11 = ''$11''"
  "reg_name 12 = ''$12''" "reg_name 13 = ''$13''" "reg_name 14 = ''$14''" "reg_name 15 = ''$15''"
  by code_simp+

text \<open>The number that \<open>mark_temp_reg_free\<close> reads off a register name.\<close>

lemma reg_index_reg_name:
  assumes "r \<in> {8..15}"
  shows "reg_index (reg_name (int r)) = Some (int r - 8)" and "is_temp_reg (reg_name (int r))"
proof -
  have "r = 8 \<or> r = 9 \<or> r = 10 \<or> r = 11 \<or> r = 12 \<or> r = 13 \<or> r = 14 \<or> r = 15"
    using assms by auto
  then show "reg_index (reg_name (int r)) = Some (int r - 8)"
    by (elim disjE) (simp_all add: reg_index_def reg_names str_at_def)
  show "is_temp_reg (reg_name (int r))" by (simp add: is_temp_reg_def reg_name_def)
qed

lemma mark_temp_reg_free_reg:
  assumes "pool_inv cg" and "r \<in> {8..15}"
  shows "mark_temp_reg_free (reg_name (int r)) cg = Some (cg\<lparr>temp_reg := (temp_reg cg)[r - 8 := 0]\<rparr>)"
    and "free_regs (cg\<lparr>temp_reg := (temp_reg cg)[r - 8 := 0]\<rparr>) = insert r (free_regs cg)"
proof -
  show "mark_temp_reg_free (reg_name (int r)) cg = Some (cg\<lparr>temp_reg := (temp_reg cg)[r - 8 := 0]\<rparr>)"
    using assms reg_index_reg_name [OF assms(2)] by (auto simp: mark_temp_reg_free_def pool_inv_def nat_diff_distrib)
  show "free_regs (cg\<lparr>temp_reg := (temp_reg cg)[r - 8 := 0]\<rparr>) = insert r (free_regs cg)"
    using assms by (auto simp: free_regs_iff pool_inv_def nth_list_update split: if_splits)
qed

interpretation rp: register_pool pool_inv free_regs get_free_temp_reg mark_temp_reg_free reg_name "{8..15}"
proof (unfold_locales, goal_cases)
  case (1 s) then show ?case by (auto simp: pool_inv_def free_regs_def)
next
  case 2 then show ?case by simp
next
  case (3 s) then show ?case using get_free_temp_reg_some by blast
next
  case (4 s) then show ?case by (intro get_free_temp_reg_none)
next
  case (5 s r)
  then show ?case using mark_temp_reg_free_reg [OF 5] by (simp add: pool_inv_def)
qed

end
