(* ===== verification/CodeGenProps.thy ===== *)
theory CodeGenProps
  imports CodeGenSpec
begin

text \<open>
  The properties of the code generator: the label stack against a list, the registers, and the
  string labels.
\<close>

section \<open>Sequences of calls on the label stack\<close>

datatype stack_op = Push int | Top | Pop

datatype stack_result = Pushed bool | Top_is int | Popped bool

fun stack_call :: "intstack_t \<Rightarrow> stack_op \<Rightarrow> (stack_result \<times> intstack_t) option" where
  "stack_call s (Push n) = do { (ok, s') \<leftarrow> s_push s n; Some (Pushed ok, s') }"
| "stack_call s Top = do { n \<leftarrow> s_get s; Some (Top_is n, s) }"
| "stack_call s Pop = (let (ok, s') = s_pop s in Some (Popped ok, s'))"

fun stack_calls :: "intstack_t \<Rightarrow> stack_op list \<Rightarrow> (stack_result list \<times> intstack_t) option" where
  "stack_calls s [] = Some ([], s)"
| "stack_calls s (c # cs) =
     do { (r, s') \<leftarrow> stack_call s c; (rs, s'') \<leftarrow> stack_calls s' cs; Some (r # rs, s'') }"

fun list_calls :: "int list \<Rightarrow> stack_op list \<Rightarrow> stack_result list \<times> int list" where
  "list_calls ns [] = ([], ns)"
| "list_calls ns (Push n # cs) = (let (rs, ns') = list_calls (n # ns) cs in (Pushed True # rs, ns'))"
| "list_calls ns (Top # cs) =
     (let (rs, ns') = list_calls ns cs in (Top_is (case ns of [] \<Rightarrow> -1 | n # _ \<Rightarrow> n) # rs, ns'))"
| "list_calls ns (Pop # cs) =
     (let (rs, ns') = list_calls (tl ns) cs in (Popped (ns \<noteq> []) # rs, ns'))"

text \<open>The depth never exceeds \<open>n\<close> in a run that starts with depth \<open>d\<close>.\<close>

fun depth_within :: "nat \<Rightarrow> nat \<Rightarrow> stack_op list \<Rightarrow> bool" where
  "depth_within n d [] \<longleftrightarrow> True"
| "depth_within n d (Push x # cs) \<longleftrightarrow> d < n \<and> depth_within n (Suc d) cs"
| "depth_within n d (Top # cs) \<longleftrightarrow> depth_within n d cs"
| "depth_within n d (Pop # cs) \<longleftrightarrow> depth_within n (d - 1) cs"

lemma stack_calls_list:
  "stack_inv s \<Longrightarrow> depth_within STACK_SIZ (length (stack_contents s)) cs \<Longrightarrow>
     \<exists>s'. stack_calls s cs = Some (fst (list_calls (stack_contents s) cs), s') \<and> stack_inv s' \<and>
       stack_contents s' = snd (list_calls (stack_contents s) cs)"
proof (induction cs arbitrary: s)
  case Nil
  then show ?case by simp
next
  case (Cons c cs)
  show ?case
  proof (cases c)
    case (Push n)
    then obtain s' where s': "s_push s n = Some (True, s')" "stack_inv s'"
      "stack_contents s' = n # stack_contents s"
      using ls.push_room [OF Cons.prems(1)] Cons.prems(2) by auto
    then show ?thesis
      using Cons.IH [OF s'(2)] Cons.prems(2) Push by (auto simp: Let_def split: prod.split)
  next
    case Top
    then show ?thesis
      using Cons.IH [OF Cons.prems(1)] Cons.prems ls.top_contents [OF Cons.prems(1)]
      by (auto simp: Let_def split: prod.split)
  next
    case Pop
    obtain s' where s': "s_pop s = (stack_contents s \<noteq> [], s')" "stack_inv s'"
      "stack_contents s' = tl (stack_contents s)"
      using ls.pop_contents [OF Cons.prems(1)] by blast
    then show ?thesis
      using Cons.IH [OF s'(2)] Cons.prems(2) Pop by (auto simp: Let_def split: prod.split)
  qed
qed

section \<open>String labels\<close>

definition string_label :: "nat \<Rightarrow> cstring" where
  "string_label n = ''_slabel'' @ fmt_d (int n)"

lemma string_label_eq_iff: "string_label m = string_label n \<longleftrightarrow> m = n"
  using nat_digits_inj [of m n] by (auto simp: string_label_def fmt_d_def)

text \<open>The entries waiting for \<open>gen_string_labels\<close>, and the labels it has defined so far.\<close>

definition pending :: "cgstate \<Rightarrow> stringlabel list" where
  "pending cg = take (sconst_label_counter cg) (slabel_arr cg)"

fun string_labels_of :: "asm list \<Rightarrow> cstring list" where
  "string_labels_of [] = []"
| "string_labels_of (Asciiz_data l s # as) = l # string_labels_of as"
| "string_labels_of (a # as) = string_labels_of as"

lemma string_labels_of_append [simp]: "string_labels_of (as @ bs) = string_labels_of as @ string_labels_of bs"
  by (induction as rule: string_labels_of.induct) auto

text \<open>The names that are defined by the lines of global variables, one word each.\<close>

fun word_labels_of :: "asm list \<Rightarrow> cstring list" where
  "word_labels_of [] = []"
| "word_labels_of (Word_data l # as) = l # word_labels_of as"
| "word_labels_of (a # as) = word_labels_of as"

lemma word_labels_of_append [simp]: "word_labels_of (as @ bs) = word_labels_of as @ word_labels_of bs"
  by (induction as rule: word_labels_of.induct) auto

lemma word_labels_of_lines:
  "word_labels_of (map string_label_line sls) = filter (\<lambda>s. take 4 s = ''____'') (map str sls)"
  by (induction sls) (simp_all add: string_label_line_def)

definition label_inv :: "cgstate \<Rightarrow> bool" where
  "label_inv cg \<longleftrightarrow>
     length (slabel_arr cg) = 100 \<and> sconst_label_counter cg \<le> 100 \<and>
     sconst_label_counter cg \<le> sconst_label_gen cg \<and>
     map label (pending cg)
       = map string_label [sconst_label_gen cg - sconst_label_counter cg ..< sconst_label_gen cg] \<and>
     distinct (string_labels_of (yyout cg)) \<and>
     set (string_labels_of (yyout cg)) \<subseteq> string_label ` {..<sconst_label_gen cg - sconst_label_counter cg}"

lemma init_label_inv: "label_inv init_cgstate"
  by (simp add: label_inv_def init_cgstate_def pending_def)

lemma length_pending: "label_inv cg \<Longrightarrow> length (pending cg) = sconst_label_counter cg"
  by (simp add: label_inv_def pending_def)

lemma push_string_label_spec:
  assumes inv: "label_inv cg" and room: "length (pending cg) < 100" and len: "length s < 100"
    and gen: "sconst_label_gen cg < 10 ^ 12"
  shows "\<exists>cg'. push_string_label s cg = Some (string_label (sconst_label_gen cg), cg') \<and> label_inv cg' \<and>
    pending cg' = pending cg @ [\<lparr>label = string_label (sconst_label_gen cg), str = s\<rparr>] \<and>
    yyout cg' = yyout cg \<and> temp_reg cg' = temp_reg cg"
proof -
  let ?n = "sconst_label_counter cg" and ?g = "sconst_label_gen cg"
  let ?sl = "\<lparr>label = string_label ?g, str = s\<rparr>"
  let ?cg = "cg\<lparr>slabel_arr := (slabel_arr cg)[?n := ?sl], sconst_label_counter := ?n + 1,
                sconst_label_gen := ?g + 1\<rparr>"
  have n: "?n < 100" "?n < length (slabel_arr cg)" "?n \<le> ?g"
    using inv room length_pending [OF inv] by (simp_all add: label_inv_def)
  have "length (string_label ?g) < 20"
    using length_nat_digits [of ?g 11] gen by (simp add: string_label_def fmt_d_def)
  then have run: "push_string_label s cg = Some (string_label ?g, ?cg)"
    using n len by (simp add: push_string_label_def string_label_def Let_def)
  have p: "pending ?cg = pending cg @ [?sl]"
    using n by (simp add: pending_def take_Suc_conv_app_nth)
  have "[Suc ?g - Suc ?n ..< Suc ?g] = [?g - ?n ..< ?g] @ [?g]" using n by simp
  then have "label_inv ?cg"
    using inv n p unfolding label_inv_def by simp
  with run p show ?thesis by auto
qed

lemma string_labels_of_line:
  "string_labels_of (string_label_line sl # as)
     = (if take 4 (str sl) = ''____'' then [] else [label sl]) @ string_labels_of as"
  by (simp add: string_label_line_def)

lemma string_labels_of_pending:
  "set (string_labels_of (map string_label_line sls)) \<subseteq> label ` set sls"
  by (induction sls) (auto simp: string_labels_of_line)

lemma string_labels_of_distinct:
  "distinct (map label sls) \<Longrightarrow> distinct (string_labels_of (map string_label_line sls))"
proof (induction sls)
  case Nil
  then show ?case by simp
next
  case (Cons sl sls)
  then show ?case using string_labels_of_pending [of sls] by (auto simp: string_labels_of_line)
qed

lemma gen_string_labels_spec:
  assumes inv: "label_inv cg"
  shows "label_inv (gen_string_labels cg)" and "pending (gen_string_labels cg) = []"
    and "yyout (gen_string_labels cg) = yyout cg @ map string_label_line (pending cg)"
proof -
  let ?n = "sconst_label_counter cg" and ?g = "sconst_label_gen cg"
  show "pending (gen_string_labels cg) = []" by (simp add: pending_def gen_string_labels_def emits_def)
  show out: "yyout (gen_string_labels cg) = yyout cg @ map string_label_line (pending cg)"
    by (simp add: pending_def gen_string_labels_def emits_def)
  have labs: "map label (pending cg) = map string_label [?g - ?n ..< ?g]" and n: "?n \<le> ?g"
    using inv by (simp_all add: label_inv_def)
  have "distinct (map label (pending cg))"
    unfolding labs by (simp add: distinct_map inj_on_def string_label_eq_iff)
  note p = string_labels_of_pending [of "pending cg"] string_labels_of_distinct [OF this]
  have set_labs: "label ` set (pending cg) = string_label ` {?g - ?n ..< ?g}"
    using labs by (metis atLeastLessThan_upt set_map)
  have old: "set (string_labels_of (yyout cg)) \<subseteq> string_label ` {..<?g - ?n}"
    using inv by (simp add: label_inv_def)
  have "string_label ` {..<?g - ?n} \<inter> string_label ` {?g - ?n ..< ?g} = {}"
    by (auto simp: string_label_eq_iff)
  then have "set (string_labels_of (yyout cg)) \<inter> set (string_labels_of (map string_label_line (pending cg))) = {}"
    using old p(1) unfolding set_labs by blast
  moreover have "set (string_labels_of (map string_label_line (pending cg))) \<subseteq> string_label ` {..<?g}"
    using p(1) unfolding set_labs by auto
  moreover have "set (string_labels_of (yyout cg)) \<subseteq> string_label ` {..<?g}"
    using old by (rule order_trans) auto
  ultimately have lab: "distinct (string_labels_of (yyout (gen_string_labels cg)))"
      "set (string_labels_of (yyout (gen_string_labels cg))) \<subseteq> string_label ` {..<?g}"
    using inv p(2) unfolding out by (simp_all add: label_inv_def)
  have "slabel_arr (gen_string_labels cg) = slabel_arr cg" "sconst_label_counter (gen_string_labels cg) = 0"
    "sconst_label_gen (gen_string_labels cg) = ?g"
    by (simp_all add: gen_string_labels_def emits_def)
  then show "label_inv (gen_string_labels cg)"
    using inv lab unfolding label_inv_def pending_def by simp
qed

section \<open>Properties\<close>

text \<open>C14: on every sequence of calls whose depth stays within \<open>STACK_SIZ\<close>, the label stack behaves
  as a list: a push succeeds, the top is the last number pushed and not yet popped, and \<open>-1\<close> or
  false is the answer of the empty stack.\<close>

theorem label_stack_is_list:
  assumes "depth_within STACK_SIZ 0 cs"
  shows "\<exists>s. stack_calls (s_init ()) cs = Some (fst (list_calls [] cs), s) \<and> stack_contents s = snd (list_calls [] cs)"
  using stack_calls_list [of "s_init ()" cs] assms s_init_stack by auto

theorem label_stack_is_list_witness:
  "\<exists>s. stack_calls (s_init ()) [Push 1, Push 2, Top, Pop, Top, Pop, Pop, Top]
     = Some ([Pushed True, Pushed True, Top_is 2, Popped True, Top_is 1, Popped True, Popped False, Top_is (-1)], s)"
  using label_stack_is_list [of "[Push 1, Push 2, Top, Pop, Top, Pop, Pop, Top]"]
  by (auto simp: STACK_SIZ_def)

text \<open>the answer "stack is full" is never given: a push on a full stack of \<open>STACK_SIZ\<close> labels
  writes behind the array, and every other push succeeds.\<close>

theorem s_push_full:
  assumes "stack_inv s"
  shows "(s_push s n = None \<longleftrightarrow> length (stack_contents s) = STACK_SIZ) \<and> s_push s n \<noteq> Some (False, s')"
  using s_push_full_iff [OF assms] assms by (auto simp: s_push_def stack_inv_def Let_def STACK_SIZ_def)

theorem s_push_full_witness:
  "s_push \<lparr>stack = replicate 1000 (Some 7), top_index = 999\<rparr> 8 = None"
  using s_push_full [of "\<lparr>stack = replicate 1000 (Some 7), top_index = 999\<rparr>" 8]
  by (simp add: stack_inv_def stack_contents_def STACK_SIZ_def)

text \<open>C15: a register is handed out only when it is free, it is the lowest free one, and giving it
  back by its printed name restores the pool; with no free register the answer is \<open>-1\<close>.\<close>

theorem temp_reg_round_trip:
  assumes "pool_inv cg"
  shows "if free_regs cg = {} then get_free_temp_reg cg = (-1, cg)
    else \<exists>cg1 cg2. get_free_temp_reg cg = (int (Min (free_regs cg)), cg1) \<and>
      free_regs cg1 = free_regs cg - {Min (free_regs cg)} \<and>
      mark_temp_reg_free (reg_name (int (Min (free_regs cg)))) cg1 = Some cg2 \<and>
      free_regs cg2 = free_regs cg \<and> yyout cg2 = yyout cg \<and> faults cg2 = faults cg"
proof (cases "free_regs cg = {}")
  case True
  then show ?thesis using rp.get_none [OF assms] by simp
next
  case False
  obtain cg1 where g: "get_free_temp_reg cg = (int (Min (free_regs cg)), cg1)" "pool_inv cg1"
    "free_regs cg1 = free_regs cg - {Min (free_regs cg)}" "cg1 = cg\<lparr>temp_reg := temp_reg cg1\<rparr>"
    using get_free_temp_reg_some [OF assms False] by blast
  have m: "Min (free_regs cg) \<in> free_regs cg" "Min (free_regs cg) \<in> {8..15}"
    using Min_in [OF rp.finite_free [OF assms] False] rp.free_regs [OF assms] by auto
  have same: "yyout cg1 = yyout cg" "faults cg1 = faults cg"
    by (subst g(4), simp)+
  show ?thesis
    using False g(1,3) mark_temp_reg_free_reg [OF g(2) m(2)] same m(1) by (auto simp: insert_absorb)
qed

theorem temp_reg_round_trip_witness:
  "\<exists>cg1 cg2. get_free_temp_reg init_cgstate = (8, cg1) \<and> mark_temp_reg_free ''$8'' cg1 = Some cg2 \<and>
     free_regs cg2 = {8..15}"
proof -
  have inv: "pool_inv init_cgstate" by (simp add: pool_inv_def init_cgstate_def)
  have all: "free_regs init_cgstate = {8..15}"
    by (auto simp: free_regs_iff init_cgstate_def)
  have "Min {8..15::nat} = 8" by (rule Min_eqI) auto
  then show ?thesis using temp_reg_round_trip [OF inv] by (simp add: all reg_names) blast
qed

text \<open>C18: of the operands the parser passes to \<open>mark_temp_reg_free\<close>, memory operands have no
  effect, register names free their register, and \<open>$v0\<close> (the result of a call or of \<open>read()\<close>) and
  \<open>$-1\<close> (the name made of a failed request) clear a word far outside of the eight of \<open>temp_reg\<close>.\<close>

theorem mark_temp_reg_free_operands:
  assumes "pool_inv cg"
  shows "(\<forall>r \<in> {8..15}. mark_temp_reg_free (reg_name (int r)) cg = Some (cg\<lparr>temp_reg := (temp_reg cg)[r - 8 := 0]\<rparr>)) \<and>
    (\<forall>p. \<not> is_temp_reg p \<longrightarrow> mark_temp_reg_free p cg = Some cg) \<and>
    mark_temp_reg_free ''$v0'' cg = Some (cg\<lparr>faults := faults cg @ [Wild_temp_reg 692]\<rparr>) \<and>
    mark_temp_reg_free (reg_name (-1)) cg = Some (cg\<lparr>faults := faults cg @ [Wild_temp_reg (-37)]\<rparr>)"
proof (intro conjI)
  show "\<forall>r \<in> {8..15}. mark_temp_reg_free (reg_name (int r)) cg = Some (cg\<lparr>temp_reg := (temp_reg cg)[r - 8 := 0]\<rparr>)"
    using mark_temp_reg_free_reg(1) [OF assms] by blast
  show "\<forall>p. \<not> is_temp_reg p \<longrightarrow> mark_temp_reg_free p cg = Some cg"
    by (simp add: mark_temp_reg_free_def)
  show "mark_temp_reg_free ''$v0'' cg = Some (cg\<lparr>faults := faults cg @ [Wild_temp_reg 692]\<rparr>)"
    using assms by (simp add: mark_temp_reg_free_def is_temp_reg_def reg_index_def str_at_def pool_inv_def)
  have "reg_name (-1) = ''$-1''" by code_simp
  then show "mark_temp_reg_free (reg_name (-1)) cg = Some (cg\<lparr>faults := faults cg @ [Wild_temp_reg (-37)]\<rparr>)"
    by (simp add: mark_temp_reg_free_def is_temp_reg_def reg_index_def str_at_def)
qed

theorem mark_temp_reg_free_operands_witness:
  "mark_temp_reg_free ''$v0'' init_cgstate = Some (init_cgstate\<lparr>faults := [Wild_temp_reg 692]\<rparr>)"
proof -
  have "pool_inv init_cgstate" by (simp add: pool_inv_def init_cgstate_def)
  from mark_temp_reg_free_operands [OF this] show ?thesis by (simp add: init_cgstate_def)
qed

text \<open>C16: as long as there is room, a string gets a label that no waiting string and no line of the
  output has, and the string waits at the end of the list.\<close>

theorem push_string_label_fresh:
  assumes "label_inv cg" and "length (pending cg) < 100" and "length s < 100"
    and "sconst_label_gen cg < 10 ^ 12"
  shows "\<exists>lab cg'. push_string_label s cg = Some (lab, cg') \<and> label_inv cg' \<and>
    pending cg' = pending cg @ [\<lparr>label = lab, str = s\<rparr>] \<and>
    lab \<notin> label ` set (pending cg) \<and> lab \<notin> set (string_labels_of (yyout cg))"
proof -
  let ?g = "sconst_label_gen cg"
  have "label ` set (pending cg) = string_label ` {?g - sconst_label_counter cg ..< ?g}"
    using assms(1) unfolding label_inv_def by (metis atLeastLessThan_upt set_map)
  then have "string_label ?g \<notin> label ` set (pending cg)" by (auto simp: string_label_eq_iff)
  moreover have "string_label ?g \<notin> set (string_labels_of (yyout cg))"
    using assms(1) by (auto simp: label_inv_def string_label_eq_iff)
  ultimately show ?thesis using push_string_label_spec [OF assms] by blast
qed

theorem push_string_label_fresh_witness:
  "\<exists>cg1 cg2 lab. push_string_label ''a'' init_cgstate = Some (''_slabel0'', cg1) \<and>
     push_string_label ''a'' cg1 = Some (lab, cg2) \<and> lab \<noteq> ''_slabel0''"
proof -
  have z: "string_label 0 = ''_slabel0''" by code_simp
  have len: "length ''a'' < 100" by simp
  have p: "pending init_cgstate = []" "sconst_label_gen init_cgstate = 0"
    by (simp_all add: pending_def init_cgstate_def)
  obtain cg1 where cg1: "push_string_label ''a'' init_cgstate = Some (''_slabel0'', cg1)" "label_inv cg1"
    "pending cg1 = [\<lparr>label = ''_slabel0'', str = ''a''\<rparr>]"
    using push_string_label_spec [OF init_label_inv _ len] p z by auto
  have "sconst_label_gen cg1 = 1"
    using cg1(1) by (auto simp: push_string_label_def init_cgstate_def Let_def split: if_splits)
  then show ?thesis using push_string_label_fresh [OF cg1(2) _ len] cg1(1,3) by auto
qed

text \<open>C17: \<open>gen_string_labels\<close> writes one line for each waiting entry, in their order, and empties the list. No label
  of a string constant (the lines \<open>.asciiz\<close>) is ever defined twice in the output. The other lines (\<open>.word 0\<close>) define the waiting
  names that begin with four underscores, each as often as it waits, so that such a name must not be pushed twice.\<close>

theorem gen_string_labels_once:
  assumes "label_inv cg"
  shows "yyout (gen_string_labels cg) = yyout cg @ map string_label_line (pending cg) \<and>
    pending (gen_string_labels cg) = [] \<and>
    distinct (string_labels_of (yyout (gen_string_labels cg))) \<and>
    word_labels_of (yyout (gen_string_labels cg)) =
      word_labels_of (yyout cg) @ filter (\<lambda>s. take 4 s = ''____'') (map str (pending cg))"
  using gen_string_labels_spec [OF assms] by (simp add: label_inv_def word_labels_of_lines)

theorem gen_string_labels_once_witness:
  "\<exists>cg. push_string_label ''a'' init_cgstate = Some (''_slabel0'', cg) \<and>
     yyout (gen_string_labels cg) = [Asciiz_data ''_slabel0'' ''a'']"
proof -
  have z: "string_label 0 = ''_slabel0''" by code_simp
  have p: "pending init_cgstate = []" "sconst_label_gen init_cgstate = 0" "yyout init_cgstate = []"
    by (simp_all add: pending_def init_cgstate_def)
  obtain cg where cg: "push_string_label ''a'' init_cgstate = Some (''_slabel0'', cg)" "label_inv cg"
    "pending cg = [\<lparr>label = ''_slabel0'', str = ''a''\<rparr>]" "yyout cg = []"
    using push_string_label_spec [OF init_label_inv, of "''a''"] p z by auto
  then show ?thesis using gen_string_labels_once [OF cg(2)] by (simp add: string_label_line_def)
qed

end
