(* ===== verification/Lexer.thy ===== *)
theory Lexer
  imports SymbolTable TypeTable CodeGen
begin

text \<open>
  The state of the parser of \<open>Assig4/parser.y\<close>, the results of its actions, and the actions of the
  scanner \<open>Assig4/lexer3.l\<close> for identifiers and constants, which create and look up symbols.
\<close>

section \<open>The parser's state\<close>

text \<open>
  The globals of \<open>parser.y\<close> and of the modules it uses. \<open>yylval_s\<close> is the symbol that the scanner
  left in \<open>yylval\<close> for its last identifier or constant. \<open>linenumber\<close> is only printed in error
  messages and has no field.
\<close>

record pstate =
  sy :: symstate
  ty_tab :: typestate
  cg :: cgstate
  label_stack :: intstack_t
  label_no :: int
  cur_scope :: int
  local_var_counter :: int
  current_function :: ptr
  yylval_s :: ptr

section \<open>Actions\<close>

text \<open>
  An action ends normally, or the compiler exits through \<open>yyerror\<close> with a message, or the behaviour
  is undefined (this includes loops that never end).
\<close>

datatype 'a result = Ok 'a pstate | Exit cstring | Undef

type_synonym 'a action = "pstate \<Rightarrow> 'a result"

definition ret :: "'a \<Rightarrow> 'a action" where
  "ret x = (\<lambda>st. Ok x st)"

definition andthen :: "'a action \<Rightarrow> ('a \<Rightarrow> 'b action) \<Rightarrow> 'b action" where
  "andthen m k = (\<lambda>st. case m st of Ok x st' \<Rightarrow> k x st' | Exit e \<Rightarrow> Exit e | Undef \<Rightarrow> Undef)"

definition seq :: "unit action \<Rightarrow> 'b action \<Rightarrow> 'b action" where
  "seq m k = andthen m (\<lambda>_. k)"

definition yyerror :: "cstring \<Rightarrow> 'a action" where
  "yyerror msg = (\<lambda>st. Exit msg)"

definition undef :: "'a action" where
  "undef = (\<lambda>st. Undef)"

definition when_do :: "bool \<Rightarrow> unit action \<Rightarrow> unit action" where
  "when_do b m = (if b then m else ret ())"

text \<open>Reading the state, and lifting the operations of the modules.\<close>

definition gets :: "(pstate \<Rightarrow> 'a) \<Rightarrow> 'a action" where
  "gets f = (\<lambda>st. Ok (f st) st)"

definition modify :: "(pstate \<Rightarrow> pstate) \<Rightarrow> unit action" where
  "modify f = (\<lambda>st. Ok () (f st))"

definition defined_in :: "(pstate \<Rightarrow> 'a option) \<Rightarrow> 'a action" where
  "defined_in f = (\<lambda>st. case f st of None \<Rightarrow> Undef | Some x \<Rightarrow> Ok x st)"

definition with_sy :: "(symstate \<Rightarrow> ('a \<times> symstate) option) \<Rightarrow> 'a action" where
  "with_sy f = (\<lambda>st. case f (sy st) of None \<Rightarrow> Undef | Some (x, s) \<Rightarrow> Ok x (st\<lparr>sy := s\<rparr>))"

definition with_ty :: "(typestate \<Rightarrow> ('a \<times> typestate) option) \<Rightarrow> 'a action" where
  "with_ty f = (\<lambda>st. case f (ty_tab st) of None \<Rightarrow> Undef | Some (x, t) \<Rightarrow> Ok x (st\<lparr>ty_tab := t\<rparr>))"

definition with_cg :: "(cgstate \<Rightarrow> ('a \<times> cgstate) option) \<Rightarrow> 'a action" where
  "with_cg f = (\<lambda>st. case f (cg st) of None \<Rightarrow> Undef | Some (x, c) \<Rightarrow> Ok x (st\<lparr>cg := c\<rparr>))"

definition out :: "asm \<Rightarrow> unit action" where
  "out l = modify (\<lambda>st. st\<lparr>cg := emit l (cg st)\<rparr>)"

definition free_reg :: "cstring \<Rightarrow> unit action" where
  "free_reg s = with_cg (\<lambda>c. do { c' \<leftarrow> mark_temp_reg_free s c; Some ((), c') })"

text \<open>Reading and writing symbols through pointers.\<close>

definition sym_at :: "addr \<Rightarrow> symtab_entry action" where
  "sym_at a = defined_in (\<lambda>st. syms (sy st) a)"

definition sym_upd :: "addr \<Rightarrow> (symtab_entry \<Rightarrow> symtab_entry) \<Rightarrow> unit action" where
  "sym_upd a f =
     with_sy (\<lambda>s. case syms s a of None \<Rightarrow> None | Some e \<Rightarrow> Some ((), s\<lparr>syms := (syms s)(a \<mapsto> f e)\<rparr>))"

text \<open>\<open>strcpy\<close> into the field \<open>place\<close> of \<open>ID_SIZ\<close> bytes.\<close>

definition set_place :: "addr \<Rightarrow> cstring \<Rightarrow> unit action" where
  "set_place a p = (if length p < ID_SIZ then sym_upd a (place_update (\<lambda>_. p)) else undef)"

definition lookup_here :: "cstring \<Rightarrow> ptr action" where
  "lookup_here nm = defined_in (\<lambda>st. lookup_symtab (sy st) nm (cur_scope st))"

definition lookup_from :: "cstring \<Rightarrow> int \<Rightarrow> ptr action" where
  "lookup_from nm sc = defined_in (\<lambda>st. lookup_symtab_prevscope (sy st) nm sc)"

lemmas action_defs = ret_def andthen_def seq_def yyerror_def undef_def when_do_def gets_def modify_def
  defined_in_def with_sy_def with_ty_def with_cg_def out_def free_reg_def sym_at_def sym_upd_def
  set_place_def lookup_here_def lookup_from_def

section \<open>Runs that end normally\<close>

lemma ret_run: "ret y st = Ok x st' \<longleftrightarrow> x = y \<and> st' = st"
  and gets_run: "gets f st = Ok x st' \<longleftrightarrow> x = f st \<and> st' = st"
  and modify_run: "modify g st = Ok u st' \<longleftrightarrow> st' = g st"
  and defined_in_run: "defined_in h st = Ok x st' \<longleftrightarrow> h st = Some x \<and> st' = st"
  and sym_at_run: "sym_at a st = Ok s st' \<longleftrightarrow> syms (sy st) a = Some s \<and> st' = st"
  and yyerror_run: "yyerror msg st \<noteq> Ok x st'"
  and undef_run: "undef st \<noteq> Ok x st'"
  by (auto simp: action_defs split: option.splits)

lemma seq_modify: "seq (modify f) k st = k (f st)"
  by (simp add: seq_def andthen_def modify_def)

lemma andthen_assoc: "andthen (andthen m k) l = andthen m (\<lambda>x. andthen (k x) l)"
  by (auto simp: andthen_def fun_eq_iff split: result.split)

lemma andthen_OkE:
  assumes "andthen m k st = Ok x st'"
  obtains y st1 where "m st = Ok y st1" "k y st1 = Ok x st'"
  using assms by (auto simp: andthen_def split: result.splits)

lemma seq_OkE:
  assumes "seq m k st = Ok x st'"
  obtains y st1 where "m st = Ok y st1" "k st1 = Ok x st'"
  using assms unfolding seq_def by (rule andthen_OkE)

lemmas run_simps = ret_run gets_run modify_run defined_in_run sym_at_run yyerror_run undef_run seq_modify

section \<open>The scanner\<close>

datatype token_kind = T_ID | T_TYPEDEF_NAME | T_STRUCT_NAME

text \<open>
  The action of the scanner for a name: it finds the symbol in the current scope or creates one,
  and the type table decides which token the name is. The name of a structure is copied into the
  100 bytes of \<open>yylval.str\<close>.
\<close>

definition scan_symbol :: "cstring \<Rightarrow> addr action" where
  "scan_symbol yytext =
     andthen (lookup_here yytext) (\<lambda>s.
     andthen (case s of
                None \<Rightarrow> andthen (gets cur_scope) (\<lambda>sc. with_sy (\<lambda>s. create_symbol s yytext sc))
              | Some a \<Rightarrow> ret a) (\<lambda>a.
     seq (modify (\<lambda>st. st\<lparr>yylval_s := Some a\<rparr>))
     (ret a)))"

definition lex_ID :: "cstring \<Rightarrow> (token_kind \<times> addr) action" where
  "lex_ID yytext =
     andthen (scan_symbol yytext) (\<lambda>a.
     andthen (defined_in (\<lambda>st. is_type_exists (ty_tab st) yytext)) (\<lambda>known.
     if \<not> known then ret (T_ID, a)
     else
       andthen (defined_in (\<lambda>st. get_type (ty_tab st) yytext)) (\<lambda>t.
       if t = TYPEDEF_TY then ret (T_TYPEDEF_NAME, a)
       else if t = STRUCT_TY then (if length yytext < 100 then ret (T_STRUCT_NAME, a) else undef)
       else ret (T_ID, a))))"

definition lex_const :: "type_enum \<Rightarrow> cstring \<Rightarrow> addr action" where
  "lex_const t yytext =
     andthen (scan_symbol yytext) (\<lambda>a.
     seq (sym_upd a (ty_update (\<lambda>_. t)))
     (ret a))"

definition lex_ICONST :: "cstring \<Rightarrow> addr action" where
  "lex_ICONST = lex_const INT_TY"

definition lex_FCONST :: "cstring \<Rightarrow> addr action" where
  "lex_FCONST = lex_const FLOAT_TY"

text \<open>
  Where the grammar has the token \<open>ID\<close>, the name of a type is a syntax error; the same for the
  other two tokens a name can be.
\<close>

definition expect :: "token_kind \<Rightarrow> cstring \<Rightarrow> addr action" where
  "expect k yytext =
     andthen (lex_ID yytext) (\<lambda>(k', a). if k' = k then ret a else yyerror ''syntax error'')"

text \<open>A string constant is copied into the 100 bytes of \<open>yylval.str\<close>, with its quotes.\<close>

definition lex_SCONST :: "cstring \<Rightarrow> cstring action" where
  "lex_SCONST yytext = (if length yytext < 100 then ret yytext else undef)"

end
