(* ===== verification/Parser.thy ===== *)
theory Parser
  imports Lexer
begin

text \<open>
  The semantic actions of the grammar in \<open>Assig4/parser.y\<close>: type checking and code generation. The
  automaton that recognises the grammar is generated by bison; here a program is a parse tree, with
  one constructor per production, and the actions of a tree run in the order in which the
  parser runs them, left to right and bottom-up. A name or constant is scanned when its leaf is
  reached. No action changes what the scanner reads while an unread name is the parser's lookahead,
  because the rules that open or close a scope or enter a name end before a delimiter or are
  reduced without lookahead.
\<close>

section \<open>Parse trees of expressions\<close>

text \<open>
  The productions of \<open>expr\<close>, \<open>lhs\<close>, \<open>array_subscript\<close>, \<open>subscript_expr\<close>, \<open>function_call\<close>,
  \<open>call_param_list\<close> and \<open>param\<close>.
\<close>

datatype
  expr_t = E_lhs lhs_t | E_paren expr_t | E_binop expr_t cstring expr_t | E_unop cstring expr_t
       | E_iconst cstring | E_fconst cstring | E_call call_t
and
  lhs_t = L_sub_field cstring subs_t cstring | L_sub cstring subs_t | L_field cstring cstring | L_id cstring
and
  subs_t = Sub_none | Sub_cons subscript_t subs_t
and
  subscript_t = S_id cstring | S_iconst cstring | S_fconst cstring | S_expr expr_t | S_none
and
  call_t = Call cstring params_t
and
  params_t = P_none | P_cons param_t params_t
and
  param_t = P_lhs lhs_t | P_iconst cstring | P_fconst cstring

section \<open>Operands\<close>

text \<open>
  The sequence that puts an operand into a register: the name of the register is copied into
  \<open>reg_str\<close>, and an operand in memory is loaded into the first free register.
\<close>

definition copy_name :: "cstring \<Rightarrow> unit action" where
  "copy_name s = modify (\<lambda>st. st\<lparr>cg := copy_reg_str s (cg st)\<rparr>)"

definition new_reg :: "cstring action" where
  "new_reg =
     andthen (with_cg (\<lambda>c. Some (get_free_temp_reg c))) (\<lambda>r.
     seq (copy_name (reg_name r))
     (ret (reg_name r)))"

definition load_operand :: "addr \<Rightarrow> cstring action" where
  "load_operand a =
     andthen (sym_at a) (\<lambda>s.
     if is_temp_reg (place s) then seq (copy_name (place s)) (ret (place s))
     else
       andthen new_reg (\<lambda>r.
       seq (out (Op ''lw'' [r, place s] ('' # '' @ name s)))
       (ret r)))"

text \<open>The instruction of a binary operator; \<open>None\<close> is the operator that is not supported.\<close>

definition op_instr :: "cstring \<Rightarrow> cstring option" where
  "op_instr b =
     (if take 1 b = ''-'' then Some ''sub''
      else if take 1 b = ''+'' then Some ''add''
      else if take 1 b = ''*'' then Some ''mul''
      else if take 1 b = ''/'' then Some ''div''
      else if b = ''&&'' then Some ''and''
      else if b = ''||'' then Some ''or''
      else if b = ''<='' then Some ''sle''
      else if b = ''>='' then Some ''sge''
      else if take 1 b = ''<'' then Some ''slt''
      else if take 1 b = ''>'' then Some ''sgt''
      else if b = ''=='' then Some ''seq''
      else if b = ''!='' then Some ''sne''
      else None)"

section \<open>Expressions\<close>

definition mixed_arith :: "type_enum \<Rightarrow> type_enum \<Rightarrow> bool" where
  "mixed_arith t u \<longleftrightarrow> t = INT_TY \<and> u = FLOAT_TY \<or> t = FLOAT_TY \<and> u = INT_TY"

text \<open>\<open>expr: expr binop expr\<close>.\<close>

definition binop_action :: "addr \<Rightarrow> cstring \<Rightarrow> addr \<Rightarrow> addr action" where
  "binop_action a1 b a3 =
     andthen (sym_at a1) (\<lambda>s1.
     andthen (sym_at a3) (\<lambda>s3.
     if ty s1 \<noteq> ty s3 \<and> \<not> mixed_arith (ty s1) (ty s3)
     then yyerror ''type expression mismatch with binary operator''
     else if ty s1 = STRUCT_TY \<or> ty s3 = STRUCT_TY
     then yyerror ''Invalid operands to binary operator''
     else
       andthen (with_sy (\<lambda>s. copy_symbol s a1)) (\<lambda>a.
       seq (out (Note (name s1 @ '' '' @ b @ '' '' @ name s3)))
       (andthen (load_operand a1) (\<lambda>reg1_str.
       andthen (load_operand a3) (\<lambda>reg2_str.
       andthen new_reg (\<lambda>reg_dest_str.
       case op_instr b of
         None \<Rightarrow> yyerror ''operator not supported''
       | Some op_str \<Rightarrow>
           seq (out (Op op_str [reg_dest_str, reg1_str, reg2_str] []))
          (seq (set_place a reg_dest_str)
          (seq (free_reg reg1_str)
          (seq (free_reg reg2_str)
          (seq (free_reg (place s1))
          (seq (free_reg (place s3))
          (ret a)))))))))))))"

text \<open>\<open>expr: ICONST\<close>.\<close>

definition iconst_action :: "addr \<Rightarrow> addr action" where
  "iconst_action a =
     andthen new_reg (\<lambda>r.
     andthen (sym_at a) (\<lambda>s.
     seq (out (Op ''li'' [r, name s] []))
    (seq (set_place a r)
    (ret a))))"

text \<open>The three productions of \<open>lhs\<close> that find the symbol through all scopes.\<close>

definition find_declared :: "addr \<Rightarrow> addr action" where
  "find_declared a =
     andthen (sym_at a) (\<lambda>id.
     andthen (gets cur_scope) (\<lambda>sc.
     andthen (lookup_from (name id) sc) (\<lambda>s.
     case s of None \<Rightarrow> yyerror ''ID undeclared'' | Some b \<Rightarrow> ret b)))"

text \<open>\<open>lhs: ID\<close> looks into the current scope and the global one only.\<close>

definition lhs_id_action :: "addr \<Rightarrow> addr action" where
  "lhs_id_action a =
     andthen (sym_at a) (\<lambda>id.
     andthen (lookup_here (name id)) (\<lambda>s1.
     case s1 of
       Some b \<Rightarrow> ret b
     | None \<Rightarrow>
         andthen (lookup_from (name id) 0) (\<lambda>s.
         case s of None \<Rightarrow> yyerror ''lhs: ID ID undeclared'' | Some b \<Rightarrow> ret b)))"

text \<open>
  The search for a member. Every field of that name sets the type of the variable's symbol; the
  result says whether there was one.
\<close>

partial_function (option) find_member ::
  "(addr \<rightharpoonup> struct_field) \<Rightarrow> ptr \<Rightarrow> cstring \<Rightarrow> type_enum option \<Rightarrow> type_enum option option" where
  "find_member h sf nm found =
     (case sf of
        None \<Rightarrow> Some found
      | Some a \<Rightarrow>
         (case h a of
            None \<Rightarrow> None
          | Some f \<Rightarrow> find_member h (f_next f) nm (if f_name f = nm then Some (f_type f) else found)))"

declare find_member.simps [code]

text \<open>\<open>lhs: ID MK_DOT ID\<close>, with the symbols of the two names.\<close>

definition lhs_field_action :: "addr \<Rightarrow> addr \<Rightarrow> addr action" where
  "lhs_field_action a1 a3 =
     andthen (find_declared a1) (\<lambda>b.
     andthen (sym_at b) (\<lambda>s.
     andthen (sym_at a3) (\<lambda>m.
     if ty s \<noteq> STRUCT_TY then yyerror ''%s is not of type structure''
     else
       case type_ptr s of
         None \<Rightarrow> ret b
       | Some t \<Rightarrow>
           andthen (defined_in (\<lambda>st. type_mem (ty_tab st) t)) (\<lambda>type_obj.
           andthen (defined_in (\<lambda>st. find_member (field_mem (ty_tab st)) (t_head type_obj) (name m) None))
             (\<lambda>found.
           case found of
             None \<Rightarrow> yyerror ''missing member in structure''
           | Some ft \<Rightarrow> seq (sym_upd b (ty_update (\<lambda>_. ft))) (ret b))))))"

text \<open>
  \<open>array_subscript: MK_LB subscript_expr MK_RB array_subscript\<close>. The result \<open>lb\<close> is the value of the
  opening bracket, which the scanner does not set: it is the symbol scanned last before it.
\<close>

definition subscript_action :: "ptr \<Rightarrow> ptr \<Rightarrow> ptr \<Rightarrow> ptr action" where
  "subscript_action lb e rest =
     andthen (case rest of
         None \<Rightarrow> ret (1::int)
       | Some r \<Rightarrow> andthen (sym_at r) (\<lambda>s. ret (dim s + 1))) (\<lambda>d.
     andthen (defined_in (\<lambda>_. lb)) (\<lambda>a.
     seq (sym_upd a (dim_update (\<lambda>_. d)))
     (andthen (defined_in (\<lambda>_. e)) (\<lambda>e'.
     andthen (sym_at e') (\<lambda>s.
     if ty s \<noteq> INT_TY then yyerror ''Array subscript is not an integer'' else ret lb)))))"

section \<open>Function calls\<close>

text \<open>The loop that counts the symbols linked behind one through \<open>next\<close>.\<close>

partial_function (option) count_chain :: "(addr \<rightharpoonup> symtab_entry) \<Rightarrow> addr \<Rightarrow> int \<Rightarrow> int option" where
  "count_chain h handle cnt =
     (case h handle of
        None \<Rightarrow> None
      | Some s \<Rightarrow> (case snext s of None \<Rightarrow> Some cnt | Some n \<Rightarrow> count_chain h n (cnt + 1)))"

declare count_chain.simps [code]

text \<open>\<open>function_call\<close>, for the symbols of the name and of the first argument.\<close>

definition call_action :: "addr \<Rightarrow> ptr \<Rightarrow> addr action" where
  "call_action a args =
     andthen (sym_at a) (\<lambda>id.
     andthen (defined_in (\<lambda>st. lookup_symtab (sy st) (name id) 0)) (\<lambda>s.
     seq (case s of
            Some b \<Rightarrow> ret ()
          | None \<Rightarrow>
              andthen (gets current_function) (\<lambda>f.
              andthen (defined_in (\<lambda>_. f)) (\<lambda>f'.
              andthen (sym_at f') (\<lambda>fs. when_do (name id \<noteq> name fs) (yyerror ''ID undeclared'')))))
    (seq (case (args, s) of
            (Some p, Some b) \<Rightarrow>
              andthen (defined_in (\<lambda>st. count_chain (syms (sy st)) p 1)) (\<lambda>cnt.
              andthen (sym_at b) (\<lambda>fs.
              if cnt > n_param fs then yyerror ''too many arguments to function (function)''
              else when_do (cnt < n_param fs) (yyerror ''too few arguments to function (function)'')))
          | _ \<Rightarrow> ret ())
    (seq (out (Op ''addi'' [''$sp'', ''$sp'', ''-4''] []))
    (seq (out (Op ''jal'' [name id] []))
    (seq (out (Op ''addi'' [''$sp'', ''$sp'', ''4''] []))
    (andthen (case s of
         Some b \<Rightarrow> sym_at b
       | None \<Rightarrow> andthen (gets current_function) (\<lambda>f. andthen (defined_in (\<lambda>_. f)) sym_at)) (\<lambda>fs.
     seq (sym_upd a (ty_update (\<lambda>_. ty fs)))
    (seq (set_place a ''$v0'')
    (ret a))))))))))"

section \<open>The actions of an expression\<close>

text \<open>
  \<open>call_param_list\<close> links an argument to the next one after the rest of the list has been linked.
  The value of an empty \<open>subscript_expr\<close> is whatever lies on the parser's stack.
\<close>

primrec expr :: "expr_t \<Rightarrow> addr action"
  and lhs :: "lhs_t \<Rightarrow> addr action"
  and array_subscript :: "subs_t \<Rightarrow> ptr action"
  and subscript_expr :: "subscript_t \<Rightarrow> ptr action"
  and function_call :: "call_t \<Rightarrow> addr action"
  and call_param_list :: "params_t \<Rightarrow> ptr action"
  and param :: "param_t \<Rightarrow> addr action"
where
  "expr (E_lhs l) = lhs l"
| "expr (E_paren e) = expr e"
| "expr (E_binop e1 b e3) =
     andthen (expr e1) (\<lambda>a1. andthen (expr e3) (\<lambda>a3. binop_action a1 b a3))"
| "expr (E_unop u e) = expr e"
| "expr (E_iconst c) = andthen (lex_ICONST c) iconst_action"
| "expr (E_fconst c) = lex_FCONST c"
| "expr (E_call f) = function_call f"
| "lhs (L_sub_field x sub m) =
     andthen (expect T_ID x) (\<lambda>a. andthen (array_subscript sub) (\<lambda>d. andthen (expect T_ID m) (\<lambda>b.
     find_declared a)))"
| "lhs (L_sub x sub) =
     andthen (expect T_ID x) (\<lambda>a. andthen (array_subscript sub) (\<lambda>d. find_declared a))"
| "lhs (L_field x m) =
     andthen (expect T_ID x) (\<lambda>a. andthen (expect T_ID m) (\<lambda>b. lhs_field_action a b))"
| "lhs (L_id x) = andthen (expect T_ID x) lhs_id_action"
| "array_subscript Sub_none = ret None"
| "array_subscript (Sub_cons e sub) =
     andthen (gets yylval_s) (\<lambda>lb. andthen (subscript_expr e) (\<lambda>p. andthen (array_subscript sub) (\<lambda>r.
     subscript_action lb p r)))"
| "subscript_expr (S_id x) = andthen (expect T_ID x) (\<lambda>a. ret (Some a))"
| "subscript_expr (S_iconst c) = andthen (lex_ICONST c) (\<lambda>a. ret (Some a))"
| "subscript_expr (S_fconst c) = andthen (lex_FCONST c) (\<lambda>a. ret (Some a))"
| "subscript_expr (S_expr e) = andthen (expr e) (\<lambda>a. ret (Some a))"
| "subscript_expr S_none = ret None"
| "function_call (Call f ps) =
     andthen (expect T_ID f) (\<lambda>a. andthen (call_param_list ps) (\<lambda>args. call_action a args))"
| "call_param_list P_none = ret None"
| "call_param_list (P_cons p ps) =
     andthen (param p) (\<lambda>a. andthen (call_param_list ps) (\<lambda>rest.
     seq (sym_upd a (snext_update (\<lambda>_. rest)))
     (ret (Some a))))"
| "param (P_lhs l) = lhs l"
| "param (P_iconst c) = lex_ICONST c"
| "param (P_fconst c) = lex_FCONST c"

end
