(* ===== verification/Declarations.thy ===== *)
theory Declarations
  imports Parser
begin

text \<open>
  The productions and actions of declarations in \<open>Assig4/parser.y\<close>: variables, structures and
  typedefs.
\<close>

section \<open>Parse trees\<close>

datatype type_t = Ty_int | Ty_float | Ty_void | Ty_name cstring

datatype id_tail_t = Init_none | Init_iconst cstring | Init_fconst cstring

datatype id_list_t = Id_one cstring subs_t id_tail_t | Id_more id_list_t cstring subs_t id_tail_t

datatype
  struct_decl_t = Struct_decl cstring struct_decl_list_t
and
  struct_decl_list_t = Sl_more_type struct_decl_list_t type_decl_t | Sl_type type_decl_t
                     | Sl_more_var struct_decl_list_t struct_var_decl_t | Sl_var struct_var_decl_t
and
  type_decl_t = Td_struct struct_decl_t | Td_typedef type_t cstring
and
  struct_var_decl_t = Sv_type type_t id_list_t | Sv_struct cstring id_list_t
                    | Sv_block struct_decl_list_t id_list_t | Sv_decl struct_decl_t id_list_t
                    | Sv_undeclared cstring cstring

datatype var_decl_t = Vd_type type_t id_list_t | Vd_struct cstring id_list_t
                    | Vd_block struct_decl_list_t id_list_t | Vd_decl struct_decl_t id_list_t

datatype decl_t = D_type type_decl_t | D_var var_decl_t

section \<open>Chains of symbols\<close>

text \<open>The symbols linked through \<open>next\<close>, from one on; no result if the chain is cyclic.\<close>

partial_function (option) chain_list :: "(addr \<rightharpoonup> symtab_entry) \<Rightarrow> addr \<Rightarrow> addr list option" where
  "chain_list h a =
     (case h a of
        None \<Rightarrow> None
      | Some s \<Rightarrow>
         (case snext s of
            None \<Rightarrow> Some [a]
          | Some n \<Rightarrow> do { as \<leftarrow> chain_list h n; Some (a # as) }))"

declare chain_list.simps [code]

text \<open>
  The loop \<open>do { ... } while ((handle = handle->next))\<close> with the given body; \<open>None\<close> is a loop that
  never ends.
\<close>

partial_function (option) each_symbol_loop ::
  "(addr \<Rightarrow> unit action) \<Rightarrow> addr \<Rightarrow> pstate \<Rightarrow> unit result option" where
  "each_symbol_loop f a st =
     (case f a st of
        Exit e \<Rightarrow> Some (Exit e)
      | Undef \<Rightarrow> Some Undef
      | Ok u st' \<Rightarrow>
         (case syms (sy st') a of
            None \<Rightarrow> Some Undef
          | Some s \<Rightarrow>
             (case snext s of
                None \<Rightarrow> Some (Ok () st')
              | Some n \<Rightarrow> each_symbol_loop f n st')))"

declare each_symbol_loop.simps [code]

definition each_symbol :: "(addr \<Rightarrow> unit action) \<Rightarrow> addr \<Rightarrow> unit action" where
  "each_symbol f a = (\<lambda>st. case each_symbol_loop f a st of None \<Rightarrow> Undef | Some r \<Rightarrow> r)"

section \<open>Types and identifier lists\<close>

primrec type_action :: "type_t \<Rightarrow> type_enum action" where
  "type_action Ty_int = ret INT_TY"
| "type_action Ty_float = ret FLOAT_TY"
| "type_action Ty_void = ret VOID_TY"
| "type_action (Ty_name x) = andthen (expect T_TYPEDEF_NAME x) (\<lambda>a. ret TYPEDEF_TY)"

text \<open>The scanner's actions for an initialiser; the parser drops it.\<close>

primrec id_tail :: "id_tail_t \<Rightarrow> unit action" where
  "id_tail Init_none = ret ()"
| "id_tail (Init_iconst c) = andthen (lex_ICONST c) (\<lambda>a. ret ())"
| "id_tail (Init_fconst c) = andthen (lex_FCONST c) (\<lambda>a. ret ())"

definition mark_array :: "addr \<Rightarrow> ptr \<Rightarrow> unit action" where
  "mark_array a d =
     (case d of
        None \<Rightarrow> ret ()
      | Some r \<Rightarrow> andthen (sym_at r) (\<lambda>s. sym_upd a (\<lambda>e. e\<lparr>kind := ARRAY, dim := dim s\<rparr>)))"

text \<open>A further identifier is linked behind the last one of the list.\<close>

primrec id_list :: "id_list_t \<Rightarrow> addr action" where
  "id_list (Id_one x sub ini) =
     andthen (expect T_ID x) (\<lambda>a. andthen (array_subscript sub) (\<lambda>d.
     seq (id_tail ini)
    (seq (mark_array a d)
    (ret a))))"
| "id_list (Id_more ids x sub ini) =
     andthen (id_list ids) (\<lambda>a1. andthen (expect T_ID x) (\<lambda>a3. andthen (array_subscript sub) (\<lambda>d.
     seq (id_tail ini)
    (seq (mark_array a3 d)
    (andthen (defined_in (\<lambda>st. chain_list (syms (sy st)) a1)) (\<lambda>as.
     seq (sym_upd (last as) (snext_update (\<lambda>_. Some a3)))
    (ret a1)))))))"

section \<open>Structures\<close>

definition new_field :: "addr \<Rightarrow> addr action" where
  "new_field a = andthen (sym_at a) (\<lambda>s. with_ty (\<lambda>t. create_field t (name s) (ty s)))"

definition field_link :: "addr \<Rightarrow> addr \<Rightarrow> unit action" where
  "field_link f g =
     with_ty (\<lambda>t. case field_mem t f of None \<Rightarrow> None
                  | Some e \<Rightarrow> Some ((), t\<lparr>field_mem := (field_mem t)(f \<mapsto> e\<lparr>f_next := Some g\<rparr>)\<rparr>))"

primrec link_fields :: "addr \<Rightarrow> addr list \<Rightarrow> unit action" where
  "link_fields f [] = ret ()"
| "link_fields f (a # as) =
     andthen (new_field a) (\<lambda>g. seq (field_link f g) (link_fields g as))"

text \<open>The fields of one declaration: one for each symbol of the chain.\<close>

definition make_fields :: "addr \<Rightarrow> addr action" where
  "make_fields a =
     andthen (new_field a) (\<lambda>f.
     andthen (defined_in (\<lambda>st. chain_list (syms (sy st)) a)) (\<lambda>as.
     seq (link_fields f (tl as))
     (ret f)))"

text \<open>The loop \<open>while (head->next != NULL) head = head->next\<close>.\<close>

partial_function (option) last_field :: "(addr \<rightharpoonup> struct_field) \<Rightarrow> addr \<Rightarrow> addr option" where
  "last_field h a =
     (case h a of
        None \<Rightarrow> None
      | Some f \<Rightarrow> (case f_next f of None \<Rightarrow> Some a | Some n \<Rightarrow> last_field h n))"

declare last_field.simps [code]

text \<open>The search for a duplicate member with a hash table of its own: true if there is one.\<close>

partial_function (option) duplicate_member ::
  "(addr \<rightharpoonup> struct_field) \<Rightarrow> addr htable \<Rightarrow> ptr \<Rightarrow> bool option" where
  "duplicate_member h t sf =
     (case sf of
        None \<Rightarrow> Some False
      | Some a \<Rightarrow>
         (case h a of
            None \<Rightarrow> None
          | Some f \<Rightarrow>
             (case h_get t (f_name f) of
                None \<Rightarrow> None
              | Some (Some v) \<Rightarrow> Some True
              | Some None \<Rightarrow>
                 (case h_insert t (f_name f) a of
                    None \<Rightarrow> None
                  | Some (ok, t') \<Rightarrow> duplicate_member h t' (f_next f)))))"

declare duplicate_member.simps [code]

text \<open>\<open>struct_decl\<close>, for the symbol of the name and the first field.\<close>

definition struct_decl_action :: "addr \<Rightarrow> ptr \<Rightarrow> addr action" where
  "struct_decl_action a fl =
     andthen (sym_at a) (\<lambda>id.
     andthen (with_ty (\<lambda>t. insert_type t (name id) STRUCT_TY)) (\<lambda>tmp.
     andthen (defined_in (\<lambda>_. fl)) (\<lambda>f.
     seq (with_ty (\<lambda>t. case type_mem t tmp of None \<Rightarrow> None
            | Some o1 \<Rightarrow> Some ((), t\<lparr>type_mem := (type_mem t)(tmp \<mapsto> o1\<lparr>t_head := Some f\<rparr>)\<rparr>)))
    (andthen (defined_in (\<lambda>st. duplicate_member (field_mem (ty_tab st)) (h_init ()) (Some f))) (\<lambda>dup.
     if dup then yyerror ''Duplicate member (name)'' else ret tmp)))))"

text \<open>The assignments of a type to every symbol of a chain.\<close>

definition set_types :: "type_enum \<Rightarrow> addr \<Rightarrow> unit action" where
  "set_types t = each_symbol (\<lambda>a. sym_upd a (ty_update (\<lambda>_. t)))"

definition set_struct_types :: "addr \<Rightarrow> addr \<Rightarrow> unit action" where
  "set_struct_types obj =
     each_symbol (\<lambda>a. sym_upd a (\<lambda>s. s\<lparr>ty := STRUCT_TY, type_ptr := Some obj\<rparr>))"

text \<open>
  A list of members that starts with a type declaration has no defined value, and neither has a
  member declared with an unnamed structure; \<open>None\<close> stands for such a value.
\<close>

primrec struct_decl :: "struct_decl_t \<Rightarrow> addr action"
  and struct_decl_list :: "struct_decl_list_t \<Rightarrow> ptr action"
  and type_decl :: "type_decl_t \<Rightarrow> unit action"
  and struct_var_decl :: "struct_var_decl_t \<Rightarrow> ptr action"
where
  "struct_decl (Struct_decl x sl) =
     andthen (expect T_ID x) (\<lambda>a. andthen (struct_decl_list sl) (\<lambda>fl. struct_decl_action a fl))"
| "struct_decl_list (Sl_more_type sl td) =
     andthen (struct_decl_list sl) (\<lambda>fl. seq (type_decl td) (ret fl))"
| "struct_decl_list (Sl_type td) = seq (type_decl td) (ret None)"
| "struct_decl_list (Sl_more_var sl sv) =
     andthen (struct_decl_list sl) (\<lambda>fl. andthen (struct_var_decl sv) (\<lambda>p.
     andthen (defined_in (\<lambda>_. fl)) (\<lambda>head.
     andthen (defined_in (\<lambda>st. last_field (field_mem (ty_tab st)) head)) (\<lambda>l.
     andthen (defined_in (\<lambda>_. p)) (\<lambda>a.
     andthen (make_fields a) (\<lambda>f.
     seq (field_link l f)
     (ret fl)))))))"
| "struct_decl_list (Sl_var sv) =
     andthen (struct_var_decl sv) (\<lambda>p. andthen (defined_in (\<lambda>_. p)) (\<lambda>a.
     andthen (make_fields a) (\<lambda>f. ret (Some f))))"
| "type_decl (Td_struct sd) = andthen (struct_decl sd) (\<lambda>t. ret ())"
| "type_decl (Td_typedef t x) =
     andthen (type_action t) (\<lambda>ti. andthen (expect T_ID x) (\<lambda>a. andthen (sym_at a) (\<lambda>s.
     andthen (with_ty (\<lambda>tt. insert_type tt (name s) TYPEDEF_TY)) (\<lambda>obj. ret ()))))"
| "struct_var_decl (Sv_type t ids) =
     andthen (type_action t) (\<lambda>ti. andthen (id_list ids) (\<lambda>a.
     seq (set_types ti a)
    (seq (sym_upd a (ty_update (\<lambda>_. ti)))
    (ret (Some a)))))"
| "struct_var_decl (Sv_struct x ids) =
     andthen (expect T_STRUCT_NAME x) (\<lambda>a0. andthen (id_list ids) (\<lambda>a.
     andthen (defined_in (\<lambda>st. get_type_obj (ty_tab st) x)) (\<lambda>obj.
     seq (set_struct_types obj a)
    (seq (sym_upd a (ty_update (\<lambda>_. STRUCT_TY)))
    (ret (Some a))))))"
| "struct_var_decl (Sv_block sl ids) =
     andthen (struct_decl_list sl) (\<lambda>fl. andthen (id_list ids) (\<lambda>a. ret None))"
| "struct_var_decl (Sv_decl sd ids) =
     andthen (struct_decl sd) (\<lambda>obj. andthen (id_list ids) (\<lambda>a.
     seq (set_struct_types obj a)
    (seq (sym_upd a (ty_update (\<lambda>_. STRUCT_TY)))
    (ret (Some a)))))"
| "struct_var_decl (Sv_undeclared x y) =
     andthen (expect T_ID x) (\<lambda>a. andthen (expect T_ID y) (\<lambda>b. yyerror ''field undeclared''))"

section \<open>Variables\<close>

text \<open>The insertion into the symbol table, and the error when the name is taken.\<close>

definition enter_symbol :: "addr \<Rightarrow> ptr action" where
  "enter_symbol a =
     andthen (gets cur_scope) (\<lambda>sc.
     andthen (with_sy (\<lambda>s. insert_symbol s a sc)) (\<lambda>ok.
     if \<not> ok then yyerror ''variable %s is already declared''
     else andthen (sym_at a) (\<lambda>s. lookup_here (name s))))"

text \<open>
  The body of the loop for \<open>type id_list\<close>: a local variable gets the next word below the frame
  pointer, a global one a label.
\<close>

definition var_place :: "symtab_entry \<Rightarrow> cstring action" where
  "var_place s =
     andthen (gets cur_scope) (\<lambda>sc.
     if sc > 0 then
       andthen (gets local_var_counter) (\<lambda>n.
       seq (modify (\<lambda>st. st\<lparr>local_var_counter := n + 1\<rparr>))
       (ret (''-'' @ fmt_d (n * 4) @ ''($fp)'')))
     else
       andthen (with_cg (push_string_label (''____'' @ name s))) (\<lambda>lab.
       ret (''____'' @ name s)))"

definition declare_var :: "type_enum \<Rightarrow> addr \<Rightarrow> unit action" where
  "declare_var t a =
     seq (sym_upd a (ty_update (\<lambda>_. t)))
    (andthen (enter_symbol a) (\<lambda>p.
     andthen (defined_in (\<lambda>_. p)) (\<lambda>b.
     andthen (sym_at b) (\<lambda>s.
     andthen (var_place s) (\<lambda>stack_entry.
     set_place b stack_entry)))))"

definition declare_struct_var :: "addr \<Rightarrow> addr \<Rightarrow> unit action" where
  "declare_struct_var obj a =
     seq (sym_upd a (\<lambda>s. s\<lparr>ty := STRUCT_TY, type_ptr := Some obj\<rparr>))
    (andthen (enter_symbol a) (\<lambda>p. ret ()))"

primrec var_decl :: "var_decl_t \<Rightarrow> unit action" where
  "var_decl (Vd_type t ids) =
     andthen (type_action t) (\<lambda>ti. andthen (id_list ids) (\<lambda>a.
     seq (each_symbol (declare_var ti) a)
     (sym_upd a (ty_update (\<lambda>_. ti)))))"
| "var_decl (Vd_struct x ids) =
     andthen (expect T_STRUCT_NAME x) (\<lambda>a0. andthen (id_list ids) (\<lambda>a.
     andthen (defined_in (\<lambda>st. get_type_obj (ty_tab st) x)) (\<lambda>obj.
     seq (each_symbol (declare_struct_var obj) a)
     (sym_upd a (ty_update (\<lambda>_. STRUCT_TY))))))"
| "var_decl (Vd_block sl ids) =
     andthen (struct_decl_list sl) (\<lambda>fl. andthen (id_list ids) (\<lambda>a. ret ()))"
| "var_decl (Vd_decl sd ids) =
     andthen (struct_decl sd) (\<lambda>obj. andthen (id_list ids) (\<lambda>a.
     seq (each_symbol (declare_struct_var obj) a)
     (sym_upd a (ty_update (\<lambda>_. STRUCT_TY)))))"

primrec decl :: "decl_t \<Rightarrow> unit action" where
  "decl (D_type td) = type_decl td"
| "decl (D_var vd) = var_decl vd"

primrec decl_list :: "decl_t list \<Rightarrow> unit action" where
  "decl_list [] = ret ()"
| "decl_list (d # ds) = seq (decl d) (decl_list ds)"

end
