(* ===== verification/Statements.thy ===== *)
theory Statements
  imports Declarations
begin

text \<open>
  The productions and actions of statements, functions and programs in \<open>Assig4/parser.y\<close>, and
  the compiler's \<open>main\<close>.
\<close>

section \<open>Parse trees\<close>

datatype tail_t = A_expr expr_t | A_read | A_fread | A_call call_t

datatype assign_t = Assign lhs_t tail_t

datatype
  stmt_t = St_block block_t | St_if expr_t stmt_t else_t | St_while expr_t stmt_t
         | St_for assign_t expr_t assign_t stmt_t | St_assign assign_t | St_write cstring
         | St_write_lhs lhs_t | St_return expr_t | St_call call_t
and
  block_t = B_none | B_list "decl_t list" stmts_t
and
  stmts_t = Ss_none | Ss_cons stmt_t stmts_t
and
  else_t = Else_none | Else stmt_t

datatype param_type_t = Pt_int | Pt_float | Pt_void | Pt_struct cstring

datatype param_list_t = Pl_none | Pl_cons param_type_t cstring subs_t param_list_t

datatype function_t = Function type_t cstring param_list_t block_t

text \<open>A program: each function with the declarations before it.\<close>

type_synonym program_t = "(decl_t list \<times> function_t) list"

section \<open>Labels of control flow\<close>

definition with_stack :: "(intstack_t \<Rightarrow> ('a \<times> intstack_t) option) \<Rightarrow> 'a action" where
  "with_stack f =
     (\<lambda>st. case f (label_stack st) of None \<Rightarrow> Undef | Some (x, s) \<Rightarrow> Ok x (st\<lparr>label_stack := s\<rparr>))"

definition stack_top :: "int action" where
  "stack_top = defined_in (\<lambda>st. s_get (label_stack st))"

text \<open>\<open>++label_no\<close>, pushed onto the label stack; the answer of \<open>s_push\<close> is ignored.\<close>

definition next_label :: "int action" where
  "next_label =
     seq (modify (\<lambda>st. st\<lparr>label_no := label_no st + 1\<rparr>))
     (gets label_no)"

definition push_label :: "int \<Rightarrow> unit action" where
  "push_label n = andthen (with_stack (\<lambda>s. s_push s n)) (\<lambda>ok. ret ())"

definition pop_label :: "unit action" where
  "pop_label = andthen (with_stack (\<lambda>s. Some (s_pop s))) (\<lambda>ok. ret ())"

definition Lelse :: "int \<Rightarrow> cstring" where
  "Lelse n = ''_Lelse'' @ fmt_d n"

definition Lexit :: "int \<Rightarrow> cstring" where
  "Lexit n = ''_Lexit'' @ fmt_d n"

definition Test :: "int \<Rightarrow> cstring" where
  "Test n = ''_Test'' @ fmt_d n"

section \<open>Assignments\<close>

definition read_action :: "addr action" where
  "read_action =
     seq (out (Op ''li'' [''$v0'', ''5''] []))
    (seq (out (Op ''syscall'' [] []))
    (andthen (with_sy (\<lambda>s. create_symbol s ''read_syscall'' 0)) (\<lambda>a.
     seq (set_place a ''$v0'')
    (seq (sym_upd a (ty_update (\<lambda>_. INT_TY)))
    (ret a)))))"

text \<open>The value of \<open>fread()\<close> is not a symbol.\<close>

primrec assign_expr_tail :: "tail_t \<Rightarrow> ptr action" where
  "assign_expr_tail (A_expr e) = andthen (expr e) (\<lambda>a. ret (Some a))"
| "assign_expr_tail A_read = andthen read_action (\<lambda>a. ret (Some a))"
| "assign_expr_tail A_fread = ret None"
| "assign_expr_tail (A_call f) = andthen (function_call f) (\<lambda>a. ret (Some a))"

definition assign_action :: "addr \<Rightarrow> addr \<Rightarrow> addr action" where
  "assign_action a1 a3 =
     andthen (sym_at a1) (\<lambda>s1.
     andthen (sym_at a3) (\<lambda>s3.
     if ty s1 \<noteq> ty s3 \<and> \<not> (ty s1 = FLOAT_TY \<and> ty s3 = INT_TY)
     then yyerror ''type expression mismatch with assignment (=) ''
     else if ty s1 = STRUCT_TY \<and> ty s3 = STRUCT_TY \<and> type_ptr s1 \<noteq> type_ptr s3
     then yyerror ''Incompatible type''
     else
       andthen (load_operand a3) (\<lambda>reg_str.
       seq (out (Op ''sw'' [reg_str, place s1] ('' # '' @ name s3 @ '', '' @ name s1)))
      (seq (free_reg (place s3))
      (seq (free_reg reg_str)
      (ret a1))))))"

primrec assign_expr :: "assign_t \<Rightarrow> addr action" where
  "assign_expr (Assign l t) =
     andthen (lhs l) (\<lambda>a1. andthen (assign_expr_tail t) (\<lambda>p.
     andthen (defined_in (\<lambda>_. p)) (\<lambda>a3. assign_action a1 a3)))"

section \<open>Output and return\<close>

definition write_action :: "cstring \<Rightarrow> unit action" where
  "write_action s =
     andthen (with_cg (push_string_label s)) (\<lambda>sconst_label.
     seq (out (Op ''la'' [''$a0'', sconst_label] []))
    (seq (out (Op ''li'' [''$v0'', ''4''] []))
    (out (Op ''syscall'' [] []))))"

definition write_lhs_action :: "addr \<Rightarrow> unit action" where
  "write_lhs_action a =
     andthen (sym_at a) (\<lambda>s.
     andthen (load_operand a) (\<lambda>reg_str.
     seq (out (Op ''move'' [''$a0'', reg_str] []))
    (seq (free_reg reg_str)
    (seq (free_reg (place s))
    (seq (out (Op ''li'' [''$v0'', ''1''] []))
    (out (Op ''syscall'' [] [])))))))"

definition return_action :: "addr \<Rightarrow> unit action" where
  "return_action a =
     andthen (gets current_function) (\<lambda>f.
     case f of
       None \<Rightarrow> yyerror ''Misplaced return statement''
     | Some b \<Rightarrow>
         andthen (sym_at a) (\<lambda>s.
         andthen (sym_at b) (\<lambda>fs.
         if ty s \<noteq> ty fs then yyerror ''Incompatible return type.''
         else
           andthen (load_operand a) (\<lambda>reg_str.
           seq (out (Op ''move'' [''$v0'', reg_str] []))
          (seq (free_reg (place s))
          (free_reg reg_str))))))"

section \<open>Statements\<close>

text \<open>The actions of \<open>if_stmt\<close> and \<open>while_stmt\<close> around their parts.\<close>

definition if_test :: "addr \<Rightarrow> unit action" where
  "if_test a =
     andthen next_label (\<lambda>n.
     andthen (sym_at a) (\<lambda>s.
     seq (out (Op ''beqz'' [place s, Lelse n] []))
     (push_label n)))"

definition if_middle :: "unit action" where
  "if_middle =
     andthen stack_top (\<lambda>n.
     seq (out (Op ''j'' [Lexit n] []))
     (out (Lab (Lelse n) [])))"

definition if_end :: "unit action" where
  "if_end =
     andthen stack_top (\<lambda>n.
     seq (out (Lab (Lexit n) []))
     pop_label)"

definition while_head :: "unit action" where
  "while_head =
     andthen next_label (\<lambda>n.
     seq (out (Lab (Test n) '' ''))
     (push_label n))"

definition while_test :: "addr \<Rightarrow> unit action" where
  "while_test a =
     andthen (sym_at a) (\<lambda>s.
     andthen (gets label_no) (\<lambda>n.
     out (Op ''beqz'' [place s, Lexit n] ('' #'' @ name s))))"

definition while_end :: "unit action" where
  "while_end =
     andthen stack_top (\<lambda>n.
     seq (out (Op ''j'' [Test n] []))
    (seq (out (Lab (Lexit n) '' ''))
    pop_label))"

definition open_block :: "unit action" where
  "open_block = seq (modify (\<lambda>st. st\<lparr>cur_scope := cur_scope st + 1\<rparr>)) (out (Op ''nop'' [] []))"

definition close_block :: "unit action" where
  "close_block = modify (\<lambda>st. st\<lparr>cur_scope := cur_scope st - 1\<rparr>)"

primrec stmt :: "stmt_t \<Rightarrow> unit action"
  and block :: "block_t \<Rightarrow> unit action"
  and stmt_list :: "stmts_t \<Rightarrow> unit action"
  and else_part :: "else_t \<Rightarrow> unit action"
where
  "stmt (St_block b) = seq open_block (seq (block b) close_block)"
| "stmt (St_if e s el) =
     andthen (expr e) (\<lambda>a. seq (if_test a) (seq (stmt s) (seq if_middle (seq (else_part el) if_end))))"
| "stmt (St_while e s) =
     seq while_head (andthen (expr e) (\<lambda>a. seq (while_test a) (seq (stmt s) while_end)))"
| "stmt (St_for a1 e a2 s) =
     andthen (assign_expr a1) (\<lambda>x. andthen (expr e) (\<lambda>y. andthen (assign_expr a2) (\<lambda>z. stmt s)))"
| "stmt (St_assign a) = andthen (assign_expr a) (\<lambda>x. ret ())"
| "stmt (St_write s) = andthen (lex_SCONST s) write_action"
| "stmt (St_write_lhs l) = andthen (lhs l) write_lhs_action"
| "stmt (St_return e) = andthen (expr e) return_action"
| "stmt (St_call f) = andthen (function_call f) (\<lambda>a. ret ())"
| "block B_none = ret ()"
| "block (B_list ds ss) = seq (decl_list ds) (stmt_list ss)"
| "stmt_list Ss_none = ret ()"
| "stmt_list (Ss_cons s ss) = seq (stmt s) (stmt_list ss)"
| "else_part Else_none = ret ()"
| "else_part (Else s) = stmt s"

section \<open>Functions\<close>

primrec param_type :: "param_type_t \<Rightarrow> type_enum action" where
  "param_type Pt_int = ret INT_TY"
| "param_type Pt_float = ret FLOAT_TY"
| "param_type Pt_void = ret VOID_TY"
| "param_type (Pt_struct x) = andthen (expect T_ID x) (\<lambda>a. ret STRUCT_TY)"

definition param_var_decl :: "param_type_t \<Rightarrow> cstring \<Rightarrow> subs_t \<Rightarrow> addr action" where
  "param_var_decl t x sub =
     andthen (param_type t) (\<lambda>ti. andthen (expect T_ID x) (\<lambda>a. andthen (array_subscript sub) (\<lambda>d.
     seq (sym_upd a (\<lambda>s. s\<lparr>ty := ti, kind := PARAMETER\<rparr>))
    (andthen (enter_symbol a) (\<lambda>p. ret a)))))"

primrec param_list :: "param_list_t \<Rightarrow> ptr action" where
  "param_list Pl_none = ret None"
| "param_list (Pl_cons t x sub ps) =
     andthen (param_var_decl t x sub) (\<lambda>a. andthen (param_list ps) (\<lambda>rest.
     seq (sym_upd a (snext_update (\<lambda>_. rest)))
     (ret (Some a))))"

text \<open>The first action of \<open>function_decl\<close>, before the parameters.\<close>

definition function_head :: "type_enum \<Rightarrow> addr \<Rightarrow> unit action" where
  "function_head t a =
     seq (modify (\<lambda>st. st\<lparr>cur_scope := cur_scope st + 1\<rparr>))
    (seq (sym_upd a (\<lambda>s. s\<lparr>ty := t, kind := FUNCTION\<rparr>))
    (modify (\<lambda>st. st\<lparr>current_function := Some a\<rparr>)))"

text \<open>
  The last one: the parameters are counted and attached to the function's symbol, the scope of the
  body is deleted, and only then the function is entered into the enclosing scope. The inner
  loop of the debug output is kept, since it runs in any case.
\<close>

definition function_end :: "addr \<Rightarrow> ptr \<Rightarrow> unit action" where
  "function_end a ps =
     andthen (case ps of
         None \<Rightarrow> ret 0
       | Some p \<Rightarrow> defined_in (\<lambda>st. count_chain (syms (sy st)) p 1)) (\<lambda>n.
     seq (sym_upd a (\<lambda>s. s\<lparr>n_param := n, snext := ps\<rparr>))
    (andthen (gets cur_scope) (\<lambda>sc.
     seq (modify (\<lambda>st. st\<lparr>cur_scope := sc - 1\<rparr>))
    (seq (with_sy (\<lambda>s. do { s' \<leftarrow> delete_scope s sc; Some ((), s') }))
    (andthen (enter_symbol a) (\<lambda>p.
     andthen (defined_in (\<lambda>_. p)) (\<lambda>b.
     andthen (defined_in (\<lambda>st. count_chain (syms (sy st)) b 0)) (\<lambda>m.
     andthen (sym_at a) (\<lambda>s.
     seq (modify (\<lambda>st. st\<lparr>cg := gen_func_epilog (name s) (cg st)\<rparr>))
     (modify (\<lambda>st. st\<lparr>local_var_counter := 1\<rparr>)))))))))))"

primrec function_decl :: "function_t \<Rightarrow> unit action" where
  "function_decl (Function t x pl b) =
     andthen (type_action t) (\<lambda>ti. andthen (expect T_ID x) (\<lambda>a.
     seq (function_head ti a)
    (andthen (param_list pl) (\<lambda>ps.
     andthen (sym_at a) (\<lambda>s.
     seq (modify (\<lambda>st. st\<lparr>cg := gen_func_prolog (name s) (cg st)\<rparr>))
    (seq (block b)
    (function_end a ps)))))))"

section \<open>Programs\<close>

primrec global_decl_list :: "program_t \<Rightarrow> unit action" where
  "global_decl_list [] = ret ()"
| "global_decl_list (g # gs) =
     seq (seq (decl_list (fst g)) (function_decl (snd g))) (global_decl_list gs)"

text \<open>The state in which \<open>main\<close> calls \<open>yyparse\<close>, after \<open>s_init\<close>, \<open>init_typetab\<close> and \<open>init_symtab\<close>.\<close>

definition initial_state :: pstate where
  "initial_state =
     \<lparr>sy = \<lparr>symtab = h_init (), syms = Map.empty, syms_brk = 0\<rparr>,
      ty_tab = \<lparr>typetab = h_init (), type_mem = Map.empty, type_brk = 0,
                field_mem = Map.empty, field_brk = 0\<rparr>,
      cg = init_cgstate,
      label_stack = s_init (),
      label_no = 0,
      cur_scope = 0,
      local_var_counter = 1,
      current_function = None,
      yylval_s = None\<rparr>"

definition compile :: "program_t \<Rightarrow> unit result" where
  "compile p = global_decl_list p initial_state"

text \<open>The text of the output file.\<close>

definition output_text :: "pstate \<Rightarrow> cstring" where
  "output_text st = concat (map (\<lambda>l. render l @ [CHR 0x0A]) (yyout (cg st)))"

end
