(* ===== verification/Effects.thy ===== *)
theory Effects
  imports Statements
begin

text \<open>
  What the actions of expressions, assignments and declarations do to the parser's state, as a step
  relation: they change the tables, the registers and the counter of local variables, and they
  emit lines that neither define a label nor jump. \<open>quiet\<close> actions do nothing else; in
  particular the scope, the label counter and the label stack are as before.
\<close>

section \<open>Labels and jumps in the output\<close>

text \<open>The labels a list of lines defines, and the labels it jumps to (calls aside).\<close>

fun label_defs :: "asm list \<Rightarrow> cstring list" where
  "label_defs [] = []"
| "label_defs (Lab l sp # ls) = l # label_defs ls"
| "label_defs (l # ls) = label_defs ls"

fun jump_target :: "asm \<Rightarrow> cstring list" where
  "jump_target (Op m args note) =
     (if m = ''j'' then args else if m = ''beqz'' then tl args else [])"
| "jump_target l = []"

definition jump_targets :: "asm list \<Rightarrow> cstring list" where
  "jump_targets ls = concat (map jump_target ls)"

fun plain_line :: "asm \<Rightarrow> bool" where
  "plain_line (Lab l sp) = False"
| "plain_line (Op m args note) \<longleftrightarrow> m \<noteq> ''j'' \<and> m \<noteq> ''beqz''"
| "plain_line l = True"

lemma label_defs_append [simp]: "label_defs (as @ bs) = label_defs as @ label_defs bs"
  by (induction as rule: label_defs.induct) auto

lemma jump_targets_simps [simp]:
  "jump_targets [] = []"
  "jump_targets (l # ls) = jump_target l @ jump_targets ls"
  "jump_targets (as @ bs) = jump_targets as @ jump_targets bs"
  by (simp_all add: jump_targets_def)

lemma plain_lines:
  assumes "\<forall>l \<in> set ls. plain_line l"
  shows "label_defs ls = []" and "jump_targets ls = []"
proof -
  have "plain_line l \<Longrightarrow> label_defs (l # ls) = label_defs ls \<and> jump_target l = []" for l ls
    by (cases l) auto
  with assms show "label_defs ls = []" "jump_targets ls = []"
    by (induction ls) (auto simp del: label_defs.simps simp: label_defs.simps(1))
qed

section \<open>Symbols over time\<close>

text \<open>
  Symbols are created at new addresses and may be freed, but the name and the scope of a symbol
  never change.
\<close>

definition symbols_kept :: "symstate \<Rightarrow> symstate \<Rightarrow> bool" where
  "symbols_kept s s' \<longleftrightarrow>
     syms_brk s \<le> syms_brk s' \<and>
     ((\<forall>a. syms s a \<noteq> None \<longrightarrow> a < syms_brk s) \<longrightarrow> (\<forall>a. syms s' a \<noteq> None \<longrightarrow> a < syms_brk s')) \<and>
     (\<forall>a e'. a < syms_brk s \<longrightarrow> syms s' a = Some e' \<longrightarrow>
        (\<exists>e. syms s a = Some e \<and> name e = name e' \<and> scope e = scope e'))"

lemma symbols_kept_refl: "symbols_kept s s"
  by (auto simp: symbols_kept_def)

lemma symbols_keptD:
  assumes "symbols_kept s s'" and "a < syms_brk s" and "syms s' a = Some e'"
  obtains e where "syms s a = Some e" "name e = name e'" "scope e = scope e'"
  using assms unfolding symbols_kept_def by blast

lemma symbols_kept_trans:
  assumes st: "symbols_kept s t" and tu: "symbols_kept t u"
  shows "symbols_kept s u"
proof -
  have brk: "syms_brk s \<le> syms_brk t" "syms_brk t \<le> syms_brk u"
    using assms by (simp_all add: symbols_kept_def)
  have "\<exists>e. syms s a = Some e \<and> name e = name e2 \<and> scope e = scope e2"
    if a: "a < syms_brk s" "syms u a = Some e2" for a e2
  proof -
    have "a < syms_brk t" using a(1) brk(1) by simp
    then obtain e1 where "syms t a = Some e1" "name e1 = name e2" "scope e1 = scope e2"
      using symbols_keptD [OF tu _ a(2)] by blast
    then show ?thesis using symbols_keptD [OF st a(1)] by metis
  qed
  with assms brk show ?thesis unfolding symbols_kept_def by simp
qed

lemma symbols_kept_alloc: "alloc_sym e s = (a, s') \<Longrightarrow> symbols_kept s s'"
  by (auto simp: symbols_kept_def alloc_sym_def less_Suc_eq)

lemma symbols_kept_write:
  "syms s a = Some e \<Longrightarrow> name e' = name e \<Longrightarrow> scope e' = scope e \<Longrightarrow>
     symbols_kept s (s\<lparr>syms := (syms s)(a \<mapsto> e'), symtab := t\<rparr>)"
  by (auto simp: symbols_kept_def)

lemma symbols_kept_write':
  "syms s a = Some e \<Longrightarrow> name e' = name e \<Longrightarrow> scope e' = scope e \<Longrightarrow>
     symbols_kept s (s\<lparr>syms := (syms s)(a \<mapsto> e')\<rparr>)"
  by (auto simp: symbols_kept_def)

lemma symbols_kept_create: "create_symbol s nm sc = Some (a, s') \<Longrightarrow> symbols_kept s s'"
  by (auto simp: create_symbol_def split: if_splits intro: symbols_kept_alloc)

lemma symbols_kept_copy: "copy_symbol s a = Some (b, s') \<Longrightarrow> symbols_kept s s'"
  by (auto simp: copy_symbol_def split: bind_splits if_splits intro: symbols_kept_alloc)

lemma symbols_kept_insert: "insert_symbol s a sc = Some (ok, s') \<Longrightarrow> symbols_kept s s'"
  by (auto simp: insert_symbol_def Let_def split: bind_splits intro!: symbols_kept_write)

lemma symbols_kept_delete: "delete_scope s sc = Some s' \<Longrightarrow> symbols_kept s s'"
proof -
  have "delete_loop s sc as = Some s' \<Longrightarrow> symbols_kept s s'" for as
  proof (induction as arbitrary: s)
    case Nil
    then show ?case by (simp add: symbols_kept_refl)
  next
    case (Cons a as)
    have free: "symbols_kept s (s\<lparr>symtab := t, syms := (case f of None \<Rightarrow> syms s | Some f \<Rightarrow> free_at f (syms s))\<rparr>)" for t f
      by (auto simp: symbols_kept_def split: option.splits if_splits)
    show ?case
      using Cons.prems Cons.IH symbols_kept_trans [OF free]
      by (auto split: bind_splits if_splits)
  qed
  then show "delete_scope s sc = Some s' \<Longrightarrow> symbols_kept s s'"
    by (auto simp: delete_scope_def split: bind_splits)
qed

section \<open>The step relation\<close>

inductive effect :: "pstate \<Rightarrow> pstate \<Rightarrow> bool" where
  on_symbols: "symbols_kept (sy st) s \<Longrightarrow> effect st (st\<lparr>sy := s\<rparr>)"
| on_types: "effect st (st\<lparr>ty_tab := t\<rparr>)"
| on_scanner: "effect st (st\<lparr>yylval_s := p\<rparr>)"
| on_counter: "effect st (st\<lparr>local_var_counter := n\<rparr>)"
| on_generator: "yyout c = yyout (cg st) \<Longrightarrow> effect st (st\<lparr>cg := c\<rparr>)"
| on_output: "plain_line l \<Longrightarrow> effect st (st\<lparr>cg := emit l (cg st)\<rparr>)"

inductive_cases effectE: "effect st st'"

definition quiet :: "'a action \<Rightarrow> bool" where
  "quiet m \<longleftrightarrow> (\<forall>st x st'. m st = Ok x st' \<longrightarrow> effect\<^sup>*\<^sup>* st st')"

named_theorems quiet_intros

lemma quiet_ret [quiet_intros]: "quiet (ret x)"
  and quiet_gets [quiet_intros]: "quiet (gets f)"
  and quiet_undef [quiet_intros]: "quiet undef"
  and quiet_yyerror [quiet_intros]: "quiet (yyerror msg)"
  and quiet_defined_in [quiet_intros]: "quiet (defined_in g)"
  by (auto simp: quiet_def action_defs split: option.splits)

lemma quiet_andthen [quiet_intros]:
  "quiet m \<Longrightarrow> (\<And>x. quiet (k x)) \<Longrightarrow> quiet (andthen m k)"
  unfolding quiet_def andthen_def by (auto split: result.splits) (metis rtranclp_trans)

lemma quiet_seq [quiet_intros]: "quiet m \<Longrightarrow> quiet k \<Longrightarrow> quiet (seq m k)"
  unfolding seq_def by (intro quiet_intros)

lemma quiet_when_do [quiet_intros]: "(b \<Longrightarrow> quiet m) \<Longrightarrow> quiet (when_do b m)"
  by (auto simp: when_do_def quiet_ret)

lemma quiet_step: "(\<And>st x st'. m st = Ok x st' \<Longrightarrow> effect st st') \<Longrightarrow> quiet m"
  unfolding quiet_def by blast

lemma quiet_with_sy:
  "(\<And>s x s'. f s = Some (x, s') \<Longrightarrow> symbols_kept s s') \<Longrightarrow> quiet (with_sy f)"
  by (rule quiet_step) (auto simp: action_defs intro!: effect.intros split: option.splits)

lemma quiet_symbol_operations [quiet_intros]:
  "quiet (with_sy (\<lambda>s. create_symbol s nm sc))" "quiet (with_sy (\<lambda>s. copy_symbol s a))"
  "quiet (with_sy (\<lambda>s. insert_symbol s a sc))"
  by (auto intro!: quiet_with_sy intro: symbols_kept_create symbols_kept_copy symbols_kept_insert)

lemma quiet_delete_scope [quiet_intros]:
  "quiet (with_sy (\<lambda>s. do { s' \<leftarrow> delete_scope s sc; Some ((), s') }))"
  by (rule quiet_with_sy) (auto split: bind_splits intro: symbols_kept_delete)

lemma quiet_with_ty [quiet_intros]: "quiet (with_ty g)"
  and quiet_scanned [quiet_intros]: "quiet (modify (\<lambda>st. st\<lparr>yylval_s := p\<rparr>))"
  and quiet_counted [quiet_intros]: "quiet (modify (\<lambda>st. st\<lparr>local_var_counter := n\<rparr>))"
  by (rule quiet_step, auto simp: action_defs intro: effect.intros split: option.splits)+

lemma quiet_with_cg:
  "(\<And>c x c'. f c = Some (x, c') \<Longrightarrow> yyout c' = yyout c) \<Longrightarrow> quiet (with_cg f)"
  by (rule quiet_step) (auto simp: action_defs intro!: effect.intros split: option.splits)

lemma quiet_out [quiet_intros]: "plain_line l \<Longrightarrow> quiet (out l)"
  by (rule quiet_step) (auto simp: action_defs intro: effect.intros)

lemma quiet_sym_at [quiet_intros]: "quiet (sym_at a)"
  and quiet_lookup_here [quiet_intros]: "quiet (lookup_here nm)"
  and quiet_lookup_from [quiet_intros]: "quiet (lookup_from nm sc)"
  unfolding sym_at_def lookup_here_def lookup_from_def by (auto intro: quiet_intros)

lemma quiet_sym_upd [quiet_intros]:
  "(\<And>e. name (f e) = name e) \<Longrightarrow> (\<And>e. scope (f e) = scope e) \<Longrightarrow> quiet (sym_upd a f)"
  unfolding sym_upd_def by (rule quiet_with_sy) (auto split: option.splits intro: symbols_kept_write')

lemma quiet_set_place [quiet_intros]: "quiet (set_place a p)"
  unfolding set_place_def by (auto intro!: quiet_intros)

lemma quiet_free_reg [quiet_intros]: "quiet (free_reg s)"
  unfolding free_reg_def
  by (rule quiet_with_cg) (auto simp: mark_temp_reg_free_def split: bind_splits if_splits)

lemma copy_reg_str_yyout [simp]: "yyout (copy_reg_str s c) = yyout c"
  by (simp add: copy_reg_str_def)

lemma quiet_copy_name [quiet_intros]: "quiet (copy_name s)"
  unfolding copy_name_def
  by (rule quiet_step) (clarsimp simp: modify_def effect.on_generator)

lemma quiet_new_reg [quiet_intros]: "quiet new_reg"
  unfolding new_reg_def
  by (intro quiet_intros quiet_with_cg) (auto simp: get_free_temp_reg_def split: option.splits)

lemma quiet_push_string [quiet_intros]: "quiet (with_cg (push_string_label s))"
  by (rule quiet_with_cg) (auto simp: push_string_label_def Let_def split: if_splits)

section \<open>Expressions\<close>

lemma quiet_lexer [quiet_intros]:
  "quiet (scan_symbol x)" "quiet (lex_ID x)" "quiet (lex_ICONST x)" "quiet (lex_FCONST x)"
  "quiet (expect k x)" "quiet (lex_SCONST x)"
proof -
  show s: "quiet (scan_symbol x)"
    unfolding scan_symbol_def by (auto intro!: quiet_intros split: option.split)
  then show i: "quiet (lex_ID x)"
    unfolding lex_ID_def by (auto intro!: quiet_intros)
  show "quiet (lex_ICONST x)" "quiet (lex_FCONST x)"
    unfolding lex_ICONST_def lex_FCONST_def lex_const_def using s by (auto intro!: quiet_intros)
  show "quiet (expect k x)"
    unfolding expect_def using i by (auto intro!: quiet_intros split: prod.split)
  show "quiet (lex_SCONST x)"
    unfolding lex_SCONST_def by (auto intro!: quiet_intros)
qed

lemma op_instr_plain: "op_instr b = Some op \<Longrightarrow> plain_line (Op op args note)"
  by (auto simp: op_instr_def split: if_splits)

lemma quiet_load_operand [quiet_intros]: "quiet (load_operand a)"
  unfolding load_operand_def by (auto intro!: quiet_intros)

lemma quiet_binop [quiet_intros]: "quiet (binop_action a1 b a3)"
  unfolding binop_action_def
  by (auto intro!: quiet_intros split: option.split simp: op_instr_plain simp del: plain_line.simps(2))

lemma quiet_iconst [quiet_intros]: "quiet (iconst_action a)"
  unfolding iconst_action_def by (auto intro!: quiet_intros)

lemma quiet_find_declared [quiet_intros]: "quiet (find_declared a)"
  unfolding find_declared_def by (auto intro!: quiet_intros split: option.split)

lemma quiet_lhs_id [quiet_intros]: "quiet (lhs_id_action a)"
  unfolding lhs_id_action_def by (auto intro!: quiet_intros split: option.split)

lemma quiet_lhs_field [quiet_intros]: "quiet (lhs_field_action a b)"
  unfolding lhs_field_action_def by (auto intro!: quiet_intros split: option.split)

lemma quiet_subscript [quiet_intros]: "quiet (subscript_action lb e r)"
  unfolding subscript_action_def by (auto intro!: quiet_intros split: option.split)

lemma quiet_call [quiet_intros]: "quiet (call_action a args)"
  unfolding call_action_def by (auto intro!: quiet_intros split: option.split)

lemma quiet_expressions:
  "quiet (expr e)" "quiet (lhs l)" "quiet (array_subscript sub)" "quiet (subscript_expr s)"
  "quiet (function_call f)" "quiet (call_param_list ps)" "quiet (param p)"
  by (induction e and l and sub and s and f and ps and p) (auto intro!: quiet_intros)

declare quiet_expressions [quiet_intros]

section \<open>Declarations\<close>

lemma each_symbol_loop_effect:
  assumes "each_symbol_loop f a st = Some r"
  shows "(\<forall>b. quiet (f b)) \<longrightarrow> (\<forall>x st'. r = Ok x st' \<longrightarrow> effect\<^sup>*\<^sup>* st st')"
proof (rule each_symbol_loop.raw_induct [where P = "\<lambda>f a st r.
      (\<forall>b. quiet (f b)) \<longrightarrow> (\<forall>x st'. r = Ok x st' \<longrightarrow> effect\<^sup>*\<^sup>* st st')", OF _ assms], intro impI allI)
  fix loop f a st r x st'
  assume IH: "\<And>f a st r. loop f a st = Some r \<Longrightarrow>
      (\<forall>b. quiet (f b)) \<longrightarrow> (\<forall>x st'. r = Ok x st' \<longrightarrow> effect\<^sup>*\<^sup>* st st')"
    and eq: "(case f a st of
        Ok u st' \<Rightarrow> (case syms (sy st') a of None \<Rightarrow> Some Undef
          | Some s \<Rightarrow> (case snext s of None \<Rightarrow> Some (Ok () st') | Some n \<Rightarrow> loop f n st'))
        | Exit e \<Rightarrow> Some (Exit e) | Undef \<Rightarrow> Some Undef) = Some r"
    and q: "\<forall>b. quiet (f b)" and r: "r = Ok x st'"
  show "effect\<^sup>*\<^sup>* st st'"
  proof (cases "f a st")
    case (Ok u st1)
    then have "effect\<^sup>*\<^sup>* st st1" using q by (auto simp: quiet_def)
    moreover have "effect\<^sup>*\<^sup>* st1 st'"
      using eq Ok r q IH by (auto split: option.splits)
    ultimately show ?thesis by (rule rtranclp_trans)
  qed (use eq r in auto)
qed

lemma quiet_each_symbol [quiet_intros]: "(\<And>a. quiet (f a)) \<Longrightarrow> quiet (each_symbol f a)"
  unfolding quiet_def [of "each_symbol f a"]
  using each_symbol_loop_effect [of f] by (auto simp: each_symbol_def split: option.splits)

lemma quiet_type_action [quiet_intros]: "quiet (type_action t)"
  by (cases t) (auto intro!: quiet_intros)

lemma quiet_id_tail [quiet_intros]: "quiet (id_tail i)"
  by (cases i) (auto intro!: quiet_intros)

lemma quiet_mark_array [quiet_intros]: "quiet (mark_array a d)"
  unfolding mark_array_def by (auto intro!: quiet_intros split: option.split)

lemma quiet_id_list [quiet_intros]: "quiet (id_list ids)"
  by (induction ids) (auto intro!: quiet_intros)

lemma quiet_new_field [quiet_intros]: "quiet (new_field a)"
  unfolding new_field_def by (auto intro!: quiet_intros)

lemma quiet_field_link [quiet_intros]: "quiet (field_link f g)"
  unfolding field_link_def by (auto intro!: quiet_intros)

lemma quiet_link_fields [quiet_intros]: "quiet (link_fields f as)"
  by (induction as arbitrary: f) (auto intro!: quiet_intros)

lemma quiet_make_fields [quiet_intros]: "quiet (make_fields a)"
  unfolding make_fields_def by (auto intro!: quiet_intros)

lemma quiet_struct_decl_action [quiet_intros]: "quiet (struct_decl_action a fl)"
  unfolding struct_decl_action_def by (auto intro!: quiet_intros)

lemma quiet_set_types [quiet_intros]: "quiet (set_types t a)" "quiet (set_struct_types obj a)"
  unfolding set_types_def set_struct_types_def by (auto intro!: quiet_intros)

lemma quiet_struct_decl [quiet_intros]:
  "quiet (struct_decl sd)" "quiet (struct_decl_list sl)" "quiet (type_decl td)" "quiet (struct_var_decl sv)"
  by (induction sd and sl and td and sv) (auto intro!: quiet_intros)

lemma quiet_enter_symbol [quiet_intros]: "quiet (enter_symbol a)"
  unfolding enter_symbol_def by (auto intro!: quiet_intros)

lemma quiet_declare_var [quiet_intros]: "quiet (declare_var t a)"
  unfolding declare_var_def var_place_def by (auto intro!: quiet_intros)

lemma quiet_declare_struct_var [quiet_intros]: "quiet (declare_struct_var obj a)"
  unfolding declare_struct_var_def by (auto intro!: quiet_intros)

lemma quiet_decl [quiet_intros]: "quiet (decl d)"
proof -
  have "quiet (var_decl vd)" for vd by (cases vd) (auto intro!: quiet_intros)
  then show ?thesis by (cases d) (auto intro!: quiet_intros)
qed

lemma quiet_decl_list [quiet_intros]: "quiet (decl_list ds)"
  by (induction ds) (auto intro!: quiet_intros)

section \<open>Simple statements and parameters\<close>

lemma quiet_assign_expr [quiet_intros]: "quiet (assign_expr a)"
proof -
  have "quiet (assign_expr_tail t)" for t
    by (cases t) (auto simp: read_action_def intro!: quiet_intros)
  then show ?thesis
    by (cases a) (auto simp: assign_action_def intro!: quiet_intros)
qed

lemma quiet_write [quiet_intros]: "quiet (write_action s)" "quiet (write_lhs_action a)"
  unfolding write_action_def write_lhs_action_def by (auto intro!: quiet_intros)

lemma quiet_return [quiet_intros]: "quiet (return_action a)"
  unfolding return_action_def by (auto intro!: quiet_intros split: option.split)

lemma quiet_param_list [quiet_intros]: "quiet (param_list ps)"
proof -
  have "quiet (param_type t)" for t by (cases t) (auto intro!: quiet_intros)
  then have "quiet (param_var_decl t x sub)" for t x sub
    unfolding param_var_decl_def by (auto intro!: quiet_intros)
  then show ?thesis by (induction ps) (auto intro!: quiet_intros)
qed

end
