(* ===== verification/ControlFlow.thy ===== *)
theory ControlFlow
  imports Effects CodeGenProps
begin

text \<open>
  The labels that \<open>if\<close> and \<open>while\<close> statements put into the code: every statement emits a segment
  whose jumps stay inside it and whose labels are its own, and it leaves the label stack and the
  scope as it found them.
\<close>

section \<open>Segments of code\<close>

definition control_labels :: "int \<Rightarrow> int \<Rightarrow> cstring set" where
  "control_labels a b = {l. \<exists>n. a < n \<and> n \<le> b \<and> (l = Lelse n \<or> l = Lexit n \<or> l = Test n)}"

text \<open>The code of a statement that takes the label numbers above \<open>a\<close>, up to \<open>b\<close>.\<close>

definition segment :: "int \<Rightarrow> int \<Rightarrow> asm list \<Rightarrow> bool" where
  "segment a b ls \<longleftrightarrow>
     a \<le> b \<and> distinct (label_defs ls) \<and> set (label_defs ls) \<subseteq> control_labels a b \<and>
     set (jump_targets ls) \<subseteq> set (label_defs ls)"

lemma fmt_d_inj: "0 \<le> m \<Longrightarrow> 0 \<le> n \<Longrightarrow> fmt_d m = fmt_d n \<Longrightarrow> m = n"
  using myitoa_inj [of m n] by (simp add: myitoa_def)

lemma control_label_eq:
  assumes "0 \<le> m" and "0 \<le> n"
  shows "Lelse m = Lelse n \<longleftrightarrow> m = n" and "Lexit m = Lexit n \<longleftrightarrow> m = n" and "Test m = Test n \<longleftrightarrow> m = n"
    and "Lelse m \<noteq> Lexit n" and "Lelse m \<noteq> Test n" and "Lexit m \<noteq> Test n"
    and "Lexit m \<noteq> Lelse n" and "Test m \<noteq> Lelse n" and "Test m \<noteq> Lexit n"
  using fmt_d_inj [OF assms] by (auto simp: Lelse_def Lexit_def Test_def)

lemma control_labels_disjoint:
  "0 \<le> a \<Longrightarrow> a \<le> b \<Longrightarrow> b \<le> c \<Longrightarrow> control_labels a b \<inter> control_labels b c = {}"
  by (auto simp: control_labels_def control_label_eq)

lemma control_labels_mono: "a' \<le> a \<Longrightarrow> b \<le> b' \<Longrightarrow> control_labels a b \<subseteq> control_labels a' b'"
proof
  fix l assume "a' \<le> a" "b \<le> b'" "l \<in> control_labels a b"
  then obtain n where "a < n" "n \<le> b" "l = Lelse n \<or> l = Lexit n \<or> l = Test n"
    unfolding control_labels_def by blast
  moreover from this \<open>a' \<le> a\<close> \<open>b \<le> b'\<close> have "a' < n" "n \<le> b'" by simp_all
  ultimately show "l \<in> control_labels a' b'" unfolding control_labels_def by blast
qed

lemma segment_plain: "\<forall>l \<in> set ls. plain_line l \<Longrightarrow> segment a a ls"
  by (simp add: segment_def plain_lines)

lemma segment_append:
  assumes "0 \<le> a" and "segment a b xs" and "segment b c ys"
  shows "segment a c (xs @ ys)"
proof -
  have ord: "a \<le> b" "b \<le> c" using assms by (simp_all add: segment_def)
  then have "control_labels a b \<inter> control_labels b c = {}"
    using control_labels_disjoint assms(1) by blast
  then have "set (label_defs xs) \<inter> set (label_defs ys) = {}"
    using assms(2,3) by (auto simp: segment_def)
  moreover have "set (label_defs xs) \<union> set (label_defs ys) \<subseteq> control_labels a c"
    using assms(2,3) ord control_labels_mono [of a a b c] control_labels_mono [of a b c c]
    by (auto simp: segment_def)
  ultimately show ?thesis using assms(2,3) by (auto simp: segment_def)
qed

text \<open>The code of an \<open>if\<close> statement with label number \<open>n\<close>, and of a \<open>while\<close> statement.\<close>

lemma segment_if:
  assumes n: "0 \<le> a" "n = a + 1"
    and e: "\<forall>l \<in> set es. plain_line l" and s: "segment n b ss" and el: "segment b c els"
  shows "segment a c (es @ [Op ''beqz'' [p, Lelse n] []] @ ss @
    [Op ''j'' [Lexit n] [], Lab (Lelse n) []] @ els @ [Lab (Lexit n) []])"
proof -
  have se: "segment n c (ss @ els)" using segment_append [OF _ s el] n by simp
  have old: "Lelse n \<notin> control_labels n c" "Lexit n \<notin> control_labels n c"
    using n by (auto simp: control_labels_def control_label_eq)
  have "n \<le> c" using se by (simp add: segment_def)
  then have own: "Lelse n \<in> control_labels a c" "Lexit n \<in> control_labels a c"
    using n unfolding control_labels_def by (auto intro!: exI [of _ n])
  have "control_labels n c \<subseteq> control_labels a c" using n by (intro control_labels_mono) simp_all
  then show ?thesis
    using se old own n plain_lines [OF e] control_label_eq [of n n]
    by (auto simp: segment_def)
qed

lemma segment_while:
  assumes n: "0 \<le> a" "n = a + 1"
    and e: "\<forall>l \<in> set es. plain_line l" and s: "segment n b ss"
  shows "segment a b ([Lab (Test n) '' ''] @ es @ [Op ''beqz'' [p, Lexit n] note] @ ss @
    [Op ''j'' [Test n] [], Lab (Lexit n) '' ''])"
proof -
  have old: "Test n \<notin> control_labels n b" "Lexit n \<notin> control_labels n b"
    using n by (auto simp: control_labels_def control_label_eq)
  have "n \<le> b" using s by (simp add: segment_def)
  then have own: "Test n \<in> control_labels a b" "Lexit n \<in> control_labels a b"
    using n unfolding control_labels_def by (auto intro!: exI [of _ n])
  have "control_labels n b \<subseteq> control_labels a b" using n by (intro control_labels_mono) simp_all
  then show ?thesis
    using s old own n plain_lines [OF e] control_label_eq [of n n]
    by (auto simp: segment_def)
qed

section \<open>What a statement does\<close>

text \<open>
  A run is balanced if it appends a segment to the output and restores the label stack, the scope
  and the current function.
\<close>

definition ready :: "pstate \<Rightarrow> bool" where
  "ready st \<longleftrightarrow> stack_inv (label_stack st) \<and> 0 \<le> label_no st"

definition balanced_run :: "pstate \<Rightarrow> pstate \<Rightarrow> bool" where
  "balanced_run st st' \<longleftrightarrow>
     (ready st \<longrightarrow>
        stack_inv (label_stack st') \<and> stack_contents (label_stack st') = stack_contents (label_stack st) \<and>
        cur_scope st' = cur_scope st \<and> current_function st' = current_function st \<and>
        (\<exists>ls. yyout (cg st') = yyout (cg st) @ ls \<and> segment (label_no st) (label_no st') ls))"

definition balanced :: "'a action \<Rightarrow> bool" where
  "balanced m \<longleftrightarrow> (\<forall>st x st'. m st = Ok x st' \<longrightarrow> balanced_run st st')"

lemma balanced_run_refl: "balanced_run st st"
  by (auto simp: balanced_run_def ready_def intro: exI [of _ "[]"] segment_plain)

lemma balanced_run_trans:
  assumes "balanced_run st st1" and "balanced_run st1 st2"
  shows "balanced_run st st2"
  unfolding balanced_run_def
proof (intro impI conjI)
  assume r: "ready st"
  obtain ls where ls: "yyout (cg st1) = yyout (cg st) @ ls" "segment (label_no st) (label_no st1) ls"
    using assms(1) r by (auto simp: balanced_run_def)
  have r1: "ready st1" using assms(1) r ls(2) by (auto simp: balanced_run_def ready_def segment_def)
  obtain ls2 where ls2: "yyout (cg st2) = yyout (cg st1) @ ls2" "segment (label_no st1) (label_no st2) ls2"
    using assms(2) r1 by (auto simp: balanced_run_def)
  have "segment (label_no st) (label_no st2) (ls @ ls2)"
    using segment_append ls(2) ls2(2) r by (simp add: ready_def)
  with ls(1) ls2(1) show "\<exists>ls. yyout (cg st2) = yyout (cg st) @ ls \<and> segment (label_no st) (label_no st2) ls"
    by auto
  show "stack_inv (label_stack st2)" "stack_contents (label_stack st2) = stack_contents (label_stack st)"
    "cur_scope st2 = cur_scope st" "current_function st2 = current_function st"
    using assms r r1 by (simp_all add: balanced_run_def)
qed

text \<open>A quiet run emits plain lines and leaves the rest alone.\<close>

lemma quiet_run:
  assumes "effect\<^sup>*\<^sup>* st st'"
  shows "label_stack st' = label_stack st \<and> label_no st' = label_no st \<and> cur_scope st' = cur_scope st \<and>
    current_function st' = current_function st \<and>
    symbols_kept (sy st) (sy st') \<and>
    (\<exists>ls. yyout (cg st') = yyout (cg st) @ ls \<and> (\<forall>l \<in> set ls. plain_line l))"
  using assms
proof (induction rule: rtranclp_induct)
  case base
  then show ?case by (simp add: symbols_kept_refl)
next
  case (step st1 st2)
  obtain ls where ls: "yyout (cg st1) = yyout (cg st) @ ls" "\<forall>l \<in> set ls. plain_line l"
    using step.IH by blast
  have "\<exists>ls'. yyout (cg st2) = yyout (cg st1) @ ls' \<and> (\<forall>l \<in> set ls'. plain_line l)"
    using step.hyps(2) by (cases rule: effect.cases) (auto simp: emit_def)
  then obtain ls' where ls': "yyout (cg st2) = yyout (cg st1) @ ls'" "\<forall>l \<in> set ls'. plain_line l" by blast
  have "yyout (cg st2) = yyout (cg st) @ (ls @ ls')" "\<forall>l \<in> set (ls @ ls'). plain_line l"
    using ls ls' by auto
  then have "\<exists>ls. yyout (cg st2) = yyout (cg st) @ ls \<and> (\<forall>l \<in> set ls. plain_line l)" by blast
  moreover have "label_stack st2 = label_stack st1 \<and> label_no st2 = label_no st1 \<and>
      cur_scope st2 = cur_scope st1 \<and> current_function st2 = current_function st1 \<and>
      symbols_kept (sy st1) (sy st2)"
    using step.hyps(2) by (cases rule: effect.cases) (auto simp: symbols_kept_refl)
  ultimately show ?case using step.IH symbols_kept_trans by auto
qed

lemma quiet_runD:
  assumes "quiet m" and "m st = Ok x st'"
  obtains ls where "label_stack st' = label_stack st" "label_no st' = label_no st" "cur_scope st' = cur_scope st"
    "current_function st' = current_function st" "yyout (cg st') = yyout (cg st) @ ls" "\<forall>l \<in> set ls. plain_line l"
  using quiet_run [of st st'] assms unfolding quiet_def by blast

lemma quiet_kept: "quiet m \<Longrightarrow> m st = Ok x st' \<Longrightarrow> symbols_kept (sy st) (sy st')"
  using quiet_run [of st st'] unfolding quiet_def by blast

lemma quiet_balanced: "quiet m \<Longrightarrow> balanced m"
  unfolding balanced_def balanced_run_def ready_def
  using segment_plain by (metis quiet_runD)

lemma balanced_andthen: "balanced m \<Longrightarrow> (\<And>x. balanced (k x)) \<Longrightarrow> balanced (andthen m k)"
  unfolding balanced_def andthen_def by (auto split: result.splits) (metis balanced_run_trans)

lemma balanced_seq: "balanced m \<Longrightarrow> balanced k \<Longrightarrow> balanced (seq m k)"
  unfolding seq_def by (intro balanced_andthen)

section \<open>The actions around the parts of a statement\<close>

lemma push_label_run:
  assumes "push_label n st = Ok x st'" and "stack_inv (label_stack st)"
  shows "\<exists>s. st' = st\<lparr>label_stack := s\<rparr> \<and> stack_inv s \<and> stack_contents s = n # stack_contents (label_stack st)"
proof -
  obtain ok s where s: "s_push (label_stack st) n = Some (ok, s)" "st' = st\<lparr>label_stack := s\<rparr>"
    using assms(1) by (auto simp: push_label_def with_stack_def action_defs split: option.splits)
  have "length (stack_contents (label_stack st)) < STACK_SIZ"
    using ls.depth [OF assms(2)] s(1) s_push_full_iff [OF assms(2)] by (metis option.distinct(1) order_le_less)
  then show ?thesis using ls.push_room [OF assms(2), of n] s by auto
qed

lemma stack_top_run:
  assumes "stack_inv (label_stack st)" and "stack_contents (label_stack st) = n # ns"
  shows "stack_top st = Ok n st"
  using ls.top_after_push [OF assms] by (simp add: stack_top_def defined_in_def)

lemma pop_label_run:
  assumes "stack_inv (label_stack st)" and "stack_contents (label_stack st) = n # ns"
  shows "\<exists>s. pop_label st = Ok () (st\<lparr>label_stack := s\<rparr>) \<and> stack_inv s \<and> stack_contents s = ns"
  using ls.pop_contents [OF assms(1)] assms(2)
  by (auto simp: pop_label_def with_stack_def action_defs)

text \<open>A statement's test: the next label number is taken and pushed.\<close>

lemma if_test_run:
  assumes "if_test a st = Ok x st'" and "ready st"
  shows "\<exists>p. label_no st' = label_no st + 1 \<and> stack_inv (label_stack st') \<and>
    stack_contents (label_stack st') = (label_no st + 1) # stack_contents (label_stack st) \<and>
    cur_scope st' = cur_scope st \<and> current_function st' = current_function st \<and>
    yyout (cg st') = yyout (cg st) @ [Op ''beqz'' [p, Lelse (label_no st + 1)] []]"
proof -
  let ?n = "label_no st + 1"
  obtain p where s: "push_label ?n (st\<lparr>label_no := ?n,
      cg := emit (Op ''beqz'' [p, Lelse ?n] []) (cg st)\<rparr>) = Ok x st'"
    using assms(1) by (auto simp: if_test_def next_label_def action_defs split: option.splits)
  show ?thesis using push_label_run [OF s] assms(2) by (auto simp: ready_def emit_def)
qed

lemma while_head_run:
  assumes "while_head st = Ok x st'" and "ready st"
  shows "label_no st' = label_no st + 1 \<and> stack_inv (label_stack st') \<and>
    stack_contents (label_stack st') = (label_no st + 1) # stack_contents (label_stack st) \<and>
    cur_scope st' = cur_scope st \<and> current_function st' = current_function st \<and>
    yyout (cg st') = yyout (cg st) @ [Lab (Test (label_no st + 1)) '' '']"
proof -
  let ?n = "label_no st + 1"
  have s: "push_label ?n (st\<lparr>label_no := ?n, cg := emit (Lab (Test ?n) '' '') (cg st)\<rparr>) = Ok x st'"
    using assms(1) by (auto simp: while_head_def next_label_def action_defs)
  show ?thesis using push_label_run [OF s] assms(2) by (auto simp: ready_def emit_def)
qed

lemma while_test_run:
  assumes "while_test a st = Ok x st'"
  shows "\<exists>p note. st' = st\<lparr>cg := emit (Op ''beqz'' [p, Lexit (label_no st)] note) (cg st)\<rparr>"
  using assms by (auto simp: while_test_def action_defs split: option.splits)

lemma if_middle_run:
  assumes "stack_inv (label_stack st)" and "stack_contents (label_stack st) = n # ns"
  shows "if_middle st = Ok () (st\<lparr>cg := emits [Op ''j'' [Lexit n] [], Lab (Lelse n) []] (cg st)\<rparr>)"
  by (simp add: if_middle_def andthen_def seq_def stack_top_run [OF assms] out_def modify_def emit_def emits_def)

lemma if_end_run:
  assumes "stack_inv (label_stack st)" and "stack_contents (label_stack st) = n # ns"
  shows "\<exists>s. if_end st = Ok () (st\<lparr>cg := emit (Lab (Lexit n) []) (cg st), label_stack := s\<rparr>) \<and>
    stack_inv s \<and> stack_contents s = ns"
  using pop_label_run [of "st\<lparr>cg := emit (Lab (Lexit n) []) (cg st)\<rparr>" n ns] assms
  by (auto simp: if_end_def andthen_def seq_def stack_top_run [OF assms] out_def modify_def)

lemma while_end_run:
  assumes "stack_inv (label_stack st)" and "stack_contents (label_stack st) = n # ns"
  shows "\<exists>s. while_end st = Ok () (st\<lparr>cg := emits [Op ''j'' [Test n] [], Lab (Lexit n) '' ''] (cg st), label_stack := s\<rparr>) \<and>
    stack_inv s \<and> stack_contents s = ns"
  using pop_label_run [of "st\<lparr>cg := emits [Op ''j'' [Test n] [], Lab (Lexit n) '' ''] (cg st)\<rparr>" n ns] assms
  by (auto simp: while_end_def andthen_def seq_def stack_top_run [OF assms] out_def modify_def emit_def emits_def)

section \<open>Statements are balanced\<close>

lemma balanced_runD:
  assumes "balanced m" and "m st = Ok x st'" and "ready st"
  obtains ls where "stack_inv (label_stack st')" "stack_contents (label_stack st') = stack_contents (label_stack st)"
    "cur_scope st' = cur_scope st" "current_function st' = current_function st"
    "yyout (cg st') = yyout (cg st) @ ls" "segment (label_no st) (label_no st') ls" "ready st'"
  using assms unfolding balanced_def balanced_run_def ready_def segment_def by (meson order_trans)

lemma balanced_if:
  assumes "balanced (stmt s)" and "balanced (else_part el)"
  shows "balanced (stmt (St_if e s el))"
  unfolding balanced_def balanced_run_def
proof (intro allI impI)
  fix st x st'
  assume run: "stmt (St_if e s el) st = Ok x st'" and r: "ready st"
  obtain a st1 where 1: "expr e st = Ok a st1"
      and run1: "seq (if_test a) (seq (stmt s) (seq if_middle (seq (else_part el) if_end))) st1 = Ok x st'"
    using run by (auto elim: andthen_OkE)
  obtain es where es: "label_stack st1 = label_stack st" "label_no st1 = label_no st" "cur_scope st1 = cur_scope st"
    "current_function st1 = current_function st" "yyout (cg st1) = yyout (cg st) @ es" "\<forall>l \<in> set es. plain_line l"
    using quiet_runD [OF quiet_expressions(1) 1] by blast
  have r1: "ready st1" using r es by (simp add: ready_def)
  obtain u st2 where 2: "if_test a st1 = Ok u st2"
      and run2: "seq (stmt s) (seq if_middle (seq (else_part el) if_end)) st2 = Ok x st'"
    using run1 by (rule seq_OkE)
  let ?n = "label_no st + 1" and ?ns = "stack_contents (label_stack st)"
  obtain p where p: "label_no st2 = ?n" "stack_inv (label_stack st2)" "stack_contents (label_stack st2) = ?n # ?ns"
    "cur_scope st2 = cur_scope st" "current_function st2 = current_function st"
    "yyout (cg st2) = yyout (cg st) @ es @ [Op ''beqz'' [p, Lelse ?n] []]"
    using if_test_run [OF 2 r1] es by auto
  have r2: "ready st2" using p r by (simp add: ready_def)
  obtain u' st3 where 3: "stmt s st2 = Ok u' st3" and run3: "seq if_middle (seq (else_part el) if_end) st3 = Ok x st'"
    using run2 by (rule seq_OkE)
  obtain ss where ss: "stack_inv (label_stack st3)" "stack_contents (label_stack st3) = ?n # ?ns"
    "cur_scope st3 = cur_scope st" "current_function st3 = current_function st"
    "yyout (cg st3) = yyout (cg st2) @ ss" "segment ?n (label_no st3) ss" "ready st3"
    using balanced_runD [OF assms(1) 3 r2] p by metis
  let ?st4 = "st3\<lparr>cg := emits [Op ''j'' [Lexit ?n] [], Lab (Lelse ?n) []] (cg st3)\<rparr>"
  have run4: "seq (else_part el) if_end ?st4 = Ok x st'"
    using run3 if_middle_run [OF ss(1,2)] by (simp add: seq_def andthen_def)
  obtain u'' st5 where 5: "else_part el ?st4 = Ok u'' st5" and run5: "if_end st5 = Ok x st'"
    using run4 by (rule seq_OkE)
  have r4: "ready ?st4" using ss(7) by (simp add: ready_def)
  have same4: "stack_contents (label_stack ?st4) = stack_contents (label_stack st3)" "label_no ?st4 = label_no st3"
    "cur_scope ?st4 = cur_scope st3" "current_function ?st4 = current_function st3"
    by simp_all
  obtain els where els: "stack_inv (label_stack st5)" "stack_contents (label_stack st5) = ?n # ?ns"
    "cur_scope st5 = cur_scope st" "current_function st5 = current_function st"
    "yyout (cg st5) = yyout (cg ?st4) @ els" "segment (label_no st3) (label_no st5) els"
    using balanced_runD [OF assms(2) 5 r4] ss same4 by metis
  obtain sk where sk: "st' = st5\<lparr>cg := emit (Lab (Lexit ?n) []) (cg st5), label_stack := sk\<rparr>"
    "stack_inv sk" "stack_contents sk = ?ns"
    using if_end_run [OF els(1,2)] run5 by auto
  have "segment (label_no st) (label_no st5) (es @ [Op ''beqz'' [p, Lelse ?n] []] @ ss @
      [Op ''j'' [Lexit ?n] [], Lab (Lelse ?n) []] @ els @ [Lab (Lexit ?n) []])"
    using segment_if [OF _ refl es(6) ss(6) els(6)] r by (simp add: ready_def)
  moreover have "yyout (cg st') = yyout (cg st) @ (es @ [Op ''beqz'' [p, Lelse ?n] []] @ ss @
      [Op ''j'' [Lexit ?n] [], Lab (Lelse ?n) []] @ els @ [Lab (Lexit ?n) []])"
    using sk(1) els(5) ss(5) p(6) by (simp add: emit_def emits_def)
  ultimately show "stack_inv (label_stack st') \<and> stack_contents (label_stack st') = ?ns \<and>
      cur_scope st' = cur_scope st \<and> current_function st' = current_function st \<and>
      (\<exists>ls. yyout (cg st') = yyout (cg st) @ ls \<and> segment (label_no st) (label_no st') ls)"
    using sk els(3,4) by auto
qed

lemma balanced_while:
  assumes "balanced (stmt s)"
  shows "balanced (stmt (St_while e s))"
  unfolding balanced_def balanced_run_def
proof (intro allI impI)
  fix st x st'
  assume run: "stmt (St_while e s) st = Ok x st'" and r: "ready st"
  let ?n = "label_no st + 1" and ?ns = "stack_contents (label_stack st)"
  obtain u st1 where 1: "while_head st = Ok u st1"
      and run1: "andthen (expr e) (\<lambda>a. seq (while_test a) (seq (stmt s) while_end)) st1 = Ok x st'"
    using run by (auto elim: seq_OkE)
  have h: "label_no st1 = ?n" "stack_inv (label_stack st1)" "stack_contents (label_stack st1) = ?n # ?ns"
    "cur_scope st1 = cur_scope st" "current_function st1 = current_function st"
    "yyout (cg st1) = yyout (cg st) @ [Lab (Test ?n) '' '']"
    using while_head_run [OF 1 r] by auto
  obtain a st2 where 2: "expr e st1 = Ok a st2" and run2: "seq (while_test a) (seq (stmt s) while_end) st2 = Ok x st'"
    using run1 by (rule andthen_OkE)
  obtain es where es: "label_stack st2 = label_stack st1" "label_no st2 = label_no st1" "cur_scope st2 = cur_scope st1"
    "current_function st2 = current_function st1" "yyout (cg st2) = yyout (cg st1) @ es" "\<forall>l \<in> set es. plain_line l"
    using quiet_runD [OF quiet_expressions(1) 2] by blast
  obtain u' st3 where 3: "while_test a st2 = Ok u' st3" and run3: "seq (stmt s) while_end st3 = Ok x st'"
    using run2 by (rule seq_OkE)
  obtain p cmt where st3: "st3 = st2\<lparr>cg := emit (Op ''beqz'' [p, Lexit ?n] cmt) (cg st2)\<rparr>"
    using while_test_run [OF 3] es(2) h(1) by auto
  have r3: "ready st3" using r h es st3 by (simp add: ready_def)
  obtain u'' st4 where 4: "stmt s st3 = Ok u'' st4" and run4: "while_end st4 = Ok x st'"
    using run3 by (rule seq_OkE)
  have st3_same: "label_no st3 = ?n" "stack_contents (label_stack st3) = ?n # ?ns" "cur_scope st3 = cur_scope st"
    "current_function st3 = current_function st"
    using st3 es h by simp_all
  obtain ss where ss: "stack_inv (label_stack st4)" "stack_contents (label_stack st4) = ?n # ?ns"
    "cur_scope st4 = cur_scope st" "current_function st4 = current_function st"
    "yyout (cg st4) = yyout (cg st3) @ ss" "segment ?n (label_no st4) ss"
    using balanced_runD [OF assms 4 r3] st3_same by metis
  obtain sk where sk: "st' = st4\<lparr>cg := emits [Op ''j'' [Test ?n] [], Lab (Lexit ?n) '' ''] (cg st4), label_stack := sk\<rparr>"
    "stack_inv sk" "stack_contents sk = ?ns"
    using while_end_run [OF ss(1,2)] run4 by auto
  have "segment (label_no st) (label_no st4) ([Lab (Test ?n) '' ''] @ es @ [Op ''beqz'' [p, Lexit ?n] cmt] @ ss @
      [Op ''j'' [Test ?n] [], Lab (Lexit ?n) '' ''])"
    using segment_while [OF _ refl es(6) ss(6)] r by (simp add: ready_def)
  moreover have "yyout (cg st') = yyout (cg st) @ ([Lab (Test ?n) '' ''] @ es @ [Op ''beqz'' [p, Lexit ?n] cmt] @ ss @
      [Op ''j'' [Test ?n] [], Lab (Lexit ?n) '' ''])"
    using sk(1) ss(5) st3 es(5) h(6) by (simp add: emit_def emits_def)
  ultimately show "stack_inv (label_stack st') \<and> stack_contents (label_stack st') = ?ns \<and>
      cur_scope st' = cur_scope st \<and> current_function st' = current_function st \<and>
      (\<exists>ls. yyout (cg st') = yyout (cg st) @ ls \<and> segment (label_no st) (label_no st') ls)"
    using sk ss(3,4) by auto
qed

lemma balanced_block:
  assumes "balanced (block b)"
  shows "balanced (stmt (St_block b))"
  unfolding balanced_def balanced_run_def
proof (intro allI impI)
  fix st x st'
  assume run: "stmt (St_block b) st = Ok x st'" and r: "ready st"
  let ?st1 = "st\<lparr>cur_scope := cur_scope st + 1, cg := emit (Op ''nop'' [] []) (cg st)\<rparr>"
  obtain u st2 where 2: "block b ?st1 = Ok u st2" and st': "st' = st2\<lparr>cur_scope := cur_scope st2 - 1\<rparr>"
    using run by (auto simp: open_block_def close_block_def seq_def andthen_def modify_def out_def split: result.splits)
  have "ready ?st1" using r by (simp add: ready_def)
  from balanced_runD [OF assms 2 this] obtain ls where ls: "stack_inv (label_stack st2)"
    "stack_contents (label_stack st2) = stack_contents (label_stack st)" "cur_scope st2 = cur_scope st + 1"
    "current_function st2 = current_function st" "yyout (cg st2) = yyout (cg ?st1) @ ls"
    "segment (label_no st) (label_no st2) ls"
    by auto
  have "segment (label_no st) (label_no st2) ([Op ''nop'' [] []] @ ls)"
    using r by (intro segment_append [OF _ segment_plain ls(6)]) (simp_all add: ready_def)
  then show "stack_inv (label_stack st') \<and> stack_contents (label_stack st') = stack_contents (label_stack st) \<and>
      cur_scope st' = cur_scope st \<and> current_function st' = current_function st \<and>
      (\<exists>ls. yyout (cg st') = yyout (cg st) @ ls \<and> segment (label_no st) (label_no st') ls)"
    using ls st' by (auto simp: emit_def intro!: exI [of _ "[Op ''nop'' [] []] @ ls"])
qed

lemma balanced_statements:
  "balanced (stmt s)" "balanced (block b)" "balanced (stmt_list ss)" "balanced (else_part el)"
proof (induction s and b and ss and el)
  case (St_block b) then show ?case by (rule balanced_block)
next
  case (St_if e s el) then show ?case by (rule balanced_if)
next
  case (St_while e s) then show ?case by (rule balanced_while)
next
  case (St_for a1 e a2 s)
  then show ?case by (auto intro!: balanced_andthen intro: quiet_balanced quiet_intros)
next
  case (B_list ds ss)
  then show ?case by (auto intro!: balanced_seq intro: quiet_balanced quiet_intros)
next
  case (Ss_cons s ss)
  then show ?case by (simp add: balanced_seq)
qed (auto intro!: quiet_balanced quiet_intros)

section \<open>Names of symbols\<close>

definition keeping :: "'a action \<Rightarrow> bool" where
  "keeping m \<longleftrightarrow> (\<forall>st x st'. m st = Ok x st' \<longrightarrow> symbols_kept (sy st) (sy st'))"

lemma quiet_keeping: "quiet m \<Longrightarrow> keeping m"
  unfolding keeping_def by (intro allI impI) (rule quiet_kept)

lemma keeping_andthen:
  assumes "keeping m" and "\<And>x. keeping (k x)"
  shows "keeping (andthen m k)"
  unfolding keeping_def
proof (intro allI impI)
  fix st x st'
  assume "andthen m k st = Ok x st'"
  then obtain y st1 where "m st = Ok y st1" "k y st1 = Ok x st'" by (rule andthen_OkE)
  then have "symbols_kept (sy st) (sy st1)" "symbols_kept (sy st1) (sy st')"
    using assms unfolding keeping_def by blast+
  then show "symbols_kept (sy st) (sy st')" by (rule symbols_kept_trans)
qed

lemma keeping_seq: "keeping m \<Longrightarrow> keeping k \<Longrightarrow> keeping (seq m k)"
  unfolding seq_def by (intro keeping_andthen)

lemma keeping_same: "(\<And>st x st'. m st = Ok x st' \<Longrightarrow> sy st' = sy st) \<Longrightarrow> keeping m"
  unfolding keeping_def by (metis symbols_kept_refl)

lemma keeping_control:
  "keeping open_block" "keeping close_block" "keeping (if_test a)" "keeping if_middle" "keeping if_end"
  "keeping while_head" "keeping (while_test a)" "keeping while_end"
  by (rule keeping_same; auto simp: open_block_def close_block_def if_test_def if_middle_def if_end_def
      while_head_def while_test_def while_end_def next_label_def push_label_def pop_label_def stack_top_def
      with_stack_def action_defs split: option.splits prod.splits)+

lemma keeping_statements:
  "keeping (stmt s)" "keeping (block b)" "keeping (stmt_list ss)" "keeping (else_part el)"
  by (induction s and b and ss and el)
    (auto intro!: keeping_seq keeping_andthen keeping_control intro: quiet_keeping quiet_intros)

end
