(* ===== verification/FunctionFlow.thy ===== *)
theory FunctionFlow
  imports ControlFlow
begin

text \<open>
  The code of functions and of whole programs: each function is framed by its prolog and epilog,
  and the code between them is one segment; the segments of a program use disjoint label numbers.
\<close>

section \<open>Functions\<close>

lemma label_defs_frame:
  "label_defs (func_prolog_lines nm) = [nm, ''_begin_'' @ nm]"
  "jump_targets (func_prolog_lines nm) = []"
  "label_defs (func_epilog_lines nm) = [''_end_'' @ nm]"
  "jump_targets (func_epilog_lines nm) = []"
  by (simp_all add: func_prolog_lines_def func_epilog_lines_def)

text \<open>One function: the code of its parameters' subscripts, the frame, the body, and the data.\<close>

definition function_code :: "cstring \<Rightarrow> asm list \<Rightarrow> asm list \<Rightarrow> asm list \<Rightarrow> asm list" where
  "function_code nm pre body dat = pre @ func_prolog_lines nm @ body @ func_epilog_lines nm @ dat"

definition live_bound :: "pstate \<Rightarrow> bool" where
  "live_bound st \<longleftrightarrow> (\<forall>a. syms (sy st) a \<noteq> None \<longrightarrow> a < syms_brk (sy st))"

lemma live_bound_kept: "live_bound st \<Longrightarrow> symbols_kept (sy st) (sy st') \<Longrightarrow> live_bound st'"
  unfolding live_bound_def symbols_kept_def by blast

lemma kept_name:
  assumes "live_bound st" and "symbols_kept (sy st) (sy st')"
    and "syms (sy st) a = Some s" and "syms (sy st') a = Some s'"
  shows "name s' = name s"
proof -
  have "a < syms_brk (sy st)" using assms(1,3) by (metis live_bound_def option.distinct(1))
  then obtain e where "syms (sy st) a = Some e" "name e = name s'"
    using symbols_keptD [OF assms(2) _ assms(4)] by blast
  then show ?thesis using assms(3) by simp
qed

lemma data_plain: "\<forall>l \<in> set (map string_label_line sls). plain_line l"
  by (auto simp: string_label_line_def)

text \<open>The start of a function, up to its prolog.\<close>

lemma function_start:
  assumes "function_decl (Function t x pl b) st = Ok u st'" and "ready st" and "live_bound st"
  obtains a ps s pre st1 where
    "seq (block b) (function_end a ps) (st1\<lparr>cg := gen_func_prolog (name s) (cg st1)\<rparr>) = Ok u st'"
    "syms (sy st1) a = Some s" "live_bound st1" "label_stack st1 = label_stack st" "label_no st1 = label_no st"
    "cur_scope st1 = cur_scope st + 1" "yyout (cg st1) = yyout (cg st) @ pre" "\<forall>l \<in> set pre. plain_line l"
proof -
  obtain ti sta where r1: "type_action t st = Ok ti sta" and c1: "andthen (expect T_ID x) (\<lambda>a.
      seq (function_head ti a) (andthen (param_list pl) (\<lambda>ps. andthen (sym_at a) (\<lambda>s.
      seq (modify (\<lambda>st. st\<lparr>cg := gen_func_prolog (name s) (cg st)\<rparr>)) (seq (block b) (function_end a ps)))))) sta = Ok u st'"
    using assms(1) unfolding function_decl.simps by (rule andthen_OkE)
  obtain a stb where r2: "expect T_ID x sta = Ok a stb" and c2: "seq (function_head ti a)
      (andthen (param_list pl) (\<lambda>ps. andthen (sym_at a) (\<lambda>s.
      seq (modify (\<lambda>st. st\<lparr>cg := gen_func_prolog (name s) (cg st)\<rparr>)) (seq (block b) (function_end a ps))))) stb = Ok u st'"
    using c1 by (rule andthen_OkE)
  obtain v stc where r3: "function_head ti a stb = Ok v stc" and c3: "andthen (param_list pl) (\<lambda>ps. andthen (sym_at a) (\<lambda>s.
      seq (modify (\<lambda>st. st\<lparr>cg := gen_func_prolog (name s) (cg st)\<rparr>)) (seq (block b) (function_end a ps)))) stc = Ok u st'"
    using c2 by (rule seq_OkE)
  obtain ps ste where r4: "param_list pl stc = Ok ps ste" and c4: "andthen (sym_at a) (\<lambda>s.
      seq (modify (\<lambda>st. st\<lparr>cg := gen_func_prolog (name s) (cg st)\<rparr>)) (seq (block b) (function_end a ps))) ste = Ok u st'"
    using c3 by (rule andthen_OkE)
  obtain s where r5: "syms (sy ste) a = Some s"
    and r6: "seq (block b) (function_end a ps) (ste\<lparr>cg := gen_func_prolog (name s) (cg ste)\<rparr>) = Ok u st'"
    using c4 by (auto elim!: andthen_OkE simp: sym_at_run seq_modify)
  have q: "quiet (andthen (type_action t) (\<lambda>ti. expect T_ID x))" by (intro quiet_intros)
  have "andthen (type_action t) (\<lambda>ti. expect T_ID x) st = Ok a stb"
    using r1 r2 by (simp add: andthen_def)
  from quiet_runD [OF q this] obtain l1 where 1: "label_stack stb = label_stack st" "label_no stb = label_no st"
    "cur_scope stb = cur_scope st" "yyout (cg stb) = yyout (cg st) @ l1" "\<forall>l \<in> set l1. plain_line l"
    by metis
  have k1: "symbols_kept (sy st) (sy stb)"
    using quiet_kept [OF q] r1 r2 by (simp add: andthen_def)
  obtain e where 2: "syms (sy stb) a = Some e" "stc = stb\<lparr>cur_scope := cur_scope stb + 1,
      sy := (sy stb)\<lparr>syms := (syms (sy stb))(a \<mapsto> e\<lparr>ty := ti, kind := FUNCTION\<rparr>)\<rparr>, current_function := Some a\<rparr>"
    using r3 by (auto simp: function_head_def action_defs split: option.splits)
  have k2: "symbols_kept (sy stb) (sy stc)" using 2 by (simp add: symbols_kept_write')
  obtain l3 where 3: "label_stack ste = label_stack stc" "label_no ste = label_no stc"
    "cur_scope ste = cur_scope stc" "yyout (cg ste) = yyout (cg stc) @ l3" "\<forall>l \<in> set l3. plain_line l"
    using quiet_runD [OF quiet_param_list r4] by metis
  have "live_bound ste"
    using live_bound_kept [OF assms(3)] symbols_kept_trans [OF k1 symbols_kept_trans [OF k2 quiet_kept [OF quiet_param_list r4]]]
    by blast
  then show ?thesis
    using that [OF r6 r5, of "l1 @ l3"] 1 2(2) 3 by auto
qed

text \<open>The end of a function, from the delimiter of its body on.\<close>

lemma function_end_run:
  assumes "function_end a ps st = Ok u st'" and "live_bound st" and "syms (sy st) a = Some s"
  shows "label_stack st' = label_stack st \<and> label_no st' = label_no st \<and> cur_scope st' = cur_scope st - 1 \<and>
    local_var_counter st' = 1 \<and> symbols_kept (sy st) (sy st') \<and>
    (\<exists>post dat. yyout (cg st') = yyout (cg st) @ post @ func_epilog_lines (name s) @ dat \<and>
       (\<forall>l \<in> set post. plain_line l) \<and> (\<forall>l \<in> set dat. plain_line l))"
proof -
  define m where "m = (\<lambda>sc. seq (with_sy (\<lambda>s. do { s' \<leftarrow> delete_scope s sc; Some ((), s') }))
    (andthen (enter_symbol a) (\<lambda>p. andthen (defined_in (\<lambda>_. p)) (\<lambda>b.
     andthen (defined_in (\<lambda>st. count_chain (syms (sy st)) b 0)) (\<lambda>m. sym_at a)))))"
  have q: "quiet (m sc)" for sc unfolding m_def by (intro quiet_intros)
  define n where "n = andthen (case ps of None \<Rightarrow> ret 0
       | Some p \<Rightarrow> defined_in (\<lambda>st. count_chain (syms (sy st)) p 1)) (\<lambda>n.
     sym_upd a (\<lambda>s. s\<lparr>n_param := n, snext := ps\<rparr>))"
  have qn: "quiet n" unfolding n_def by (auto intro!: quiet_intros split: option.split)
  have "function_end a ps = andthen n (\<lambda>_. andthen (gets cur_scope) (\<lambda>sc.
      seq (modify (\<lambda>st. st\<lparr>cur_scope := sc - 1\<rparr>)) (andthen (m sc) (\<lambda>s.
      seq (modify (\<lambda>st. st\<lparr>cg := gen_func_epilog (name s) (cg st)\<rparr>)) (modify (\<lambda>st. st\<lparr>local_var_counter := 1\<rparr>))))))"
    unfolding function_end_def n_def m_def by (simp add: andthen_assoc seq_def)
  with assms(1) obtain v st1 s2 st2 where 1: "n st = Ok v st1" and
      2: "m (cur_scope st1) (st1\<lparr>cur_scope := cur_scope st1 - 1\<rparr>) = Ok s2 st2" and
      3: "st' = st2\<lparr>cg := gen_func_epilog (name s2) (cg st2), local_var_counter := 1\<rparr>"
    by (auto elim!: andthen_OkE simp: seq_modify modify_run gets_def)
  obtain l1 where l1: "label_stack st1 = label_stack st" "label_no st1 = label_no st"
    "cur_scope st1 = cur_scope st" "yyout (cg st1) = yyout (cg st) @ l1" "\<forall>l \<in> set l1. plain_line l"
    using quiet_runD [OF qn 1] by metis
  obtain l2 where l2: "label_stack st2 = label_stack st1" "label_no st2 = label_no st1"
    "cur_scope st2 = cur_scope st1 - 1" "yyout (cg st2) = yyout (cg st1) @ l2" "\<forall>l \<in> set l2. plain_line l"
    by (rule quiet_runD [OF q 2]) simp
  have "symbols_kept (sy st) (sy st1)" "symbols_kept (sy st1) (sy st2)"
    using quiet_kept [OF qn 1] quiet_kept [OF q 2] by simp_all
  then have k: "symbols_kept (sy st) (sy st2)" by (rule symbols_kept_trans)
  have "syms (sy st2) a = Some s2"
    using 2 unfolding m_def by (elim seq_OkE andthen_OkE) (simp add: sym_at_run)
  then have nm: "name s2 = name s" using kept_name [OF assms(2) k assms(3)] by simp
  let ?dat = "map string_label_line (take (sconst_label_counter (cg st2)) (slabel_arr (cg st2)))"
  have "yyout (cg st') = yyout (cg st) @ (l1 @ l2) @ func_epilog_lines (name s) @ ?dat"
    using l1 l2 3 nm by (simp add: gen_func_epilog_def gen_string_labels_def emits_def)
  moreover have "\<forall>l \<in> set (l1 @ l2). plain_line l" using l1 l2 by auto
  ultimately show ?thesis using l1 l2 3 k data_plain by fastforce
qed

lemma function_decl_run:
  assumes run: "function_decl f st = Ok u st'" and r: "ready st" and lb: "live_bound st"
  shows "ready st' \<and> live_bound st' \<and> stack_contents (label_stack st') = stack_contents (label_stack st) \<and>
    cur_scope st' = cur_scope st \<and> local_var_counter st' = 1 \<and>
    (\<exists>nm pre body dat. yyout (cg st') = yyout (cg st) @ function_code nm pre body dat \<and>
       segment (label_no st) (label_no st') body \<and> (\<forall>l \<in> set pre. plain_line l) \<and> (\<forall>l \<in> set dat. plain_line l))"
proof -
  obtain t x pl b where f: "f = Function t x pl b" by (cases f)
  obtain a ps s pre st1 where
      c: "seq (block b) (function_end a ps) (st1\<lparr>cg := gen_func_prolog (name s) (cg st1)\<rparr>) = Ok u st'"
    and 1: "syms (sy st1) a = Some s" "live_bound st1" "label_stack st1 = label_stack st" "label_no st1 = label_no st"
      "cur_scope st1 = cur_scope st + 1" "yyout (cg st1) = yyout (cg st) @ pre" "\<forall>l \<in> set pre. plain_line l"
    using run unfolding f by (rule function_start [OF _ r lb])
  let ?st1 = "st1\<lparr>cg := gen_func_prolog (name s) (cg st1)\<rparr>"
  obtain v st2 where 2: "block b ?st1 = Ok v st2" and 3: "function_end a ps st2 = Ok u st'"
    using c by (rule seq_OkE)
  have r1: "ready ?st1" and lb1: "live_bound ?st1" using r 1 by (simp_all add: ready_def live_bound_def)
  obtain body where body: "stack_contents (label_stack st2) = stack_contents (label_stack ?st1)"
    "cur_scope st2 = cur_scope ?st1" "yyout (cg st2) = yyout (cg ?st1) @ body"
    "segment (label_no ?st1) (label_no st2) body" "ready st2"
    using balanced_runD [OF balanced_statements(2) 2 r1] by metis
  have k: "symbols_kept (sy ?st1) (sy st2)" using keeping_statements(2) 2 unfolding keeping_def by blast
  have lb2: "live_bound st2" using live_bound_kept [OF lb1 k] .
  obtain s2 where s2: "syms (sy st2) a = Some s2"
    using 3 by (auto simp: function_end_def sym_upd_def with_sy_def run_simps elim!: andthen_OkE seq_OkE split: option.splits)
  have nm: "name s2 = name s" using kept_name [OF lb1 k _ s2] 1(1) by simp
  have e: "label_stack st' = label_stack st2" "label_no st' = label_no st2" "cur_scope st' = cur_scope st2 - 1"
    "local_var_counter st' = 1" "symbols_kept (sy st2) (sy st')"
    using function_end_run [OF 3 lb2 s2] by simp_all
  obtain post dat where e2: "yyout (cg st') = yyout (cg st2) @ post @ func_epilog_lines (name s) @ dat"
    "\<forall>l \<in> set post. plain_line l" "\<forall>l \<in> set dat. plain_line l"
    using function_end_run [OF 3 lb2 s2] unfolding nm by blast
  have "yyout (cg st') = yyout (cg st) @ function_code (name s) pre (body @ post) dat"
    using 1(6) body(3) e2(1) by (simp add: function_code_def gen_func_prolog_def emits_def)
  moreover have "segment (label_no st) (label_no st') (body @ post)"
    using segment_append [OF _ body(4) segment_plain [OF e2(2)]] r 1(4) e(2) by (simp add: ready_def)
  ultimately have "\<exists>nm pre body dat. yyout (cg st') = yyout (cg st) @ function_code nm pre body dat \<and>
       segment (label_no st) (label_no st') body \<and> (\<forall>l \<in> set pre. plain_line l) \<and> (\<forall>l \<in> set dat. plain_line l)"
    using 1(7) e2(3) by blast
  moreover have "ready st'" using body(5) e by (simp add: ready_def)
  moreover have "live_bound st'" using live_bound_kept [OF lb2 e(5)] .
  moreover have "stack_contents (label_stack st') = stack_contents (label_stack st)" "cur_scope st' = cur_scope st"
    using body(1,2) 1(3,5) e(1,3) by simp_all
  ultimately show ?thesis using e(4) by blast
qed

section \<open>Programs\<close>

text \<open>The output of a program: functions whose segments take consecutive label numbers.\<close>

inductive program_code :: "int \<Rightarrow> int \<Rightarrow> asm list \<Rightarrow> bool" where
  no_function: "program_code a a []"
| one_more: "program_code a b ls \<Longrightarrow> segment b c body \<Longrightarrow> \<forall>l \<in> set pre. plain_line l \<Longrightarrow>
    \<forall>l \<in> set dat. plain_line l \<Longrightarrow> program_code a c (ls @ function_code nm pre body dat)"

inductive_cases program_codeE: "program_code a b ls"

lemma program_code_jumps: "program_code a b ls \<Longrightarrow> set (jump_targets ls) \<subseteq> set (label_defs ls)"
  by (induction rule: program_code.induct)
    (auto simp: function_code_def label_defs_frame plain_lines segment_def)

lemma program_code_ord: "program_code a b ls \<Longrightarrow> a \<le> b"
  by (induction rule: program_code.induct) (auto simp: segment_def)

end
