(* ===== verification/Machine.thy ===== *)
theory Machine
  imports Parser "HOL-Library.Word"
begin

text \<open>
  The part of the target machine that executes the code of expressions and assignments. Registers
  and memory cells hold 32-bit words. A register is known by its name; a memory cell is known by
  the operand that addresses it, since within one function different operands (\<open>-4($fp)\<close>,
  \<open>____x\<close>) address different words. The arithmetic of the machine is a parameter \<open>alu\<close>, which gives
  the result of an instruction on two words, or \<open>None\<close> if it traps; the assembler's reading of a
  constant is a parameter \<open>imm\<close>.
\<close>

type_synonym alu = "cstring \<Rightarrow> 32 word \<Rightarrow> 32 word \<Rightarrow> 32 word option"

record machine =
  regs :: "cstring \<Rightarrow> 32 word"
  cells :: "cstring \<Rightarrow> 32 word"

fun exec_line :: "alu \<Rightarrow> (cstring \<Rightarrow> 32 word) \<Rightarrow> asm \<Rightarrow> machine \<Rightarrow> machine option" where
  "exec_line alu imm (Note t) m = Some m"
| "exec_line alu imm (Op i args cmt) m =
     (case args of
        [r, p] \<Rightarrow>
          if i = ''li'' then Some (m\<lparr>regs := (regs m)(r := imm p)\<rparr>)
          else if i = ''lw'' then Some (m\<lparr>regs := (regs m)(r := cells m p)\<rparr>)
          else if i = ''sw'' then Some (m\<lparr>cells := (cells m)(p := regs m r)\<rparr>)
          else None
      | [d, r, s] \<Rightarrow>
          (case alu i (regs m r) (regs m s) of
             None \<Rightarrow> None
           | Some v \<Rightarrow> Some (m\<lparr>regs := (regs m)(d := v)\<rparr>))
      | _ \<Rightarrow> None)"
| "exec_line alu imm l m = None"

fun exec_lines :: "alu \<Rightarrow> (cstring \<Rightarrow> 32 word) \<Rightarrow> asm list \<Rightarrow> machine \<Rightarrow> machine option" where
  "exec_lines alu imm [] m = Some m"
| "exec_lines alu imm (l # ls) m = do { m' \<leftarrow> exec_line alu imm l m; exec_lines alu imm ls m' }"

lemma exec_lines_append:
  "exec_lines alu imm (xs @ ys) m = do { m' \<leftarrow> exec_lines alu imm xs m; exec_lines alu imm ys m' }"
  by (induction xs arbitrary: m) (auto split: bind_split)

text \<open>The value of an operand of the code generator.\<close>

definition operand :: "machine \<Rightarrow> cstring \<Rightarrow> 32 word" where
  "operand m p = (if is_temp_reg p then regs m p else cells m p)"

section \<open>Arithmetic expressions\<close>

text \<open>Variables, integer constants, parentheses and binary operators, with names and constants as
  the scanner accepts them.\<close>

definition int_constant :: "cstring \<Rightarrow> bool" where
  "int_constant c \<longleftrightarrow> c \<noteq> [] \<and> (\<forall>d \<in> set c. is_digit d) \<and> length c < ID_SIZ"

definition var_name :: "cstring \<Rightarrow> bool" where
  "var_name x \<longleftrightarrow> x \<noteq> [] \<and> \<not> is_digit (hd x) \<and> length x < 100"

fun arithmetic :: "expr_t \<Rightarrow> bool" where
  "arithmetic (E_lhs (L_sub x Sub_none)) = var_name x"
| "arithmetic (E_paren e) = arithmetic e"
| "arithmetic (E_binop e1 b e3) \<longleftrightarrow> arithmetic e1 \<and> arithmetic e3"
| "arithmetic (E_iconst c) = int_constant c"
| "arithmetic e = False"

text \<open>
  What the operators of the language mean, independently of the parser: an operator is read as one of
  twelve operations, the ones of two characters first and the others by their first character, and
  each operation has its instruction of the target machine.
\<close>

datatype operation = O_add | O_sub | O_mul | O_div | O_and | O_or | O_le | O_ge | O_lt | O_gt | O_eq | O_ne

definition operation_of :: "cstring \<Rightarrow> operation option" where
  "operation_of b =
     (case map_of [(''&&'', O_and), (''||'', O_or), (''<='', O_le), (''>='', O_ge), (''=='', O_eq), (''!='', O_ne)] b of
        Some q \<Rightarrow> Some q
      | None \<Rightarrow>
          (case b of
             [] \<Rightarrow> None
           | c # _ \<Rightarrow> map_of [(CHR ''+'', O_add), (CHR ''-'', O_sub), (CHR ''*'', O_mul), (CHR ''/'', O_div),
               (CHR ''<'', O_lt), (CHR ''>'', O_gt)] c))"

fun mnemonic :: "operation \<Rightarrow> cstring" where
  "mnemonic O_add = ''add''"
| "mnemonic O_sub = ''sub''"
| "mnemonic O_mul = ''mul''"
| "mnemonic O_div = ''div''"
| "mnemonic O_and = ''and''"
| "mnemonic O_or = ''or''"
| "mnemonic O_le = ''sle''"
| "mnemonic O_ge = ''sge''"
| "mnemonic O_lt = ''slt''"
| "mnemonic O_gt = ''sgt''"
| "mnemonic O_eq = ''seq''"
| "mnemonic O_ne = ''sne''"

text \<open>The value of an expression, for the values of the variables.\<close>

fun eval_expr :: "alu \<Rightarrow> (cstring \<Rightarrow> 32 word) \<Rightarrow> (cstring \<Rightarrow> 32 word) \<Rightarrow> expr_t \<Rightarrow> 32 word option" where
  "eval_expr alu imm var (E_lhs (L_sub x Sub_none)) = Some (var x)"
| "eval_expr alu imm var (E_paren e) = eval_expr alu imm var e"
| "eval_expr alu imm var (E_binop e1 b e3) =
     do {
       v1 \<leftarrow> eval_expr alu imm var e1;
       v3 \<leftarrow> eval_expr alu imm var e3;
       q \<leftarrow> operation_of b;
       alu (mnemonic q) v1 v3
     }"
| "eval_expr alu imm var (E_iconst c) = Some (imm c)"
| "eval_expr alu imm var e = None"

text \<open>
  The target machine's own arithmetic: \<open>add\<close> and \<open>sub\<close> trap on signed overflow, \<open>mul\<close> keeps the low
  word, \<open>div\<close> traps on zero, \<open>and\<close> and \<open>or\<close> are bitwise, and a comparison of signed words gives one or zero.
\<close>

definition no_overflow :: "int \<Rightarrow> bool" where
  "no_overflow z \<longleftrightarrow> - (2 ^ 31) \<le> z \<and> z < 2 ^ 31"

definition quotient :: "int \<Rightarrow> int \<Rightarrow> int" where
  "quotient x y = sgn x * sgn y * (abs x div abs y)"

definition mips_alu :: alu where
  "mips_alu i v w =
     (if i = ''add'' then (if no_overflow (sint v + sint w) then Some (v + w) else None)
      else if i = ''sub'' then (if no_overflow (sint v - sint w) then Some (v - w) else None)
      else if i = ''mul'' then Some (v * w)
      else if i = ''div'' then (if w = 0 then None else Some (word_of_int (quotient (sint v) (sint w))))
      else if i = ''and'' then Some (and v w)
      else if i = ''or'' then Some (or v w)
      else if i = ''sle'' then Some (of_bool (sint v \<le> sint w))
      else if i = ''sge'' then Some (of_bool (sint v \<ge> sint w))
      else if i = ''slt'' then Some (of_bool (sint v < sint w))
      else if i = ''sgt'' then Some (of_bool (sint v > sint w))
      else if i = ''seq'' then Some (of_bool (v = w))
      else if i = ''sne'' then Some (of_bool (v \<noteq> w))
      else None)"

text \<open>
  The values of C, as integers: undefined on signed overflow and on division by zero. The logical
  operators are given a value on truth values only, because the code computes them bitwise.
\<close>

fun c_operation :: "operation \<Rightarrow> int \<Rightarrow> int \<Rightarrow> int option" where
  "c_operation O_add x y = Some (x + y)"
| "c_operation O_sub x y = Some (x - y)"
| "c_operation O_mul x y = Some (x * y)"
| "c_operation O_div x y = (if y = 0 then None else Some (quotient x y))"
| "c_operation O_and x y = (if {x, y} \<subseteq> {0, 1} then Some (of_bool (x \<noteq> 0 \<and> y \<noteq> 0)) else None)"
| "c_operation O_or x y = (if {x, y} \<subseteq> {0, 1} then Some (of_bool (x \<noteq> 0 \<or> y \<noteq> 0)) else None)"
| "c_operation O_le x y = Some (of_bool (x \<le> y))"
| "c_operation O_ge x y = Some (of_bool (x \<ge> y))"
| "c_operation O_lt x y = Some (of_bool (x < y))"
| "c_operation O_gt x y = Some (of_bool (x > y))"
| "c_operation O_eq x y = Some (of_bool (x = y))"
| "c_operation O_ne x y = Some (of_bool (x \<noteq> y))"

fun c_value :: "(cstring \<Rightarrow> int) \<Rightarrow> (cstring \<Rightarrow> int) \<Rightarrow> expr_t \<Rightarrow> int option" where
  "c_value imm var (E_lhs (L_sub x Sub_none)) = Some (var x)"
| "c_value imm var (E_paren e) = c_value imm var e"
| "c_value imm var (E_binop e1 b e3) =
     do {
       x \<leftarrow> c_value imm var e1;
       y \<leftarrow> c_value imm var e3;
       q \<leftarrow> operation_of b;
       z \<leftarrow> c_operation q x y;
       if no_overflow z then Some z else None
     }"
| "c_value imm var (E_iconst c) = Some (imm c)"
| "c_value imm var e = None"

lemma mips_mnemonic:
  "mips_alu (mnemonic q) v w =
     (case q of
        O_add \<Rightarrow> if no_overflow (sint v + sint w) then Some (v + w) else None
      | O_sub \<Rightarrow> if no_overflow (sint v - sint w) then Some (v - w) else None
      | O_mul \<Rightarrow> Some (v * w)
      | O_div \<Rightarrow> if w = 0 then None else Some (word_of_int (quotient (sint v) (sint w)))
      | O_and \<Rightarrow> Some (and v w)
      | O_or \<Rightarrow> Some (or v w)
      | O_le \<Rightarrow> Some (of_bool (sint v \<le> sint w))
      | O_ge \<Rightarrow> Some (of_bool (sint v \<ge> sint w))
      | O_lt \<Rightarrow> Some (of_bool (sint v < sint w))
      | O_gt \<Rightarrow> Some (of_bool (sint v > sint w))
      | O_eq \<Rightarrow> Some (of_bool (v = w))
      | O_ne \<Rightarrow> Some (of_bool (v \<noteq> w)))"
  by (cases q) (simp_all add: mips_alu_def)

lemma mips_operation:
  assumes "c_operation q (sint v) (sint w) = Some z" and "no_overflow z"
  shows "mips_alu (mnemonic q) v w = Some (word_of_int z)"
proof -
  have bool: "u = 0 \<or> u = 1" if "sint u = 0 \<or> sint u = 1" for u :: "32 word"
    using that signed_word_eqI [of u 0] signed_word_eqI [of u 1] by auto
  have logic: "and v w = of_bool (sint v \<noteq> 0 \<and> sint w \<noteq> 0)" "or v w = of_bool (sint v \<noteq> 0 \<or> sint w \<noteq> 0)"
    if "{sint v, sint w} \<subseteq> {0, 1}"
  proof -
    have "v = 0 \<or> v = 1" "w = 0 \<or> w = 1" using bool [of v] bool [of w] that by blast+
    then show "and v w = of_bool (sint v \<noteq> 0 \<and> sint w \<noteq> 0)" "or v w = of_bool (sint v \<noteq> 0 \<or> sint w \<noteq> 0)"
      by (elim disjE; simp)+
  qed
  have wo: "word_of_int (sint v + sint w) = v + w" "word_of_int (sint v - sint w) = v - w"
    "word_of_int (sint v * sint w) = v * w"
    by (simp_all add: of_int_sint)
  have eq: "v = w \<longleftrightarrow> sint v = sint w" and zero: "w = 0 \<longleftrightarrow> sint w = 0"
    using signed_word_eqI [of v w] signed_word_eqI [of w 0] by auto
  show ?thesis
  proof (cases q)
    case O_and
    then show ?thesis using assms(1) logic by (auto simp: mips_mnemonic simp del: mnemonic.simps split: if_splits)
  next
    case O_or
    then show ?thesis using assms(1) logic by (auto simp: mips_mnemonic simp del: mnemonic.simps split: if_splits)
  qed (use assms in \<open>auto simp: mips_mnemonic eq zero simp del: mnemonic.simps split: if_splits\<close>)
qed

text \<open>What the machine computes is the value of C, where that is defined.\<close>

lemma eval_expr_c_value:
  assumes "c_value imm (\<lambda>x. sint (var x)) e = Some z" and "\<forall>c. no_overflow (imm c)"
  shows "eval_expr mips_alu (\<lambda>c. word_of_int (imm c)) var e = Some (word_of_int z) \<and> no_overflow z"
  using assms(1)
proof (induction e arbitrary: z rule: arithmetic.induct)
  case (1 x)
  then show ?case
    using sint_greater_eq [of "var x"] sint_less [of "var x"] by (auto simp: no_overflow_def)
next
  case (3 e1 b e3)
  obtain x y q where p: "c_value imm (\<lambda>x. sint (var x)) e1 = Some x" "c_value imm (\<lambda>x. sint (var x)) e3 = Some y"
    "operation_of b = Some q" "c_operation q x y = Some z" "no_overflow z"
    using 3(3) by (auto split: bind_splits if_splits)
  note IH = 3(1) [OF p(1)] 3(2) [OF p(2)]
  have s: "sint (word_of_int u :: 32 word) = u" if "no_overflow u" for u
    using that by (simp add: no_overflow_def int_word_sint)
  show ?case
    using IH p s mips_operation [of q "word_of_int x" "word_of_int y" z] by simp
qed (use assms(2) in auto)

text \<open>
  The registers that hold the value of an expression, and the number of registers its code needs.
\<close>

fun held :: "expr_t \<Rightarrow> nat" where
  "held (E_paren e) = held e"
| "held (E_binop e1 b e3) = 1"
| "held (E_iconst c) = 1"
| "held e = 0"

fun need :: "expr_t \<Rightarrow> nat" where
  "need (E_paren e) = need e"
| "need (E_binop e1 b e3) = max (need e1) (max (held e1 + need e3) 3)"
| "need (E_iconst c) = 1"
| "need e = 0"

text \<open>
  The type rules of the parser: the type of an expression in a state, or \<open>None\<close> for an expression
  that is rejected. A binary operator has the type of its left operand; its operands have the same
  type or are both numbers, and are no structures.
\<close>

definition is_type_name :: "pstate \<Rightarrow> cstring \<Rightarrow> bool" where
  "is_type_name st x \<longleftrightarrow> type_of_name (ty_tab st) x \<in> {Some TYPEDEF_TY, Some STRUCT_TY}"

definition var_symbol :: "pstate \<Rightarrow> cstring \<Rightarrow> symtab_entry option" where
  "var_symbol st x =
     (case lookup_symtab_prevscope (sy st) x (cur_scope st) of
        Some (Some b) \<Rightarrow> syms (sy st) b
      | _ \<Rightarrow> None)"

definition is_number :: "type_enum \<Rightarrow> bool" where
  "is_number t \<longleftrightarrow> t \<in> {INT_TY, FLOAT_TY}"

definition binop_type :: "cstring \<Rightarrow> type_enum \<Rightarrow> type_enum \<Rightarrow> type_enum option" where
  "binop_type b t u =
     (if (t = u \<or> is_number t \<and> is_number u) \<and> t \<noteq> STRUCT_TY \<and> u \<noteq> STRUCT_TY \<and> operation_of b \<noteq> None then Some t
      else None)"

fun type_of :: "pstate \<Rightarrow> expr_t \<Rightarrow> type_enum option" where
  "type_of st (E_lhs (L_sub x Sub_none)) = (if is_type_name st x then None else map_option ty (var_symbol st x))"
| "type_of st (E_paren e) = type_of st e"
| "type_of st (E_binop e1 b e3) =
     do { t \<leftarrow> type_of st e1; u \<leftarrow> type_of st e3; binop_type b t u }"
| "type_of st (E_iconst c) = Some INT_TY"
| "type_of st e = None"

end
