(* ===== verification/ExprSpec.thy ===== *)
theory ExprSpec
  imports Machine SymbolTableInv CodeGenSpec
begin

text \<open>
  The actions of arithmetic expressions: the parser accepts exactly the well-typed ones, and the
  code it emits computes their value into the place of the resulting symbol. The expressions need
  a bounded number of registers; with fewer free ones the code is not what is described here.
\<close>

section \<open>States\<close>

text \<open>
  What an expression leaves alone: the tables, the scope, and all symbols that existed before.
\<close>

definition extends :: "pstate \<Rightarrow> pstate \<Rightarrow> bool" where
  "extends st st' \<longleftrightarrow>
     symtab (sy st') = symtab (sy st) \<and> ty_tab st' = ty_tab st \<and> cur_scope st' = cur_scope st \<and>
     syms_brk (sy st) \<le> syms_brk (sy st') \<and>
     (\<forall>a < syms_brk (sy st). syms (sy st') a = syms (sy st) a) \<and>
     (\<forall>a. syms (sy st') a \<noteq> None \<longrightarrow> a < syms_brk (sy st'))"

definition expr_inv :: "pstate \<Rightarrow> bool" where
  "expr_inv st \<longleftrightarrow>
     sym_inv (sy st) \<and> type_inv (ty_tab st) \<and> pool_inv (cg st) \<and> 0 \<le> cur_scope st \<and>
     (\<forall>k a s. ht_map (symtab (sy st)) k = Some a \<longrightarrow> syms (sy st) a = Some s \<longrightarrow> \<not> is_temp_reg (place s))"

lemma expr_invD:
  assumes "expr_inv st"
  shows "sym_inv (sy st)" and "type_inv (ty_tab st)" and "pool_inv (cg st)" and "0 \<le> cur_scope st"
    and "ht_inv (symtab (sy st))"
    and "ht_map (symtab (sy st)) k = Some a \<Longrightarrow> syms (sy st) a = Some s \<Longrightarrow> \<not> is_temp_reg (place s)"
    and "syms (sy st) b \<noteq> None \<Longrightarrow> b < syms_brk (sy st)"
  using assms unfolding expr_inv_def by (auto dest: sym_invD)

lemma extends_refl: "expr_inv st \<Longrightarrow> extends st st"
  using expr_invD(7) [of st] by (auto simp: extends_def)

lemma extends_trans: "extends st st1 \<Longrightarrow> extends st1 st2 \<Longrightarrow> extends st st2"
  unfolding extends_def by (metis order_less_le_trans order_trans)

lemma expr_inv_extends:
  assumes "expr_inv st" and "extends st st'" and "pool_inv (cg st')"
  shows "expr_inv st'"
proof -
  have same: "syms (sy st') a = syms (sy st) a" if "ht_map (symtab (sy st)) k = Some a" for k a
  proof -
    have "syms (sy st) a \<noteq> None"
      using sym_invD(2) [OF expr_invD(1) [OF assms(1)] that] by (auto simp: sym_ok_def)
    then show ?thesis using expr_invD(7) [OF assms(1)] assms(2) by (simp add: extends_def)
  qed
  have "sym_inv (sy st')"
    using expr_invD(1) [OF assms(1)] assms(2) same unfolding sym_inv_def sym_ok_def extends_def by auto
  then show ?thesis
    using assms same unfolding expr_inv_def extends_def by auto
qed

lemma var_symbol_extends:
  assumes "expr_inv st" and "extends st st'"
  shows "var_symbol st' x = var_symbol st x"
proof -
  obtain p where p: "lookup_symtab_prevscope (sy st) x (cur_scope st) = Some p" "innermost (declared (sy st) x) (cur_scope st) p"
    using lookup_prevscope_innermost [OF expr_invD(1) [OF assms(1)]] by blast
  have same: "lookup_symtab_prevscope (sy st') x (cur_scope st') = Some p"
    using p(1) assms(2) by (simp add: lookup_symtab_prevscope_def extends_def)
  show ?thesis
  proof (cases p)
    case None
    then show ?thesis using p same by (simp add: var_symbol_def)
  next
    case (Some b)
    then obtain j where "declared (sy st) x j = Some b" using p(2) by (auto simp: innermost_def)
    then have "syms (sy st) b \<noteq> None"
      using sym_invD(2) [OF expr_invD(1) [OF assms(1)]] by (auto simp: declared_def sym_ok_def)
    then have "syms (sy st') b = syms (sy st) b"
      using expr_invD(7) [OF assms(1)] assms(2) by (simp add: extends_def)
    then show ?thesis using p same Some by (simp add: var_symbol_def)
  qed
qed

lemma type_of_extends:
  assumes "expr_inv st" and "extends st st'"
  shows "type_of st' e = type_of st e"
proof (induction e rule: arithmetic.induct)
  case (1 x)
  then show ?case
    using var_symbol_extends [OF assms] assms(2) by (simp add: is_type_name_def extends_def)
qed simp_all

section \<open>Scanning\<close>

lemma scan_symbol_old:
  assumes "expr_inv st" and "declared (sy st) x (cur_scope st) = Some a"
  shows "scan_symbol x st = Ok a (st\<lparr>yylval_s := Some a\<rparr>)"
  using assms lookup_symtab_declared [OF expr_invD(1) [OF assms(1)], of x "cur_scope st"]
  by (simp add: scan_symbol_def andthen_def lookup_here_def defined_in_def ret_def seq_modify)

lemma scan_symbol_new:
  assumes "expr_inv st" and "declared (sy st) x (cur_scope st) = None" and "length x < ID_SIZ"
  shows "scan_symbol x st = Ok (syms_brk (sy st)) (st\<lparr>sy := snd (alloc_sym (zero_symbol\<lparr>name := x, scope := cur_scope st\<rparr>) (sy st)),
     yylval_s := Some (syms_brk (sy st))\<rparr>)"
  using assms lookup_symtab_declared [OF expr_invD(1) [OF assms(1)], of x "cur_scope st"]
  by (simp add: scan_symbol_def andthen_def lookup_here_def defined_in_def ret_def seq_modify gets_def
      with_sy_def create_symbol_def ID_SIZ_def alloc_sym_def)

lemma extends_alloc:
  assumes "expr_inv st" and "st' = st\<lparr>sy := snd (alloc_sym s (sy st)), yylval_s := p, cg := c\<rparr>"
  shows "extends st st'"
  using expr_invD(7) [OF assms(1)] unfolding extends_def assms(2)
  by (auto simp: alloc_sym_def less_Suc_eq)

lemma scan_symbol_run:
  assumes "expr_inv st" and "var_name x"
  shows "\<exists>a st'. scan_symbol x st = Ok a st' \<and> extends st st' \<and> cg st' = cg st \<and>
    (\<exists>s. syms (sy st') a = Some s \<and> name s = x)"
proof (cases "declared (sy st) x (cur_scope st)")
  case None
  have "length x < ID_SIZ" using assms(2) by (simp add: var_name_def ID_SIZ_def)
  note new = scan_symbol_new [OF assms(1) None this]
  have "extends st (st\<lparr>sy := snd (alloc_sym (zero_symbol\<lparr>name := x, scope := cur_scope st\<rparr>) (sy st)),
     yylval_s := Some (syms_brk (sy st))\<rparr>)"
    by (rule extends_alloc [OF assms(1), where c = "cg st"]) simp
  with new show ?thesis by (simp add: alloc_sym_def)
next
  case (Some a)
  have "ident x" using assms(2) by (simp add: var_name_def ident_def)
  then obtain s where "syms (sy st) a = Some s" "name s = x"
    using declared_sym [OF expr_invD(1) [OF assms(1)] _ expr_invD(4) [OF assms(1)] Some] by blast
  moreover have "extends st (st\<lparr>yylval_s := Some a\<rparr>)"
    using extends_refl [OF assms(1)] by (simp add: extends_def)
  ultimately show ?thesis using scan_symbol_old [OF assms(1) Some] by simp
qed

text \<open>A name in an expression: accepted as an identifier unless it names a type.\<close>

lemma expect_ID_run:
  assumes "expr_inv st" and "var_name x"
  shows "is_type_name st x \<Longrightarrow> \<exists>msg. expect T_ID x st = Exit msg"
    and "\<not> is_type_name st x \<Longrightarrow> \<exists>a st'. expect T_ID x st = Ok a st' \<and> extends st st' \<and> cg st' = cg st \<and>
      (\<exists>s. syms (sy st') a = Some s \<and> name s = x)"
proof -
  obtain a st' s where r: "scan_symbol x st = Ok a st'" "extends st st'" "cg st' = cg st"
    "syms (sy st') a = Some s" "name s = x"
    using scan_symbol_run [OF assms] by blast
  have ti: "type_inv (ty_tab st')" and tt: "ty_tab st' = ty_tab st"
    using expr_invD(2) [OF assms(1)] r(2) by (simp_all add: extends_def)
  have len: "length x < 100" using assms(2) by (simp add: var_name_def)
  have known: "is_type_exists (ty_tab st) x = Some (ht_map (typetab (ty_tab st)) x \<noteq> None)"
    using ti tt by (simp add: is_type_exists_def ht.get_lookup type_invD(1))
  have none: "ht_map (typetab (ty_tab st)) x = None \<longleftrightarrow> type_of_name (ty_tab st) x = None"
    using type_invD(2) [OF ti] tt by (auto simp: type_of_name_def type_ok_def split: option.split)
  have t: "get_type (ty_tab st) x = Some (case type_of_name (ty_tab st) x of None \<Rightarrow> INT_TY | Some t \<Rightarrow> t)"
    using get_type_spec [OF ti] tt by simp
  note defs = expect_def lex_ID_def andthen_def r(1) defined_in_def ret_def yyerror_def is_type_name_def
  show "\<exists>msg. expect T_ID x st = Exit msg" if "is_type_name st x"
    using that known none t len tt by (auto simp: defs)
  show "\<exists>a st'. expect T_ID x st = Ok a st' \<and> extends st st' \<and> cg st' = cg st \<and>
      (\<exists>s. syms (sy st') a = Some s \<and> name s = x)" if "\<not> is_type_name st x"
    using that known none t len tt r
    by (cases "type_of_name (ty_tab st) x") (auto simp: defs)
qed

text \<open>A constant never finds a symbol, because the keys of the table have names that start with a letter.\<close>

lemma constant_undeclared:
  assumes "expr_inv st" and "int_constant c"
  shows "declared (sy st) c (cur_scope st) = None"
proof (rule ccontr)
  assume "declared (sy st) c (cur_scope st) \<noteq> None"
  then obtain a where "sym_ok (sy st) (gen_key c (cur_scope st)) a"
    using sym_invD(2) [OF expr_invD(1) [OF assms(1)]] by (auto simp: declared_def)
  then obtain s :: symtab_entry where s: "ident (name s)" "0 \<le> scope s"
    "gen_key c (cur_scope st) = gen_key (name s) (scope s)"
    by (auto simp: sym_ok_def)
  have "\<forall>d \<in> set (gen_key c (cur_scope st)). is_digit d"
    using assms(2) expr_invD(4) [OF assms(1)] myitoa_digits by (auto simp: gen_key_def int_constant_def)
  moreover have "hd (name s) \<in> set (gen_key (name s) (scope s))"
    using s(1) by (auto simp: gen_key_def ident_def)
  ultimately show False using s by (auto simp: ident_def)
qed

section \<open>Registers\<close>

lemma new_reg_run:
  assumes "pool_inv (cg st)" and "free_regs (cg st) \<noteq> {}"
  shows "\<exists>r c. new_reg st = Ok (reg_name (int r)) (st\<lparr>cg := c\<rparr>) \<and> r \<in> free_regs (cg st) \<and> pool_inv c \<and>
    free_regs c = free_regs (cg st) - {r} \<and> yyout c = yyout (cg st)"
proof -
  let ?r = "Min (free_regs (cg st))"
  obtain c where c: "get_free_temp_reg (cg st) = (int ?r, c)" "pool_inv c" "free_regs c = free_regs (cg st) - {?r}"
    "c = (cg st)\<lparr>temp_reg := temp_reg c\<rparr>"
    using get_free_temp_reg_some [OF assms] by blast
  have r: "?r \<in> free_regs (cg st)" using Min_in [OF rp.finite_free [OF assms(1)] assms(2)] .
  let ?c = "copy_reg_str (reg_name (int ?r)) c"
  have out: "yyout c = yyout (cg st)" by (subst c(4)) simp
  have "temp_reg ?c = temp_reg c" "yyout ?c = yyout c" by (simp_all add: copy_reg_str_def)
  then have "pool_inv ?c" "free_regs ?c = free_regs (cg st) - {?r}" "yyout ?c = yyout (cg st)"
    using c(2,3) out by (simp_all add: pool_inv_def free_regs_def)
  moreover have "new_reg st = Ok (reg_name (int ?r)) (st\<lparr>cg := ?c\<rparr>)"
    using c(1) by (simp add: new_reg_def andthen_def with_cg_def copy_name_def seq_modify ret_def)
  ultimately show ?thesis using r by blast
qed

lemma reg_name_length: "r \<in> {8..15} \<Longrightarrow> length (reg_name (int r)) < ID_SIZ"
proof -
  assume "r \<in> {8..15}"
  then have "r = 8 \<or> r = 9 \<or> r = 10 \<or> r = 11 \<or> r = 12 \<or> r = 13 \<or> r = 14 \<or> r = 15" by auto
  then show ?thesis by (elim disjE) (simp_all add: reg_names ID_SIZ_def)
qed

lemma free_reg_memory: "\<not> is_temp_reg p \<Longrightarrow> free_reg p st = Ok () st"
  by (simp add: free_reg_def with_cg_def mark_temp_reg_free_def)

lemma free_reg_run:
  assumes "pool_inv (cg st)" and "r \<in> {8..15}"
  shows "\<exists>c. free_reg (reg_name (int r)) st = Ok () (st\<lparr>cg := c\<rparr>) \<and> pool_inv c \<and>
    free_regs c = insert r (free_regs (cg st)) \<and> yyout c = yyout (cg st)"
  using mark_temp_reg_free_reg [OF assms] assms(1)
  by (intro exI [of _ "(cg st)\<lparr>temp_reg := (temp_reg (cg st))[r - 8 := 0]\<rparr>"])
    (simp add: free_reg_def with_cg_def pool_inv_def)

lemma load_operand_run:
  assumes "pool_inv (cg st)" and s: "syms (sy st) a = Some s"
  shows "is_temp_reg (place s) \<Longrightarrow> \<exists>c. load_operand a st = Ok (place s) (st\<lparr>cg := c\<rparr>) \<and> pool_inv c \<and>
      free_regs c = free_regs (cg st) \<and> yyout c = yyout (cg st)"
    and "\<not> is_temp_reg (place s) \<Longrightarrow> free_regs (cg st) \<noteq> {} \<Longrightarrow>
      \<exists>r c cmt. load_operand a st = Ok (reg_name (int r)) (st\<lparr>cg := c\<rparr>) \<and> pool_inv c \<and> r \<in> free_regs (cg st) \<and>
        free_regs c = free_regs (cg st) - {r} \<and>
        yyout c = yyout (cg st) @ [Op ''lw'' [reg_name (int r), place s] cmt]"
proof -
  show "\<exists>c. load_operand a st = Ok (place s) (st\<lparr>cg := c\<rparr>) \<and> pool_inv c \<and>
      free_regs c = free_regs (cg st) \<and> yyout c = yyout (cg st)" if "is_temp_reg (place s)"
    using that s assms(1)
    by (intro exI [of _ "copy_reg_str (place s) (cg st)"])
      (simp add: load_operand_def andthen_def sym_at_def defined_in_def copy_name_def seq_modify ret_def,
        simp add: copy_reg_str_def pool_inv_def free_regs_def)
  show "\<exists>r c cmt. load_operand a st = Ok (reg_name (int r)) (st\<lparr>cg := c\<rparr>) \<and> pool_inv c \<and> r \<in> free_regs (cg st) \<and>
        free_regs c = free_regs (cg st) - {r} \<and>
        yyout c = yyout (cg st) @ [Op ''lw'' [reg_name (int r), place s] cmt]"
    if m: "\<not> is_temp_reg (place s)" "free_regs (cg st) \<noteq> {}"
  proof -
    obtain r c where r: "new_reg st = Ok (reg_name (int r)) (st\<lparr>cg := c\<rparr>)" "r \<in> free_regs (cg st)" "pool_inv c"
      "free_regs c = free_regs (cg st) - {r}" "yyout c = yyout (cg st)"
      using new_reg_run [OF assms(1) m(2)] by blast
    let ?c = "emit (Op ''lw'' [reg_name (int r), place s] ('' # '' @ name s)) c"
    have "load_operand a st = Ok (reg_name (int r)) (st\<lparr>cg := ?c\<rparr>)"
      using s m(1) r(1) by (simp add: load_operand_def andthen_def sym_at_def defined_in_def out_def seq_modify ret_def)
    moreover have "pool_inv ?c" "free_regs ?c = free_regs (cg st) - {r}"
      using r(3,4) by (simp_all add: emit_def pool_inv_def free_regs_def)
    moreover have "yyout ?c = yyout (cg st) @ [Op ''lw'' [reg_name (int r), place s] ('' # '' @ name s)]"
      using r(5) by (simp add: emit_def)
    ultimately show ?thesis using r(2) by blast
  qed
qed

section \<open>Variables and constants\<close>

lemma lhs_variable:
  assumes inv: "expr_inv st" and x: "var_name x"
  shows "type_of st (E_lhs (L_sub x Sub_none)) = None \<Longrightarrow> \<exists>msg. lhs (L_sub x Sub_none) st = Exit msg"
    and "type_of st (E_lhs (L_sub x Sub_none)) = Some t \<Longrightarrow>
      \<exists>b st' s. lhs (L_sub x Sub_none) st = Ok b st' \<and> extends st st' \<and> cg st' = cg st \<and>
        syms (sy st') b = Some s \<and> var_symbol st x = Some s \<and> ty s = t \<and> length (name s) < ID_SIZ \<and> \<not> is_temp_reg (place s)"
proof -
  have id: "ident x" using x by (simp add: var_name_def ident_def)
  obtain p where p: "lookup_symtab_prevscope (sy st) x (cur_scope st) = Some p"
    "innermost (declared (sy st) x) (cur_scope st) p"
    using lookup_prevscope_innermost [OF expr_invD(1) [OF inv]] by blast
  have run: "lhs (L_sub x Sub_none) st = (case p of None \<Rightarrow> Exit ''ID undeclared'' | Some b \<Rightarrow> Ok b st')"
    if "expect T_ID x st = Ok a st'" "extends st st'" "syms (sy st') a = Some s" "name s = x" for a st' s
    using that p(1)
    by (auto simp: andthen_def find_declared_def sym_at_def defined_in_def gets_def lookup_from_def ret_def
        yyerror_def extends_def lookup_symtab_prevscope_def split: option.split)
  have found: "\<exists>s. syms (sy st) b = Some s \<and> name s = x \<and> \<not> is_temp_reg (place s) \<and> b < syms_brk (sy st)"
    if b: "p = Some b" for b
  proof -
    obtain j where j: "0 \<le> j" "declared (sy st) x j = Some b" using p(2) b by (auto simp: innermost_def)
    obtain s where s: "syms (sy st) b = Some s" "name s = x"
      using declared_sym [OF expr_invD(1) [OF inv] id j] by blast
    moreover have "\<not> is_temp_reg (place s)"
      using expr_invD(6) [OF inv, of _ b s] j(2) s(1) by (simp add: declared_def)
    ultimately show ?thesis using expr_invD(7) [OF inv, of b] by auto
  qed
  have var: "var_symbol st x = (case p of None \<Rightarrow> None | Some b \<Rightarrow> syms (sy st) b)"
    using p(1) by (simp add: var_symbol_def split: option.split)
  show "\<exists>msg. lhs (L_sub x Sub_none) st = Exit msg" if "type_of st (E_lhs (L_sub x Sub_none)) = None"
  proof (cases "is_type_name st x")
    case True
    then show ?thesis using expect_ID_run(1) [OF inv x] by (auto simp: andthen_def)
  next
    case False
    then have "p = None" using that var found by (cases p) auto
    with False show ?thesis using expect_ID_run(2) [OF inv x] run by fastforce
  qed
  show "\<exists>b st' s. lhs (L_sub x Sub_none) st = Ok b st' \<and> extends st st' \<and> cg st' = cg st \<and>
        syms (sy st') b = Some s \<and> var_symbol st x = Some s \<and> ty s = t \<and> length (name s) < ID_SIZ \<and> \<not> is_temp_reg (place s)"
    if t: "type_of st (E_lhs (L_sub x Sub_none)) = Some t"
  proof -
    have nt: "\<not> is_type_name st x" using t by (auto split: if_splits)
    then obtain b where b: "p = Some b" using t var by (cases p) auto
    obtain s where s: "syms (sy st) b = Some s" "name s = x" "\<not> is_temp_reg (place s)" "b < syms_brk (sy st)"
      using found [OF b] by blast
    obtain a st' s' where e: "expect T_ID x st = Ok a st'" "extends st st'" "cg st' = cg st"
      "syms (sy st') a = Some s'" "name s' = x"
      using expect_ID_run(2) [OF inv x nt] by blast
    have "syms (sy st') b = Some s" using s(1,4) e(2) by (simp add: extends_def)
    moreover have "ty s = t" "var_symbol st x = Some s" using t nt var b s(1) by auto
    moreover have "length (name s) < ID_SIZ" using x s(2) by (simp add: var_name_def ID_SIZ_def)
    ultimately show ?thesis using run [OF e(1,2,4,5)] e(2,3) b s(3) by auto
  qed
qed

lemma iconst_run:
  assumes inv: "expr_inv st" and c: "int_constant c" and free: "free_regs (cg st) \<noteq> {}"
  shows "\<exists>a st' s r. expr (E_iconst c) st = Ok a st' \<and> extends st st' \<and> pool_inv (cg st') \<and>
    syms (sy st') a = Some s \<and> ty s = INT_TY \<and> length (name s) < ID_SIZ \<and> place s = reg_name (int r) \<and>
    r \<in> free_regs (cg st) \<and> free_regs (cg st') = free_regs (cg st) - {r} \<and>
    yyout (cg st') = yyout (cg st) @ [Op ''li'' [reg_name (int r), c] []]"
proof -
  let ?a = "syms_brk (sy st)" and ?s = "zero_symbol\<lparr>name := c, scope := cur_scope st, ty := INT_TY\<rparr>"
  let ?st1 = "st\<lparr>sy := snd (alloc_sym ?s (sy st)), yylval_s := Some ?a\<rparr>"
  have len: "length c < ID_SIZ" using c by (simp add: int_constant_def)
  have lex: "lex_ICONST c st = Ok ?a ?st1"
    using scan_symbol_new [OF inv constant_undeclared [OF inv c] len]
    by (simp add: lex_ICONST_def lex_const_def andthen_def seq_def sym_upd_def with_sy_def ret_def alloc_sym_def zero_symbol_def)
  have cg1: "cg ?st1 = cg st" by simp
  obtain r c' where r: "new_reg ?st1 = Ok (reg_name (int r)) (?st1\<lparr>cg := c'\<rparr>)" "r \<in> free_regs (cg st)" "pool_inv c'"
    "free_regs c' = free_regs (cg st) - {r}" "yyout c' = yyout (cg st)"
    using new_reg_run [of ?st1] expr_invD(3) [OF inv] free unfolding cg1 by blast
  let ?s' = "?s\<lparr>place := reg_name (int r)\<rparr>" and ?c = "emit (Op ''li'' [reg_name (int r), c] []) c'"
  let ?st' = "st\<lparr>sy := snd (alloc_sym ?s' (sy st)), yylval_s := Some ?a, cg := ?c\<rparr>"
  have rr: "length (reg_name (int r)) < ID_SIZ"
    using r(2) rp.free_regs [OF expr_invD(3) [OF inv]] by (intro reg_name_length) blast
  have "expr (E_iconst c) st = Ok ?a ?st'"
    using lex r(1) rr
    by (simp add: andthen_def iconst_action_def sym_at_def defined_in_def alloc_sym_def out_def seq_modify
        set_place_def sym_upd_def with_sy_def seq_def modify_def ret_def)
  moreover have "extends st ?st'" by (rule extends_alloc [OF inv refl])
  moreover have "syms (sy ?st') ?a = Some ?s'" by (simp add: alloc_sym_def)
  moreover have "pool_inv ?c" "free_regs ?c = free_regs (cg st) - {r}"
    "yyout ?c = yyout (cg st) @ [Op ''li'' [reg_name (int r), c] []]"
    using r(3,4,5) by (simp_all add: pool_inv_def free_regs_def emit_def)
  ultimately show ?thesis using r(2) len by auto
qed

section \<open>Operands\<close>

lemma reg_name_inj: "reg_name (int r) = reg_name (int r') \<longleftrightarrow> r = r'"
  using myitoa_inj [of "int r" "int r'"] by (auto simp: reg_name_def myitoa_def)

lemma reg_name_temp [simp]: "is_temp_reg (reg_name r)"
  by (simp add: is_temp_reg_def reg_name_def)

text \<open>An operand is in memory or in a register that is not free.\<close>

definition place_ok :: "nat set \<Rightarrow> cstring \<Rightarrow> bool" where
  "place_ok F p \<longleftrightarrow> \<not> is_temp_reg p \<or> (\<exists>r \<in> {8..15} - F. p = reg_name (int r))"

definition place_regs :: "cstring \<Rightarrow> nat set" where
  "place_regs p = {r \<in> {8..15}. p = reg_name (int r)}"

lemma place_regs_reg: "r \<in> {8..15} \<Longrightarrow> place_regs (reg_name (int r)) = {r}"
  by (auto simp: place_regs_def reg_name_inj)

lemma place_regs_memory: "\<not> is_temp_reg p \<Longrightarrow> place_regs p = {}"
  by (auto simp: place_regs_def)

text \<open>Loading an operand puts its value into a register and changes no other.\<close>

lemma load_place:
  assumes inv: "pool_inv (cg st)" and s: "syms (sy st) a = Some s" and p: "place_ok (free_regs (cg st)) (place s)"
    and free: "\<not> is_temp_reg (place s) \<Longrightarrow> free_regs (cg st) \<noteq> {}"
  shows "\<exists>r c lds. load_operand a st = Ok (reg_name (int r)) (st\<lparr>cg := c\<rparr>) \<and> pool_inv c \<and> r \<in> {8..15} \<and>
    free_regs c = free_regs (cg st) - {r} \<and> (if is_temp_reg (place s) then place_regs (place s) = {r} else r \<in> free_regs (cg st)) \<and>
    yyout c = yyout (cg st) @ lds \<and>
    (\<forall>alu imm m. exec_lines alu imm lds m = Some (m\<lparr>regs := (regs m)(reg_name (int r) := operand m (place s))\<rparr>))"
proof (cases "is_temp_reg (place s)")
  case True
  then obtain r where r: "r \<in> {8..15}" "r \<notin> free_regs (cg st)" "place s = reg_name (int r)"
    using p by (auto simp: place_ok_def)
  obtain c where c: "load_operand a st = Ok (place s) (st\<lparr>cg := c\<rparr>)" "pool_inv c"
      "free_regs c = free_regs (cg st)" "yyout c = yyout (cg st)"
    using load_operand_run(1) [OF inv s True] by blast
  have "\<forall>alu imm m. exec_lines alu imm [] m = Some (m\<lparr>regs := (regs m)(reg_name (int r) := operand m (place s))\<rparr>)"
    by (simp add: operand_def r(3))
  moreover have "yyout c = yyout (cg st) @ []" using c(4) by simp
  ultimately show ?thesis
    using c(1-3) r place_regs_reg [OF r(1)] True by (metis Diff_insert_absorb Diff_idemp insert_Diff_single)
next
  case False
  obtain r c cmt where r: "load_operand a st = Ok (reg_name (int r)) (st\<lparr>cg := c\<rparr>)" "pool_inv c" "r \<in> free_regs (cg st)"
      "free_regs c = free_regs (cg st) - {r}" "yyout c = yyout (cg st) @ [Op ''lw'' [reg_name (int r), place s] cmt]"
    using load_operand_run(2) [OF inv s False free [OF False]] by blast
  have "\<forall>alu imm m. exec_lines alu imm [Op ''lw'' [reg_name (int r), place s] cmt] m
      = Some (m\<lparr>regs := (regs m)(reg_name (int r) := operand m (place s))\<rparr>)"
    using False by (simp add: operand_def)
  moreover have "r \<in> {8..15}" using r(3) rp.free_regs [OF inv] by blast
  ultimately show ?thesis
    using r False by (intro exI [of _ r] exI [of _ c] exI [of _ "[Op ''lw'' [reg_name (int r), place s] cmt]"]) simp
qed

lemma load_place_at:
  assumes "pool_inv c" and "syms S a = Some s" and "place_ok (free_regs c) (place s)"
    and "\<not> is_temp_reg (place s) \<Longrightarrow> free_regs c \<noteq> {}"
  shows "\<exists>r c' lds. load_operand a (st\<lparr>sy := S, cg := c\<rparr>) = Ok (reg_name (int r)) (st\<lparr>sy := S, cg := c'\<rparr>) \<and>
    pool_inv c' \<and> r \<in> {8..15} \<and> free_regs c' = free_regs c - {r} \<and>
    (if is_temp_reg (place s) then place_regs (place s) = {r} else r \<in> free_regs c) \<and>
    yyout c' = yyout c @ lds \<and>
    (\<forall>alu imm m. exec_lines alu imm lds m = Some (m\<lparr>regs := (regs m)(reg_name (int r) := operand m (place s))\<rparr>))"
proof -
  let ?st = "st\<lparr>sy := S, cg := c\<rparr>"
  have same: "cg ?st = c" "sy ?st = S" "\<And>c'. ?st\<lparr>cg := c'\<rparr> = st\<lparr>sy := S, cg := c'\<rparr>" by simp_all
  show ?thesis
    using load_place [of ?st a s, unfolded same] assms by blast
qed

text \<open>Giving back the register of an operand.\<close>

lemma free_place:
  assumes "pool_inv (cg st)" and "\<not> is_temp_reg p \<or> (\<exists>r \<in> {8..15}. p = reg_name (int r))"
  shows "\<exists>c. free_reg p st = Ok () (st\<lparr>cg := c\<rparr>) \<and> pool_inv c \<and> free_regs c = place_regs p \<union> free_regs (cg st) \<and>
    yyout c = yyout (cg st)"
proof (cases "is_temp_reg p")
  case True
  then obtain r where r: "r \<in> {8..15}" "p = reg_name (int r)" using assms(2) by blast
  then show ?thesis using free_reg_run [OF assms(1) r(1)] place_regs_reg [OF r(1)] by auto
next
  case False
  then show ?thesis
    using free_reg_memory [OF False] place_regs_memory [OF False] assms(1) by (intro exI [of _ "cg st"]) simp
qed

section \<open>Binary operators\<close>

text \<open>
  The code of an operator, for operands whose places are in memory or in registers that are not
  free. The result is in a register that was free, and the registers of the operands are free
  afterwards.
\<close>

lemma op_instr_operation: "op_instr b = map_option mnemonic (operation_of b)"
proof (cases b)
  case (Cons c d)
  show ?thesis by (cases d) (auto simp: op_instr_def operation_of_def Cons)
qed (simp add: op_instr_def operation_of_def)

lemma mixed_arith_numbers: "t = u \<or> mixed_arith t u \<longleftrightarrow> t = u \<or> is_number t \<and> is_number u"
  by (auto simp: mixed_arith_def is_number_def)

lemma op_instr_alu: "op_instr b = Some i \<Longrightarrow> i \<notin> {''li'', ''lw'', ''sw''}"
  by (auto simp: op_instr_def split: if_splits)

lemma exec_alu:
  "exec_line alu imm (Op i [d, r, s] cmt) m =
     (case alu i (regs m r) (regs m s) of None \<Rightarrow> None | Some v \<Rightarrow> Some (m\<lparr>regs := (regs m)(d := v)\<rparr>))"
  by simp

lemma binop_code:
  assumes r1: "r1 \<in> {8..15}" and r3: "r3 \<in> {8..15}" and d: "d \<in> {8..15}"
    and p1: "if is_temp_reg p1 then p1 = reg_name (int r1) else True"
    and p3: "if is_temp_reg p3 then p3 = reg_name (int r3) else True"
    and ne: "r1 \<noteq> r3"
    and l1: "\<forall>alu imm m. exec_lines alu imm ls1 m = Some (m\<lparr>regs := (regs m)(reg_name (int r1) := operand m p1)\<rparr>)"
    and l3: "\<forall>alu imm m. exec_lines alu imm ls3 m = Some (m\<lparr>regs := (regs m)(reg_name (int r3) := operand m p3)\<rparr>)"
    and v: "alu i (operand m p1) (operand m p3) = Some v"
  shows "\<exists>m'. exec_lines alu imm (Note t # ls1 @ ls3 @ [Op i [reg_name (int d), reg_name (int r1), reg_name (int r3)] []]) m = Some m' \<and>
    cells m' = cells m \<and> regs m' (reg_name (int d)) = v \<and>
    (\<forall>r. r \<noteq> d \<longrightarrow> (r = r1 \<longrightarrow> is_temp_reg p1) \<longrightarrow> (r = r3 \<longrightarrow> is_temp_reg p3) \<longrightarrow>
       regs m' (reg_name (int r)) = regs m (reg_name (int r)))"
proof -
  let ?m1 = "m\<lparr>regs := (regs m)(reg_name (int r1) := operand m p1)\<rparr>"
  let ?m3 = "?m1\<lparr>regs := (regs ?m1)(reg_name (int r3) := operand ?m1 p3)\<rparr>"
  have o3: "operand ?m1 p3 = operand m p3"
    using p3 ne by (auto simp: operand_def reg_name_inj split: if_splits)
  have o1: "regs ?m3 (reg_name (int r1)) = operand m p1"
    using ne by (simp add: reg_name_inj)
  have o3': "regs ?m3 (reg_name (int r3)) = operand m p3" using o3 by simp
  have e1: "exec_lines alu imm ls1 m = Some ?m1" using l1 by blast
  have e3: "exec_lines alu imm ls3 ?m1 = Some ?m3" using l3 by blast
  have "exec_lines alu imm (Note t # ls1 @ ls3 @ [Op i [reg_name (int d), reg_name (int r1), reg_name (int r3)] []]) m
      = Some (?m3\<lparr>regs := (regs ?m3)(reg_name (int d) := v)\<rparr>)"
    by (simp only: exec_lines.simps exec_line.simps(1) exec_lines_append e1 e3 exec_alu Option.bind.simps
        o1 o3' v option.case)
  moreover have "regs ?m3 (reg_name (int r)) = regs m (reg_name (int r))"
    if "r = r1 \<longrightarrow> is_temp_reg p1" "r = r3 \<longrightarrow> is_temp_reg p3" for r
  proof -
    have "regs ?m1 (reg_name (int r)) = regs m (reg_name (int r))"
      using that(1) p1 by (auto simp: reg_name_inj operand_def)
    moreover have "regs ?m3 (reg_name (int r)) = regs ?m1 (reg_name (int r))"
    proof (cases "r = r3")
      case True
      then have "p3 = reg_name (int r3)" using that(2) p3 by simp
      then show ?thesis using True by (simp add: operand_def)
    qed (simp add: reg_name_inj)
    ultimately show ?thesis by simp
  qed
  ultimately show ?thesis by (auto simp: reg_name_inj)
qed

lemma free_places_run:
  assumes "pool_inv c" and "r1 \<in> {8..15}" "r3 \<in> {8..15}"
    and "\<not> is_temp_reg p1 \<or> p1 = reg_name (int r1)" "\<not> is_temp_reg p3 \<or> p3 = reg_name (int r3)"
  shows "\<exists>c'. seq (free_reg (reg_name (int r1))) (seq (free_reg (reg_name (int r3)))
      (seq (free_reg p1) (seq (free_reg p3) (ret a)))) (st\<lparr>cg := c\<rparr>) = Ok a (st\<lparr>cg := c'\<rparr>) \<and>
    pool_inv c' \<and> free_regs c' = insert r1 (insert r3 (free_regs c)) \<and> yyout c' = yyout c"
proof -
  have q1: "\<not> is_temp_reg p1 \<or> (\<exists>r \<in> {8..15}. p1 = reg_name (int r))"
    and q3: "\<not> is_temp_reg p3 \<or> (\<exists>r \<in> {8..15}. p3 = reg_name (int r))"
    using assms(2-5) by blast+
  obtain c1 where c1: "free_reg (reg_name (int r1)) (st\<lparr>cg := c\<rparr>) = Ok () (st\<lparr>cg := c1\<rparr>)" "pool_inv c1"
    "free_regs c1 = insert r1 (free_regs c)" "yyout c1 = yyout c"
    using free_reg_run [of "st\<lparr>cg := c\<rparr>" r1] assms(1,2) by auto
  obtain c2 where c2: "free_reg (reg_name (int r3)) (st\<lparr>cg := c1\<rparr>) = Ok () (st\<lparr>cg := c2\<rparr>)" "pool_inv c2"
    "free_regs c2 = insert r3 (free_regs c1)" "yyout c2 = yyout c1"
    using free_reg_run [of "st\<lparr>cg := c1\<rparr>" r3] c1(2) assms(3) by auto
  obtain c3 where c3: "free_reg p1 (st\<lparr>cg := c2\<rparr>) = Ok () (st\<lparr>cg := c3\<rparr>)" "pool_inv c3"
    "free_regs c3 = place_regs p1 \<union> free_regs c2" "yyout c3 = yyout c2"
    using free_place [of "st\<lparr>cg := c2\<rparr>", OF _ q1] c2(2) by auto
  obtain c4 where c4: "free_reg p3 (st\<lparr>cg := c3\<rparr>) = Ok () (st\<lparr>cg := c4\<rparr>)" "pool_inv c4"
    "free_regs c4 = place_regs p3 \<union> free_regs c3" "yyout c4 = yyout c3"
    using free_place [of "st\<lparr>cg := c3\<rparr>", OF _ q3] c3(2) by auto
  have "place_regs p1 \<subseteq> {r1}" "place_regs p3 \<subseteq> {r3}"
    using assms(4,5) by (auto simp: place_regs_def reg_name_inj)
  then have "free_regs c4 = insert r1 (insert r3 (free_regs c))" using c1(3) c2(3) c3(3) c4(3) by auto
  then show ?thesis using c1 c2 c3 c4 by (intro exI [of _ c4]) (simp add: seq_def andthen_def ret_def)
qed

lemma binop_run:
  assumes inv: "expr_inv st" and s1: "syms (sy st) a1 = Some s1" and s3: "syms (sy st) a3 = Some s3"
    and t: "binop_type b (ty s1) (ty s3) = Some t" and len: "length (name s1) < ID_SIZ"
    and p1: "place_ok (free_regs (cg st)) (place s1)" and p3: "place_ok (free_regs (cg st)) (place s3)"
    and clash: "is_temp_reg (place s1) \<longrightarrow> place s1 \<noteq> place s3"
    and card: "card (place_regs (place s1) \<union> place_regs (place s3) \<union> free_regs (cg st)) \<ge> 3"
  shows "\<exists>a st' s d ls. binop_action a1 b a3 st = Ok a st' \<and> extends st st' \<and> pool_inv (cg st') \<and>
    syms (sy st') a = Some s \<and> ty s = t \<and> length (name s) < ID_SIZ \<and> place s = reg_name (int d) \<and> d \<in> free_regs (cg st) \<and>
    free_regs (cg st') = (place_regs (place s1) \<union> place_regs (place s3) \<union> free_regs (cg st)) - {d} \<and>
    yyout (cg st') = yyout (cg st) @ ls \<and>
    (\<forall>alu imm m i v. op_instr b = Some i \<longrightarrow> alu i (operand m (place s1)) (operand m (place s3)) = Some v \<longrightarrow>
       (\<exists>m'. exec_lines alu imm ls m = Some m' \<and> cells m' = cells m \<and> regs m' (reg_name (int d)) = v \<and>
          (\<forall>r \<in> {8..15} - free_regs (cg st). regs m' (reg_name (int r)) = regs m (reg_name (int r)))))"
proof -
  let ?F = "free_regs (cg st)" and ?P1 = "place_regs (place s1)" and ?P3 = "place_regs (place s3)"
  obtain i where i: "op_instr b = Some i" using t by (auto simp: binop_type_def op_instr_operation split: if_splits)
  let ?s0 = "zero_symbol\<lparr>name := name s1, ty := ty s1, scope := scope s1, snext := snext s1, type_ptr := type_ptr s1\<rparr>"
  let ?a = "syms_brk (sy st)" and ?note = "Note (name s1 @ '' '' @ b @ '' '' @ name s3)"
  define sy1 where "sy1 = snd (alloc_sym ?s0 (sy st))"
  have sy1: "syms sy1 a1 = Some s1" "syms sy1 a3 = Some s3" "syms sy1 ?a = Some ?s0"
    using s1 s3 expr_invD(7) [OF inv] by (auto simp: sy1_def alloc_sym_def)
  define c0 where "c0 = emit ?note (cg st)"
  have c0: "pool_inv c0" "free_regs c0 = ?F" "yyout c0 = yyout (cg st) @ [?note]"
    using expr_invD(3) [OF inv] by (simp_all add: c0_def emit_def pool_inv_def free_regs_def)
  have sub: "?F \<subseteq> {8..15}" using rp.free_regs [OF expr_invD(3) [OF inv]] .
  have card1: "card ?P1 = (if is_temp_reg (place s1) then 1 else 0)" and card3: "card ?P3 = (if is_temp_reg (place s3) then 1 else 0)"
    using p1 p3 place_regs_reg place_regs_memory by (auto simp: place_ok_def)
  have fin: "finite ?P1" "finite ?P3" "finite ?F" using sub finite_subset by (auto simp: place_regs_def)
  have "card (?P1 \<union> ?P3 \<union> ?F) \<le> card ?P1 + card ?P3 + card ?F"
    using card_Un_le [of "?P1 \<union> ?P3" ?F] card_Un_le [of ?P1 ?P3] by linarith
  then have cardF: "3 \<le> card ?P1 + card ?P3 + card ?F" using card by linarith
  have F1: "?F \<noteq> {}" if "\<not> is_temp_reg (place s1)" using cardF card1 card3 that by (auto split: if_splits)
  obtain r1 c1 ld1 where L1: "load_operand a1 (st\<lparr>sy := sy1, cg := c0\<rparr>) = Ok (reg_name (int r1)) (st\<lparr>sy := sy1, cg := c1\<rparr>)"
    "pool_inv c1" "r1 \<in> {8..15}" "free_regs c1 = ?F - {r1}"
    "if is_temp_reg (place s1) then ?P1 = {r1} else r1 \<in> ?F" "yyout c1 = yyout c0 @ ld1"
    "\<forall>alu imm m. exec_lines alu imm ld1 m = Some (m\<lparr>regs := (regs m)(reg_name (int r1) := operand m (place s1))\<rparr>)"
    using load_place_at [OF c0(1) sy1(1)] p1 F1 unfolding c0(2) by blast
  have cardF1: "card ?F \<le> card (?F - {r1}) + (if is_temp_reg (place s1) then 0 else 1)"
    using L1(5) p1 fin(3) by (auto simp: place_ok_def place_regs_def card_Diff_singleton_if reg_name_inj)
  have p3': "place_ok (free_regs c1) (place s3)" using p3 L1(4) by (auto simp: place_ok_def)
  have F3: "free_regs c1 \<noteq> {}" if "\<not> is_temp_reg (place s3)"
  proof -
    have "card (?F - {r1}) \<ge> 1" using cardF card1 card3 cardF1 that by (auto split: if_splits)
    then show ?thesis using L1(4) by (metis card.empty not_one_le_zero)
  qed
  obtain r3 c3 ld3 where L3: "load_operand a3 (st\<lparr>sy := sy1, cg := c1\<rparr>) = Ok (reg_name (int r3)) (st\<lparr>sy := sy1, cg := c3\<rparr>)"
    "pool_inv c3" "r3 \<in> {8..15}" "free_regs c3 = free_regs c1 - {r3}"
    "if is_temp_reg (place s3) then ?P3 = {r3} else r3 \<in> free_regs c1" "yyout c3 = yyout c1 @ ld3"
    "\<forall>alu imm m. exec_lines alu imm ld3 m = Some (m\<lparr>regs := (regs m)(reg_name (int r3) := operand m (place s3))\<rparr>)"
    using load_place_at [OF L1(2) sy1(2) p3' F3] by blast
  have ne: "r1 \<noteq> r3"
  proof
    assume eq: "r1 = r3"
    then have "r3 \<notin> free_regs c1" using L1(4) by simp
    then have t3: "is_temp_reg (place s3)" "place s3 = reg_name (int r3)"
      using L3(5) by (auto simp: place_regs_def split: if_splits)
    then have "r3 \<notin> ?F" using p3 by (auto simp: place_ok_def reg_name_inj)
    then have "is_temp_reg (place s1)" "place s1 = reg_name (int r1)"
      using L1(5) eq by (auto simp: place_regs_def split: if_splits)
    then show False using clash t3(2) eq by simp
  qed
  have U: "?P1 \<union> ?P3 \<union> ?F = insert r1 (insert r3 (?F - {r1} - {r3}))"
    using L1(4,5) L3(4,5) place_regs_memory [of "place s1"] place_regs_memory [of "place s3"]
    by (auto split: if_splits)
  have "free_regs c3 \<noteq> {}"
  proof
    assume "free_regs c3 = {}"
    then have "?F - {r1} - {r3} = {}" using L1(4) L3(4) by simp
    then have "?P1 \<union> ?P3 \<union> ?F = {r1, r3}" by (simp only: U)
    then show False using card ne by simp
  qed
  then obtain d c4 where D: "new_reg (st\<lparr>sy := sy1, cg := c3\<rparr>) = Ok (reg_name (int d)) (st\<lparr>sy := sy1, cg := c4\<rparr>)"
    "d \<in> free_regs c3" "pool_inv c4" "free_regs c4 = free_regs c3 - {d}" "yyout c4 = yyout c3"
    using new_reg_run [of "st\<lparr>sy := sy1, cg := c3\<rparr>"] L3(2) by auto
  have "d \<in> ?F - {r1} - {r3}" using D(2) L1(4) L3(4) by simp
  then have d: "d \<in> ?F" "d \<noteq> r1" "d \<noteq> r3" by simp_all
  then have d8: "d \<in> {8..15}" using sub by blast
  let ?op = "Op i [reg_name (int d), reg_name (int r1), reg_name (int r3)] []"
  let ?s = "?s0\<lparr>place := reg_name (int d)\<rparr>" and ?c5 = "emit ?op c4"
  define sy2 where "sy2 = snd (alloc_sym ?s (sy st))"
  have set: "set_place ?a (reg_name (int d)) (st\<lparr>sy := sy1, cg := ?c5\<rparr>) = Ok () (st\<lparr>sy := sy2, cg := ?c5\<rparr>)"
    using reg_name_length [OF d8] by (simp add: set_place_def sym_upd_def with_sy_def sy1_def sy2_def alloc_sym_def)
  have c5: "pool_inv ?c5" "free_regs ?c5 = ?F - {r1} - {r3} - {d}" "yyout ?c5 = yyout c4 @ [?op]"
    using D(3,4) L1(4) L3(4) by (simp_all add: emit_def pool_inv_def free_regs_def)
  have q: "\<not> is_temp_reg (place s1) \<or> place s1 = reg_name (int r1)" "\<not> is_temp_reg (place s3) \<or> place s3 = reg_name (int r3)"
    using L1(5) L3(5) by (auto simp: place_regs_def split: if_splits)
  have q1: "if is_temp_reg (place s1) then place s1 = reg_name (int r1) else True"
    and q3: "if is_temp_reg (place s3) then place s3 = reg_name (int r3) else True" using q by auto
  obtain c' where fin: "seq (free_reg (reg_name (int r1))) (seq (free_reg (reg_name (int r3)))
      (seq (free_reg (place s1)) (seq (free_reg (place s3)) (ret ?a)))) (st\<lparr>sy := sy2, cg := ?c5\<rparr>) = Ok ?a (st\<lparr>sy := sy2, cg := c'\<rparr>)"
    "pool_inv c'" "free_regs c' = insert r1 (insert r3 (free_regs ?c5))" "yyout c' = yyout ?c5"
    using free_places_run [OF c5(1) L1(3) L3(3) q, of ?a "st\<lparr>sy := sy2\<rparr>"] by auto
  let ?st' = "st\<lparr>sy := sy2, cg := c'\<rparr>"
  let ?ls = "?note # ld1 @ ld3 @ [?op]"
  have ok: "\<not> (ty s1 \<noteq> ty s3 \<and> \<not> mixed_arith (ty s1) (ty s3))" "\<not> (ty s1 = STRUCT_TY \<or> ty s3 = STRUCT_TY)" "t = ty s1"
    using t mixed_arith_numbers [of "ty s1" "ty s3"] by (auto simp: binop_type_def split: if_splits)
  have copy: "copy_symbol (sy st) a1 = Some (?a, sy1)"
    using s1 len by (simp add: copy_symbol_def ID_SIZ_def sy1_def alloc_sym_def)
  have "binop_action a1 b a3 st = Ok ?a ?st'"
    unfolding binop_action_def
    using s1 s3 ok(1,2) copy L1(1) [unfolded c0_def] L3(1) D(1) i set fin(1)
    by (simp add: andthen_def sym_at_def defined_in_def with_sy_def seq_modify out_def seq_def modify_def)
      (use ok(1) in blast)
  moreover have "extends st ?st'" unfolding sy2_def
    by (rule extends_alloc [OF inv, where p = "yylval_s st" and c = c' and s = ?s]) simp
  moreover have "syms (sy ?st') ?a = Some ?s" by (simp add: sy2_def alloc_sym_def)
  moreover have "free_regs (cg ?st') = (?P1 \<union> ?P3 \<union> ?F) - {d}" using U fin(3) c5(2) d by auto
  moreover have "yyout (cg ?st') = yyout (cg st) @ ?ls" using fin(4) c5(3) D(5) L3(6) L1(6) c0(3) by simp
  moreover have "\<forall>alu imm m i v. op_instr b = Some i \<longrightarrow> alu i (operand m (place s1)) (operand m (place s3)) = Some v \<longrightarrow>
       (\<exists>m'. exec_lines alu imm ?ls m = Some m' \<and> cells m' = cells m \<and> regs m' (reg_name (int d)) = v \<and>
          (\<forall>r \<in> {8..15} - ?F. regs m' (reg_name (int r)) = regs m (reg_name (int r))))"
  proof (intro allI impI)
    fix alu :: alu and imm m i' v
    assume "op_instr b = Some i'" and v: "alu i' (operand m (place s1)) (operand m (place s3)) = Some v"
    then have i': "i' = i" using i by simp
    obtain m' where m': "exec_lines alu imm ?ls m = Some m'" "cells m' = cells m" "regs m' (reg_name (int d)) = v"
      "\<forall>r. r \<noteq> d \<longrightarrow> (r = r1 \<longrightarrow> is_temp_reg (place s1)) \<longrightarrow> (r = r3 \<longrightarrow> is_temp_reg (place s3)) \<longrightarrow>
         regs m' (reg_name (int r)) = regs m (reg_name (int r))"
      using binop_code [where alu = alu and i = i and m = m and v = v and imm = imm and t = "name s1 @ '' '' @ b @ '' '' @ name s3",
          OF L1(3) L3(3) d8 q1 q3 ne L1(7) L3(7) v [unfolded i']]
      by blast
    have "regs m' (reg_name (int r)) = regs m (reg_name (int r))" if r: "r \<in> {8..15} - ?F" for r
    proof -
      have "r = r1 \<longrightarrow> is_temp_reg (place s1)" "r = r3 \<longrightarrow> is_temp_reg (place s3)" "r \<noteq> d"
        using r L1(4,5) L3(5) d(1) by (auto split: if_splits)
      then show ?thesis using m'(4) by blast
    qed
    with m' show "\<exists>m'. exec_lines alu imm ?ls m = Some m' \<and> cells m' = cells m \<and> regs m' (reg_name (int d)) = v \<and>
          (\<forall>r \<in> {8..15} - ?F. regs m' (reg_name (int r)) = regs m (reg_name (int r)))" by blast
  qed
  ultimately show ?thesis
    using fin(2) ok(3) len d(1)
    by (intro exI [of _ ?a] exI [of _ ?st'] exI [of _ ?s] exI [of _ d] exI [of _ ?ls]) simp
qed

text \<open>
  An operator is rejected when its types do not fit; an unknown operator is rejected only after
  registers have been taken, which matters to nobody.
\<close>

lemma load_operand_ok: "syms (sy st) a = Some s \<Longrightarrow> \<exists>r c. load_operand a st = Ok r (st\<lparr>cg := c\<rparr>)"
proof -
  assume s: "syms (sy st) a = Some s"
  obtain r c where "get_free_temp_reg (cg st) = (r, c)" by fastforce
  then show ?thesis
    using s by (auto simp: load_operand_def new_reg_def copy_name_def andthen_def sym_at_def defined_in_def
        with_cg_def seq_modify out_def ret_def)
qed

lemma binop_rejects:
  assumes s1: "syms (sy st) a1 = Some s1" and s3: "syms (sy st) a3 = Some s3"
    and t: "binop_type b (ty s1) (ty s3) = None" and len: "length (name s1) < ID_SIZ"
    and brk: "a1 < syms_brk (sy st)" "a3 < syms_brk (sy st)"
  shows "\<exists>msg. binop_action a1 b a3 st = Exit msg"
proof (cases "(ty s1 \<noteq> ty s3 \<and> \<not> mixed_arith (ty s1) (ty s3)) \<or> ty s1 = STRUCT_TY \<or> ty s3 = STRUCT_TY")
  case True
  then show ?thesis
    using s1 s3 by (auto simp: binop_action_def andthen_def sym_at_def defined_in_def yyerror_def)
next
  case False
  then have i: "op_instr b = None"
    using t mixed_arith_numbers [of "ty s1" "ty s3"] by (auto simp: binop_type_def op_instr_operation split: if_splits)
  let ?s0 = "zero_symbol\<lparr>name := name s1, ty := ty s1, scope := scope s1, snext := snext s1, type_ptr := type_ptr s1\<rparr>"
  define sy1 where "sy1 = snd (alloc_sym ?s0 (sy st))"
  have copy: "copy_symbol (sy st) a1 = Some (syms_brk (sy st), sy1)"
    using s1 len by (simp add: copy_symbol_def ID_SIZ_def sy1_def alloc_sym_def)
  have sy1: "syms sy1 a1 = Some s1" "syms sy1 a3 = Some s3" using s1 s3 brk by (auto simp: sy1_def alloc_sym_def)
  let ?st1 = "st\<lparr>sy := sy1, cg := emit (Note (name s1 @ '' '' @ b @ '' '' @ name s3)) (cg st)\<rparr>"
  obtain r1 c1 where 1: "load_operand a1 ?st1 = Ok r1 (st\<lparr>sy := sy1, cg := c1\<rparr>)"
    using load_operand_ok [of ?st1 a1 s1] sy1(1) by auto
  obtain r3 c3 where 3: "load_operand a3 (st\<lparr>sy := sy1, cg := c1\<rparr>) = Ok r3 (st\<lparr>sy := sy1, cg := c3\<rparr>)"
    using load_operand_ok [of "st\<lparr>sy := sy1, cg := c1\<rparr>" a3 s3] sy1(2) by auto
  obtain r c where "get_free_temp_reg c3 = (r, c)" by fastforce
  then have "\<exists>x c4. new_reg (st\<lparr>sy := sy1, cg := c3\<rparr>) = Ok x (st\<lparr>sy := sy1, cg := c4\<rparr>)"
    by (auto simp: new_reg_def copy_name_def andthen_def with_cg_def seq_modify ret_def)
  then obtain x c4 where d: "new_reg (st\<lparr>sy := sy1, cg := c3\<rparr>) = Ok x (st\<lparr>sy := sy1, cg := c4\<rparr>)" by blast
  show ?thesis
    unfolding binop_action_def
    using s1 s3 False copy 1 3 d i
    by (simp add: andthen_def sym_at_def defined_in_def with_sy_def seq_modify out_def yyerror_def)
qed

section \<open>Arithmetic expressions\<close>

definition var_value :: "pstate \<Rightarrow> machine \<Rightarrow> cstring \<Rightarrow> 32 word" where
  "var_value st m x = (case var_symbol st x of None \<Rightarrow> 0 | Some s \<Rightarrow> cells m (place s))"

text \<open>
  The code of an expression: started in any machine in which the expression has a value, it ends
  with that value in the operand \<open>p\<close>, it writes no memory, and of the registers only free ones.
\<close>

definition computes :: "pstate \<Rightarrow> asm list \<Rightarrow> cstring \<Rightarrow> expr_t \<Rightarrow> bool" where
  "computes st ls p e \<longleftrightarrow>
     (\<forall>alu imm m v. eval_expr alu imm (var_value st m) e = Some v \<longrightarrow>
        (\<exists>m'. exec_lines alu imm ls m = Some m' \<and> cells m' = cells m \<and> operand m' p = v \<and>
           (\<forall>r \<in> {8..15} - free_regs (cg st). regs m' (reg_name (int r)) = regs m (reg_name (int r)))))"

text \<open>Where the value is, and which registers are free then.\<close>

definition result_at :: "expr_t \<Rightarrow> cstring \<Rightarrow> nat set \<Rightarrow> nat set \<Rightarrow> bool" where
  "result_at e p F F' \<longleftrightarrow>
     (if held e = 0 then \<not> is_temp_reg p \<and> F' = F
      else \<exists>r \<in> F. p = reg_name (int r) \<and> F' = F - {r})"

definition expr_done :: "pstate \<Rightarrow> expr_t \<Rightarrow> type_enum \<Rightarrow> bool" where
  "expr_done st e t \<longleftrightarrow>
     (\<exists>a st' s ls. expr e st = Ok a st' \<and> extends st st' \<and> pool_inv (cg st') \<and>
        syms (sy st') a = Some s \<and> ty s = t \<and> length (name s) < ID_SIZ \<and>
        result_at e (place s) (free_regs (cg st)) (free_regs (cg st')) \<and>
        yyout (cg st') = yyout (cg st) @ ls \<and> computes st ls (place s) e)"

lemma held_le: "held e \<le> 1"
  by (induction e rule: held.induct) auto

lemma result_at_card:
  assumes "result_at e p F F'" and "finite F"
  shows "card F' = card F - held e"
proof (cases "held e = 0")
  case True
  then show ?thesis using assms(1) by (simp add: result_at_def)
next
  case False
  then have "held e = 1" using held_le [of e] by simp
  then show ?thesis using assms by (auto simp: result_at_def)
qed

text \<open>Giving back the register of a result frees what the expression had taken.\<close>

lemma place_regs_restore:
  assumes "\<not> is_temp_reg p \<and> F' = F \<or> (\<exists>r \<in> F. p = reg_name (int r) \<and> F' = F - {r})" and "F \<subseteq> {8..15}"
  shows "place_regs p \<union> F' = F"
  using assms(1)
proof (elim disjE conjE bexE)
  fix r assume r: "r \<in> F" "p = reg_name (int r)" "F' = F - {r}"
  with assms(2) have "place_regs p = {r}" using place_regs_reg by blast
  with r show ?thesis by auto
qed (simp add: place_regs_memory)

lemma expr_binop_done:
  assumes inv: "expr_inv st" and e: "arithmetic e1" "arithmetic e3"
    and n: "need (E_binop e1 b e3) \<le> card (free_regs (cg st))"
    and d1: "expr_done st e1 t1" and d3: "\<And>st1. expr_inv st1 \<Longrightarrow> extends st st1 \<Longrightarrow>
      need e3 \<le> card (free_regs (cg st1)) \<Longrightarrow> expr_done st1 e3 t3"
    and t: "binop_type b t1 t3 = Some t"
  shows "expr_done st (E_binop e1 b e3) t"
proof -
  let ?F = "free_regs (cg st)"
  obtain a1 st1 s1 ls1 where 1: "expr e1 st = Ok a1 st1" "extends st st1" "pool_inv (cg st1)"
    "syms (sy st1) a1 = Some s1" "ty s1 = t1" "length (name s1) < ID_SIZ"
    "result_at e1 (place s1) ?F (free_regs (cg st1))" "yyout (cg st1) = yyout (cg st) @ ls1" "computes st ls1 (place s1) e1"
    using d1 unfolding expr_done_def by blast
  have inv1: "expr_inv st1" using expr_inv_extends [OF inv 1(2,3)] .
  have fin: "finite ?F" using rp.finite_free [OF expr_invD(3) [OF inv]] .
  have sub: "?F \<subseteq> {8..15}" using rp.free_regs [OF expr_invD(3) [OF inv]] .
  have n1: "need e3 \<le> card (free_regs (cg st1))"
    using n result_at_card [OF 1(7) fin] by simp linarith
  obtain a3 st3 s3 ls3 where 3: "expr e3 st1 = Ok a3 st3" "extends st1 st3" "pool_inv (cg st3)"
    "syms (sy st3) a3 = Some s3" "ty s3 = t3" "length (name s3) < ID_SIZ"
    "result_at e3 (place s3) (free_regs (cg st1)) (free_regs (cg st3))" "yyout (cg st3) = yyout (cg st1) @ ls3"
    "computes st1 ls3 (place s3) e3"
    using d3 [OF inv1 1(2) n1] unfolding expr_done_def by blast
  have inv3: "expr_inv st3" using expr_inv_extends [OF inv1 3(2,3)] .
  have s1: "syms (sy st3) a1 = Some s1"
    using 1(4) 3(2) expr_invD(7) [OF inv1, of a1] by (simp add: extends_def)
  have p1: "\<not> is_temp_reg (place s1) \<and> free_regs (cg st1) = ?F \<or>
      (\<exists>r \<in> ?F. place s1 = reg_name (int r) \<and> free_regs (cg st1) = ?F - {r})"
    using 1(7) by (auto simp: result_at_def split: if_splits)
  have p3: "\<not> is_temp_reg (place s3) \<and> free_regs (cg st3) = free_regs (cg st1) \<or>
      (\<exists>r \<in> free_regs (cg st1). place s3 = reg_name (int r) \<and> free_regs (cg st3) = free_regs (cg st1) - {r})"
    using 3(7) by (auto simp: result_at_def split: if_splits)
  have sub1: "free_regs (cg st1) \<subseteq> ?F" using p1 by blast
  have ok1: "place_ok (free_regs (cg st3)) (place s1)" and ok3: "place_ok (free_regs (cg st3)) (place s3)"
    and clash: "is_temp_reg (place s1) \<longrightarrow> place s1 \<noteq> place s3"
    using p1 p3 sub sub1 by (auto simp: place_ok_def reg_name_inj)
  from place_regs_restore [OF p1 sub] place_regs_restore [OF p3 order_trans [OF sub1 sub]]
  have U: "place_regs (place s1) \<union> place_regs (place s3) \<union> free_regs (cg st3) = ?F" by blast
  have c3: "3 \<le> card ?F" using n by simp
  have bt: "binop_type b (ty s1) (ty s3) = Some t" using t 1(5) 3(5) by simp
  note run = binop_run [where st = st3 and ?a1.0 = a1 and ?a3.0 = a3, OF inv3 s1 3(4) bt 1(6) ok1 ok3 clash, unfolded U, OF c3]
  obtain a st' s d ls where B: "binop_action a1 b a3 st3 = Ok a st'" "extends st3 st'" "pool_inv (cg st')"
    "syms (sy st') a = Some s" "ty s = t" "length (name s) < ID_SIZ" "place s = reg_name (int d)" "d \<in> free_regs (cg st3)"
    "free_regs (cg st') = ?F - {d}" "yyout (cg st') = yyout (cg st3) @ ls"
    "\<forall>alu imm m i v. op_instr b = Some i \<longrightarrow> alu i (operand m (place s1)) (operand m (place s3)) = Some v \<longrightarrow>
       (\<exists>m'. exec_lines alu imm ls m = Some m' \<and> cells m' = cells m \<and> regs m' (reg_name (int d)) = v \<and>
          (\<forall>r \<in> {8..15} - free_regs (cg st3). regs m' (reg_name (int r)) = regs m (reg_name (int r))))"
    using run by blast
  have sub3: "free_regs (cg st3) \<subseteq> ?F" using U by blast
  have "computes st (ls1 @ ls3 @ ls) (place s) (E_binop e1 b e3)"
    unfolding computes_def
  proof (intro allI impI)
    fix alu imm m v
    assume "eval_expr alu imm (var_value st m) (E_binop e1 b e3) = Some v"
    then obtain v1 v3 i where v: "eval_expr alu imm (var_value st m) e1 = Some v1"
      "eval_expr alu imm (var_value st m) e3 = Some v3" "op_instr b = Some i" "alu i v1 v3 = Some v"
      by (auto simp: op_instr_operation split: bind_splits)
    obtain m1 where m1: "exec_lines alu imm ls1 m = Some m1" "cells m1 = cells m" "operand m1 (place s1) = v1"
      "\<forall>r \<in> {8..15} - ?F. regs m1 (reg_name (int r)) = regs m (reg_name (int r))"
      using 1(9) v(1) unfolding computes_def by blast
    have "var_value st1 m1 = var_value st m"
      using var_symbol_extends [OF inv 1(2)] m1(2) by (auto simp: var_value_def fun_eq_iff split: option.split)
    then obtain m3 where m3: "exec_lines alu imm ls3 m1 = Some m3" "cells m3 = cells m1" "operand m3 (place s3) = v3"
      "\<forall>r \<in> {8..15} - free_regs (cg st1). regs m3 (reg_name (int r)) = regs m1 (reg_name (int r))"
      using 3(9) v(2) unfolding computes_def by metis
    have "operand m3 (place s1) = v1"
      using p1 m3(2,4) m1(3) sub by (auto simp: operand_def)
    then obtain m' where m': "exec_lines alu imm ls m3 = Some m'" "cells m' = cells m3" "regs m' (reg_name (int d)) = v"
      "\<forall>r \<in> {8..15} - free_regs (cg st3). regs m' (reg_name (int r)) = regs m3 (reg_name (int r))"
      using B(11) v(3,4) m3(3) by metis
    have "regs m' (reg_name (int r)) = regs m (reg_name (int r))" if r: "r \<in> {8..15} - ?F" for r
    proof -
      have "r \<in> {8..15} - free_regs (cg st1)" "r \<in> {8..15} - free_regs (cg st3)" using r sub1 sub3 by auto
      then show ?thesis using m1(4) m3(4) m'(4) r by simp
    qed
    then show "\<exists>m'. exec_lines alu imm (ls1 @ ls3 @ ls) m = Some m' \<and> cells m' = cells m \<and> operand m' (place s) = v \<and>
        (\<forall>r \<in> {8..15} - ?F. regs m' (reg_name (int r)) = regs m (reg_name (int r)))"
      using m1 m3 m' B(7) by (simp add: exec_lines_append operand_def)
  qed
  moreover have "expr (E_binop e1 b e3) st = Ok a st'" using 1(1) 3(1) B(1) by (simp add: andthen_def)
  moreover have "extends st st'" using extends_trans [OF extends_trans [OF 1(2) 3(2)] B(2)] .
  moreover have "result_at (E_binop e1 b e3) (place s) ?F (free_regs (cg st'))"
    using B(7-9) sub3 by (auto simp: result_at_def)
  moreover have "yyout (cg st') = yyout (cg st) @ ls1 @ ls3 @ ls" using 1(8) 3(8) B(10) by simp
  ultimately show ?thesis unfolding expr_done_def using B(3-6) by blast
qed

text \<open>The parser accepts exactly the well-typed expressions, and compiles those correctly.\<close>

lemma expr_spec:
  assumes "expr_inv st" and "arithmetic e" and "need e \<le> card (free_regs (cg st))"
  shows "case type_of st e of None \<Rightarrow> \<exists>msg. expr e st = Exit msg | Some t \<Rightarrow> expr_done st e t"
  using assms
proof (induction e arbitrary: st rule: arithmetic.induct)
  case (1 x)
  show ?case
  proof (cases "type_of st (E_lhs (L_sub x Sub_none))")
    case None
    then show ?thesis using lhs_variable(1) [OF 1(1)] 1(2) by simp
  next
    case (Some t)
    then obtain b st' s where s: "lhs (L_sub x Sub_none) st = Ok b st'" "extends st st'" "cg st' = cg st"
      "syms (sy st') b = Some s" "var_symbol st x = Some s" "ty s = t" "length (name s) < ID_SIZ" "\<not> is_temp_reg (place s)"
      using lhs_variable(2) [OF 1(1)] 1(2) by (metis arithmetic.simps(1))
    have "computes st [] (place s) (E_lhs (L_sub x Sub_none))"
      using s(5,8) by (simp add: computes_def var_value_def operand_def)
    moreover have "yyout (cg st') = yyout (cg st) @ []" using s(3) by simp
    moreover have "result_at (E_lhs (L_sub x Sub_none)) (place s) (free_regs (cg st)) (free_regs (cg st'))"
      using s(3,8) by (simp add: result_at_def)
    moreover have "pool_inv (cg st')" using s(3) expr_invD(3) [OF 1(1)] by simp
    ultimately have "expr_done st (E_lhs (L_sub x Sub_none)) t"
      unfolding expr_done_def expr.simps(1) using s(1,2,4,6,7) by blast
    with Some show ?thesis by simp
  qed
next
  case (2 e)
  have "expr_done st (E_paren e) t = expr_done st e t" for t
    by (simp add: expr_done_def result_at_def computes_def)
  then show ?case using 2(1) [OF 2(2)] 2(3,4) by (cases "type_of st e") auto
next
  case (3 e1 b e3)
  have a: "arithmetic e1" "arithmetic e3" and n1: "need e1 \<le> card (free_regs (cg st))" using 3(4,5) by simp_all
  note IH1 = 3(1) [OF 3(3) a(1) n1]
  show ?case
  proof (cases "type_of st e1")
    case None
    then show ?thesis using IH1 by (auto simp: andthen_def)
  next
    case (Some t1)
    then have d1: "expr_done st e1 t1" using IH1 by simp
    have d3: "case type_of st e3 of None \<Rightarrow> \<exists>msg. expr e3 st1 = Exit msg | Some t \<Rightarrow> expr_done st1 e3 t"
      if "expr_inv st1" "extends st st1" "need e3 \<le> card (free_regs (cg st1))" for st1
      using 3(2) [OF that(1) a(2) that(3)] type_of_extends [OF 3(3) that(2)] by simp
    obtain a1 st1 s1 where 1: "expr e1 st = Ok a1 st1" "extends st st1" "pool_inv (cg st1)"
      "syms (sy st1) a1 = Some s1" "ty s1 = t1" "result_at e1 (place s1) (free_regs (cg st)) (free_regs (cg st1))"
      "length (name s1) < ID_SIZ"
      using d1 unfolding expr_done_def by blast
    have inv1: "expr_inv st1" using expr_inv_extends [OF 3(3) 1(2,3)] .
    have n3: "need e3 \<le> card (free_regs (cg st1))"
      using 3(5) result_at_card [OF 1(6) rp.finite_free [OF expr_invD(3) [OF 3(3)]]] by simp linarith
    show ?thesis
    proof (cases "type_of st e3")
      case None
      then show ?thesis using d3 [OF inv1 1(2) n3] 1(1) Some by (auto simp: andthen_def)
    next
      case t3: (Some t3)
      obtain a3 st3 s3 where 2: "expr e3 st1 = Ok a3 st3" "extends st1 st3" "syms (sy st3) a3 = Some s3" "ty s3 = t3"
        "pool_inv (cg st3)" "result_at e3 (place s3) (free_regs (cg st1)) (free_regs (cg st3))"
        using d3 [OF inv1 1(2) n3] t3 unfolding expr_done_def by auto
      have inv3: "expr_inv st3" using expr_inv_extends [OF inv1 2(2,5)] .
      show ?thesis
      proof (cases "binop_type b t1 t3")
        case None
        have "syms (sy st3) a1 = Some s1" using 1(4) 2(2) expr_invD(7) [OF inv1, of a1] by (simp add: extends_def)
        then have "\<exists>msg. binop_action a1 b a3 st3 = Exit msg"
          using binop_rejects [OF _ 2(3)] None 1(5,7) 2(4) inv3 expr_invD(7) [OF inv3] by (metis 2(3) option.distinct(1))
        then show ?thesis using None Some t3 1(1) 2(1) by (auto simp: andthen_def)
      next
        case t: (Some t)
        have "expr_done st (E_binop e1 b e3) t"
          using expr_binop_done [OF 3(3) a 3(5) d1 _ t] d3 t3 by simp
        then show ?thesis using Some t3 t by simp
      qed
    qed
  qed
next
  case (4 c)
  then have c: "int_constant c" and "free_regs (cg st) \<noteq> {}" by auto
  then obtain a st' s r where s: "expr (E_iconst c) st = Ok a st'" "extends st st'" "pool_inv (cg st')"
    "syms (sy st') a = Some s" "ty s = INT_TY" "length (name s) < ID_SIZ" "place s = reg_name (int r)"
    "r \<in> free_regs (cg st)" "free_regs (cg st') = free_regs (cg st) - {r}"
    "yyout (cg st') = yyout (cg st) @ [Op ''li'' [reg_name (int r), c] []]"
    using iconst_run [OF 4(1)] by blast
  have "computes st [Op ''li'' [reg_name (int r), c] []] (place s) (E_iconst c)"
    using s(7,8) by (auto simp: computes_def operand_def reg_name_inj)
  moreover have "result_at (E_iconst c) (place s) (free_regs (cg st)) (free_regs (cg st'))"
    using s(7-9) by (auto simp: result_at_def)
  ultimately have "expr_done st (E_iconst c) INT_TY" unfolding expr_done_def using s by blast
  then show ?case by simp
qed auto

end
