(* ===== verification/CompilerProps.thy ===== *)
theory CompilerProps
  imports FunctionFlow ExprSpec SymbolTableProps
begin

text \<open>
  Properties of the compiler of \<open>Assig4\<close>: the structure of its output, the acceptance and the code
  of arithmetic expressions and assignments, and what it does with arguments and with registers in
  loop conditions.
\<close>

section \<open>Whole programs\<close>

lemma initial_ready: "ready initial_state" "live_bound initial_state"
  "stack_contents (label_stack initial_state) = []" "yyout (cg initial_state) = []"
  "label_no initial_state = 0" "cur_scope initial_state = 0"
  using s_init_stack
  by (simp_all add: ready_def live_bound_def initial_state_def init_cgstate_def)

lemma function_code_before:
  "xs @ function_code nm pre body dat = function_code nm (xs @ pre) body dat"
  by (simp add: function_code_def)

lemma one_more_after_declarations:
  assumes "program_code a b ls" and "\<forall>l \<in> set xs. plain_line l" and "segment b c body"
    and "\<forall>l \<in> set pre. plain_line l" and "\<forall>l \<in> set dat. plain_line l"
  shows "program_code a c (ls @ xs @ function_code nm pre body dat)"
  using program_code.one_more [of a b ls c body "xs @ pre" dat nm] assms
  by (auto simp: function_code_before)

lemma global_decl_list_run:
  assumes "global_decl_list p st = Ok u st'" and "ready st" and "live_bound st"
    and "program_code a (label_no st) (yyout (cg st))"
  shows "program_code a (label_no st') (yyout (cg st')) \<and> ready st' \<and>
    stack_contents (label_stack st') = stack_contents (label_stack st) \<and> cur_scope st' = cur_scope st"
  using assms
proof (induction p arbitrary: st)
  case Nil
  then show ?case by (simp add: ret_run)
next
  case (Cons g gs)
  obtain v st2 where 2: "seq (decl_list (fst g)) (function_decl (snd g)) st = Ok v st2"
    and rest: "global_decl_list gs st2 = Ok u st'"
    using Cons.prems(1) by (auto elim: seq_OkE)
  obtain w st1 where 1: "decl_list (fst g) st = Ok w st1" and f: "function_decl (snd g) st1 = Ok v st2"
    using 2 by (rule seq_OkE)
  obtain xs where xs: "label_stack st1 = label_stack st" "label_no st1 = label_no st" "cur_scope st1 = cur_scope st"
    "yyout (cg st1) = yyout (cg st) @ xs" "\<forall>l \<in> set xs. plain_line l"
    using quiet_runD [OF quiet_decl_list 1] by metis
  have r1: "ready st1" "live_bound st1"
    using Cons.prems(2,3) xs live_bound_kept [OF _ quiet_kept [OF quiet_decl_list 1]] by (simp_all add: ready_def)
  note d = function_decl_run [OF f r1]
  then obtain nm pre body dat where out: "yyout (cg st2) = yyout (cg st1) @ function_code nm pre body dat"
    "segment (label_no st1) (label_no st2) body" "\<forall>l \<in> set pre. plain_line l" "\<forall>l \<in> set dat. plain_line l"
    by blast
  have "program_code a (label_no st2) (yyout (cg st2))"
    using one_more_after_declarations [OF Cons.prems(4) xs(5)] out xs(2,4) by simp
  then show ?case using Cons.IH [OF rest] d xs by simp
qed

text \<open>A program with an empty loop, for the witnesses.\<close>

definition loop_program :: program_t where
  "loop_program =
     [([], Function Ty_int ''main'' Pl_none
        (B_list [] (Ss_cons (St_while (E_iconst ''1'') (St_block B_none)) Ss_none)))]"

definition one_entry :: "cstring \<Rightarrow> 'd \<Rightarrow> 'd htable" where
  "one_entry k d = snd (the (h_insert (h_init ()) k d))"

lemma empty_tables:
  "h_get (h_init ()) k = Some None" "ht_to_list (h_init ()) = Some []"
  "h_insert (h_init ()) k d = Some (True, one_entry k d)"
  "h_get (one_entry k d) j = Some (if j = k then Some d else None)"
  using ht.insert_new [OF ht.inv_empty, of k d]
  by (auto simp: ht.get_lookup ht.inv_empty ht.lookup_empty ht.list_data_view h_init_view one_entry_def)

lemma small_numbers:
  "fmt_d 1 = ''1''" "fmt_d 0 = ''0''" "fmt_d 8 = ''8''" "reg_name 8 = ''$8''"
  "replicate 8 (0::int) = [0, 0, 0, 0, 0, 0, 0, 0]"
  by code_simp+

lemmas run_defs = action_defs expect_def lex_ID_def scan_symbol_def lookup_symtab_def create_symbol_def
  alloc_sym_def is_type_exists_def function_head_def zero_symbol_def lex_ICONST_def lex_const_def
  iconst_action_def new_reg_def copy_name_def while_head_def next_label_def push_label_def with_stack_def
  while_test_def while_end_def stack_top_def pop_label_def open_block_def close_block_def function_end_def
  get_free_temp_reg_def enter_symbol_def insert_symbol_def copy_reg_str_def s_push_def s_get_def s_pop_def
  delete_scope_def emit_def emits_def gen_func_prolog_def func_prolog_lines_def gen_func_epilog_def
  func_epilog_lines_def gen_string_labels_def count_chain.simps

lemma loop_program_runs:
  "\<exists>st. compile loop_program = Ok () st \<and> label_no st = 1 \<and> length (yyout (cg st)) > 0 \<and>
     temp_reg (cg st) = [1, 0, 0, 0, 0, 0, 0, 0]"
  by (simp add: run_defs compile_def loop_program_def initial_state_def init_cgstate_def s_init_def
      empty_tables small_numbers ID_SIZ_def STACK_SIZ_def Let_def Test_def Lexit_def Lelse_def)

text \<open>C2:
  The output of a program is a sequence of functions, each framed by its prolog and epilog; the code
  between is a segment whose jumps stay inside it and whose labels, numbered consecutively from one
  function to the next, are defined once. Hence every jump of the output has its label; and the
  compiler ends with an empty label stack in the global scope.
\<close>

theorem compile_structure:
  "compile p = Ok u st \<Longrightarrow>
     program_code 0 (label_no st) (yyout (cg st)) \<and>
     set (jump_targets (yyout (cg st))) \<subseteq> set (label_defs (yyout (cg st))) \<and>
     stack_contents (label_stack st) = [] \<and> cur_scope st = 0"
  using global_decl_list_run [of p initial_state u st 0] initial_ready program_code.no_function [of 0]
    program_code_jumps [of 0 "label_no st" "yyout (cg st)"]
  by (simp add: compile_def)

theorem compile_structure_witness:
  "\<exists>st. compile loop_program = Ok () st \<and> program_code 0 1 (yyout (cg st)) \<and> cur_scope st = 0"
  using loop_program_runs compile_structure [of loop_program] by metis

section \<open>Arithmetic expressions\<close>

text \<open>A state with one variable \<open>x\<close> in scope, for the witnesses.\<close>

definition x_state :: "symstate \<Rightarrow> pstate" where
  "x_state s = initial_state\<lparr>sy := s\<lparr>syms := (syms s)(0 \<mapsto> (the (syms s 0))\<lparr>ty := INT_TY\<rparr>)\<rparr>\<rparr>"

lemma x_state_inv:
  "\<exists>s. insert_symbol (one_symbol ''x'' 0) 0 0 = Some (True, s) \<and> expr_inv (x_state s) \<and>
     card (free_regs (cg (x_state s))) = 8 \<and>
     \<not> is_type_name (x_state s) ''x'' \<and> map_option ty (var_symbol (x_state s) ''x'') = Some INT_TY"
proof -
  have x: "ident ''x''" by (simp add: ident_def is_digit_def)
  obtain s where s: "insert_symbol (one_symbol ''x'' 0) 0 0 = Some (True, s)" "sym_inv s"
    "syms s 0 = Some (zero_symbol\<lparr>name := ''x'', scope := 0, place := ''_'' @ take 255 ''x''\<rparr>)"
    "declared s ''x'' 0 = Some 0"
    using one_symbol_inserted [OF x, of 0] x by auto
  let ?s = "s\<lparr>syms := (syms s)(0 \<mapsto> (the (syms s 0))\<lparr>ty := INT_TY\<rparr>)\<rparr>"
  have inv: "sym_inv ?s" by (rule sym_inv_upd [OF s(2,3)]) (simp_all add: s(3))
  have sx: "syms ?s 0 = Some (zero_symbol\<lparr>name := ''x'', scope := 0, ty := INT_TY, place := ''_x''\<rparr>)"
    by (simp add: s(3))
  obtain t where t: "h_insert (h_init ()) (gen_key ''x'' 0) (0::addr) = Some (True, t)" "ht_map t = [gen_key ''x'' 0 \<mapsto> 0]"
    using ht.insert_new [OF ht.inv_empty, of "gen_key ''x'' 0" 0] by (auto simp: ht.lookup_empty)
  then have "symtab s = t" using s(1) by (auto simp: insert_symbol_def one_symbol_def split: bind_splits)
  then have only: "ht_map (symtab ?s) k = Some a \<Longrightarrow> a = 0" for k a using t(2) by (simp split: if_splits)
  have "expr_inv (x_state s)"
    unfolding expr_inv_def
    using inv only sx init_type_inv [of "h_init ()"]
    by (auto simp: x_state_def initial_state_def init_cgstate_def pool_inv_def is_temp_reg_def init_typetab_def)
  moreover have "lookup_symtab_prevscope ?s ''x'' 0 = Some (Some 0)"
  proof -
    obtain p where p: "lookup_symtab_prevscope ?s ''x'' 0 = Some p" "innermost (declared ?s ''x'') 0 p"
      using lookup_prevscope_innermost [OF inv] by blast
    have "innermost (declared ?s ''x'') 0 (Some 0)" using s(4) by (auto simp: innermost_def declared_def)
    then show ?thesis using p innermost_unique by blast
  qed
  then have "map_option ty (var_symbol (x_state s) ''x'') = Some INT_TY"
    using sx by (simp add: var_symbol_def x_state_def initial_state_def)
  moreover have "\<not> is_type_name (x_state s) ''x''"
    by (simp add: is_type_name_def x_state_def initial_state_def type_of_name_def ht.lookup_empty)
  moreover have "free_regs (cg (x_state s)) = {8..15}"
    by (auto simp: x_state_def initial_state_def init_cgstate_def free_regs_iff)
  ultimately show ?thesis using s(1) by auto
qed

text \<open>The expression \<open>(x + 1) * x\<close>.\<close>

definition x_expr :: expr_t where
  "x_expr = E_binop (E_paren (E_binop (E_lhs (L_sub ''x'' Sub_none)) ''+'' (E_iconst ''1''))) ''*''
     (E_lhs (L_sub ''x'' Sub_none))"

lemma x_expr_facts:
  "arithmetic x_expr" "need x_expr = 3"
  "\<not> is_type_name st ''x'' \<Longrightarrow> map_option ty (var_symbol st ''x'') = Some INT_TY \<Longrightarrow> type_of st x_expr = Some INT_TY"
  by (auto simp: x_expr_def var_name_def int_constant_def is_digit_def ID_SIZ_def binop_type_def operation_of_def)

text \<open>C12:
  As long as there are enough free registers, the parser accepts an arithmetic expression exactly
  if it is well typed: its variables are declared in some scope around it and are no type names,
  and each operator is a known one between operands of the same type, or an integer and a floating
  point number, that are no structures. Otherwise the compiler exits with an error.
\<close>

theorem expr_acceptance:
  assumes "expr_inv st" and "arithmetic e" and "need e \<le> card (free_regs (cg st))"
  shows "if type_of st e = None then \<exists>msg. expr e st = Exit msg else \<exists>a st'. expr e st = Ok a st'"
  using expr_spec [OF assms] by (auto simp: expr_done_def split: option.splits)

theorem expr_acceptance_witness:
  "\<exists>s a st'. expr x_expr (x_state s) = Ok a st'"
proof -
  obtain s where s: "expr_inv (x_state s)" "card (free_regs (cg (x_state s))) = 8"
    "\<not> is_type_name (x_state s) ''x''" "map_option ty (var_symbol (x_state s) ''x'') = Some INT_TY"
    using x_state_inv by blast
  show ?thesis
    using expr_acceptance [OF s(1) x_expr_facts(1)] x_expr_facts(2) x_expr_facts(3) [OF s(3,4)] s(2) by auto
qed

text \<open>C3:
  As long as there are enough free registers, the code that is emitted for an arithmetic expression
  computes its value: from every machine
  state in which the value is defined, it ends with the value in the place of the result, no
  memory cell changed, and no register that was in use changed. The result has the type that the
  type rules give, and the symbols that existed before are untouched. On the arithmetic of the target
  machine that value is the one the expression has in C on the integers in the cells of its variables,
  where C defines it and the operands of \<open>&&\<close> and \<open>||\<close> are truth values.
\<close>

theorem expr_code_correct:
  assumes "expr_inv st" and "arithmetic e" and "need e \<le> card (free_regs (cg st))"
    and "expr e st = Ok a st'"
  shows "extends st st' \<and> expr_inv st' \<and>
    (\<exists>s ls. syms (sy st') a = Some s \<and> type_of st e = Some (ty s) \<and> yyout (cg st') = yyout (cg st) @ ls \<and>
       (\<forall>alu imm m v. eval_expr alu imm (var_value st m) e = Some v \<longrightarrow>
          (\<exists>m'. exec_lines alu imm ls m = Some m' \<and> cells m' = cells m \<and> operand m' (place s) = v \<and>
             (\<forall>r \<in> {8..15} - free_regs (cg st). regs m' (reg_name (int r)) = regs m (reg_name (int r))))) \<and>
       (\<forall>imm m z. (\<forall>c. no_overflow (imm c)) \<longrightarrow> c_value imm (\<lambda>x. sint (var_value st m x)) e = Some z \<longrightarrow>
          (\<exists>m'. exec_lines mips_alu (\<lambda>c. word_of_int (imm c)) ls m = Some m' \<and> cells m' = cells m \<and>
             operand m' (place s) = word_of_int z)))"
proof -
  obtain t where t: "type_of st e = Some t" "expr_done st e t"
    using expr_spec [OF assms(1-3)] assms(4) by (cases "type_of st e") auto
  then obtain s ls where d: "extends st st'" "pool_inv (cg st')" "syms (sy st') a = Some s" "ty s = t"
    "yyout (cg st') = yyout (cg st) @ ls" "computes st ls (place s) e"
    using assms(4) unfolding expr_done_def by auto
  have "\<exists>m'. exec_lines mips_alu (\<lambda>c. word_of_int (imm c)) ls m = Some m' \<and> cells m' = cells m \<and>
      operand m' (place s) = word_of_int z"
    if "\<forall>c. no_overflow (imm c)" "c_value imm (\<lambda>x. sint (var_value st m x)) e = Some z" for imm m z
    using d(6) eval_expr_c_value [OF that(2,1)] unfolding computes_def by blast
  then show ?thesis
    using d t(1) expr_inv_extends [OF assms(1)] unfolding computes_def by blast
qed

theorem expr_code_correct_witness:
  "\<exists>s a st' ls p. expr x_expr (x_state s) = Ok a st' \<and> yyout (cg st') = ls \<and>
     (\<forall>m. \<exists>m'. exec_lines (\<lambda>i v w. if i = ''add'' then Some (v + w) else if i = ''mul'' then Some (v * w) else None)
        (\<lambda>c. 1) ls m = Some m' \<and>
        operand m' p = (var_value (x_state s) m ''x'' + 1) * var_value (x_state s) m ''x'')"
proof -
  obtain s where s: "expr_inv (x_state s)" "card (free_regs (cg (x_state s))) = 8"
    "\<not> is_type_name (x_state s) ''x''" "map_option ty (var_symbol (x_state s) ''x'') = Some INT_TY"
    using x_state_inv by blast
  have n: "need x_expr \<le> card (free_regs (cg (x_state s)))" using s(2) x_expr_facts(2) by simp
  have "\<exists>a st'. expr x_expr (x_state s) = Ok a st'"
    using expr_spec [OF s(1) x_expr_facts(1) n] x_expr_facts(3) [OF s(3,4)] by (auto simp: expr_done_def)
  then obtain a st' where r: "expr x_expr (x_state s) = Ok a st'" by blast
  have out: "yyout (cg (x_state s)) = []" by (simp add: x_state_def initial_state_def init_cgstate_def)
  let ?alu = "\<lambda>i v w. if i = ''add'' then Some (v + w) else if i = ''mul'' then Some (v * w) else None"
  have v: "eval_expr ?alu (\<lambda>c. 1) (var_value (x_state s) m) x_expr
      = Some ((var_value (x_state s) m ''x'' + 1) * var_value (x_state s) m ''x'')" for m
    by (simp add: x_expr_def operation_of_def)
  obtain e :: symtab_entry and ls where ls: "yyout (cg st') = ls"
    "\<forall>alu imm m v. eval_expr alu imm (var_value (x_state s) m) x_expr = Some v \<longrightarrow>
       (\<exists>m'. exec_lines alu imm ls m = Some m' \<and> cells m' = cells m \<and> operand m' (place e) = v \<and>
          (\<forall>r \<in> {8..15} - free_regs (cg (x_state s)). regs m' (reg_name (int r)) = regs m (reg_name (int r))))"
    using expr_code_correct [OF s(1) x_expr_facts(1) n r] unfolding out append_Nil by (elim conjE exE) (rule that)
  have "\<exists>m'. exec_lines ?alu (\<lambda>c. 1) ls m = Some m' \<and>
      operand m' (place e) = (var_value (x_state s) m ''x'' + 1) * var_value (x_state s) m ''x''" for m
    using ls(2) v by blast
  then show ?thesis using r ls(1) by blast
qed

section \<open>Assignments\<close>





section \<open>Arguments and registers that are lost\<close>

text \<open>
  The loop that counts the arguments, for a number of rounds: it has counted them, it has met a
  handle that is no symbol, or it is still counting. It counts exactly what \<open>count_chain\<close> counts.
\<close>

datatype chain_result = Counted int | No_symbol | Counting addr int

primrec chain_run :: "(addr \<rightharpoonup> symtab_entry) \<Rightarrow> nat \<Rightarrow> addr \<Rightarrow> int \<Rightarrow> chain_result" where
  "chain_run h 0 handle cnt = Counting handle cnt"
| "chain_run h (Suc n) handle cnt =
     (case h handle of
        None \<Rightarrow> No_symbol
      | Some s \<Rightarrow> (case snext s of None \<Rightarrow> Counted cnt | Some handle' \<Rightarrow> chain_run h n handle' (cnt + 1)))"

lemma chain_run_counted: "chain_run h n a c = Counted k \<Longrightarrow> count_chain h a c = Some k"
proof (induction n arbitrary: a c)
  case (Suc n)
  then show ?case by (subst count_chain.simps) (auto split: option.splits)
qed simp

lemma count_chain_run:
  assumes "count_chain h a c = Some k"
  shows "\<exists>n. chain_run h n a c = Counted k"
proof (rule count_chain.raw_induct [where P = "\<lambda>h a c k. \<exists>n. chain_run h n a c = Counted k", OF _ assms])
  fix f :: "(addr \<rightharpoonup> symtab_entry) \<Rightarrow> addr \<Rightarrow> int \<Rightarrow> int option" and h a c k
  assume IH: "\<And>h a c k. f h a c = Some k \<Longrightarrow> \<exists>n. chain_run h n a c = Counted k"
    and body: "(case h a of None \<Rightarrow> None
       | Some s \<Rightarrow> (case snext s of None \<Rightarrow> Some c | Some n \<Rightarrow> f h n (c + 1))) = Some k"
  then obtain s where s: "h a = Some s" by (auto split: option.splits)
  show "\<exists>n. chain_run h n a c = Counted k"
  proof (cases "snext s")
    case None
    then have "chain_run h 1 a c = Counted k" using body s by simp
    then show ?thesis ..
  next
    case (Some b)
    then have "f h b (c + 1) = Some k" using body s by simp
    from IH [OF this] obtain n where "chain_run h n b (c + 1) = Counted k" ..
    then have "chain_run h (Suc n) a c = Counted k" using s Some by simp
    then show ?thesis ..
  qed
qed

lemma chain_run_cyclic:
  "h a = Some s \<Longrightarrow> snext s = Some a \<Longrightarrow> chain_run h n a c = Counting a (c + int n)"
  by (induction n arbitrary: c) auto

lemma count_chain_cyclic: "h a = Some s \<Longrightarrow> snext s = Some a \<Longrightarrow> count_chain h a n = None"
  using count_chain_run [of h a n] chain_run_cyclic [of h a s] by (cases "count_chain h a n") fastforce+

text \<open>C22:
  A call of a declared function with the same variable as its only two arguments never returns: the
  second argument is the symbol of the first, the list of the arguments is linked through the symbols,
  so the parser hands on a symbol that is linked to itself; the lookups before the loop that counts the
  arguments succeed, and after any number of rounds this loop is still counting, at that symbol.
\<close>

theorem repeated_argument_diverges:
  assumes "param p st = Ok b st1" and "param p st1 = Ok b st2" and "syms (sy st2) b = Some s"
    and "syms (sy st2) a = Some f" and "a \<noteq> b" and "lookup_symtab (sy st2) (name f) 0 = Some (Some g)"
  shows "\<exists>st3 s3. call_param_list (P_cons p (P_cons p P_none)) st = Ok (Some b) st3 \<and>
    syms (sy st3) b = Some s3 \<and> snext s3 = Some b \<and>
    syms (sy st3) a = Some f \<and> lookup_symtab (sy st3) (name f) 0 = Some (Some g) \<and>
    (\<forall>n. chain_run (syms (sy st3)) n b 1 = Counting b (1 + int n)) \<and>
    call_action a (Some b) st3 = Undef"
proof -
  let ?sy = "(sy st2)\<lparr>syms := (syms (sy st2))(b \<mapsto> s\<lparr>snext := Some b\<rparr>)\<rparr>"
  have "call_param_list (P_cons p (P_cons p P_none)) st = Ok (Some b) (st2\<lparr>sy := ?sy\<rparr>)"
    using assms(1-3) by (simp add: andthen_def seq_def sym_upd_def with_sy_def ret_def)
  moreover have l: "lookup_symtab ?sy (name f) 0 = Some (Some g)" using assms(6) by (simp add: lookup_symtab_def)
  moreover have "count_chain (syms ?sy) b 1 = None" by (rule count_chain_cyclic) auto
  then have "call_action a (Some b) (st2\<lparr>sy := ?sy\<rparr>) = Undef"
    using assms(4,5) l
    by (simp add: call_action_def andthen_def seq_def sym_at_def defined_in_def ret_def)
  moreover have "chain_run (syms ?sy) n b 1 = Counting b (1 + int n)" for n
    by (rule chain_run_cyclic) auto
  ultimately show ?thesis using assms(4,5)
    by (intro exI [of _ "st2\<lparr>sy := ?sy\<rparr>"] exI [of _ "s\<lparr>snext := Some b\<rparr>"]) simp
qed

text \<open>A state with a variable \<open>x\<close>, a function \<open>f\<close>, and the symbol of the name in a call of \<open>f\<close>.\<close>

definition two_entries :: "addr htable" where
  "two_entries = snd (the (h_insert (one_entry ''0x'' 0) ''0f'' 1))"

lemma two_entries_get: "h_get two_entries k = Some (if k = ''0f'' then Some 1 else if k = ''0x'' then Some 0 else None)"
proof -
  obtain t where t: "h_insert (h_init ()) ''0x'' (0::addr) = Some (True, t)" "ht_inv t" "ht_map t = [''0x'' \<mapsto> 0]"
    using ht.insert_new [OF ht.inv_empty, of "''0x''" 0] by (auto simp: ht.lookup_empty)
  then have "one_entry ''0x'' (0::addr) = t" by (simp add: one_entry_def)
  moreover obtain t' where "h_insert t ''0f'' 1 = Some (True, t')" "ht_inv t'" "ht_map t' = (ht_map t)(''0f'' \<mapsto> 1)"
    using ht.insert_new [OF t(2), of "''0f''" 1] t(3) by auto
  ultimately show ?thesis using t(3) by (simp add: two_entries_def ht.get_lookup)
qed

definition call_state :: pstate where
  "call_state = initial_state\<lparr>sy := \<lparr>symtab = two_entries,
     syms = [0 \<mapsto> zero_symbol\<lparr>name := ''x'', ty := INT_TY\<rparr>, 1 \<mapsto> zero_symbol\<lparr>name := ''f'', kind := FUNCTION, n_param := 2\<rparr>,
             2 \<mapsto> zero_symbol\<lparr>name := ''f''\<rparr>], syms_brk = 3\<rparr>\<rparr>"

theorem repeated_argument_diverges_witness:
  "\<exists>st3. call_param_list (P_cons (P_lhs (L_id ''x'')) (P_cons (P_lhs (L_id ''x'')) P_none)) call_state = Ok (Some 0) st3 \<and>
     (\<forall>n. chain_run (syms (sy st3)) n 0 1 = Counting 0 (1 + int n)) \<and> call_action 2 (Some 0) st3 = Undef"
proof -
  have k: "gen_key ''x'' 0 = ''0x''" "gen_key ''f'' 0 = ''0f''" by code_simp+
  let ?st = "call_state\<lparr>yylval_s := Some 0\<rparr>"
  have p: "param (P_lhs (L_id ''x'')) st = Ok 0 ?st" if "st = call_state \<or> st = ?st" for st
    using that
    by (auto simp: run_defs lhs_id_action_def call_state_def initial_state_def two_entries_get empty_tables k)
  have "param (P_lhs (L_id ''x'')) call_state = Ok 0 ?st" "param (P_lhs (L_id ''x'')) ?st = Ok 0 ?st"
    using p by blast+
  moreover have "syms (sy ?st) 0 = Some (zero_symbol\<lparr>name := ''x'', ty := INT_TY\<rparr>)"
    "syms (sy ?st) 2 = Some (zero_symbol\<lparr>name := ''f''\<rparr>)"
    by (simp_all add: call_state_def)
  moreover have "lookup_symtab (sy ?st) (name (zero_symbol\<lparr>name := ''f''\<rparr>)) 0 = Some (Some 1)"
    by (simp add: call_state_def lookup_symtab_def two_entries_get k)
  ultimately show ?thesis
    using repeated_argument_diverges [of "P_lhs (L_id ''x'')" call_state 0 ?st ?st _ 2 _ 1] by fastforce
qed

text \<open>C23:
  The register of a constant loop condition is never given back: with a free register before, the
  loop \<open>while (c) {}\<close> leaves one register fewer, so eight such loops use up all of them.
\<close>

theorem while_loses_register:
  assumes inv: "expr_inv st" and c: "int_constant c" and free: "free_regs (cg st) \<noteq> {}" and r: "ready st"
    and run: "stmt (St_while (E_iconst c) (St_block B_none)) st = Ok u st'"
  shows "card (free_regs (cg st')) + 1 = card (free_regs (cg st))"
proof -
  obtain u1 st1 where 1: "while_head st = Ok u1 st1"
      and run1: "andthen (expr (E_iconst c)) (\<lambda>a. seq (while_test a) (seq (stmt (St_block B_none)) while_end)) st1 = Ok u st'"
    using run unfolding stmt.simps by (rule seq_OkE)
  have st1: "sy st1 = sy st" "ty_tab st1 = ty_tab st" "cur_scope st1 = cur_scope st"
    "free_regs (cg st1) = free_regs (cg st)" "pool_inv (cg st1) = pool_inv (cg st)"
    using 1 by (auto simp: while_head_def next_label_def push_label_def with_stack_def action_defs emit_def
        free_regs_def pool_inv_def split: option.splits)
  have inv1: "expr_inv st1" using inv st1 by (simp add: expr_inv_def)
  obtain a st2 where 2: "expr (E_iconst c) st1 = Ok a st2"
      and run2: "seq (while_test a) (seq (stmt (St_block B_none)) while_end) st2 = Ok u st'"
    using run1 by (rule andthen_OkE)
  obtain k where k: "k \<in> free_regs (cg st)" "free_regs (cg st2) = free_regs (cg st) - {k}"
    using iconst_run [OF inv1 c] free st1(4) 2 by auto
  have "free_regs (cg st') = free_regs (cg st2)"
    using run2 by (auto simp: while_test_def while_end_def open_block_def close_block_def stack_top_def pop_label_def
        with_stack_def action_defs emit_def free_regs_def split: option.splits prod.splits)
  then show ?thesis
    using k rp.finite_free [OF expr_invD(3) [OF inv]] card_Suc_Diff1 [of "free_regs (cg st)" k] by simp
qed

theorem while_loses_register_witness:
  "\<exists>st. stmt (St_while (E_iconst ''1'') (St_block B_none)) initial_state = Ok () st \<and> card (free_regs (cg st)) = 7"
proof -
  have "\<exists>st. stmt (St_while (E_iconst ''1'') (St_block B_none)) initial_state = Ok () st"
    by (simp add: run_defs initial_state_def init_cgstate_def s_init_def
        empty_tables small_numbers ID_SIZ_def STACK_SIZ_def Let_def Test_def Lexit_def Lelse_def)
  then obtain st where st: "stmt (St_while (E_iconst ''1'') (St_block B_none)) initial_state = Ok () st" by blast
  have "expr_inv initial_state"
    using init_type_inv [of "h_init ()"]
    by (auto simp: expr_inv_def initial_state_def sym_inv_def ht.inv_empty ht.lookup_empty init_cgstate_def
        pool_inv_def init_typetab_def)
  moreover have "int_constant ''1''" by (simp add: int_constant_def is_digit_def ID_SIZ_def)
  moreover have f: "free_regs (cg initial_state) = {8..15}"
    by (auto simp: initial_state_def init_cgstate_def free_regs_iff)
  ultimately show ?thesis
    using while_loses_register [of initial_state "''1''" "()" st] initial_ready(1) st by auto
qed

end
