(* ===== verification/GhtHash.thy ===== *)
theory GhtHash
  imports Prelude "HOL-Library.Word"
begin

unbundle bit_operations_syntax

text \<open>
  The keys and hash functions of the library libghthash (\<open>hash_functions.c\<close>), on 32-bit words: the
  one-at-a-time hash, a table-driven CRC, and a rotating hash. The table of the CRC is compared
  with the bit-serial division by the generator polynomial.
\<close>

section \<open>Keys\<close>

text \<open>A key is a number of bytes and a pointer to them.\<close>

type_synonym byte = "8 word"

record ght_hash_key =
  i_size :: nat
  p_key :: "byte list"

definition key_bytes :: "ght_hash_key \<Rightarrow> byte list" where
  "key_bytes k = take (i_size k) (p_key k)"

section \<open>The one-at-a-time hash\<close>

definition one_at_a_time_step :: "byte \<Rightarrow> 32 word \<Rightarrow> 32 word" where
  "one_at_a_time_step b i_hash =
     (let i_hash = i_hash + ucast b;
          i_hash = i_hash + push_bit 10 i_hash
      in i_hash XOR drop_bit 6 i_hash)"

definition ght_one_at_a_time_hash :: "ght_hash_key \<Rightarrow> 32 word" where
  "ght_one_at_a_time_hash k =
     (let i_hash = fold one_at_a_time_step (key_bytes k) 0;
          i_hash = i_hash + push_bit 3 i_hash;
          i_hash = i_hash XOR drop_bit 11 i_hash
      in i_hash + push_bit 15 i_hash)"

section \<open>The CRC\<close>

definition crc32_table :: "32 word list" where
  "crc32_table =
     [0x00000000, 0x04c11db7, 0x09823b6e, 0x0d4326d9, 0x130476dc, 0x17c56b6b, 0x1a864db2, 0x1e475005,
      0x2608edb8, 0x22c9f00f, 0x2f8ad6d6, 0x2b4bcb61, 0x350c9b64, 0x31cd86d3, 0x3c8ea00a, 0x384fbdbd,
      0x4c11db70, 0x48d0c6c7, 0x4593e01e, 0x4152fda9, 0x5f15adac, 0x5bd4b01b, 0x569796c2, 0x52568b75,
      0x6a1936c8, 0x6ed82b7f, 0x639b0da6, 0x675a1011, 0x791d4014, 0x7ddc5da3, 0x709f7b7a, 0x745e66cd,
      0x9823b6e0, 0x9ce2ab57, 0x91a18d8e, 0x95609039, 0x8b27c03c, 0x8fe6dd8b, 0x82a5fb52, 0x8664e6e5,
      0xbe2b5b58, 0xbaea46ef, 0xb7a96036, 0xb3687d81, 0xad2f2d84, 0xa9ee3033, 0xa4ad16ea, 0xa06c0b5d,
      0xd4326d90, 0xd0f37027, 0xddb056fe, 0xd9714b49, 0xc7361b4c, 0xc3f706fb, 0xceb42022, 0xca753d95,
      0xf23a8028, 0xf6fb9d9f, 0xfbb8bb46, 0xff79a6f1, 0xe13ef6f4, 0xe5ffeb43, 0xe8bccd9a, 0xec7dd02d,
      0x34867077, 0x30476dc0, 0x3d044b19, 0x39c556ae, 0x278206ab, 0x23431b1c, 0x2e003dc5, 0x2ac12072,
      0x128e9dcf, 0x164f8078, 0x1b0ca6a1, 0x1fcdbb16, 0x018aeb13, 0x054bf6a4, 0x0808d07d, 0x0cc9cdca,
      0x7897ab07, 0x7c56b6b0, 0x71159069, 0x75d48dde, 0x6b93dddb, 0x6f52c06c, 0x6211e6b5, 0x66d0fb02,
      0x5e9f46bf, 0x5a5e5b08, 0x571d7dd1, 0x53dc6066, 0x4d9b3063, 0x495a2dd4, 0x44190b0d, 0x40d816ba,
      0xaca5c697, 0xa864db20, 0xa527fdf9, 0xa1e6e04e, 0xbfa1b04b, 0xbb60adfc, 0xb6238b25, 0xb2e29692,
      0x8aad2b2f, 0x8e6c3698, 0x832f1041, 0x87ee0df6, 0x99a95df3, 0x9d684044, 0x902b669d, 0x94ea7b2a,
      0xe0b41de7, 0xe4750050, 0xe9362689, 0xedf73b3e, 0xf3b06b3b, 0xf771768c, 0xfa325055, 0xfef34de2,
      0xc6bcf05f, 0xc27dede8, 0xcf3ecb31, 0xcbffd686, 0xd5b88683, 0xd1799b34, 0xdc3abded, 0xd8fba05a,
      0x690ce0ee, 0x6dcdfd59, 0x608edb80, 0x644fc637, 0x7a089632, 0x7ec98b85, 0x738aad5c, 0x774bb0eb,
      0x4f040d56, 0x4bc510e1, 0x46863638, 0x42472b8f, 0x5c007b8a, 0x58c1663d, 0x558240e4, 0x51435d53,
      0x251d3b9e, 0x21dc2629, 0x2c9f00f0, 0x285e1d47, 0x36194d42, 0x32d850f5, 0x3f9b762c, 0x3b5a6b9b,
      0x0315d626, 0x07d4cb91, 0x0a97ed48, 0x0e56f0ff, 0x1011a0fa, 0x14d0bd4d, 0x19939b94, 0x1d528623,
      0xf12f560e, 0xf5ee4bb9, 0xf8ad6d60, 0xfc6c70d7, 0xe22b20d2, 0xe6ea3d65, 0xeba91bbc, 0xef68060b,
      0xd727bbb6, 0xd3e6a601, 0xdea580d8, 0xda649d6f, 0xc423cd6a, 0xc0e2d0dd, 0xcda1f604, 0xc960ebb3,
      0xbd3e8d7e, 0xb9ff90c9, 0xb4bcb610, 0xb07daba7, 0xae3afba2, 0xaafbe615, 0xa7b8c0cc, 0xa379dd7b,
      0x9b3660c6, 0x9ff77d71, 0x92b45ba8, 0x9675461f, 0x8832161a, 0x8cf30bad, 0x81b02d74, 0x857130c3,
      0x5d8a9099, 0x594b8d2e, 0x5408abf7, 0x50c9b640, 0x4e8ee645, 0x4a4ffbf2, 0x470cdd2b, 0x43cdc09c,
      0x7b827d21, 0x7f436096, 0x7200464f, 0x76c15bf8, 0x68860bfd, 0x6c47164a, 0x61043093, 0x65c52d24,
      0x119b4be9, 0x155a565e, 0x18197087, 0x1cd86d30, 0x029f3d35, 0x065e2082, 0x0b1d065b, 0x0fdc1bec,
      0x3793a651, 0x3352bbe6, 0x3e119d3f, 0x3ad08088, 0x2497d08d, 0x2056cd3a, 0x2d15ebe3, 0x29d4f654,
      0xc5a92679, 0xc1683bce, 0xcc2b1d17, 0xc8ea00a0, 0xd6ad50a5, 0xd26c4d12, 0xdf2f6bcb, 0xdbee767c,
      0xe3a1cbc1, 0xe760d676, 0xea23f0af, 0xeee2ed18, 0xf0a5bd1d, 0xf464a0aa, 0xf9278673, 0xfde69bc4,
      0x89b8fd09, 0x8d79e0be, 0x803ac667, 0x84fbdbd0, 0x9abc8bd5, 0x9e7d9662, 0x933eb0bb, 0x97ffad0c,
      0xafb010b1, 0xab710d06, 0xa6322bdf, 0xa2f33668, 0xbcb4666d, 0xb8757bda, 0xb5365d03, 0xb1f740b4]"

text \<open>One turn of the loop; the index is the top byte of \<open>crc\<close> xor the next byte of the key.\<close>

definition crc_step :: "byte \<Rightarrow> 32 word \<Rightarrow> 32 word" where
  "crc_step b crc = push_bit 8 crc XOR crc32_table ! unat (drop_bit 24 crc XOR ucast b)"

definition ght_crc_hash :: "ght_hash_key \<Rightarrow> 32 word" where
  "ght_crc_hash k = NOT (fold crc_step (key_bytes k) 0xffffffff)"

section \<open>The rotating hash\<close>

definition rotating_step :: "byte \<Rightarrow> 32 word \<Rightarrow> 32 word" where
  "rotating_step b i_hash = push_bit 4 i_hash XOR drop_bit 28 i_hash XOR ucast b"

definition ght_rotating_hash :: "ght_hash_key \<Rightarrow> 32 word" where
  "ght_rotating_hash k = fold rotating_step (key_bytes k) 0"

section \<open>The CRC bit by bit\<close>

text \<open>
  Polynomial division: the register is shifted by one bit, and when the bit that leaves it is set,
  the generator polynomial is subtracted. A byte is added to the top of the register.
\<close>

definition crc_bit :: "32 word \<Rightarrow> 32 word" where
  "crc_bit r = (if bit r 31 then push_bit 1 r XOR 0x04c11db7 else push_bit 1 r)"

definition crc_byte :: "byte \<Rightarrow> 32 word \<Rightarrow> 32 word" where
  "crc_byte b r = (crc_bit ^^ 8) (r XOR push_bit 24 (ucast b))"

lemma crc_bit_xor: "crc_bit (x XOR y) = crc_bit x XOR crc_bit y"
proof -
  have "push_bit 1 (x XOR y) = push_bit 1 x XOR push_bit 1 y" by (rule push_bit_xor)
  then show ?thesis by (cases "bit x 31"; cases "bit y 31") (simp_all add: crc_bit_def bit_xor_iff ac_simps)
qed

lemma crc_bits_xor: "(crc_bit ^^ n) (x XOR y) = (crc_bit ^^ n) x XOR (crc_bit ^^ n) y"
  by (induction n) (simp_all add: crc_bit_xor)

text \<open>While the top bits are clear, the division only shifts.\<close>

lemma bit_shift1: "bit (push_bit 1 (x :: 32 word)) i \<longleftrightarrow> 1 \<le> i \<and> i < 32 \<and> bit x (i - 1)"
  by (simp only: bit_push_bit_iff) auto

lemma crc_bits_shift: "\<forall>i. 32 - n \<le> i \<longrightarrow> \<not> bit x i \<Longrightarrow> n \<le> 32 \<Longrightarrow> (crc_bit ^^ n) x = push_bit n x"
proof (induction n arbitrary: x)
  case 0
  then show ?case by simp
next
  case (Suc n)
  have "crc_bit x = push_bit 1 x" using Suc.prems by (simp add: crc_bit_def)
  moreover have "\<forall>i. 32 - n \<le> i \<longrightarrow> \<not> bit (push_bit 1 x) i"
    unfolding bit_shift1 using Suc.prems by auto
  ultimately have "(crc_bit ^^ n) (crc_bit x) = push_bit n (push_bit 1 x)"
    using Suc.IH Suc.prems(2) by simp
  also have "\<dots> = push_bit (Suc n) x" by (simp only: push_bit_push_bit) simp
  finally show ?case by (simp add: funpow_swap1)
qed

text \<open>The table holds the result for each byte alone. It is enough to compare neighbours.\<close>

fun evens :: "'a list \<Rightarrow> 'a list" where
  "evens (x # y # zs) = x # evens zs"
| "evens _ = []"

fun odds :: "'a list \<Rightarrow> 'a list" where
  "odds (x # y # zs) = y # odds zs"
| "odds _ = []"

lemma evens_nth: "2 * m + 1 < length xs \<Longrightarrow> evens xs ! m = xs ! (2 * m)"
proof (induction xs arbitrary: m rule: evens.induct)
  case (1 x y zs)
  then show ?case by (cases m) auto
qed auto

lemma odds_nth: "2 * m + 1 < length xs \<Longrightarrow> odds xs ! m = xs ! (2 * m + 1)"
proof (induction xs arbitrary: m rule: odds.induct)
  case (1 x y zs)
  then show ?case by (cases m) auto
qed auto

lemma length_evens: "length (evens xs) = length xs div 2"
  by (induction xs rule: evens.induct) auto

lemma crc32_table_length: "length crc32_table = 256"
  and crc32_table_first: "crc32_table ! 0 = 0" "crc32_table ! 1 = 0x04c11db7"
  by (simp_all add: crc32_table_def)

lemma crc32_table_evens: "evens crc32_table = map crc_bit (take 128 crc32_table)"
  by (simp add: crc32_table_def crc_bit_def)

lemma crc32_table_odds: "odds crc32_table = map (\<lambda>x. x XOR 0x04c11db7) (evens crc32_table)"
  by (simp add: crc32_table_def)

definition crc_entry :: "nat \<Rightarrow> 32 word" where
  "crc_entry n = (crc_bit ^^ 8) (push_bit 24 (word_of_nat n))"

lemma crc_entry_1: "crc_entry 1 = 0x04c11db7"
proof -
  have "(crc_bit ^^ 8) x = crc_bit (crc_bit (crc_bit (crc_bit (crc_bit (crc_bit (crc_bit (crc_bit x)))))))" for x
    by (simp add: numeral_eq_Suc)
  then show ?thesis by (simp add: crc_entry_def crc_bit_def)
qed

lemma push_bit_double: "push_bit 24 (word_of_nat (2 * m)) = push_bit 1 (push_bit 24 (word_of_nat m :: 32 word))"
  by (simp add: push_bit_eq_mult)

lemma crc_entry_double:
  assumes "m < 128"
  shows "crc_entry (2 * m) = crc_bit (crc_entry m)"
proof -
  have "unat (word_of_nat m :: 32 word) = m" using assms by (simp add: unsigned_of_nat take_bit_nat_eq_self)
  then have "bit (word_of_nat m :: 32 word) 7 = bit m 7" by (metis bit_unsigned_iff possible_bit_nat)
  moreover have "\<not> bit m 7" using assms by (simp add: bit_iff_odd)
  ultimately have "\<not> bit (word_of_nat m :: 32 word) 7" by simp
  then have "\<not> bit (push_bit 24 (word_of_nat m :: 32 word)) 31" by (simp add: bit_push_bit_iff)
  then have "crc_bit (push_bit 24 (word_of_nat m)) = push_bit 24 (word_of_nat (2 * m))"
    unfolding push_bit_double by (simp add: crc_bit_def)
  then show ?thesis by (simp add: crc_entry_def funpow_swap1)
qed

lemma crc_entry_odd: "crc_entry (2 * m + 1) = crc_entry (2 * m) XOR crc_entry 1"
proof -
  have "(word_of_nat (2 * m + 1) :: 32 word) = word_of_nat (2 * m) XOR 1"
    by (simp add: xor_one_eq)
  then have "push_bit 24 (word_of_nat (2 * m + 1) :: 32 word) = push_bit 24 (word_of_nat (2 * m)) XOR push_bit 24 1"
    by (simp only: push_bit_xor)
  then show ?thesis by (simp only: crc_entry_def crc_bits_xor) simp
qed

lemma crc32_table_entry: "n < 256 \<Longrightarrow> crc32_table ! n = crc_entry n"
proof (induction n rule: less_induct)
  case (less n)
  let ?m = "n div 2"
  have m: "?m < 128" "2 * ?m + 1 < length crc32_table" 
    unfolding crc32_table_length using less.prems by presburger+
  have even: "crc32_table ! (2 * ?m) = crc_bit (crc32_table ! ?m)"
    using evens_nth [OF m(2)] m(1) by (simp add: crc32_table_evens crc32_table_length)
  have odd: "crc32_table ! (2 * ?m + 1) = crc32_table ! (2 * ?m) XOR 0x04c11db7"
    using odds_nth [OF m(2)] evens_nth [OF m(2)] m(1)
    by (simp add: crc32_table_odds length_evens crc32_table_length)
  have double: "crc32_table ! (2 * ?m) = crc_entry (2 * ?m)"
  proof (cases "?m = 0")
    case True
    have "(crc_bit ^^ k) 0 = 0" for k by (induction k) (simp_all add: crc_bit_def)
    then show ?thesis using True by (simp add: crc32_table_first crc_entry_def)
  next
    case False
    then have "crc32_table ! ?m = crc_entry ?m" using less m(1) by simp
    then show ?thesis using even crc_entry_double [OF m(1)] by simp
  qed
  show ?case
  proof (cases "even n")
    case True
    then show ?thesis using double by simp
  next
    case False
    then have "n = 2 * ?m + 1" by simp
    then show ?thesis using odd double crc_entry_odd [of ?m] crc_entry_1 by metis
  qed
qed

lemma crc_step_byte: "crc_step b r = crc_byte b r"
proof -
  let ?x = "drop_bit 24 r XOR ucast b :: 32 word"
  have "bit ?x i \<Longrightarrow> i < 8" for i
    by (auto simp: bit_xor_iff bit_drop_bit_eq bit_ucast_iff dest: bit_imp_le_length)
  then have "take_bit 8 ?x = ?x" by (intro bit_word_eqI) (unfold bit_take_bit_iff, blast)
  then have x: "unat ?x < 256" using unsigned_take_bit_eq [of 8 ?x, where 'a = nat] take_bit_nat_less_exp [of 8 "unat ?x"] by simp
  have split: "r XOR push_bit 24 (ucast b) = push_bit 24 ?x XOR take_bit 24 r"
    by (rule bit_word_eqI)
      (auto simp: bit_xor_iff bit_push_bit_iff bit_take_bit_iff bit_drop_bit_eq bit_ucast_iff)
  have "(crc_bit ^^ 8) (take_bit 24 r) = push_bit 8 (take_bit 24 r)"
    by (rule crc_bits_shift) (auto simp: bit_take_bit_iff)
  also have "\<dots> = push_bit 8 r"
    by (rule bit_word_eqI) (auto simp: bit_push_bit_iff bit_take_bit_iff)
  finally have low: "(crc_bit ^^ 8) (take_bit 24 r) = push_bit 8 r" .
  have "crc_entry (unat ?x) = (crc_bit ^^ 8) (push_bit 24 ?x)" by (simp add: crc_entry_def)
  then show ?thesis
    unfolding crc_byte_def crc_step_def split crc_bits_xor low
    using crc32_table_entry [OF x] by (simp add: ac_simps)
qed

text \<open>C28:
  The table-driven hash is the CRC of the key: the bit-serial division by the polynomial
  \<open>0x04c11db7\<close> of the key's bytes, most significant bit first, with the register preset to ones and
  complemented at the end.
\<close>

theorem ght_crc_hash_serial:
  "ght_crc_hash k = NOT (fold crc_byte (key_bytes k) 0xffffffff)"
proof -
  have "crc_step = crc_byte" using crc_step_byte by blast
  then show ?thesis by (simp add: ght_crc_hash_def)
qed

end
