(* ===== verification/GhtTable.thy ===== *)
theory GhtTable
  imports GhtHash "HOL-Library.Monad_Syntax"
begin

text \<open>
  The hash table of the library libghthash (\<open>hash_table.c\<close>, \<open>ght_hash_table.h\<close>): buckets that are
  doubly linked lists of entries, and a second doubly linked list through all entries, from the
  oldest to the newest. Entries are objects of a memory; \<open>None\<close> is undefined behaviour, a failed
  \<open>assert\<close>, or a loop that never ends. Counters are natural numbers below \<open>2 ^ 32\<close>. A key that is passed as a
  size and a pointer is the list of its bytes. The entries come from \<open>fn_alloc\<close>, which may
  refuse a request; \<open>malloc\<close> never fails, and the messages on \<open>stderr\<close> are left out.
\<close>

section \<open>Data\<close>

record ght_hash_entry =
  p_data :: ptr
  p_next :: ptr
  p_prev :: ptr
  p_older :: ptr
  p_newer :: ptr
  key :: ght_hash_key

record ght_iterator =
  it_entry :: ptr
  it_next :: ptr

text \<open>
  \<open>fn_alloc\<close> says whether a request of that many bytes is answered. \<open>fn_bucket_free\<close> is a function
  of the user; the model has whether it is set, and the memory has the arguments of its calls.
\<close>

record ght_hash_table =
  i_items :: nat
  i_size_t :: nat
  fn_hash :: "ght_hash_key \<Rightarrow> 32 word"
  fn_alloc :: "nat \<Rightarrow> bool"
  fn_bucket_free :: bool
  i_heuristics :: int
  i_automatic_rehash :: bool
  pp_entries :: "ptr list"
  p_nr :: "int list"
  i_size_mask :: "32 word"
  bucket_limit :: nat
  p_oldest :: ptr
  p_newest :: ptr

record ght_mem =
  entries :: "addr \<rightharpoonup> ght_hash_entry"
  brk :: addr
  bucket_freed :: "(ptr \<times> byte list) list"

definition GHT_HEURISTICS_NONE :: int where "GHT_HEURISTICS_NONE = 0"

definition GHT_HEURISTICS_TRANSPOSE :: int where "GHT_HEURISTICS_TRANSPOSE = 1"

definition GHT_HEURISTICS_MOVE_TO_FRONT :: int where "GHT_HEURISTICS_MOVE_TO_FRONT = 2"

section \<open>Memory and buckets\<close>

text \<open>An assignment to a field of an entry.\<close>

definition set_field :: "addr \<Rightarrow> (ght_hash_entry \<Rightarrow> ght_hash_entry) \<Rightarrow> ght_mem \<Rightarrow> ght_mem option" where
  "set_field a f m =
     (case entries m a of None \<Rightarrow> None | Some e \<Rightarrow> Some (m\<lparr>entries := (entries m)(a \<mapsto> f e)\<rparr>))"

text \<open>The same through a pointer that is tested first.\<close>

definition set_field_if :: "ptr \<Rightarrow> (ght_hash_entry \<Rightarrow> ght_hash_entry) \<Rightarrow> ght_mem \<Rightarrow> ght_mem option" where
  "set_field_if p f m = (case p of None \<Rightarrow> Some m | Some a \<Rightarrow> set_field a f m)"

definition bucket_head :: "ght_hash_table \<Rightarrow> nat \<Rightarrow> ptr option" where
  "bucket_head t l = (if l < length (pp_entries t) then Some (pp_entries t ! l) else None)"

definition set_bucket_head :: "ght_hash_table \<Rightarrow> nat \<Rightarrow> ptr \<Rightarrow> ght_hash_table option" where
  "set_bucket_head t l p =
     (if l < length (pp_entries t) then Some (t\<lparr>pp_entries := (pp_entries t)[l := p]\<rparr>) else None)"

definition count_at :: "ght_hash_table \<Rightarrow> nat \<Rightarrow> int option" where
  "count_at t l = (if l < length (p_nr t) then Some (p_nr t ! l) else None)"

definition add_count :: "ght_hash_table \<Rightarrow> nat \<Rightarrow> int \<Rightarrow> ght_hash_table option" where
  "add_count t l d =
     (if l < length (p_nr t) then Some (t\<lparr>p_nr := (p_nr t)[l := p_nr t ! l + d]\<rparr>) else None)"

text \<open>\<open>get_hash_value(p_ht, &key) & p_ht->i_size_mask\<close>.\<close>

definition l_key :: "ght_hash_table \<Rightarrow> ght_hash_key \<Rightarrow> nat" where
  "l_key t k = unat (fn_hash t k AND i_size_mask t)"

section \<open>Private functions\<close>

definition transpose_entry :: "ght_hash_table \<Rightarrow> ght_mem \<Rightarrow> nat \<Rightarrow> addr \<Rightarrow> (ght_hash_table \<times> ght_mem) option" where
  "transpose_entry t m l a =
     do {
       e \<leftarrow> entries m a;
       (case p_prev e of
          None \<Rightarrow> Some (t, m)
        | Some x \<Rightarrow>
            do {
              ex \<leftarrow> entries m x;
              (t, m) \<leftarrow> (case p_prev ex of
                  Some pa \<Rightarrow> do { m \<leftarrow> set_field pa (p_next_update (\<lambda>_. Some a)) m; Some (t, m) }
                | None \<Rightarrow> do { t \<leftarrow> set_bucket_head t l (Some a); Some (t, m) });
              m \<leftarrow> set_field_if (p_next e) (p_prev_update (\<lambda>_. Some x)) m;
              m \<leftarrow> set_field x (p_next_update (\<lambda>_. p_next e)) m;
              m \<leftarrow> set_field x (p_prev_update (\<lambda>_. Some a)) m;
              m \<leftarrow> set_field a (p_next_update (\<lambda>_. Some x)) m;
              m \<leftarrow> set_field a (p_prev_update (\<lambda>_. p_prev ex)) m;
              Some (t, m)
            })
     }"

definition move_to_front :: "ght_hash_table \<Rightarrow> ght_mem \<Rightarrow> nat \<Rightarrow> addr \<Rightarrow> (ght_hash_table \<times> ght_mem) option" where
  "move_to_front t m l a =
     do {
       h \<leftarrow> bucket_head t l;
       (if h = Some a then Some (t, m)
        else do {
          e \<leftarrow> entries m a;
          y \<leftarrow> p_prev e;
          m \<leftarrow> set_field y (p_next_update (\<lambda>_. p_next e)) m;
          m \<leftarrow> set_field_if (p_next e) (p_prev_update (\<lambda>_. p_prev e)) m;
          m \<leftarrow> set_field a (p_next_update (\<lambda>_. h)) m;
          m \<leftarrow> set_field a (p_prev_update (\<lambda>_. None)) m;
          z \<leftarrow> h;
          m \<leftarrow> set_field z (p_prev_update (\<lambda>_. Some a)) m;
          t \<leftarrow> set_bucket_head t l (Some a);
          Some (t, m)
        })
     }"

definition remove_from_chain :: "ght_hash_table \<Rightarrow> ght_mem \<Rightarrow> nat \<Rightarrow> addr \<Rightarrow> (ght_hash_table \<times> ght_mem) option" where
  "remove_from_chain t m l a =
     do {
       e \<leftarrow> entries m a;
       (t, m) \<leftarrow> (case p_prev e of
           Some y \<Rightarrow> do { m \<leftarrow> set_field y (p_next_update (\<lambda>_. p_next e)) m; Some (t, m) }
         | None \<Rightarrow> do { t \<leftarrow> set_bucket_head t l (p_next e); Some (t, m) });
       m \<leftarrow> set_field_if (p_next e) (p_prev_update (\<lambda>_. p_prev e)) m;
       (t, m) \<leftarrow> (case p_older e of
           Some y \<Rightarrow> do { m \<leftarrow> set_field y (p_newer_update (\<lambda>_. p_newer e)) m; Some (t, m) }
         | None \<Rightarrow> Some (t\<lparr>p_oldest := p_newer e\<rparr>, m));
       (case p_newer e of
           Some z \<Rightarrow> do { m \<leftarrow> set_field z (p_older_update (\<lambda>_. p_older e)) m; Some (t, m) }
         | None \<Rightarrow> Some (t\<lparr>p_newest := p_older e\<rparr>, m))
     }"

text \<open>The comparison of sizes and the \<open>memcmp\<close>.\<close>

definition same_key :: "ght_hash_key \<Rightarrow> ght_hash_key \<Rightarrow> bool" where
  "same_key k k' \<longleftrightarrow> i_size k = i_size k' \<and> take (i_size k) (p_key k) = take (i_size k) (p_key k')"

partial_function (option) search_loop :: "(addr \<rightharpoonup> ght_hash_entry) \<Rightarrow> ptr \<Rightarrow> ght_hash_key \<Rightarrow> ptr option" where
  "search_loop h p k =
     (case p of
        None \<Rightarrow> Some None
      | Some a \<Rightarrow>
         (case h a of
            None \<Rightarrow> None
          | Some e \<Rightarrow> if same_key (key e) k then Some (Some a) else search_loop h (p_next e) k))"

declare search_loop.simps [code]

text \<open>The parameter \<open>i_heuristics\<close> is an \<open>unsigned char\<close>.\<close>

definition search_in_bucket ::
  "ght_hash_table \<Rightarrow> ght_mem \<Rightarrow> nat \<Rightarrow> ght_hash_key \<Rightarrow> int \<Rightarrow> (ptr \<times> ght_hash_table \<times> ght_mem) option" where
  "search_in_bucket t m l k heuristics =
     do {
       h \<leftarrow> bucket_head t l;
       r \<leftarrow> search_loop (entries m) h k;
       (case r of
          None \<Rightarrow> Some (None, t, m)
        | Some a \<Rightarrow>
           (if heuristics mod 2 ^ 8 = GHT_HEURISTICS_MOVE_TO_FRONT
            then do { (t, m) \<leftarrow> move_to_front t m l a; Some (Some a, t, m) }
            else if heuristics mod 2 ^ 8 = GHT_HEURISTICS_TRANSPOSE
            then do { (t, m) \<leftarrow> transpose_entry t m l a; Some (Some a, t, m) }
            else Some (Some a, t, m)))
     }"

text \<open>\<open>hk_fill\<close>, for the bytes of the key.\<close>

definition hk_fill :: "byte list \<Rightarrow> ght_hash_key" where
  "hk_fill bs = \<lparr>i_size = length bs, p_key = bs\<rparr>"

text \<open>\<open>sizeof(ght_hash_entry_t)\<close> with pointers of eight bytes.\<close>

definition ENTRY_SIZE :: nat where "ENTRY_SIZE = 56"

definition he_create :: "ght_hash_table \<Rightarrow> ght_mem \<Rightarrow> ptr \<Rightarrow> byte list \<Rightarrow> ptr \<times> ght_mem" where
  "he_create t m d bs =
     (if fn_alloc t (ENTRY_SIZE + length bs)
      then (Some (brk m),
            m\<lparr>entries := (entries m)(brk m \<mapsto> \<lparr>p_data = d, p_next = None, p_prev = None, p_older = None,
                p_newer = None, key = hk_fill bs\<rparr>), brk := Suc (brk m)\<rparr>)
      else (None, m))"

definition he_finalize :: "ght_mem \<Rightarrow> addr \<Rightarrow> ght_mem option" where
  "he_finalize m a = (if entries m a = None then None else Some (m\<lparr>entries := free_at a (entries m)\<rparr>))"

partial_function (option) free_entry_chain :: "ght_mem \<Rightarrow> ptr \<Rightarrow> ght_mem option" where
  "free_entry_chain m p =
     (case p of
        None \<Rightarrow> Some m
      | Some a \<Rightarrow>
         (case entries m a of
            None \<Rightarrow> None
          | Some e \<Rightarrow> do { m' \<leftarrow> he_finalize m a; free_entry_chain m' (p_next e) }))"

declare free_entry_chain.simps [code]

section \<open>Creating and configuring\<close>

text \<open>
  The loop \<open>while (p_ht->i_size < i_size) p_ht->i_size = 1 << i++\<close>; a shift of an \<open>int\<close> by 31 is
  undefined.
\<close>

function create_loop :: "nat \<Rightarrow> nat \<Rightarrow> nat \<Rightarrow> (nat \<times> nat) option" where
  "create_loop n sz i =
     (if sz < n then (if i < 31 then create_loop n (2 ^ i) (i + 1) else None) else Some (sz, i))"
  by pat_completeness auto
termination
  by (relation "measure (\<lambda>(n, sz, i). 31 - i)") auto

declare create_loop.simps [simp del]

definition ght_create :: "nat \<Rightarrow> ght_hash_table option" where
  "ght_create n =
     do {
       (sz, i) \<leftarrow> create_loop n 1 1;
       Some \<lparr>i_items = 0, i_size_t = sz, fn_hash = ght_one_at_a_time_hash, fn_alloc = (\<lambda>_. True),
             fn_bucket_free = False, i_heuristics = GHT_HEURISTICS_NONE, i_automatic_rehash = False,
             pp_entries = replicate sz None, p_nr = replicate sz 0,
             i_size_mask = word_of_nat (2 ^ (i - 1) - 1), bucket_limit = 0,
             p_oldest = None, p_newest = None\<rparr>
     }"

definition ght_set_alloc :: "ght_hash_table \<Rightarrow> (nat \<Rightarrow> bool) \<Rightarrow> ght_hash_table" where
  "ght_set_alloc t f = t\<lparr>fn_alloc := f\<rparr>"

definition ght_set_hash :: "ght_hash_table \<Rightarrow> (ght_hash_key \<Rightarrow> 32 word) \<Rightarrow> ght_hash_table" where
  "ght_set_hash t f = t\<lparr>fn_hash := f\<rparr>"

definition ght_set_heuristics :: "ght_hash_table \<Rightarrow> int \<Rightarrow> ght_hash_table" where
  "ght_set_heuristics t h = t\<lparr>i_heuristics := h\<rparr>"

definition ght_set_rehash :: "ght_hash_table \<Rightarrow> bool \<Rightarrow> ght_hash_table" where
  "ght_set_rehash t b = t\<lparr>i_automatic_rehash := b\<rparr>"

definition ght_set_bounded_buckets :: "ght_hash_table \<Rightarrow> nat \<Rightarrow> bool \<Rightarrow> ght_hash_table" where
  "ght_set_bounded_buckets t limit fn = t\<lparr>bucket_limit := limit, fn_bucket_free := fn\<rparr>"

definition ght_size :: "ght_hash_table \<Rightarrow> nat" where
  "ght_size t = i_items t"

definition ght_table_size :: "ght_hash_table \<Rightarrow> nat" where
  "ght_table_size t = i_size_t t"

section \<open>Inserting\<close>

text \<open>The loop to the last entry of a bucket.\<close>

partial_function (option) last_entry :: "(addr \<rightharpoonup> ght_hash_entry) \<Rightarrow> addr \<Rightarrow> addr option" where
  "last_entry h a =
     (case h a of
        None \<Rightarrow> None
      | Some e \<Rightarrow> (case p_next e of None \<Rightarrow> Some a | Some b \<Rightarrow> last_entry h b))"

declare last_entry.simps [code]

text \<open>The assertion that the first entry of a bucket has no predecessor.\<close>

definition head_is_first :: "ght_hash_table \<Rightarrow> ght_mem \<Rightarrow> nat \<Rightarrow> bool option" where
  "head_is_first t m l =
     do {
       h \<leftarrow> bucket_head t l;
       (case h of None \<Rightarrow> Some True | Some a \<Rightarrow> do { e \<leftarrow> entries m a; Some (p_prev e = None) })
     }"

definition check_head :: "ght_hash_table \<Rightarrow> ght_mem \<Rightarrow> nat \<Rightarrow> unit option" where
  "check_head t m l = do { ok \<leftarrow> head_is_first t m l; (if ok then Some () else None) }"

text \<open>The new entry becomes the first of its bucket.\<close>

definition push_entry :: "ght_hash_table \<Rightarrow> ght_mem \<Rightarrow> nat \<Rightarrow> addr \<Rightarrow> (ght_hash_table \<times> ght_mem) option" where
  "push_entry t m l a =
     do {
       h \<leftarrow> bucket_head t l;
       m \<leftarrow> set_field a (p_next_update (\<lambda>_. h)) m;
       m \<leftarrow> set_field a (p_prev_update (\<lambda>_. None)) m;
       m \<leftarrow> set_field_if h (p_prev_update (\<lambda>_. Some a)) m;
       t \<leftarrow> set_bucket_head t l (Some a);
       Some (t, m)
     }"

text \<open>A full bucket loses its last entry, which goes to the callback; otherwise the counters grow.\<close>

definition bound_bucket :: "ght_hash_table \<Rightarrow> ght_mem \<Rightarrow> nat \<Rightarrow> (ght_hash_table \<times> ght_mem) option" where
  "bound_bucket t m l =
     do {
       n \<leftarrow> count_at t l;
       (if bucket_limit t \<noteq> 0 \<and> int (bucket_limit t) \<le> n mod 2 ^ 32
        then do {
          h \<leftarrow> bucket_head t l;
          a \<leftarrow> h;
          p \<leftarrow> last_entry (entries m) a;
          (t, m) \<leftarrow> remove_from_chain t m l p;
          e \<leftarrow> entries m p;
          (if fn_bucket_free t then Some () else None);
          m \<leftarrow> he_finalize (m\<lparr>bucket_freed := bucket_freed m @ [(p_data e, p_key (key e))]\<rparr>) p;
          Some (t, m)
        }
        else do {
          t \<leftarrow> add_count t l 1;
          check_head t m l;
          Some (t\<lparr>i_items := i_items t + 1\<rparr>, m)
        })
     }"

text \<open>The new entry becomes the newest.\<close>

definition append_age :: "ght_hash_table \<Rightarrow> ght_mem \<Rightarrow> addr \<Rightarrow> (ght_hash_table \<times> ght_mem) option" where
  "append_age t m a =
     do {
       let t = (if p_oldest t = None then t\<lparr>p_oldest := Some a\<rparr> else t);
       m \<leftarrow> set_field a (p_older_update (\<lambda>_. p_newest t)) m;
       m \<leftarrow> set_field_if (p_newest t) (p_newer_update (\<lambda>_. Some a)) m;
       Some (t\<lparr>p_newest := Some a\<rparr>, m)
     }"

text \<open>
  \<open>ght_insert\<close> and \<open>ght_rehash\<close> call each other, but the table that \<open>ght_rehash\<close> fills has
  automatic rehashing switched off, so the calls do not nest deeper. The body of \<open>ght_insert\<close>
  therefore has the function it calls for rehashing as an argument.
\<close>

definition insert_body ::
  "(ght_hash_table \<Rightarrow> ght_mem \<Rightarrow> nat \<Rightarrow> (ght_hash_table \<times> ght_mem) option)
    \<Rightarrow> ght_hash_table \<Rightarrow> ght_mem \<Rightarrow> ptr \<Rightarrow> byte list \<Rightarrow> (int \<times> ght_hash_table \<times> ght_mem) option" where
  "insert_body rehash t m d bs =
     do {
       (found, t, m) \<leftarrow> search_in_bucket t m (l_key t (hk_fill bs)) (hk_fill bs) 0;
       (if found \<noteq> None then Some (- 1, t, m)
        else
          case he_create t m d bs of
            (None, m) \<Rightarrow> Some (- 2, t, m)
          | (Some a, m) \<Rightarrow>
              do {
                (t, m) \<leftarrow> (if i_automatic_rehash t \<and> 2 * i_size_t t < i_items t
                           then rehash t m (2 * i_size_t t) else Some (t, m));
                let l = l_key t (hk_fill bs);
                (t, m) \<leftarrow> push_entry t m l a;
                (t, m) \<leftarrow> bound_bucket t m l;
                (t, m) \<leftarrow> append_age t m a;
                Some (0, t, m)
              })
     }"

section \<open>Iterating\<close>

text \<open>The result is the data, the key, and the iterator.\<close>

definition first_keysize ::
  "ght_hash_table \<Rightarrow> ght_mem \<Rightarrow> (ptr \<times> ght_hash_key option \<times> ght_iterator) option" where
  "first_keysize t m =
     (case p_oldest t of
        Some a \<Rightarrow> do { e \<leftarrow> entries m a; Some (p_data e, Some (key e), \<lparr>it_entry = Some a, it_next = p_newer e\<rparr>) }
      | None \<Rightarrow> Some (None, None, \<lparr>it_entry = None, it_next = None\<rparr>))"

definition next_keysize :: "ght_mem \<Rightarrow> ght_iterator \<Rightarrow> (ptr \<times> ght_hash_key option \<times> ght_iterator) option" where
  "next_keysize m it =
     (case it_next it of
        Some a \<Rightarrow> do { e \<leftarrow> entries m a; Some (p_data e, Some (key e), \<lparr>it_entry = Some a, it_next = p_newer e\<rparr>) }
      | None \<Rightarrow> Some (None, None, \<lparr>it_entry = None, it_next = None\<rparr>))"

definition ght_first :: "ght_hash_table \<Rightarrow> ght_mem \<Rightarrow> (ptr \<times> byte list option \<times> ght_iterator) option" where
  "ght_first t m = do { (d, k, it) \<leftarrow> first_keysize t m; Some (d, map_option p_key k, it) }"

definition ght_first_keysize ::
  "ght_hash_table \<Rightarrow> ght_mem \<Rightarrow> (ptr \<times> ght_hash_key option \<times> ght_iterator) option" where
  "ght_first_keysize t m = first_keysize t m"

definition ght_next :: "ght_mem \<Rightarrow> ght_iterator \<Rightarrow> (ptr \<times> byte list option \<times> ght_iterator) option" where
  "ght_next m it = do { (d, k, it) \<leftarrow> next_keysize m it; Some (d, map_option p_key k, it) }"

definition ght_next_keysize :: "ght_mem \<Rightarrow> ght_iterator \<Rightarrow> (ptr \<times> ght_hash_key option \<times> ght_iterator) option" where
  "ght_next_keysize m it = next_keysize m it"

section \<open>Rehashing\<close>

text \<open>The loop over the old table, which ends at the first entry without data.\<close>

partial_function (option) rehash_loop ::
  "ght_hash_table \<Rightarrow> ght_mem \<Rightarrow> ptr \<Rightarrow> ght_iterator \<Rightarrow> (ght_hash_table \<times> ght_mem) option" where
  "rehash_loop tmp m p it =
     (case p of
        None \<Rightarrow> Some (tmp, m)
      | Some d \<Rightarrow>
         (case it_entry it of
            None \<Rightarrow> None
          | Some a \<Rightarrow>
             (case entries m a of
                None \<Rightarrow> None
              | Some e \<Rightarrow>
                 do {
                   (r, tmp', m') \<leftarrow> insert_body (\<lambda>_ _ _. None) tmp m (p_data e) (p_key (key e));
                   (p', k', it') \<leftarrow> ght_next m' it;
                   rehash_loop tmp' m' p' it'
                 })))"

declare rehash_loop.simps [code]

primrec free_buckets :: "ptr list \<Rightarrow> ght_mem \<Rightarrow> ght_mem option" where
  "free_buckets [] m = Some m"
| "free_buckets (p # ps) m = do { m' \<leftarrow> free_entry_chain m p; free_buckets ps m' }"

definition ght_rehash :: "ght_hash_table \<Rightarrow> ght_mem \<Rightarrow> nat \<Rightarrow> (ght_hash_table \<times> ght_mem) option" where
  "ght_rehash t m n =
     do {
       tmp \<leftarrow> ght_create n;
       let tmp = ght_set_rehash (ght_set_heuristics (ght_set_alloc (ght_set_hash tmp (fn_hash t)) (fn_alloc t))
                   GHT_HEURISTICS_NONE) False;
       (p, k, it) \<leftarrow> ght_first t m;
       (tmp, m) \<leftarrow> rehash_loop tmp m p it;
       m \<leftarrow> free_buckets (pp_entries t) m;
       Some (t\<lparr>i_size_t := i_size_t tmp, i_size_mask := i_size_mask tmp, i_items := i_items tmp,
              pp_entries := pp_entries tmp, p_nr := p_nr tmp, p_oldest := p_oldest tmp,
              p_newest := p_newest tmp\<rparr>, m)
     }"

definition ght_insert ::
  "ght_hash_table \<Rightarrow> ght_mem \<Rightarrow> ptr \<Rightarrow> byte list \<Rightarrow> (int \<times> ght_hash_table \<times> ght_mem) option" where
  "ght_insert = insert_body ght_rehash"

section \<open>Looking up, replacing, removing\<close>

definition ght_get :: "ght_hash_table \<Rightarrow> ght_mem \<Rightarrow> byte list \<Rightarrow> (ptr \<times> ght_hash_table \<times> ght_mem) option" where
  "ght_get t m bs =
     do {
       let l = l_key t (hk_fill bs);
       check_head t m l;
       (found, t, m) \<leftarrow> search_in_bucket t m l (hk_fill bs) (i_heuristics t);
       (case found of
          None \<Rightarrow> Some (None, t, m)
        | Some a \<Rightarrow> do { e \<leftarrow> entries m a; Some (p_data e, t, m) })
     }"

definition ght_replace ::
  "ght_hash_table \<Rightarrow> ght_mem \<Rightarrow> ptr \<Rightarrow> byte list \<Rightarrow> (ptr \<times> ght_hash_table \<times> ght_mem) option" where
  "ght_replace t m d bs =
     do {
       let l = l_key t (hk_fill bs);
       check_head t m l;
       (found, t, m) \<leftarrow> search_in_bucket t m l (hk_fill bs) (i_heuristics t);
       (case found of
          None \<Rightarrow> Some (None, t, m)
        | Some a \<Rightarrow>
            do {
              e \<leftarrow> entries m a;
              m \<leftarrow> set_field a (p_data_update (\<lambda>_. d)) m;
              Some (p_data e, t, m)
            })
     }"

definition ght_remove :: "ght_hash_table \<Rightarrow> ght_mem \<Rightarrow> byte list \<Rightarrow> (ptr \<times> ght_hash_table \<times> ght_mem) option" where
  "ght_remove t m bs =
     do {
       let l = l_key t (hk_fill bs);
       check_head t m l;
       (found, t, m) \<leftarrow> search_in_bucket t m l (hk_fill bs) 0;
       (case found of
          None \<Rightarrow> Some (None, t, m)
        | Some a \<Rightarrow>
            do {
              (t, m) \<leftarrow> remove_from_chain t m l a;
              t \<leftarrow> add_count (t\<lparr>i_items := i_items t - 1\<rparr>) l (- 1);
              e \<leftarrow> entries m a;
              m \<leftarrow> he_finalize m a;
              Some (p_data e, t, m)
            })
     }"

text \<open>\<open>ght_finalize\<close> frees every entry and the table; only memory is left.\<close>

definition ght_finalize :: "ght_hash_table \<Rightarrow> ght_mem \<Rightarrow> ght_mem option" where
  "ght_finalize t m = free_buckets (pp_entries t) m"

end
