(* ===== verification/DoublyLinked.thy ===== *)
theory DoublyLinked
  imports Prelude
begin

text \<open>
  Doubly linked lists in memory. The two link fields are given as functions from addresses, which are
  undefined where no object is; \<open>dseg nx pv q p xs l r\<close> says that from \<open>p\<close> the links run through the
  addresses \<open>xs\<close> up to \<open>r\<close>, that the link before the first is \<open>q\<close> and that the last one is \<open>l\<close>
  (\<open>q\<close> when there is none). The lemmas say how the list changes with the assignments that unlink an
  object, put one in front or behind, or exchange two neighbours.
\<close>

type_synonym link = "addr \<Rightarrow> ptr option"

fun dseg :: "link \<Rightarrow> link \<Rightarrow> ptr \<Rightarrow> ptr \<Rightarrow> addr list \<Rightarrow> ptr \<Rightarrow> ptr \<Rightarrow> bool" where
  "dseg nx pv q p [] l r \<longleftrightarrow> p = r \<and> l = q"
| "dseg nx pv q p (a # as) l r \<longleftrightarrow>
     p = Some a \<and> pv a = Some q \<and> (\<exists>p'. nx a = Some p' \<and> dseg nx pv (Some a) p' as l r)"

lemma dseg_append:
  "dseg nx pv q p (xs @ ys) l r \<longleftrightarrow> (\<exists>m n. dseg nx pv q p xs m n \<and> dseg nx pv m n ys l r)"
  by (induction xs arbitrary: q p) auto

lemma dseg_snoc:
  "dseg nx pv q p (xs @ [x]) l r \<longleftrightarrow> l = Some x \<and> nx x = Some r \<and> (\<exists>m. pv x = Some m \<and> dseg nx pv q p xs m (Some x))"
  by (auto simp: dseg_append)

lemma dseg_frame [simp]:
  "a \<notin> set xs \<Longrightarrow> dseg (nx(a := v)) pv q p xs l r = dseg nx pv q p xs l r"
  "a \<notin> set xs \<Longrightarrow> dseg nx (pv(a := v)) q p xs l r = dseg nx pv q p xs l r"
  by (induction xs arbitrary: q p) auto

lemma dseg_live: "dseg nx pv q p xs l r \<Longrightarrow> x \<in> set xs \<Longrightarrow> nx x \<noteq> None \<and> pv x \<noteq> None"
  by (induction xs arbitrary: q p) auto

lemma dseg_cong:
  assumes "\<And>a. a \<in> set xs \<Longrightarrow> nx' a = nx a" and "\<And>a. a \<in> set xs \<Longrightarrow> pv' a = pv a"
  shows "dseg nx' pv' q p xs l r = dseg nx pv q p xs l r"
  using assms by (induction xs arbitrary: q p) auto

text \<open>A whole list: nothing before the first object and nothing behind the last.\<close>

abbreviation dlist :: "link \<Rightarrow> link \<Rightarrow> ptr \<Rightarrow> addr list \<Rightarrow> ptr \<Rightarrow> bool" where
  "dlist nx pv p xs l \<equiv> dseg nx pv None p xs l None"

lemma dlist_first: "dlist nx pv p xs l \<Longrightarrow> p = (case xs of [] \<Rightarrow> None | a # _ \<Rightarrow> Some a)"
  by (cases xs) auto

lemma dlist_last: "dlist nx pv p xs l \<Longrightarrow> l = (if xs = [] then None else Some (last xs))"
  by (induction xs rule: rev_induct) (auto simp: dseg_snoc)

text \<open>The assignment of a link through a pointer that may be null.\<close>

definition relink :: "ptr \<Rightarrow> ptr \<Rightarrow> link \<Rightarrow> link" where
  "relink p v f = (case p of None \<Rightarrow> f | Some a \<Rightarrow> f(a \<mapsto> v))"

lemma relink_simps [simp]: "relink None v f = f" "relink (Some a) v f = f(a \<mapsto> v)"
  by (simp_all add: relink_def)

text \<open>The segments before and behind an object of a list.\<close>

lemma dlist_at:
  assumes "dlist nx pv p (ys @ a # zs) l"
  shows "pv a \<noteq> None" and "nx a \<noteq> None"
    and "pv a = Some q \<Longrightarrow> dseg nx pv None p ys q (Some a)"
    and "nx a = Some r \<Longrightarrow> dseg nx pv (Some a) r zs l None"
    and "pv a = Some q \<Longrightarrow> q = (if ys = [] then None else Some (last ys))"
    and "nx a = Some r \<Longrightarrow> r = (case zs of [] \<Rightarrow> None | z # _ \<Rightarrow> Some z)"
proof -
  obtain m n where d: "pv a = Some m" "nx a = Some n" "dseg nx pv None p ys m (Some a)" "dseg nx pv (Some a) n zs l None"
    using assms by (auto simp: dseg_append)
  moreover from d(3) have "m = (if ys = [] then None else Some (last ys))"
    by (cases ys rule: rev_cases) (simp_all add: dseg_snoc)
  moreover from d(4) have "n = (case zs of [] \<Rightarrow> None | z # _ \<Rightarrow> Some z)" by (cases zs) simp_all
  ultimately show "pv a \<noteq> None" "nx a \<noteq> None"
    "pv a = Some q \<Longrightarrow> dseg nx pv None p ys q (Some a)"
    "nx a = Some r \<Longrightarrow> dseg nx pv (Some a) r zs l None"
    "pv a = Some q \<Longrightarrow> q = (if ys = [] then None else Some (last ys))"
    "nx a = Some r \<Longrightarrow> r = (case zs of [] \<Rightarrow> None | z # _ \<Rightarrow> Some z)"
    by simp_all
qed

text \<open>Changing what follows a segment, and what precedes it.\<close>

lemma dseg_end:
  assumes "dseg nx pv q p ys l r" and "distinct ys"
  shows "dseg (if ys = [] then nx else relink l r' nx) pv q (if ys = [] then r' else p) ys l r'"
proof (cases ys rule: rev_cases)
  case (snoc xs x)
  then show ?thesis using assms by (auto simp: dseg_snoc)
qed (use assms in simp)

lemma dseg_start:
  assumes "dseg nx pv q p ys l r" and "distinct ys"
  shows "dseg nx (if ys = [] then pv else relink p q' pv) q' p ys (if ys = [] then q' else l) r"
  using assms by (cases ys) auto

text \<open>Unlinking an object.\<close>

lemma dlist_remove:
  assumes d: "dlist nx pv p (ys @ a # zs) l" and dist: "distinct (ys @ a # zs)"
    and q: "pv a = Some q" and r: "nx a = Some r"
  shows "dlist (relink q r nx) (relink r q pv) (if q = None then r else p) (ys @ zs) (if r = None then q else l)"
proof -
  note s = dlist_at(3) [OF d q] dlist_at(4) [OF d r]
  have f: "q = (if ys = [] then None else Some (last ys))" "r = (case zs of [] \<Rightarrow> None | z # _ \<Rightarrow> Some z)"
    using dlist_at(5) [OF d q] dlist_at(6) [OF d r] .
  have out: "ys \<noteq> [] \<Longrightarrow> last ys \<notin> set zs" using dist by (auto dest: last_in_set)
  have e: "ys = [] \<longleftrightarrow> q = None" "zs = [] \<longleftrightarrow> r = None" unfolding f by (auto split: list.split)
  have "dseg (relink q r nx) pv None (if q = None then r else p) ys q r"
    using dseg_end [OF s(1), of r] dist e(1) by (cases "ys = []") auto
  then have 1: "dseg (relink q r nx) (relink r q pv) None (if q = None then r else p) ys q r"
    using dist f(2) by (cases zs) auto
  have "dseg nx (relink r q pv) q r zs (if r = None then q else l) None"
    using dseg_start [OF s(2), of q] dist e(2) by (cases "zs = []") auto
  then have "dseg (relink q r nx) (relink r q pv) q r zs (if r = None then q else l) None"
    using out f(1) dist by (cases "ys = []") auto
  with 1 show ?thesis unfolding dseg_append by blast
qed

text \<open>A new first object.\<close>

lemma dlist_push:
  assumes "dlist nx pv p xs l" and "distinct (a # xs)" and "nx a = Some p" and "pv a = Some None"
  shows "dlist nx (relink p (Some a) pv) (Some a) (a # xs) (if xs = [] then Some a else l)"
  using assms by (cases xs) auto

text \<open>A new last object.\<close>

lemma dlist_append:
  assumes "dlist nx pv p xs l" and "distinct (a # xs)" and "pv a = Some l" and "nx a = Some None"
  shows "dlist (relink l (Some a) nx) pv (if xs = [] then Some a else p) (xs @ [a]) (Some a)"
proof (cases xs rule: rev_cases)
  case (snoc ys y)
  then show ?thesis using assms by (auto simp: dseg_append)
qed (use assms in auto)

text \<open>Two neighbours change places.\<close>

lemma dlist_swap:
  assumes d: "dlist nx pv p (ys @ x # a # zs) l" and dist: "distinct (ys @ x # a # zs)"
    and q: "pv x = Some q" and r: "nx a = Some r"
  shows "dlist ((relink q (Some a) nx)(x \<mapsto> r, a \<mapsto> Some x)) ((relink r (Some x) pv)(x \<mapsto> Some a, a \<mapsto> q))
    (if q = None then Some a else p) (ys @ a # x # zs) (if r = None then Some x else l)"
proof -
  have d': "dlist nx pv p ((ys @ [x]) @ a # zs) l" using d by simp
  note s = dlist_at(3) [OF d q] and t = dlist_at(4) [OF d' r]
  have f: "q = (if ys = [] then None else Some (last ys))" "r = (case zs of [] \<Rightarrow> None | z # _ \<Rightarrow> Some z)"
    using dlist_at(5) [OF d q] dlist_at(6) [OF d' r] .
  have out: "ys \<noteq> [] \<Longrightarrow> last ys \<notin> set zs" using dist by (auto dest: last_in_set)
  have e: "ys = [] \<longleftrightarrow> q = None" "zs = [] \<longleftrightarrow> r = None" unfolding f by (auto split: list.split)
  let ?nx = "(relink q (Some a) nx)(x \<mapsto> r, a \<mapsto> Some x)" and ?pv = "(relink r (Some x) pv)(x \<mapsto> Some a, a \<mapsto> q)"
  have "dseg (relink q (Some a) nx) pv None (if q = None then Some a else p) ys q (Some a)"
    using dseg_end [OF s, of "Some a"] dist e(1) by (cases "ys = []") auto
  then have 1: "dseg ?nx ?pv None (if q = None then Some a else p) ys q (Some a)"
    using dist f(2) by (cases zs) auto
  have "dseg nx (relink r (Some x) pv) (Some x) r zs (if r = None then Some x else l) None"
    using dseg_start [OF t, of "Some x"] dist e(2) by (cases "zs = []") auto
  then have "dseg ?nx ?pv (Some x) r zs (if r = None then Some x else l) None"
    using out f(1) dist by (cases "ys = []") auto
  with 1 dist show ?thesis by (auto simp: dseg_append)
qed

end
