(* ===== verification/GhtInv.thy ===== *)
theory GhtInv
  imports GhtTable DoublyLinked
begin

unbundle bit_operations_syntax

text \<open>
  The invariant of libghthash tables, and the private functions that change the links of entries.
  A memory is read field by field; an assignment changes one of these functions and leaves the
  others alone.
\<close>

section \<open>Fields of a memory\<close>

definition nexts :: "ght_mem \<Rightarrow> link" where "nexts m = (\<lambda>a. map_option p_next (entries m a))"

definition prevs :: "ght_mem \<Rightarrow> link" where "prevs m = (\<lambda>a. map_option p_prev (entries m a))"

definition olders :: "ght_mem \<Rightarrow> link" where "olders m = (\<lambda>a. map_option p_older (entries m a))"

definition newers :: "ght_mem \<Rightarrow> link" where "newers m = (\<lambda>a. map_option p_newer (entries m a))"

definition keys :: "ght_mem \<Rightarrow> addr \<rightharpoonup> ght_hash_key" where "keys m = (\<lambda>a. map_option key (entries m a))"

definition datas :: "ght_mem \<Rightarrow> addr \<rightharpoonup> ptr" where "datas m = (\<lambda>a. map_option p_data (entries m a))"

lemmas field_defs = nexts_def prevs_def olders_def newers_def keys_def datas_def

lemma entries_cong: "entries m' a = entries m a \<Longrightarrow> nexts m' a = nexts m a \<and> prevs m' a = prevs m a \<and>
    olders m' a = olders m a \<and> newers m' a = newers m a \<and> keys m' a = keys m a \<and> datas m' a = datas m a"
  by (simp add: field_defs)

text \<open>An assignment through a pointer, as a function on memories.\<close>

definition upd :: "ptr \<Rightarrow> (ght_hash_entry \<Rightarrow> ght_hash_entry) \<Rightarrow> ght_mem \<Rightarrow> ght_mem" where
  "upd p f m = m\<lparr>entries := (\<lambda>b. if p = Some b then map_option f (entries m b) else entries m b)\<rparr>"

definition live :: "ptr \<Rightarrow> ght_mem \<Rightarrow> bool" where
  "live p m \<longleftrightarrow> (\<forall>a. p = Some a \<longrightarrow> entries m a \<noteq> None)"

lemma live_None [simp]: "live None m" by (simp add: live_def)

lemma live_upd [simp]: "live q (upd p f m) = live q m"
  by (auto simp: live_def upd_def split: if_splits)

lemma upd_none [simp]: "upd None f m = m" by (simp add: upd_def)

lemma set_field_upd: "live p m \<Longrightarrow> set_field_if p f m = Some (upd p f m)"
  "live (Some a) m \<Longrightarrow> set_field a f m = Some (upd (Some a) f m)"
  by (auto simp: set_field_if_def set_field_def upd_def live_def fun_eq_iff split: option.split)

lemma upd_keep [simp]:
  "brk (upd p f m) = brk m" "bucket_freed (upd p f m) = bucket_freed m"
  "entries (upd p f m) a = (if p = Some a then map_option f (entries m a) else entries m a)"
  by (simp_all add: upd_def)

lemma upd_fields [simp]:
  "live p m \<Longrightarrow> nexts (upd p (p_next_update (\<lambda>_. v)) m) = relink p v (nexts m)"
  "prevs (upd p (p_next_update g) m) = prevs m" "olders (upd p (p_next_update g) m) = olders m"
  "newers (upd p (p_next_update g) m) = newers m" "keys (upd p (p_next_update g) m) = keys m"
  "datas (upd p (p_next_update g) m) = datas m"
  "live p m \<Longrightarrow> prevs (upd p (p_prev_update (\<lambda>_. v)) m) = relink p v (prevs m)"
  "nexts (upd p (p_prev_update g) m) = nexts m" "olders (upd p (p_prev_update g) m) = olders m"
  "newers (upd p (p_prev_update g) m) = newers m" "keys (upd p (p_prev_update g) m) = keys m"
  "datas (upd p (p_prev_update g) m) = datas m"
  "live p m \<Longrightarrow> olders (upd p (p_older_update (\<lambda>_. v)) m) = relink p v (olders m)"
  "prevs (upd p (p_older_update g) m) = prevs m" "nexts (upd p (p_older_update g) m) = nexts m"
  "newers (upd p (p_older_update g) m) = newers m" "keys (upd p (p_older_update g) m) = keys m"
  "datas (upd p (p_older_update g) m) = datas m"
  "live p m \<Longrightarrow> newers (upd p (p_newer_update (\<lambda>_. v)) m) = relink p v (newers m)"
  "prevs (upd p (p_newer_update g) m) = prevs m" "nexts (upd p (p_newer_update g) m) = nexts m"
  "olders (upd p (p_newer_update g) m) = olders m" "keys (upd p (p_newer_update g) m) = keys m"
  "datas (upd p (p_newer_update g) m) = datas m"
  by (auto simp: field_defs upd_def live_def fun_eq_iff option.map_comp relink_def o_def split: option.split)

section \<open>The invariant\<close>

text \<open>
  \<open>bs\<close> are the entries of each bucket, front to back; \<open>as\<close> are all entries, oldest first.
\<close>

definition buckets_ok :: "ght_hash_table \<Rightarrow> ght_mem \<Rightarrow> addr list list \<Rightarrow> bool" where
  "buckets_ok t m bs \<longleftrightarrow>
     length (pp_entries t) = i_size_t t \<and> length bs = i_size_t t \<and>
     (\<forall>l < i_size_t t. (\<exists>z. dlist (nexts m) (prevs m) (pp_entries t ! l) (bs ! l) z) \<and> distinct (bs ! l) \<and>
        (\<forall>a \<in> set (bs ! l). \<exists>k. keys m a = Some k \<and> l_key t k = l))"

definition size_ok :: "ght_hash_table \<Rightarrow> bool" where
  "size_ok t \<longleftrightarrow> (\<exists>k < 31. i_size_t t = 2 ^ k \<and> i_size_mask t = mask k)"

definition ages_ok :: "ght_hash_table \<Rightarrow> ght_mem \<Rightarrow> addr list \<Rightarrow> bool" where
  "ages_ok t m as \<longleftrightarrow>
     dlist (newers m) (olders m) (p_oldest t) as (p_newest t) \<and> distinct as \<and> inj_on (keys m) (set as) \<and>
     (\<forall>a \<in> set as. \<exists>bs. keys m a = Some (hk_fill bs))"

definition ght_inv :: "ght_hash_table \<Rightarrow> ght_mem \<Rightarrow> addr list list \<Rightarrow> addr list \<Rightarrow> bool" where
  "ght_inv t m bs as \<longleftrightarrow>
     size_ok t \<and> buckets_ok t m bs \<and> ages_ok t m as \<and> set as = \<Union> (set ` set bs) \<and>
     p_nr t = map (\<lambda>b. int (length b)) bs \<and> i_items t = length as \<and>
     (\<forall>a. entries m a \<noteq> None \<longrightarrow> a < brk m)"

lemma l_key_less: "size_ok t \<Longrightarrow> l_key t k < i_size_t t"
proof -
  assume "size_ok t"
  then obtain n where n: "i_size_t t = 2 ^ n" "i_size_mask t = mask n" by (auto simp: size_ok_def)
  have "l_key t k = take_bit n (unat (fn_hash t k))"
    using n(2) by (simp add: l_key_def flip: take_bit_eq_mask) (simp add: unsigned_take_bit_eq)
  then show ?thesis using n(1) by simp
qed

lemma l_key_cong: "fn_hash t' = fn_hash t \<Longrightarrow> i_size_mask t' = i_size_mask t \<Longrightarrow> l_key t' k = l_key t k"
  by (simp add: l_key_def)

text \<open>Entries of the table are allocated.\<close>

lemma buckets_okD:
  assumes "buckets_ok t m bs" and "l < i_size_t t"
  shows "\<exists>z. dlist (nexts m) (prevs m) (pp_entries t ! l) (bs ! l) z" and "distinct (bs ! l)"
    and "a \<in> set (bs ! l) \<Longrightarrow> \<exists>k. keys m a = Some k \<and> l_key t k = l"
    and "l < length (pp_entries t)" and "l < length bs"
  using assms by (auto simp: buckets_ok_def)

lemma bucket_disjoint:
  assumes "buckets_ok t m bs" and "l < i_size_t t" and "j < i_size_t t" and "a \<in> set (bs ! l)" and "a \<in> set (bs ! j)"
  shows "j = l"
  using buckets_okD(3) [OF assms(1,2,4)] buckets_okD(3) [OF assms(1,3,5)] by auto

text \<open>An entry is in the bucket of its key.\<close>

lemma in_bucket:
  assumes "buckets_ok t m bs" and "a \<in> \<Union> (set ` set bs)" and "keys m a = Some k"
  shows "a \<in> set (bs ! l_key t k)" and "l_key t k < i_size_t t"
proof -
  obtain j where j: "j < length bs" "a \<in> set (bs ! j)" using assms(2) by (metis UN_E in_set_conv_nth)
  then have "j < i_size_t t" using assms(1) by (simp add: buckets_ok_def)
  moreover from buckets_okD(3) [OF assms(1) this j(2)] have "l_key t k = j" using assms(3) by auto
  ultimately show "a \<in> set (bs ! l_key t k)" "l_key t k < i_size_t t" using j by simp_all
qed

text \<open>What only touches the entries in a set and the addresses not yet used.\<close>

definition only :: "addr set \<Rightarrow> ght_mem \<Rightarrow> ght_mem \<Rightarrow> bool" where
  "only A m m' \<longleftrightarrow> brk m \<le> brk m' \<and> (\<forall>a. a \<notin> A \<longrightarrow> a < brk m \<longrightarrow> entries m' a = entries m a)"

lemma only_refl: "only A m m"
  by (simp add: only_def)

lemma only_trans: "only A m m1 \<Longrightarrow> only B m1 m2 \<Longrightarrow> B \<inter> {..<brk m} \<subseteq> A \<Longrightarrow> only A m m2"
  unfolding only_def by (auto simp: subset_iff)

lemma only_upd: "p = None \<or> the p \<in> A \<Longrightarrow> only A m (upd p f m)"
  by (auto simp: only_def)

lemma ght_inv_other:
  assumes "ght_inv t m bs as" and "\<And>a. a \<in> set as \<Longrightarrow> entries m' a = entries m a"
    and "\<And>a. entries m' a \<noteq> None \<Longrightarrow> a < brk m'"
  shows "ght_inv t m' bs as"
proof -
  note f = entries_cong [OF assms(2)]
  have b: "set (bs ! l) \<subseteq> set as" if "l < i_size_t t" for l
    using assms(1) that unfolding ght_inv_def buckets_ok_def by fastforce
  have "buckets_ok t m' bs"
    unfolding buckets_ok_def
  proof (intro conjI allI impI)
    fix l assume l: "l < i_size_t t"
    have "dlist (nexts m') (prevs m') (pp_entries t ! l) (bs ! l) z = dlist (nexts m) (prevs m) (pp_entries t ! l) (bs ! l) z" for z
      using f b [OF l] by (intro dseg_cong) blast+
    then show "\<exists>z. dlist (nexts m') (prevs m') (pp_entries t ! l) (bs ! l) z"
      using assms(1) l by (simp add: ght_inv_def buckets_ok_def)
    show "\<forall>a\<in>set (bs ! l). \<exists>k. keys m' a = Some k \<and> l_key t k = l"
      using assms(1) l f b [OF l] by (auto simp: ght_inv_def buckets_ok_def subset_iff)
  qed (use assms(1) in \<open>simp_all add: ght_inv_def buckets_ok_def\<close>)
  moreover have "dlist (newers m') (olders m') (p_oldest t) as (p_newest t) = dlist (newers m) (olders m) (p_oldest t) as (p_newest t)"
    using f by (intro dseg_cong) blast+
  then have "ages_ok t m' as"
    using assms(1) f by (auto simp: ght_inv_def ages_ok_def inj_on_def)
  ultimately show ?thesis using assms(1,3) by (auto simp: ght_inv_def)
qed

text \<open>The table as a list of keys and data, in the order of insertion.\<close>

definition pair_at :: "ght_mem \<Rightarrow> addr \<Rightarrow> byte list \<times> ptr" where
  "pair_at m a = (p_key (the (keys m a)), the (datas m a))"

definition pairs :: "ght_mem \<Rightarrow> addr list \<Rightarrow> (byte list \<times> ptr) list" where
  "pairs m as = map (pair_at m) as"

end
