(* ===== verification/GhtLinks.thy ===== *)
theory GhtLinks
  imports GhtInv
begin

text \<open>
  The functions of libghthash that search a bucket and change its links, on tables with well-formed
  buckets.
\<close>

section \<open>Searching\<close>

lemma same_key_fill: "same_key (hk_fill b) (hk_fill c) \<longleftrightarrow> b = c"
  by (cases "length b = length c") (auto simp: same_key_def hk_fill_def)

lemma hk_fill_inj [simp]: "hk_fill b = hk_fill c \<longleftrightarrow> b = c"
  by (cases "b = c") (simp_all add: hk_fill_def)

lemma search_loop_list:
  assumes "dseg (nexts m) (prevs m) q p xs z None" and "\<forall>a \<in> set xs. \<exists>b. keys m a = Some (hk_fill b)"
  shows "search_loop (entries m) p (hk_fill b) = Some (find (\<lambda>a. keys m a = Some (hk_fill b)) xs)"
  using assms
proof (induction xs arbitrary: q p)
  case Nil
  then show ?case by (subst search_loop.simps) simp
next
  case (Cons a xs)
  obtain e where e: "p = Some a" "entries m a = Some e" "dseg (nexts m) (prevs m) (Some a) (p_next e) xs z None"
    using Cons.prems(1) by (auto simp: nexts_def)
  obtain c where c: "key e = hk_fill c" using Cons.prems(2) e(2) by (auto simp: keys_def)
  have "keys m a = Some (hk_fill c)" using e(2) c by (simp add: keys_def)
  moreover have "search_loop (entries m) (p_next e) (hk_fill b) = Some (find (\<lambda>a. keys m a = Some (hk_fill b)) xs)"
    using Cons.IH [OF e(3)] Cons.prems(2) by simp
  ultimately show ?case
    using e(1,2) c by (subst search_loop.simps) (auto simp: same_key_fill)
qed

lemma find_unique:
  assumes "inj_on f S" and "set xs \<subseteq> S" and "a \<in> set xs" and "f a = y"
  shows "find (\<lambda>a. f a = y) xs = Some a"
  using assms by (induction xs) (auto simp: inj_on_def)

section \<open>Changing one bucket\<close>

lemma buckets_ok_change:
  assumes b: "buckets_ok t m bs" and l: "l < i_size_t t"
    and new: "dlist (nexts m') (prevs m') p xs z" "distinct xs" "\<And>a. a \<in> set xs \<Longrightarrow> \<exists>k. keys m' a = Some k \<and> l_key t k = l"
    and other: "\<And>j a. j < i_size_t t \<Longrightarrow> j \<noteq> l \<Longrightarrow> a \<in> set (bs ! j) \<Longrightarrow>
      nexts m' a = nexts m a \<and> prevs m' a = prevs m a \<and> keys m' a = keys m a"
    and t': "pp_entries t' = (pp_entries t)[l := p]" "i_size_t t' = i_size_t t" "i_size_mask t' = i_size_mask t"
      "fn_hash t' = fn_hash t"
  shows "buckets_ok t' m' (bs[l := xs])"
  unfolding buckets_ok_def
proof (intro conjI allI impI)
  show "length (pp_entries t') = i_size_t t'" "length (bs[l := xs]) = i_size_t t'"
    using b t' by (simp_all add: buckets_ok_def)
  fix j assume j: "j < i_size_t t'"
  have lk: "l_key t' k = l_key t k" for k by (rule l_key_cong) (fact t')+
  have len: "l < length bs" "l < length (pp_entries t)" using b l by (simp_all add: buckets_ok_def)
  show "\<exists>z. dlist (nexts m') (prevs m') (pp_entries t' ! j) (bs[l := xs] ! j) z"
  proof (cases "j = l")
    case True
    then show ?thesis using new(1) t'(1) len by auto
  next
    case False
    have j': "j < i_size_t t" using j t'(2) by simp
    obtain z' where "dlist (nexts m) (prevs m) (pp_entries t ! j) (bs ! j) z'"
      using buckets_okD(1) [OF b j'] by blast
    moreover have "dlist (nexts m') (prevs m') (pp_entries t ! j) (bs ! j) z' =
        dlist (nexts m) (prevs m) (pp_entries t ! j) (bs ! j) z'"
      by (rule dseg_cong) (use other [OF j' False] in blast)+
    ultimately have "dlist (nexts m') (prevs m') (pp_entries t ! j) (bs ! j) z'" by simp
    then show ?thesis using False t'(1) by auto
  qed
  show "distinct (bs[l := xs] ! j)"
    using new(2) buckets_okD(2) [OF b] j t'(2) len by (cases "j = l") auto
  show "\<forall>a\<in>set (bs[l := xs] ! j). \<exists>k. keys m' a = Some k \<and> l_key t' k = j"
    using new(3) buckets_okD(3) [OF b] other j t'(2) len lk by (cases "j = l") auto
qed

text \<open>The neighbours of an entry are in its bucket.\<close>

lemma dlist_neighbours:
  assumes "dlist nx pv p (ys @ a # zs) z"
  shows "pv a = Some (Some q) \<Longrightarrow> q \<in> set ys" and "nx a = Some (Some r) \<Longrightarrow> r \<in> set zs"
  using dlist_at(5) [OF assms, of "Some q"] dlist_at(6) [OF assms, of "Some r"]
  by (auto split: if_splits list.splits)

lemma relink_other: "p \<noteq> Some a \<Longrightarrow> relink p v f a = f a"
  by (auto simp: relink_def split: option.split)

section \<open>Unlinking\<close>

lemma remove_from_chain_eval:
  assumes "entries m a = Some e" and "l < length (pp_entries t)"
    and "live (p_prev e) m" "live (p_next e) m" "live (p_older e) m" "live (p_newer e) m"
  shows "remove_from_chain t m l a =
    Some (t\<lparr>pp_entries := (pp_entries t)[l := if p_prev e = None then p_next e else pp_entries t ! l],
            p_oldest := if p_older e = None then p_newer e else p_oldest t,
            p_newest := if p_newer e = None then p_older e else p_newest t\<rparr>,
      upd (p_newer e) (p_older_update (\<lambda>_. p_older e)) (upd (p_older e) (p_newer_update (\<lambda>_. p_newer e))
        (upd (p_next e) (p_prev_update (\<lambda>_. p_prev e)) (upd (p_prev e) (p_next_update (\<lambda>_. p_next e)) m))))"
  using assms
  by (cases "p_prev e"; cases "p_older e"; cases "p_newer e")
    (simp_all add: remove_from_chain_def set_bucket_head_def set_field_upd)

text \<open>The effect of unlinking on the two lists the entry is in.\<close>

definition unlinked :: "ght_hash_entry \<Rightarrow> ght_mem \<Rightarrow> ght_mem \<Rightarrow> bool" where
  "unlinked e m m' \<longleftrightarrow>
     nexts m' = relink (p_prev e) (p_next e) (nexts m) \<and> prevs m' = relink (p_next e) (p_prev e) (prevs m) \<and>
     newers m' = relink (p_older e) (p_newer e) (newers m) \<and> olders m' = relink (p_newer e) (p_older e) (olders m) \<and>
     keys m' = keys m \<and> datas m' = datas m \<and> brk m' = brk m \<and> bucket_freed m' = bucket_freed m"

lemma remove_from_chain_run:
  assumes a: "entries m a = Some e" and b: "buckets_ok t m bs" and l: "l < i_size_t t" and bl: "bs ! l = ys @ a # zs"
    and o: "dlist (newers m) (olders m) (p_oldest t) (us @ a # vs) (p_newest t)"
    and dist: "distinct (us @ a # vs)"
  shows "\<exists>t' m'. remove_from_chain t m l a = Some (t', m') \<and> unlinked e m m' \<and>
    buckets_ok t' m' (bs[l := ys @ zs]) \<and> dlist (newers m') (olders m') (p_oldest t') (us @ vs) (p_newest t') \<and>
    t' = t\<lparr>pp_entries := pp_entries t', p_oldest := p_oldest t', p_newest := p_newest t'\<rparr> \<and>
    only (set (ys @ zs) \<union> set (us @ vs)) m m' \<and> (\<forall>c. entries m' c = None \<longleftrightarrow> entries m c = None)"
proof -
  obtain z where d: "dlist (nexts m) (prevs m) (pp_entries t ! l) (ys @ a # zs) z"
    using buckets_okD(1) [OF b l] bl by auto
  have fields: "prevs m a = Some (p_prev e)" "nexts m a = Some (p_next e)" "olders m a = Some (p_older e)" "newers m a = Some (p_newer e)"
    using a by (simp_all add: field_defs)
  have near: "p_prev e = Some q \<Longrightarrow> q \<in> set ys" "p_next e = Some r \<Longrightarrow> r \<in> set zs"
    "p_older e = Some q \<Longrightarrow> q \<in> set us" "p_newer e = Some r \<Longrightarrow> r \<in> set vs" for q r
    using dlist_neighbours [OF d] dlist_neighbours [OF o] fields by auto
  have al: "c \<in> set ys \<union> set zs \<Longrightarrow> entries m c \<noteq> None" "c \<in> set us \<union> set vs \<Longrightarrow> entries m c \<noteq> None" for c
    using dseg_live [OF d, of c] dseg_live [OF o, of c] by (auto simp: field_defs)
  have lv: "live (p_prev e) m" "live (p_next e) m" "live (p_older e) m" "live (p_newer e) m"
    using near al by (auto simp: live_def)
  let ?t = "t\<lparr>pp_entries := (pp_entries t)[l := if p_prev e = None then p_next e else pp_entries t ! l],
            p_oldest := if p_older e = None then p_newer e else p_oldest t,
            p_newest := if p_newer e = None then p_older e else p_newest t\<rparr>"
  let ?m = "upd (p_newer e) (p_older_update (\<lambda>_. p_older e)) (upd (p_older e) (p_newer_update (\<lambda>_. p_newer e))
        (upd (p_next e) (p_prev_update (\<lambda>_. p_prev e)) (upd (p_prev e) (p_next_update (\<lambda>_. p_next e)) m)))"
  have run: "remove_from_chain t m l a = Some (?t, ?m)"
    using remove_from_chain_eval [OF a buckets_okD(4) [OF b l] lv] .
  have u: "unlinked e m ?m" using lv by (simp add: unlinked_def)
  have dd: "distinct (ys @ a # zs)" using buckets_okD(2) [OF b l] bl by simp
  have "dlist (nexts ?m) (prevs ?m) (if p_prev e = None then p_next e else pp_entries t ! l) (ys @ zs)
      (if p_next e = None then p_prev e else z)"
    using dlist_remove [OF d dd fields(1,2)] u by (simp add: unlinked_def)
  then have "buckets_ok ?t ?m (bs[l := ys @ zs])"
  proof (rule buckets_ok_change [OF b l])
    show "distinct (ys @ zs)" using dd by simp
    show "\<exists>k. keys ?m c = Some k \<and> l_key t k = l" if "c \<in> set (ys @ zs)" for c
      using buckets_okD(3) [OF b l] bl that u by (auto simp: unlinked_def)
    fix j c assume j: "j < i_size_t t" "j \<noteq> l" "c \<in> set (bs ! j)"
    then have "c \<notin> set (bs ! l)" using bucket_disjoint [OF b l] by blast
    then show "nexts ?m c = nexts m c \<and> prevs ?m c = prevs m c \<and> keys ?m c = keys m c"
      using u near bl by (auto simp: unlinked_def intro!: relink_other)
  qed simp_all
  moreover have "dlist (newers ?m) (olders ?m) (p_oldest ?t) (us @ vs) (p_newest ?t)"
    using dlist_remove [OF o dist fields(3,4)] u by (simp add: unlinked_def)
  moreover have "only (set (ys @ zs) \<union> set (us @ vs)) m ?m"
    using near by (auto simp: only_def)
  moreover have "\<forall>c. entries ?m c = None \<longleftrightarrow> entries m c = None" by simp
  ultimately show ?thesis using run u by (intro exI [of _ ?t] exI [of _ ?m]) simp
qed

end
