(* ===== verification/GhtMove.thy ===== *)
theory GhtMove
  imports GhtLinks
begin

text \<open>
  The heuristics of libghthash reorder a bucket when a key is found in it; the keys, the data and the
  order of insertion do not change.
\<close>

section \<open>Reordering\<close>

definition same_contents :: "ght_mem \<Rightarrow> ght_mem \<Rightarrow> bool" where
  "same_contents m m' \<longleftrightarrow>
     keys m' = keys m \<and> datas m' = datas m \<and> newers m' = newers m \<and> olders m' = olders m \<and> brk m' = brk m \<and>
     bucket_freed m' = bucket_freed m \<and> (\<forall>c. entries m' c = None \<longleftrightarrow> entries m c = None)"

lemma same_contents_refl [simp]: "same_contents m m"
  by (simp add: same_contents_def)

lemma same_contents_upd [simp]:
  "same_contents m (upd p (p_next_update g) m') = same_contents m m'"
  "same_contents m (upd p (p_prev_update g) m') = same_contents m m'"
  by (simp_all add: same_contents_def)

text \<open>A bucket of the table is replaced by one with the same entries.\<close>

definition reordered ::
  "nat \<Rightarrow> addr list list \<Rightarrow> ght_hash_table \<Rightarrow> ght_mem \<Rightarrow> addr list list \<Rightarrow> ght_hash_table \<Rightarrow> ght_mem \<Rightarrow> bool" where
  "reordered l bs t m bs' t' m' \<longleftrightarrow>
     (\<exists>xs. bs' = bs[l := xs] \<and> mset xs = mset (bs ! l)) \<and> buckets_ok t' m' bs' \<and>
     t' = t\<lparr>pp_entries := pp_entries t'\<rparr> \<and> same_contents m m'"

lemma reordered_refl: "buckets_ok t m bs \<Longrightarrow> reordered l bs t m bs t m"
  by (auto simp: reordered_def intro!: exI [of _ "bs ! l"])

lemma reordered_intro:
  assumes b: "buckets_ok t m bs" and l: "l < i_size_t t"
    and d: "dlist (nexts m') (prevs m') p xs z" and x: "mset xs = mset (bs ! l)"
    and s: "same_contents m m'"
    and other: "\<And>c. c \<notin> set (bs ! l) \<Longrightarrow> nexts m' c = nexts m c \<and> prevs m' c = prevs m c"
  shows "reordered l bs t m (bs[l := xs]) (t\<lparr>pp_entries := (pp_entries t)[l := p]\<rparr>) m'"
proof -
  have k: "keys m' = keys m" using s by (simp add: same_contents_def)
  have sx: "set xs = set (bs ! l)" using x by (metis set_mset_mset)
  have "distinct xs" using buckets_okD(2) [OF b l] x by (metis mset_eq_imp_distinct_iff)
  then have "buckets_ok (t\<lparr>pp_entries := (pp_entries t)[l := p]\<rparr>) m' (bs[l := xs])"
  proof (rule buckets_ok_change [OF b l d])
    show "\<exists>k. keys m' a = Some k \<and> l_key t k = l" if "a \<in> set xs" for a
      using buckets_okD(3) [OF b l] that sx k by simp
    fix j a assume j: "j < i_size_t t" "j \<noteq> l" "a \<in> set (bs ! j)"
    then have "a \<notin> set (bs ! l)" using bucket_disjoint [OF b l] by blast
    then show "nexts m' a = nexts m a \<and> prevs m' a = prevs m a \<and> keys m' a = keys m a"
      using other k by simp
  qed simp_all
  then show ?thesis using x s by (auto simp: reordered_def)
qed

lemma move_to_front_run:
  assumes b: "buckets_ok t m bs" and l: "l < i_size_t t" and a: "a \<in> set (bs ! l)"
  shows "\<exists>bs' t' m'. move_to_front t m l a = Some (t', m') \<and> reordered l bs t m bs' t' m'"
proof -
  obtain ys zs where bl: "bs ! l = ys @ a # zs" using split_list [OF a] by auto
  obtain z where d: "dlist (nexts m) (prevs m) (pp_entries t ! l) (ys @ a # zs) z"
    using buckets_okD(1) [OF b l] bl by auto
  have h: "bucket_head t l = Some (pp_entries t ! l)" using buckets_okD(4) [OF b l] by (simp add: bucket_head_def)
  show ?thesis
  proof (cases ys)
    case Nil
    then have "pp_entries t ! l = Some a" using d by simp
    then have "move_to_front t m l a = Some (t, m)" using h by (simp add: move_to_front_def)
    then show ?thesis using reordered_refl [OF b] by blast
  next
    case (Cons w ws)
    have dd: "distinct (ys @ a # zs)" using buckets_okD(2) [OF b l] bl by simp
    obtain e where e: "entries m a = Some e"
      using dseg_live [OF d, of a] by (auto simp: field_defs)
    have fields: "prevs m a = Some (p_prev e)" "nexts m a = Some (p_next e)" using e by (simp_all add: field_defs)
    have hw: "pp_entries t ! l = Some w" and hwa: "w \<noteq> a" using d Cons dd by auto
    have q: "p_prev e = Some (last ys)" using dlist_at(5) [OF d fields(1)] Cons by simp
    have rz: "p_next e = Some r \<Longrightarrow> r \<in> set zs" for r using dlist_neighbours(2) [OF d] fields by simp
    have al: "c \<in> set (ys @ a # zs) \<Longrightarrow> live (Some c) m" for c
      using dseg_live [OF d, of c] by (auto simp: field_defs live_def)
    have lv: "live (Some (last ys)) m" "live (p_next e) m" "live (Some a) m" "live (Some w) m"
      using al [of "last ys"] al rz Cons last_in_set [of ys] by (auto simp: live_def simp del: last.simps)
    let ?m = "upd (Some w) (p_prev_update (\<lambda>_. Some a)) (upd (Some a) (p_prev_update (\<lambda>_. None))
      (upd (Some a) (p_next_update (\<lambda>_. Some w)) (upd (p_next e) (p_prev_update (\<lambda>_. p_prev e))
        (upd (Some (last ys)) (p_next_update (\<lambda>_. p_next e)) m))))"
    let ?t = "t\<lparr>pp_entries := (pp_entries t)[l := Some a]\<rparr>"
    have run: "move_to_front t m l a = Some (?t, ?m)"
      using h hw hwa e q lv buckets_okD(4) [OF b l]
      by (simp add: move_to_front_def set_field_upd set_bucket_head_def)
    have n: "nexts ?m = (relink (p_prev e) (p_next e) (nexts m))(a \<mapsto> Some w)"
      and p: "prevs ?m = relink (Some w) (Some a) ((relink (p_next e) (p_prev e) (prevs m))(a \<mapsto> None))"
      using lv q by simp_all
    have ne: "ys @ zs \<noteq> []" using Cons by simp
    have "dlist (relink (p_prev e) (p_next e) (nexts m)) (relink (p_next e) (p_prev e) (prevs m)) (Some w) (ys @ zs)
        (if p_next e = None then p_prev e else z)"
      using dlist_remove [OF d dd fields] q hw by simp
    then have "dlist (nexts ?m) ((relink (p_next e) (p_prev e) (prevs m))(a \<mapsto> None)) (Some w) (ys @ zs)
        (if p_next e = None then p_prev e else z)"
      using dd n by simp
    from dlist_push [OF this, of a] have new: "dlist (nexts ?m) (prevs ?m) (Some a) (a # ys @ zs)
        (if p_next e = None then p_prev e else z)"
      using dd ne hwa n p by (auto split: if_splits)
    have "reordered l bs t m (bs[l := a # ys @ zs]) ?t ?m"
      using b l new
    proof (rule reordered_intro)
      show "mset (a # ys @ zs) = mset (bs ! l)" using bl by simp
      show "same_contents m ?m" by simp
      fix c assume "c \<notin> set (bs ! l)"
      then have c: "c \<notin> set ys" "c \<noteq> a" "c \<notin> set zs" using bl by auto
      then have "last ys \<noteq> c" "w \<noteq> c" "p_next e \<noteq> Some c" using last_in_set [of ys] Cons rz by (auto simp del: last.simps)
      then show "nexts ?m c = nexts m c \<and> prevs ?m c = prevs m c"
        using c(2) q unfolding n p by (simp add: relink_other)
    qed
    then show ?thesis using run by blast
  qed
qed

lemma transpose_run:
  assumes b: "buckets_ok t m bs" and l: "l < i_size_t t" and a: "a \<in> set (bs ! l)"
  shows "\<exists>bs' t' m'. transpose_entry t m l a = Some (t', m') \<and> reordered l bs t m bs' t' m'"
proof -
  obtain us zs where bl': "bs ! l = us @ a # zs" using split_list [OF a] by auto
  obtain z where d': "dlist (nexts m) (prevs m) (pp_entries t ! l) (us @ a # zs) z"
    using buckets_okD(1) [OF b l] bl' by auto
  obtain e where e: "entries m a = Some e"
    using dseg_live [OF d', of a] by (auto simp: field_defs)
  have fields: "prevs m a = Some (p_prev e)" "nexts m a = Some (p_next e)" using e by (simp_all add: field_defs)
  show ?thesis
  proof (cases us rule: rev_cases)
    case Nil
    then have "p_prev e = None" using dlist_at(5) [OF d' fields(1)] by simp
    then have "transpose_entry t m l a = Some (t, m)" using e by (simp add: transpose_entry_def)
    then show ?thesis using reordered_refl [OF b] by blast
  next
    case (snoc ys x)
    then have bl: "bs ! l = ys @ x # a # zs" and d: "dlist (nexts m) (prevs m) (pp_entries t ! l) (ys @ x # a # zs) z"
      using bl' d' by simp_all
    have dd: "distinct (ys @ x # a # zs)" using buckets_okD(2) [OF b l] bl by simp
    have px: "p_prev e = Some x" using dlist_at(5) [OF d' fields(1)] snoc by simp
    obtain ex where ex: "entries m x = Some ex" using dseg_live [OF d, of x] by (auto simp: field_defs)
    have fx: "prevs m x = Some (p_prev ex)" using ex by (simp add: field_defs)
    have qy: "p_prev ex = Some q \<Longrightarrow> q \<in> set ys" for q using dlist_neighbours(1) [OF d] fx by simp
    have rz: "p_next e = Some r \<Longrightarrow> r \<in> set zs" for r using dlist_neighbours(2) [OF d'] fields by simp
    have al: "c \<in> set (ys @ x # a # zs) \<Longrightarrow> entries m c \<noteq> None" for c
      using dseg_live [OF d, of c] by (auto simp: field_defs)
    have lv: "live (p_prev ex) m" "live (p_next e) m" "live (Some a) m" "live (Some x) m"
      using al qy rz by (auto simp: live_def)
    let ?p = "if p_prev ex = None then Some a else pp_entries t ! l"
    let ?t = "t\<lparr>pp_entries := (pp_entries t)[l := ?p]\<rparr>"
    let ?m = "upd (Some a) (p_prev_update (\<lambda>_. p_prev ex)) (upd (Some a) (p_next_update (\<lambda>_. Some x))
      (upd (Some x) (p_prev_update (\<lambda>_. Some a)) (upd (Some x) (p_next_update (\<lambda>_. p_next e))
        (upd (p_next e) (p_prev_update (\<lambda>_. Some x)) (upd (p_prev ex) (p_next_update (\<lambda>_. Some a)) m)))))"
    have run: "transpose_entry t m l a = Some (?t, ?m)"
      using e px ex lv buckets_okD(4) [OF b l]
      by (cases "p_prev ex") (simp_all add: transpose_entry_def set_field_upd set_bucket_head_def)
    have n: "nexts ?m = (relink (p_prev ex) (Some a) (nexts m))(x \<mapsto> p_next e, a \<mapsto> Some x)"
      and p: "prevs ?m = (relink (p_next e) (Some x) (prevs m))(x \<mapsto> Some a, a \<mapsto> p_prev ex)"
      using lv by simp_all
    have new: "dlist (nexts ?m) (prevs ?m) ?p (ys @ a # x # zs) (if p_next e = None then Some x else z)"
      unfolding n p by (rule dlist_swap [OF d dd fx fields(2)])
    have "reordered l bs t m (bs[l := ys @ a # x # zs]) ?t ?m"
      using b l new
    proof (rule reordered_intro)
      show "mset (ys @ a # x # zs) = mset (bs ! l)" using bl by simp
      show "same_contents m ?m" by simp
      fix c assume "c \<notin> set (bs ! l)"
      then have c: "c \<notin> set ys" "c \<noteq> a" "c \<noteq> x" "c \<notin> set zs" using bl by auto
      then have "p_prev ex \<noteq> Some c" "p_next e \<noteq> Some c" using qy rz by auto
      then show "nexts ?m c = nexts m c \<and> prevs ?m c = prevs m c"
        using c(2,3) unfolding n p by (simp add: relink_other)
    qed
    then show ?thesis using run by blast
  qed
qed

end
