(* ===== verification/GhtOps.thy ===== *)
theory GhtOps
  imports GhtMove
begin

text \<open>
  The operations of libghthash that find a key: what \<open>ght_get\<close>, \<open>ght_replace\<close> and \<open>ght_remove\<close>
  return, and the table they leave, as a list of keys and data in the order of insertion.
\<close>

section \<open>Consequences of the invariant\<close>

lemma ght_invD:
  assumes "ght_inv t m bs as"
  shows "size_ok t" "buckets_ok t m bs" "ages_ok t m as" "set as = \<Union> (set ` set bs)"
    "p_nr t = map (\<lambda>b. int (length b)) bs" "i_items t = length as" "\<And>a. entries m a \<noteq> None \<Longrightarrow> a < brk m"
    "distinct as" "inj_on (keys m) (set as)" "\<And>a. a \<in> set as \<Longrightarrow> \<exists>k. keys m a = Some (hk_fill k)"
    "dlist (newers m) (olders m) (p_oldest t) as (p_newest t)" "length bs = i_size_t t"
  using assms by (auto simp: ght_inv_def ages_ok_def buckets_ok_def)

lemma ght_inv_intro:
  assumes "size_ok t" "buckets_ok t m bs" "ages_ok t m as" "set as = \<Union> (set ` set bs)"
    "p_nr t = map (\<lambda>b. int (length b)) bs" "i_items t = length as" "\<And>a. entries m a \<noteq> None \<Longrightarrow> a < brk m"
  shows "ght_inv t m bs as"
  using assms by (simp add: ght_inv_def)

lemma bucket_sub: "ght_inv t m bs as \<Longrightarrow> l < i_size_t t \<Longrightarrow> set (bs ! l) \<subseteq> set as"
  using ght_invD(4,12) by fastforce

lemma entry_live: "ght_inv t m bs as \<Longrightarrow> a \<in> set as \<Longrightarrow> entries m a \<noteq> None"
  using ght_invD(10) by (fastforce simp: keys_def)

lemma l_key_bound: "ght_inv t m bs as \<Longrightarrow> l_key t k < i_size_t t"
  by (rule l_key_less) (rule ght_invD(1))

lemma head_at: "ght_inv t m bs as \<Longrightarrow> l < i_size_t t \<Longrightarrow> bucket_head t l = Some (pp_entries t ! l)"
  using buckets_okD(4) [OF ght_invD(2)] by (simp add: bucket_head_def)

lemma check_head_buckets:
  assumes "buckets_ok t m bs" and "l < i_size_t t"
  shows "check_head t m l = Some ()"
proof -
  obtain z where "dlist (nexts m) (prevs m) (pp_entries t ! l) (bs ! l) z" using buckets_okD(1) [OF assms] by blast
  then have "\<exists>h. pp_entries t ! l = h \<and> (\<forall>a. h = Some a \<longrightarrow> (\<exists>e. entries m a = Some e \<and> p_prev e = None))"
    by (cases "bs ! l") (auto simp: field_defs)
  then show ?thesis
    using buckets_okD(4) [OF assms]
    by (auto simp: check_head_def head_is_first_def bucket_head_def split: option.split)
qed

section \<open>Finding a key\<close>

definition entry_of :: "ght_mem \<Rightarrow> addr list \<Rightarrow> byte list \<Rightarrow> ptr" where
  "entry_of m as k = find (\<lambda>a. keys m a = Some (hk_fill k)) as"

lemma entry_of_Some: "entry_of m as k = Some a \<Longrightarrow> a \<in> set as \<and> keys m a = Some (hk_fill k)"
  by (auto simp: entry_of_def find_Some_iff)

lemma entry_of_None: "entry_of m as k = None \<longleftrightarrow> (\<forall>a \<in> set as. keys m a \<noteq> Some (hk_fill k))"
  by (auto simp: entry_of_def find_None_iff)

lemma entry_of_cong: "keys m' = keys m \<Longrightarrow> entry_of m' as k = entry_of m as k"
  by (simp add: entry_of_def)

lemma search_table:
  assumes i: "ght_inv t m bs as"
  shows "search_loop (entries m) (pp_entries t ! l_key t (hk_fill k)) (hk_fill k) = Some (entry_of m as k)"
proof -
  let ?l = "l_key t (hk_fill k)"
  have l: "?l < i_size_t t" using l_key_bound [OF i] .
  obtain z where d: "dlist (nexts m) (prevs m) (pp_entries t ! ?l) (bs ! ?l) z"
    using buckets_okD(1) [OF ght_invD(2) [OF i] l] by blast
  have "\<forall>a \<in> set (bs ! ?l). \<exists>b. keys m a = Some (hk_fill b)"
    using ght_invD(10) [OF i] bucket_sub [OF i l] by blast
  from search_loop_list [OF d this, of k]
  have s: "search_loop (entries m) (pp_entries t ! ?l) (hk_fill k) = Some (entry_of m (bs ! ?l) k)"
    by (simp add: entry_of_def)
  have "entry_of m (bs ! ?l) k = entry_of m as k"
  proof (cases "entry_of m as k")
    case None
    then have "entry_of m (bs ! ?l) k = None" using bucket_sub [OF i l] unfolding entry_of_None by blast
    then show ?thesis using None by simp
  next
    case (Some a)
    then have a: "a \<in> set as" "keys m a = Some (hk_fill k)" using entry_of_Some by blast+
    then have "a \<in> set (bs ! ?l)" using in_bucket(1) [OF ght_invD(2) [OF i]] ght_invD(4) [OF i] by auto
    from find_unique [OF ght_invD(9) [OF i] bucket_sub [OF i l] this a(2)] show ?thesis
      using Some by (simp add: entry_of_def)
  qed
  then show ?thesis using s by simp
qed

lemma search_plain:
  assumes "ght_inv t m bs as"
  shows "search_in_bucket t m (l_key t (hk_fill k)) (hk_fill k) 0 = Some (entry_of m as k, t, m)"
  using search_table [OF assms] head_at [OF assms l_key_bound [OF assms]]
  by (simp add: search_in_bucket_def GHT_HEURISTICS_MOVE_TO_FRONT_def GHT_HEURISTICS_TRANSPOSE_def split: option.split)

lemma search_run:
  assumes i: "ght_inv t m bs as"
  shows "\<exists>bs' t' m'. search_in_bucket t m (l_key t (hk_fill k)) (hk_fill k) h = Some (entry_of m as k, t', m') \<and>
    reordered (l_key t (hk_fill k)) bs t m bs' t' m'"
proof -
  let ?l = "l_key t (hk_fill k)"
  have l: "?l < i_size_t t" using l_key_bound [OF i] .
  note b = ght_invD(2) [OF i]
  note s = search_table [OF i, of k] head_at [OF i l]
  show ?thesis
  proof (cases "entry_of m as k")
    case None
    then show ?thesis using s reordered_refl [OF b] by (auto simp: search_in_bucket_def)
  next
    case (Some a)
    then have "a \<in> set (bs ! ?l)"
      using entry_of_Some in_bucket(1) [OF b] ght_invD(4) [OF i] by metis
    from move_to_front_run [OF b l this] transpose_run [OF b l this] reordered_refl [OF b, of ?l]
    show ?thesis using s Some by (fastforce simp: search_in_bucket_def)
  qed
qed

text \<open>Reordering a bucket keeps the invariant.\<close>

lemma ages_ok_cong:
  assumes "newers m' = newers m" "olders m' = olders m" "keys m' = keys m" "p_oldest t' = p_oldest t" "p_newest t' = p_newest t"
  shows "ages_ok t' m' as = ages_ok t m as"
  using assms by (simp add: ages_ok_def)

lemma size_ok_cong: "i_size_t t' = i_size_t t \<Longrightarrow> i_size_mask t' = i_size_mask t \<Longrightarrow> size_ok t' = size_ok t"
  by (simp add: size_ok_def)

lemma same_contents_bound:
  assumes "same_contents m m'" and "\<And>a. entries m a \<noteq> None \<Longrightarrow> a < brk m" and "entries m' a \<noteq> None"
  shows "a < brk m'"
  using assms by (simp add: same_contents_def)

lemma map_length_update:
  "length xs = length (bs ! l) \<Longrightarrow> map (\<lambda>b. int (length b)) (bs[l := xs]) = map (\<lambda>b. int (length b)) bs"
  by (cases "l < length bs") (simp_all add: list_eq_iff_nth_eq nth_list_update)

lemma Union_nth: "\<Union> (set ` set bs) = (\<Union>j<length bs. set (bs ! j))"
proof -
  have "set bs = (!) bs ` {..<length bs}" by (auto simp: set_conv_nth)
  then show ?thesis by (simp add: image_image)
qed

lemma Union_update:
  assumes "l < length bs"
  shows "\<Union> (set ` set (bs[l := xs])) = set xs \<union> (\<Union>j \<in> {..<length bs} - {l}. set (bs ! j))"
proof -
  have "{..<length bs} = insert l ({..<length bs} - {l})" using assms by auto
  then have "\<Union> (set ` set (bs[l := xs])) = (\<Union>j \<in> insert l ({..<length bs} - {l}). set (bs[l := xs] ! j))"
    by (simp add: Union_nth)
  also have "\<dots> = set xs \<union> (\<Union>j \<in> {..<length bs} - {l}. set (bs[l := xs] ! j))"
    using assms by (simp only: UN_insert nth_list_update_eq)
  also have "(\<Union>j \<in> {..<length bs} - {l}. set (bs[l := xs] ! j)) = (\<Union>j \<in> {..<length bs} - {l}. set (bs ! j))"
    by (rule SUP_cong) auto
  finally show ?thesis .
qed

lemma Union_split:
  "l < length bs \<Longrightarrow> \<Union> (set ` set bs) = set (bs ! l) \<union> (\<Union>j \<in> {..<length bs} - {l}. set (bs ! j))"
  using Union_update [of l bs "bs ! l"] by simp

lemma Union_same:
  assumes "l < length bs" and "set xs = set (bs ! l)"
  shows "\<Union> (set ` set (bs[l := xs])) = \<Union> (set ` set bs)"
  using Union_update [OF assms(1), of xs] Union_update [OF assms(1), of "bs ! l"] assms(2) by simp

lemma reordered_inv:
  assumes i: "ght_inv t m bs as" and l: "l < i_size_t t" and r: "reordered l bs t m bs' t' m'"
  shows "ght_inv t' m' bs' as"
proof -
  obtain xs where xs: "bs' = bs[l := xs]" "mset xs = mset (bs ! l)" using r by (auto simp: reordered_def)
  have s: "same_contents m m'" and b: "buckets_ok t' m' bs'" and t': "t' = t\<lparr>pp_entries := pp_entries t'\<rparr>"
    using r by (simp_all add: reordered_def)
  have st: "i_size_t t' = i_size_t t" "i_size_mask t' = i_size_mask t" "p_oldest t' = p_oldest t" "p_newest t' = p_newest t"
    "p_nr t' = p_nr t" "i_items t' = i_items t" by (subst t', simp)+
  have len: "length xs = length (bs ! l)" "set xs = set (bs ! l)" using xs(2) by (metis size_mset, metis set_mset_mset)
  show ?thesis
  proof (rule ght_inv_intro [OF _ b])
    show "size_ok t'" using ght_invD(1) [OF i] size_ok_cong [OF st(1,2)] by simp
    show "ages_ok t' m' as"
      using ght_invD(3) [OF i] s ages_ok_cong [of m' m t' t as] st by (simp add: same_contents_def)
    show "set as = \<Union> (set ` set bs')"
      using ght_invD(4) [OF i] Union_same [of l bs xs] len(2) l ght_invD(12) [OF i] xs(1) by simp
    show "p_nr t' = map (\<lambda>b. int (length b)) bs'" using ght_invD(5) [OF i] st(5) xs(1) map_length_update [OF len(1)] by simp
    show "i_items t' = length as" using ght_invD(6) [OF i] st(6) by simp
  qed (rule same_contents_bound [OF s ght_invD(7) [OF i]])
qed

lemma same_contents_pairs: "same_contents m m' \<Longrightarrow> pairs m' as = pairs m as"
  by (simp add: same_contents_def pairs_def pair_at_def fun_eq_iff)

section \<open>Tables as lists of pairs\<close>

lemma map_of_pairs:
  assumes "\<forall>a \<in> set as. \<exists>k. keys m a = Some (hk_fill k)"
  shows "map_of (pairs m as) k = map_option (\<lambda>a. the (datas m a)) (entry_of m as k)"
  using assms
proof (induction as)
  case (Cons a as)
  obtain c where c: "keys m a = Some (hk_fill c)" using Cons.prems by auto
  then have "p_key (the (keys m a)) = c" by (simp add: hk_fill_def)
  then show ?case using Cons c by (simp add: pairs_def pair_at_def entry_of_def)
qed (simp add: pairs_def entry_of_def)

lemma pairs_lookup: "ght_inv t m bs as \<Longrightarrow> map_of (pairs m as) k = map_option (\<lambda>a. the (datas m a)) (entry_of m as k)"
  by (rule map_of_pairs) (use ght_invD(10) in blast)

lemma key_of_entry: "ght_inv t m bs as \<Longrightarrow> a \<in> set as \<Longrightarrow> keys m a = Some (hk_fill (p_key (the (keys m a))))"
  using ght_invD(10) [of t m bs as a] by (auto simp: hk_fill_def)

lemma pairs_distinct: assumes "ght_inv t m bs as" shows "distinct (map fst (pairs m as))"
proof -
  have "inj_on (\<lambda>a. p_key (the (keys m a))) (set as)"
  proof (rule inj_onI)
    fix a b assume "a \<in> set as" "b \<in> set as" "p_key (the (keys m a)) = p_key (the (keys m b))"
    then show "a = b" using key_of_entry [OF assms] ght_invD(9) [OF assms] by (metis inj_onD)
  qed
  then show ?thesis using ght_invD(8) [OF assms] by (simp add: pairs_def pair_at_def comp_def distinct_map)
qed

text \<open>The data of a key, \<open>NULL\<close> when there is none.\<close>

definition data_of :: "(byte list \<times> ptr) list \<Rightarrow> byte list \<Rightarrow> ptr" where
  "data_of ps k = (case map_of ps k of None \<Rightarrow> None | Some d \<Rightarrow> d)"

definition set_data :: "byte list \<Rightarrow> ptr \<Rightarrow> (byte list \<times> ptr) list \<Rightarrow> (byte list \<times> ptr) list" where
  "set_data k d ps = map (\<lambda>p. if fst p = k then (k, d) else p) ps"

lemma set_data_absent: "k \<notin> fst ` set ps \<Longrightarrow> set_data k d ps = ps"
  unfolding set_data_def by (rule map_idI) auto

definition without :: "byte list \<Rightarrow> (byte list \<times> ptr) list \<Rightarrow> (byte list \<times> ptr) list" where
  "without k ps = filter (\<lambda>p. fst p \<noteq> k) ps"

text \<open>What the operations keep of the handle: everything but the contents.\<close>

definition same_config :: "ght_hash_table \<Rightarrow> ght_hash_table \<Rightarrow> bool" where
  "same_config t t' \<longleftrightarrow>
     fn_hash t' = fn_hash t \<and> fn_alloc t' = fn_alloc t \<and> fn_bucket_free t' = fn_bucket_free t \<and>
     i_heuristics t' = i_heuristics t \<and> i_automatic_rehash t' = i_automatic_rehash t \<and> bucket_limit t' = bucket_limit t"

definition same_size :: "ght_hash_table \<Rightarrow> ght_hash_table \<Rightarrow> bool" where
  "same_size t t' \<longleftrightarrow> i_size_t t' = i_size_t t \<and> i_size_mask t' = i_size_mask t"

lemma same_config_refl [simp]: "same_config t t" by (simp add: same_config_def)

lemma same_size_refl [simp]: "same_size t t" by (simp add: same_size_def)

lemma same_config_trans: "same_config t u \<Longrightarrow> same_config u v \<Longrightarrow> same_config t v" by (simp add: same_config_def)

lemma same_size_trans: "same_size t u \<Longrightarrow> same_size u v \<Longrightarrow> same_size t v" by (simp add: same_size_def)

lemma only_entries:
  assumes "t' = t\<lparr>pp_entries := pp_entries t'\<rparr>"
  shows "same_config t t' \<and> same_size t t' \<and> i_items t' = i_items t \<and> p_nr t' = p_nr t \<and> p_oldest t' = p_oldest t \<and> p_newest t' = p_newest t"
  unfolding same_config_def same_size_def by (subst (1 2 3 4 5 6 7 8 9 10 11 12) assms) simp

section \<open>Looking up\<close>

lemma ght_get_run:
  assumes i: "ght_inv t m bs as"
  shows "\<exists>bs' t' m'. ght_get t m k = Some (data_of (pairs m as) k, t', m') \<and> ght_inv t' m' bs' as \<and>
    same_contents m m' \<and> same_config t t' \<and> same_size t t'"
proof -
  let ?l = "l_key t (hk_fill k)"
  have l: "?l < i_size_t t" using l_key_bound [OF i] .
  obtain bs' t' m' where s: "search_in_bucket t m ?l (hk_fill k) (i_heuristics t) = Some (entry_of m as k, t', m')"
    and r: "reordered ?l bs t m bs' t' m'" using search_run [OF i] by blast
  have sc: "same_contents m m'" and ti: "t' = t\<lparr>pp_entries := pp_entries t'\<rparr>" using r by (simp_all add: reordered_def)
  have "ght_get t m k = Some (data_of (pairs m as) k, t', m')"
  proof (cases "entry_of m as k")
    case None
    then show ?thesis
      using s check_head_buckets [OF ght_invD(2) [OF i] l] pairs_lookup [OF i, of k]
      by (simp add: ght_get_def data_of_def Let_def)
  next
    case (Some a)
    then have "entries m a \<noteq> None" using entry_of_Some entry_live [OF i] by blast
    then obtain e where e: "entries m' a = Some e" using sc unfolding same_contents_def by (metis not_None_eq)
    have "datas m a = Some (p_data e)" using e sc by (simp add: same_contents_def) (metis datas_def option.map(2))
    then show ?thesis
      using s Some e check_head_buckets [OF ght_invD(2) [OF i] l] pairs_lookup [OF i, of k]
      by (simp add: ght_get_def data_of_def Let_def)
  qed
  then show ?thesis using reordered_inv [OF i l r] sc only_entries [OF ti] by blast
qed

section \<open>Replacing\<close>

lemma ght_inv_fields:
  assumes "ght_inv t m bs as" and "nexts m' = nexts m" "prevs m' = prevs m" "olders m' = olders m" "newers m' = newers m"
    "keys m' = keys m" and "\<And>a. entries m' a \<noteq> None \<Longrightarrow> a < brk m'"
  shows "ght_inv t m' bs as"
proof (rule ght_inv_intro)
  show "buckets_ok t m' bs" using ght_invD(2) [OF assms(1)] assms(2,3,6) by (simp add: buckets_ok_def)
  show "ages_ok t m' as" using ght_invD(3) [OF assms(1)] assms(4-6) by (simp add: ages_ok_def)
qed (fact ght_invD(1,4,5,6) [OF assms(1)] assms(7))+

lemma ght_replace_run:
  assumes i: "ght_inv t m bs as"
  shows "\<exists>bs' t' m'. ght_replace t m d k = Some (data_of (pairs m as) k, t', m') \<and> ght_inv t' m' bs' as \<and>
    pairs m' as = set_data k d (pairs m as) \<and> brk m' = brk m \<and> bucket_freed m' = bucket_freed m \<and>
    same_config t t' \<and> same_size t t'"
proof -
  let ?l = "l_key t (hk_fill k)"
  have l: "?l < i_size_t t" using l_key_bound [OF i] .
  obtain bs' t' m' where s: "search_in_bucket t m ?l (hk_fill k) (i_heuristics t) = Some (entry_of m as k, t', m')"
    and r: "reordered ?l bs t m bs' t' m'" using search_run [OF i] by blast
  have sc: "same_contents m m'" and ti: "t' = t\<lparr>pp_entries := pp_entries t'\<rparr>" using r by (simp_all add: reordered_def)
  note i' = reordered_inv [OF i l r]
  note ch = check_head_buckets [OF ght_invD(2) [OF i] l]
  show ?thesis
  proof (cases "entry_of m as k")
    case None
    then have "ght_replace t m d k = Some (data_of (pairs m as) k, t', m')"
      using s ch pairs_lookup [OF i, of k] by (simp add: ght_replace_def data_of_def Let_def)
    moreover have "map_of (pairs m as) k = None" using None pairs_lookup [OF i, of k] by simp
    then have "set_data k d (pairs m as) = pairs m as" by (intro set_data_absent) (simp add: map_of_eq_None_iff)
    ultimately show ?thesis
      using i' sc same_contents_pairs [OF sc, of as] only_entries [OF ti] unfolding same_contents_def by metis
  next
    case (Some a)
    then have a: "a \<in> set as" "keys m a = Some (hk_fill k)" using entry_of_Some by blast+
    have "entries m a \<noteq> None" using a(1) entry_live [OF i] by blast
    then obtain e where e: "entries m' a = Some e" using sc unfolding same_contents_def by (metis not_None_eq)
    have dm: "datas m a = Some (p_data e)" using e sc by (simp add: same_contents_def) (metis datas_def option.map(2))
    let ?m = "upd (Some a) (p_data_update (\<lambda>_. d)) m'"
    have lv: "live (Some a) m'" using e by (simp add: live_def)
    have run: "ght_replace t m d k = Some (data_of (pairs m as) k, t', ?m)"
      using s ch pairs_lookup [OF i, of k] Some e dm set_field_upd(2) [OF lv]
      by (simp add: ght_replace_def data_of_def Let_def)
    have f: "nexts ?m = nexts m'" "prevs ?m = prevs m'" "olders ?m = olders m'" "newers ?m = newers m'" "keys ?m = keys m'"
      "datas ?m = (datas m')(a \<mapsto> d)"
      using e by (auto simp: field_defs fun_eq_iff option.map_comp)
    have inv: "ght_inv t' ?m bs' as"
      using i' f(1-5) by (rule ght_inv_fields) (use ght_invD(7) [OF i'] in \<open>auto split: if_splits\<close>)
    have km: "keys m' = keys m" "datas m' = datas m" using sc by (simp_all add: same_contents_def)
    have "pair_at ?m b = (if fst (pair_at m b) = k then (k, d) else pair_at m b)" if b: "b \<in> set as" for b
    proof (cases "b = a")
      case True
      then show ?thesis using a(2) f(5,6) km by (simp add: pair_at_def hk_fill_def)
    next
      case False
      then have "keys m b \<noteq> keys m a" using a(1) b ght_invD(9) [OF i] by (auto dest: inj_onD)
      then have "p_key (the (keys m b)) \<noteq> k" using key_of_entry [OF i b] a(2) by auto
      then show ?thesis using False f(5,6) km by (simp add: pair_at_def)
    qed
    then have "pairs ?m as = set_data k d (pairs m as)" by (simp add: pairs_def set_data_def)
    then show ?thesis using run inv sc only_entries [OF ti] by (auto simp: same_contents_def)
  qed
qed

end
