(* ===== verification/GhtChange.thy ===== *)
theory GhtChange
  imports GhtOps
begin

text \<open>
  The operations of libghthash that remove an entry or add one: unlinking and freeing, pushing a new
  entry to the front of its bucket, evicting the last entry of a full bucket.
\<close>

section \<open>Removing\<close>

lemma pairs_cong: "(\<And>a. a \<in> set as \<Longrightarrow> keys m' a = keys m a \<and> datas m' a = datas m a) \<Longrightarrow> pairs m' as = pairs m as"
  by (simp add: pairs_def pair_at_def)

lemma pairs_append [simp]: "pairs m (xs @ ys) = pairs m xs @ pairs m ys" "pairs m [] = []"
  "pairs m (a # xs) = pair_at m a # pairs m xs"
  by (simp_all add: pairs_def)

lemma length_pairs [simp]: "length (pairs m as) = length as"
  by (simp add: pairs_def)

lemma without_split:
  assumes "ght_inv t m bs (us @ a # vs)" and "fst (pair_at m a) = k"
  shows "without k (pairs m (us @ a # vs)) = pairs m (us @ vs)"
proof -
  have "k \<notin> fst ` set (pairs m us)" "k \<notin> fst ` set (pairs m vs)"
    using pairs_distinct [OF assms(1)] assms(2) by auto
  then have "without k (pairs m us) = pairs m us" "without k (pairs m vs) = pairs m vs"
    by (auto simp: without_def filter_id_conv)
  then show ?thesis using assms(2) by (simp add: without_def)
qed

text \<open>Freeing an object that is not in the table.\<close>

lemma ght_inv_free:
  assumes "ght_inv t m bs as" and "a \<notin> set as"
  shows "ght_inv t (m\<lparr>entries := free_at a (entries m)\<rparr>) bs as"
  using assms(1)
proof (rule ght_inv_other)
  show "entries (m\<lparr>entries := free_at a (entries m)\<rparr>) c = entries m c" if "c \<in> set as" for c
    using that assms(2) by auto
  show "c < brk (m\<lparr>entries := free_at a (entries m)\<rparr>)" if "entries (m\<lparr>entries := free_at a (entries m)\<rparr>) c \<noteq> None" for c
    using that ght_invD(7) [OF assms(1), of c] by (auto split: if_splits)
qed

lemma ages_ok_part:
  assumes "ages_ok t m (us @ a # vs)" and "dlist (newers m') (olders m') (p_oldest t') (us @ vs) (p_newest t')" and "keys m' = keys m"
  shows "ages_ok t' m' (us @ vs)"
  using assms by (auto simp: ages_ok_def inj_on_def)

lemma unlinked_bound:
  assumes "unlinked e m m'" and "\<forall>c. entries m' c = None \<longleftrightarrow> entries m c = None" and "\<And>a. entries m a \<noteq> None \<Longrightarrow> a < brk m" and "entries m' a \<noteq> None"
  shows "a < brk m'"
  using assms by (simp add: unlinked_def)

lemma unlink_inv:
  assumes i: "ght_inv t m bs (us @ a # vs)" and l: "l < i_size_t t" and bl: "bs ! l = ys @ a # zs"
    and e: "entries m a = Some e"
    and n: "n = (p_nr t)[l := p_nr t ! l + - 1]"
  shows "\<exists>t' m'. remove_from_chain t m l a = Some (t', m') \<and> unlinked e m m' \<and> p_nr t' = p_nr t \<and> i_items t' = i_items t \<and>
    ght_inv (t'\<lparr>i_items := i_items t - 1, p_nr := n\<rparr>) m' (bs[l := ys @ zs]) (us @ vs) \<and>
    same_config t t' \<and> same_size t t' \<and> (\<forall>c. entries m' c = None \<longleftrightarrow> entries m c = None)"
proof -
  obtain t' m' where r: "remove_from_chain t m l a = Some (t', m')" "unlinked e m m'"
      "buckets_ok t' m' (bs[l := ys @ zs])" "dlist (newers m') (olders m') (p_oldest t') (us @ vs) (p_newest t')"
      "\<forall>c. entries m' c = None \<longleftrightarrow> entries m c = None"
    and t': "t' = t\<lparr>pp_entries := pp_entries t', p_oldest := p_oldest t', p_newest := p_newest t'\<rparr>"
    using remove_from_chain_run [OF e ght_invD(2) [OF i] l bl ght_invD(11) [OF i] ght_invD(8) [OF i]] by blast
  have st: "i_size_t t' = i_size_t t" "i_size_mask t' = i_size_mask t" "p_nr t' = p_nr t" "i_items t' = i_items t" "same_config t t'"
    unfolding same_config_def by (subst t', simp)+
  have km: "keys m' = keys m" using r(2) by (simp add: unlinked_def)
  let ?t = "t'\<lparr>i_items := i_items t - 1, p_nr := n\<rparr>"
  have "ght_inv ?t m' (bs[l := ys @ zs]) (us @ vs)"
  proof (rule ght_inv_intro)
    show "size_ok ?t" using ght_invD(1) [OF i] st by (simp add: size_ok_def)
    show "buckets_ok ?t m' (bs[l := ys @ zs])" using r(3) by (simp add: buckets_ok_def l_key_def)
    show "ages_ok ?t m' (us @ vs)" using ages_ok_part [OF ght_invD(3) [OF i] _ km, of ?t] r(4) by simp
    show "set (us @ vs) = \<Union> (set ` set (bs[l := ys @ zs]))"
    proof -
      have lb: "l < length bs" using l ght_invD(12) [OF i] by simp
      define R where "R = (\<Union>j \<in> {..<length bs} - {l}. set (bs ! j))"
      have "a \<notin> R"
      proof
        assume "a \<in> R"
        then obtain j where "j < length bs" "j \<noteq> l" "a \<in> set (bs ! j)" by (auto simp: R_def)
        then show False using bucket_disjoint [OF ght_invD(2) [OF i] l, of j a] bl ght_invD(12) [OF i] by simp
      qed
      moreover have "insert a (set us \<union> set vs) = insert a (set ys \<union> set zs \<union> R)"
        using Union_split [OF lb] ght_invD(4) [OF i] bl by (simp add: R_def)
      moreover have "a \<notin> set us \<union> set vs" "a \<notin> set ys \<union> set zs"
        using ght_invD(8) [OF i] buckets_okD(2) [OF ght_invD(2) [OF i] l] bl by auto
      ultimately have "set us \<union> set vs = set ys \<union> set zs \<union> R"
        using insert_ident [of a "set us \<union> set vs" "set ys \<union> set zs \<union> R"] by blast
      then show ?thesis using Union_update [OF lb, of "ys @ zs"] by (simp add: R_def)
    qed
    show "p_nr ?t = map (\<lambda>b. int (length b)) (bs[l := ys @ zs])"
      using ght_invD(5,12) [OF i] l bl n by (simp add: map_update)
    show "i_items ?t = length (us @ vs)" using ght_invD(6) [OF i] by simp
  qed (rule unlinked_bound [OF r(2,5) ght_invD(7) [OF i]])
  then show ?thesis using r(1,2,5) st by (auto simp: same_size_def)
qed

lemma ght_remove_run:
  assumes i: "ght_inv t m bs as"
  shows "\<exists>bs' as' t' m'. ght_remove t m k = Some (data_of (pairs m as) k, t', m') \<and> ght_inv t' m' bs' as' \<and>
    pairs m' as' = without k (pairs m as) \<and> brk m' = brk m \<and> bucket_freed m' = bucket_freed m \<and>
    same_config t t' \<and> same_size t t'"
proof -
  let ?l = "l_key t (hk_fill k)"
  have l: "?l < i_size_t t" using l_key_bound [OF i] .
  note ch = check_head_buckets [OF ght_invD(2) [OF i] l] and s = search_plain [OF i, of k]
  show ?thesis
  proof (cases "entry_of m as k")
    case None
    then have "ght_remove t m k = Some (data_of (pairs m as) k, t, m)"
      using s ch pairs_lookup [OF i, of k] by (simp add: ght_remove_def data_of_def Let_def)
    moreover have "k \<notin> fst ` set (pairs m as)"
      using None pairs_lookup [OF i, of k] by (simp add: map_of_eq_None_iff [symmetric])
    then have "without k (pairs m as) = pairs m as" by (auto simp: without_def filter_id_conv)
    ultimately show ?thesis using i by (metis same_config_refl same_size_refl)
  next
    case (Some a)
    then have a: "a \<in> set as" "keys m a = Some (hk_fill k)" using entry_of_Some by blast+
    obtain us vs where as: "as = us @ a # vs" using split_list [OF a(1)] by auto
    have "a \<in> set (bs ! ?l)" using a in_bucket(1) [OF ght_invD(2) [OF i]] ght_invD(4) [OF i] by auto
    then obtain ys zs where bl: "bs ! ?l = ys @ a # zs" using split_list by metis
    obtain e where e: "entries m a = Some e" using entry_live [OF i a(1)] by blast
    obtain t1 m1 where r: "remove_from_chain t m ?l a = Some (t1, m1)" "unlinked e m m1" "p_nr t1 = p_nr t" "i_items t1 = i_items t"
        "ght_inv (t1\<lparr>i_items := i_items t - 1, p_nr := (p_nr t)[?l := p_nr t ! ?l + - 1]\<rparr>) m1 (bs[?l := ys @ zs]) (us @ vs)"
        "same_config t t1" "same_size t t1" "\<forall>c. entries m1 c = None \<longleftrightarrow> entries m c = None"
      using unlink_inv [OF i [unfolded as] l bl e refl] by blast
    let ?t = "t1\<lparr>i_items := i_items t - 1, p_nr := (p_nr t)[?l := p_nr t ! ?l + - 1]\<rparr>"
    let ?m = "m1\<lparr>entries := free_at a (entries m1)\<rparr>"
    obtain e1 where e1: "entries m1 a = Some e1" using r(8) e by (metis not_None_eq)
    have "datas m a = Some (p_data e1)" using r(2) e1 by (simp add: unlinked_def) (metis datas_def option.map(2))
    then have run: "ght_remove t m k = Some (data_of (pairs m as) k, ?t, ?m)"
      using s ch pairs_lookup [OF i, of k] Some r(1,3,4) e1 ght_invD(5,12) [OF i] l
      by (simp add: ght_remove_def data_of_def Let_def add_count_def he_finalize_def)
    have na: "a \<notin> set (us @ vs)" using ght_invD(8) [OF i] as by auto
    have inv: "ght_inv ?t ?m (bs[?l := ys @ zs]) (us @ vs)" by (rule ght_inv_free [OF r(5) na])
    have "pairs ?m (us @ vs) = pairs m (us @ vs)"
    proof (rule pairs_cong)
      fix c assume "c \<in> set (us @ vs)"
      then have "c \<noteq> a" using na by auto
      then have "entries ?m c = entries m1 c" by simp
      then show "keys ?m c = keys m c \<and> datas ?m c = datas m c"
        using r(2) entries_cong [of ?m c m1] by (simp add: unlinked_def)
    qed
    also have "\<dots> = without k (pairs m as)"
      using without_split [OF i [unfolded as], of k] a(2) as by (simp add: pair_at_def hk_fill_def)
    finally have "pairs ?m (us @ vs) = without k (pairs m as)" .
    moreover have "same_config t ?t \<and> same_size t ?t" using r(6,7) by (simp add: same_config_def same_size_def)
    moreover have "brk ?m = brk m \<and> bucket_freed ?m = bucket_freed m" using r(2) by (simp add: unlinked_def)
    ultimately show ?thesis using run inv by blast
  qed
qed

end
