(* ===== verification/GhtInsert.thy ===== *)
theory GhtInsert
  imports GhtChange
begin

text \<open>
  Adding an entry to a libghthash table: pushing it to the front of its bucket, evicting the last
  entry of a full bucket, and making it the newest.
\<close>

section \<open>The steps\<close>

text \<open>A new entry is allocated and in no list.\<close>

definition fresh_entry :: "ght_mem \<Rightarrow> addr \<Rightarrow> ptr \<Rightarrow> byte list \<Rightarrow> bool" where
  "fresh_entry m a d k \<longleftrightarrow> keys m a = Some (hk_fill k) \<and> datas m a = Some d \<and> newers m a = Some None"

lemma fresh_live: "fresh_entry m a d k \<Longrightarrow> live (Some a) m"
  by (auto simp: fresh_entry_def live_def keys_def)

lemma push_entry_run:
  assumes b: "buckets_ok t m bs" and l: "l < i_size_t t" and a: "live (Some a) m"
    and out: "\<And>j. j < i_size_t t \<Longrightarrow> a \<notin> set (bs ! j)" and k: "keys m a = Some k" "l_key t k = l"
  shows "\<exists>t' m'. push_entry t m l a = Some (t', m') \<and> buckets_ok t' m' (bs[l := a # bs ! l]) \<and>
    t' = t\<lparr>pp_entries := pp_entries t'\<rparr> \<and> same_contents m m' \<and> only (insert a (set (bs ! l))) m m'"
proof -
  obtain z where d: "dlist (nexts m) (prevs m) (pp_entries t ! l) (bs ! l) z" using buckets_okD(1) [OF b l] by auto
  let ?h = "pp_entries t ! l"
  have hb: "?h = Some c \<Longrightarrow> c \<in> set (bs ! l)" for c using dlist_first [OF d] by (auto split: list.splits)
  have lv: "live ?h m" using hb dseg_live [OF d] by (fastforce simp: live_def field_defs)
  let ?m = "upd ?h (p_prev_update (\<lambda>_. Some a)) (upd (Some a) (p_prev_update (\<lambda>_. None)) (upd (Some a) (p_next_update (\<lambda>_. ?h)) m))"
  let ?t = "t\<lparr>pp_entries := (pp_entries t)[l := Some a]\<rparr>"
  have run: "push_entry t m l a = Some (?t, ?m)"
    using a lv buckets_okD(4) [OF b l]
    by (simp add: push_entry_def bucket_head_def set_bucket_head_def set_field_upd)
  have n: "nexts ?m = (nexts m)(a \<mapsto> ?h)" and p: "prevs ?m = relink ?h (Some a) ((prevs m)(a \<mapsto> None))" and q: "keys ?m = keys m"
    using a lv by simp_all
  have "dlist (nexts ?m) ((prevs m)(a \<mapsto> None)) ?h (bs ! l) z" using d out [OF l] n by simp
  from dlist_push [OF this, of a]
  have new: "dlist (nexts ?m) (prevs ?m) (Some a) (a # bs ! l) (if bs ! l = [] then Some a else z)"
    using buckets_okD(2) [OF b l] out [OF l] n p by simp
  then have "buckets_ok ?t ?m (bs[l := a # bs ! l])"
  proof (rule buckets_ok_change [OF b l])
    show "distinct (a # bs ! l)" using buckets_okD(2) [OF b l] out [OF l] by simp
    show "\<exists>k. keys ?m c = Some k \<and> l_key t k = l" if "c \<in> set (a # bs ! l)" for c
      using that k buckets_okD(3) [OF b l] unfolding q by auto
    fix j c assume j: "j < i_size_t t" "j \<noteq> l" "c \<in> set (bs ! j)"
    then have "c \<notin> set (bs ! l)" using bucket_disjoint [OF b l] by blast
    moreover have "c \<noteq> a" using out [OF j(1)] j(3) by auto
    moreover have "?h \<noteq> Some c" using hb [of c] calculation(1) by blast
    ultimately show "nexts ?m c = nexts m c \<and> prevs ?m c = prevs m c \<and> keys ?m c = keys m c"
      unfolding n p q by (simp add: relink_other)
  qed simp_all
  moreover have "only (insert a (set (bs ! l))) m ?m"
    using hb by (auto simp: only_def)
  ultimately show ?thesis using run by (intro exI [of _ ?t] exI [of _ ?m]) simp
qed

lemma append_age_run:
  assumes d: "dlist (newers m) (olders m) (p_oldest t) as (p_newest t)" and as: "distinct (a # as)"
    and a: "live (Some a) m" and n: "newers m a = Some None"
  shows "\<exists>t' m'. append_age t m a = Some (t', m') \<and>
    dlist (newers m') (olders m') (p_oldest t') (as @ [a]) (p_newest t') \<and>
    t' = t\<lparr>p_oldest := p_oldest t', p_newest := p_newest t'\<rparr> \<and> nexts m' = nexts m \<and> prevs m' = prevs m \<and>
    keys m' = keys m \<and> datas m' = datas m \<and> brk m' = brk m \<and> bucket_freed m' = bucket_freed m \<and>
    (\<forall>c. entries m' c = None \<longleftrightarrow> entries m c = None) \<and> only (insert a (set as)) m m'"
proof -
  have last: "p_newest t = (if as = [] then None else Some (last as))" using dlist_last [OF d] .
  have first: "p_oldest t = None \<longleftrightarrow> as = []" using dlist_first [OF d] by (auto split: list.splits)
  have nb: "p_newest t = Some c \<Longrightarrow> c \<in> set as" for c using last last_in_set [of as] by (auto split: if_splits)
  have lv: "live (p_newest t) m" using nb dseg_live [OF d] by (fastforce simp: live_def field_defs)
  let ?m = "upd (p_newest t) (p_newer_update (\<lambda>_. Some a)) (upd (Some a) (p_older_update (\<lambda>_. p_newest t)) m)"
  let ?t = "t\<lparr>p_oldest := (if as = [] then Some a else p_oldest t), p_newest := Some a\<rparr>"
  have run: "append_age t m a = Some (?t, ?m)"
    using a lv first by (cases "as = []") (simp_all add: append_age_def set_field_upd Let_def)
  have f: "newers ?m = relink (p_newest t) (Some a) (newers m)" "olders ?m = (olders m)(a \<mapsto> p_newest t)"
    using a lv by simp_all
  have "dlist (newers m) (olders ?m) (p_oldest t) as (p_newest t)" using d as f by simp
  from dlist_append [OF this as, of] have "dlist (newers ?m) (olders ?m) (p_oldest ?t) (as @ [a]) (p_newest ?t)"
    using n f by simp
  moreover have "only (insert a (set as)) m ?m" using nb by (auto simp: only_def)
  ultimately show ?thesis using run a lv by (intro exI [of _ ?t] exI [of _ ?m]) simp
qed

text \<open>A bucket that is not full, or not bounded, grows.\<close>

definition roomy :: "ght_hash_table \<Rightarrow> addr list list \<Rightarrow> nat \<Rightarrow> bool" where
  "roomy t bs l \<longleftrightarrow> bucket_limit t = 0 \<or> length (bs ! l) < bucket_limit t"

lemma bound_bucket_roomy:
  assumes "buckets_ok t m bs" and "l < i_size_t t" and "l < length (p_nr t)" and "p_nr t ! l = int n"
    and "bucket_limit t = 0 \<or> n < bucket_limit t"
  shows "bound_bucket t m l = Some (t\<lparr>p_nr := (p_nr t)[l := int n + 1], i_items := i_items t + 1\<rparr>, m)"
proof -
  have "check_head (t\<lparr>p_nr := (p_nr t)[l := int n + 1]\<rparr>) m l = check_head t m l"
    by (simp add: check_head_def head_is_first_def bucket_head_def)
  moreover have "\<not> (bucket_limit t \<noteq> 0 \<and> int (bucket_limit t) \<le> int n mod 2 ^ 32)"
    using assms(5) zmod_le_nonneg_dividend [of "int n" "2 ^ 32"] by linarith
  ultimately show ?thesis
    using assms(3,4) check_head_buckets [OF assms(1,2)]
    by (auto simp: bound_bucket_def count_at_def add_count_def)
qed

section \<open>Linking a new entry\<close>

lemma ages_ok_new:
  assumes "ages_ok t m as" and "dlist (newers m') (olders m') (p_oldest t') (as @ [a]) (p_newest t')"
    and "keys m' = keys m" and "a \<notin> set as" and "keys m a = Some (hk_fill k)" and "entry_of m as k = None"
  shows "ages_ok t' m' (as @ [a])"
  unfolding ages_ok_def
proof (intro conjI)
  have i: "inj_on (keys m) (set as)" using assms(1) by (simp add: ages_ok_def)
  have "keys m a \<notin> keys m ` set as" using assms(5,6) by (auto simp: entry_of_None)
  then show "inj_on (keys m') (set (as @ [a]))"
    using i assms(3) inj_on_insert [of "keys m" a "set as"] assms(4) by (simp add: Diff_triv)
qed (use assms in \<open>auto simp: ages_ok_def\<close>)

lemma link_roomy:
  assumes i: "ght_inv t m bs as" and f: "fresh_entry m a d k" and a: "a \<notin> set as" and k: "entry_of m as k = None"
    and l: "l = l_key t (hk_fill k)" and r: "roomy t bs l"
  shows "\<exists>t1 m1 t2 t3 m3. push_entry t m l a = Some (t1, m1) \<and> bound_bucket t1 m1 l = Some (t2, m1) \<and>
    append_age t2 m1 a = Some (t3, m3) \<and> ght_inv t3 m3 (bs[l := a # bs ! l]) (as @ [a]) \<and>
    keys m3 = keys m \<and> datas m3 = datas m \<and> brk m3 = brk m \<and> bucket_freed m3 = bucket_freed m \<and>
    same_config t t3 \<and> same_size t t3 \<and> only (insert a (set as)) m m3"
proof -
  have ll: "l < i_size_t t" using l_key_bound [OF i] l by simp
  note b = ght_invD(2) [OF i]
  have fk: "keys m a = Some (hk_fill k)" "newers m a = Some None" using f by (simp_all add: fresh_entry_def)
  have out: "a \<notin> set (bs ! j)" if "j < i_size_t t" for j using bucket_sub [OF i that] a by blast
  obtain t1 m1 where p: "push_entry t m l a = Some (t1, m1)" "buckets_ok t1 m1 (bs[l := a # bs ! l])"
      "same_contents m m1" "only (insert a (set (bs ! l))) m m1" and t1: "t1 = t\<lparr>pp_entries := pp_entries t1\<rparr>"
    using push_entry_run [OF b ll fresh_live [OF f] out fk(1)] l by metis
  note st1 = only_entries [OF t1]
  have sz1: "i_size_t t1 = i_size_t t" "i_size_mask t1 = i_size_mask t" "bucket_limit t1 = bucket_limit t"
    using st1 by (simp_all add: same_size_def same_config_def)
  let ?n = "length (bs ! l)"
  have nr: "l < length (p_nr t1)" "p_nr t1 ! l = int ?n"
    using st1 ght_invD(5,12) [OF i] ll by simp_all
  let ?t2 = "t1\<lparr>p_nr := (p_nr t1)[l := int ?n + 1], i_items := i_items t1 + 1\<rparr>"
  have bb: "bound_bucket t1 m1 l = Some (?t2, m1)"
    using bound_bucket_roomy [OF p(2) _ nr] ll r sz1 by (simp add: roomy_def)
  have "dlist (newers m1) (olders m1) (p_oldest ?t2) as (p_newest ?t2)" "newers m1 a = Some None" "live (Some a) m1"
    using ght_invD(11) [OF i] p(3) st1 fk(2) fresh_live [OF f] by (simp_all add: same_contents_def live_def)
  from append_age_run [OF this(1) _ this(3,2)] ght_invD(8) [OF i] a
  obtain t3 m3 where q: "append_age ?t2 m1 a = Some (t3, m3)"
      "dlist (newers m3) (olders m3) (p_oldest t3) (as @ [a]) (p_newest t3)"
      "nexts m3 = nexts m1" "prevs m3 = prevs m1" "keys m3 = keys m1" "datas m3 = datas m1" "brk m3 = brk m1"
      "bucket_freed m3 = bucket_freed m1" "\<forall>c. entries m3 c = None \<longleftrightarrow> entries m1 c = None" "only (insert a (set as)) m1 m3"
    and t3: "t3 = ?t2\<lparr>p_oldest := p_oldest t3, p_newest := p_newest t3\<rparr>" by auto
  have g: "pp_entries t3 = pp_entries t1" "i_size_t t3 = i_size_t t" "i_size_mask t3 = i_size_mask t" "fn_hash t3 = fn_hash t1"
    "p_nr t3 = (p_nr t)[l := int ?n + 1]" "i_items t3 = i_items t + 1" "same_config t t3" "same_size t t3"
    using st1 sz1 by (subst t3, simp add: same_config_def same_size_def)+
  have km: "keys m1 = keys m" "datas m1 = datas m" "brk m1 = brk m" "bucket_freed m1 = bucket_freed m" using p(3) by (simp_all add: same_contents_def)
  have inv: "ght_inv t3 m3 (bs[l := a # bs ! l]) (as @ [a])"
  proof (rule ght_inv_intro)
    show "size_ok t3" using ght_invD(1) [OF i] size_ok_cong [OF g(2,3)] by simp
    have "l_key t3 x = l_key t1 x" for x by (rule l_key_cong) (simp_all add: g sz1)
    then show "buckets_ok t3 m3 (bs[l := a # bs ! l])" using p(2) q(3,4,5) g(1,2) sz1 by (simp add: buckets_ok_def)
    show "ages_ok t3 m3 (as @ [a])"
      using ages_ok_new [OF ght_invD(3) [OF i] q(2) _ a fk(1) k] q(5) km by simp
    have lb: "l < length bs" using ll ght_invD(12) [OF i] by simp
    show "set (as @ [a]) = \<Union> (set ` set (bs[l := a # bs ! l]))"
      unfolding Union_update [OF lb] using ght_invD(4) [OF i] Union_split [OF lb] by simp
    show "p_nr t3 = map (\<lambda>b. int (length b)) (bs[l := a # bs ! l])"
      using g(5) ght_invD(5) [OF i] by (simp add: map_update add.commute)
    show "i_items t3 = length (as @ [a])" using g(6) ght_invD(6) [OF i] by simp
    fix c assume "entries m3 c \<noteq> None"
    then have "entries m c \<noteq> None" using q(9) p(3) unfolding same_contents_def by metis
    then show "c < brk m3" using ght_invD(7) [OF i] q(7) km by simp
  qed
  have "only (insert a (set as)) m m3"
    by (rule only_trans [OF _ q(10)]) (use p(4) bucket_sub [OF i ll] in \<open>auto simp: only_def\<close>)
  then show ?thesis using p(1) bb q(1,5-8) inv km g(7,8) by auto
qed

end
