(* ===== verification/GhtRehash.thy ===== *)
theory GhtRehash
  imports GhtInsert
begin

text \<open>
  Insertion of a new key, iteration in the order of insertion, and rehashing: the loop of
  \<open>ght_rehash\<close> copies the pairs of the old table up to the first one without data, and the entries of
  the old table are freed.
\<close>

section \<open>Inserting without rehashing\<close>

text \<open>The memory after \<open>he_create\<close>.\<close>

definition created :: "ght_mem \<Rightarrow> ptr \<Rightarrow> byte list \<Rightarrow> ght_mem" where
  "created m d k =
     m\<lparr>entries := (entries m)(brk m \<mapsto> \<lparr>p_data = d, p_next = None, p_prev = None, p_older = None,
         p_newer = None, key = hk_fill k\<rparr>), brk := Suc (brk m)\<rparr>"

lemma he_create_eq: "he_create t m d k = (if fn_alloc t (ENTRY_SIZE + length k) then (Some (brk m), created m d k) else (None, m))"
  by (simp add: he_create_def created_def)

lemma created_simps [simp]:
  "keys (created m d k) = (keys m)(brk m \<mapsto> hk_fill k)" "datas (created m d k) = (datas m)(brk m \<mapsto> d)"
  "brk (created m d k) = Suc (brk m)" "bucket_freed (created m d k) = bucket_freed m"
  "c \<noteq> brk m \<Longrightarrow> entries (created m d k) c = entries m c"
  by (auto simp: created_def field_defs fun_eq_iff)

lemma fresh_created: "fresh_entry (created m d k) (brk m) d k"
  by (simp add: fresh_entry_def) (simp add: created_def newers_def)

lemma brk_out: "ght_inv t m bs as \<Longrightarrow> brk m \<notin> set as"
  using entry_live ght_invD(7) by blast

lemma created_inv:
  assumes i: "ght_inv t m bs as"
  shows "ght_inv t (created m d k) bs as" and "entry_of (created m d k) as j = entry_of m as j"
    and "pairs (created m d k) as = pairs m as"
proof -
  have ne: "c \<noteq> brk m" if "c \<in> set as" for c using that brk_out [OF i] by blast
  show "ght_inv t (created m d k) bs as"
    using i
  proof (rule ght_inv_other)
    fix c assume "entries (created m d k) c \<noteq> None"
    then show "c < brk (created m d k)" using ght_invD(7) [OF i, of c] by (cases "c = brk m") auto
  qed (use ne in simp)
  show "entry_of (created m d k) as j = entry_of m as j"
    unfolding entry_of_def by (rule find_cong) (use ne in auto)
  show "pairs (created m d k) as = pairs m as" by (rule pairs_cong) (use ne in auto)
qed

text \<open>The outcome of an insertion that adds a pair, for the table and for the rest of the memory.\<close>

definition added :: "ght_hash_table \<Rightarrow> ght_mem \<Rightarrow> addr list \<Rightarrow> ptr \<Rightarrow> byte list \<Rightarrow> ght_hash_table \<Rightarrow> ght_mem \<Rightarrow> bool" where
  "added t m as d k t' m' \<longleftrightarrow>
     (\<exists>bs'. ght_inv t' m' bs' (as @ [brk m])) \<and> keys m' = (keys m)(brk m \<mapsto> hk_fill k) \<and>
     datas m' = (datas m)(brk m \<mapsto> d) \<and> brk m' = Suc (brk m) \<and> bucket_freed m' = bucket_freed m \<and>
     same_config t t' \<and> same_size t t' \<and> only (set as) m m'"

lemma insert_new_run:
  assumes i: "ght_inv t m bs as" and al: "fn_alloc t (ENTRY_SIZE + length k)" and k: "entry_of m as k = None"
    and nr: "\<not> (i_automatic_rehash t \<and> 2 * i_size_t t < i_items t)" and r: "roomy t bs (l_key t (hk_fill k))"
  shows "\<exists>t' m'. insert_body R t m d k = Some (0, t', m') \<and> added t m as d k t' m'"
proof -
  let ?l = "l_key t (hk_fill k)" and ?m = "created m d k"
  note c = created_inv [OF i, where d = d and k = k]
  obtain t1 m1 t2 t3 m3 where s: "push_entry t ?m ?l (brk m) = Some (t1, m1)" "bound_bucket t1 m1 ?l = Some (t2, m1)"
      "append_age t2 m1 (brk m) = Some (t3, m3)" and v: "ght_inv t3 m3 (bs[?l := brk m # bs ! ?l]) (as @ [brk m])"
      "keys m3 = keys ?m" "datas m3 = datas ?m" "brk m3 = brk ?m" "bucket_freed m3 = bucket_freed ?m"
      "same_config t t3" "same_size t t3" "only (insert (brk m) (set as)) ?m m3"
    using link_roomy [OF c(1) fresh_created brk_out [OF i] _ refl r] c(2) k by (simp only: refl) blast
  have "insert_body R t m d k = Some (0, t3, m3)"
    using search_plain [OF i, of k] k al nr s by (auto simp: insert_body_def he_create_eq Let_def)
  moreover have "only (set as) m m3" using v(8) by (auto simp: only_def)
  then have "added t m as d k t3 m3" using v by (auto simp: added_def)
  ultimately show ?thesis by blast
qed

lemma added_pairs:
  assumes "ght_inv t m bs as" and "added t m as d k t' m'"
  shows "pairs m' (as @ [brk m]) = pairs m as @ [(k, d)]"
proof -
  have "pairs m' as = pairs m as"
    by (rule pairs_cong) (use assms(2) brk_out [OF assms(1)] in \<open>auto simp: added_def\<close>)
  then show ?thesis using assms(2) by (simp add: added_def pair_at_def hk_fill_def)
qed

lemma insert_old_run:
  assumes "ght_inv t m bs as" and "entry_of m as k = Some a"
  shows "insert_body R t m d k = Some (- 1, t, m)"
  using search_plain [OF assms(1), of k] assms(2) by (simp add: insert_body_def)

lemma insert_refused_run:
  assumes "ght_inv t m bs as" and "entry_of m as k = None" and "\<not> fn_alloc t (ENTRY_SIZE + length k)"
  shows "insert_body R t m d k = Some (- 2, t, m)"
  using search_plain [OF assms(1), of k] assms(2,3) by (simp add: insert_body_def he_create_eq)

section \<open>Iterating\<close>

text \<open>What a step of an iteration returns when the entries \<open>as\<close> are left.\<close>

fun visit :: "ght_mem \<Rightarrow> addr list \<Rightarrow> ptr \<times> ght_hash_key option \<times> ght_iterator" where
  "visit m [] = (None, None, \<lparr>it_entry = None, it_next = None\<rparr>)"
| "visit m (a # as) =
     (the (datas m a), keys m a, \<lparr>it_entry = Some a, it_next = (case as of [] \<Rightarrow> None | b # _ \<Rightarrow> Some b)\<rparr>)"

lemma visit_entry:
  assumes "dlist (newers m) (olders m) p (ys @ a # zs) z"
  shows "\<exists>e. entries m a = Some e \<and> visit m (a # zs) = (p_data e, Some (key e), \<lparr>it_entry = Some a, it_next = p_newer e\<rparr>)"
proof -
  obtain e where e: "entries m a = Some e" using dseg_live [OF assms, of a] by (auto simp: field_defs)
  then have "newers m a = Some (p_newer e)" by (simp add: newers_def)
  from dlist_at(6) [OF assms this] show ?thesis using e by (simp add: datas_def keys_def)
qed

lemma first_keysize_run:
  assumes "dlist (newers m) (olders m) (p_oldest t) as (p_newest t)"
  shows "first_keysize t m = Some (visit m as)"
proof (cases as)
  case Nil
  then show ?thesis using assms by (simp add: first_keysize_def)
next
  case (Cons a zs)
  then have "dlist (newers m) (olders m) (p_oldest t) ([] @ a # zs) (p_newest t)" using assms by simp
  from visit_entry [OF this] obtain e where e: "entries m a = Some e"
    "visit m (a # zs) = (p_data e, Some (key e), \<lparr>it_entry = Some a, it_next = p_newer e\<rparr>)" by blast
  moreover have "p_oldest t = Some a" using assms Cons by simp
  ultimately show ?thesis unfolding Cons e(2) by (simp add: first_keysize_def)
qed

lemma next_keysize_run:
  assumes "dlist (newers m) (olders m) p (ys @ a # zs) z"
  shows "next_keysize m \<lparr>it_entry = x, it_next = (case zs of [] \<Rightarrow> None | b # _ \<Rightarrow> Some b)\<rparr> = Some (visit m zs)"
proof (cases zs)
  case Nil
  then show ?thesis by (simp add: next_keysize_def)
next
  case (Cons b us)
  then have "dlist (newers m) (olders m) p ((ys @ [a]) @ b # us) z" using assms by simp
  from visit_entry [OF this] obtain e where e: "entries m b = Some e"
    "visit m (b # us) = (p_data e, Some (key e), \<lparr>it_entry = Some b, it_next = p_newer e\<rparr>)" by blast
  then show ?thesis unfolding Cons e(2) by (simp add: next_keysize_def)
qed

section \<open>Freeing\<close>

lemma free_entry_chain_run:
  assumes "dseg (nexts m) (prevs m) q p xs z None" and "distinct xs"
  shows "free_entry_chain m p = Some (m\<lparr>entries := (\<lambda>a. if a \<in> set xs then None else entries m a)\<rparr>)"
  using assms
proof (induction xs arbitrary: q p m)
  case Nil
  then show ?case by (subst free_entry_chain.simps) simp
next
  case (Cons a xs)
  obtain e where e: "p = Some a" "entries m a = Some e" "dseg (nexts m) (prevs m) (Some a) (p_next e) xs z None"
    using Cons.prems(1) by (auto simp: nexts_def)
  let ?m = "m\<lparr>entries := free_at a (entries m)\<rparr>"
  have "dseg (nexts ?m) (prevs ?m) (Some a) (p_next e) xs z None = dseg (nexts m) (prevs m) (Some a) (p_next e) xs z None"
    by (rule dseg_cong) (use Cons.prems(2) in \<open>auto simp: field_defs\<close>)
  then have "free_entry_chain ?m (p_next e) = Some (?m\<lparr>entries := (\<lambda>b. if b \<in> set xs then None else entries ?m b)\<rparr>)"
    using Cons.IH [of ?m] e(3) Cons.prems(2) by simp
  moreover have "?m\<lparr>entries := (\<lambda>b. if b \<in> set xs then None else entries ?m b)\<rparr> =
      m\<lparr>entries := (\<lambda>b. if b \<in> set (a # xs) then None else entries m b)\<rparr>"
    by (auto simp: fun_eq_iff)
  ultimately show ?case using e(1,2) by (subst free_entry_chain.simps) (simp add: he_finalize_def)
qed

lemma free_buckets_run:
  assumes "list_all2 (\<lambda>p b. \<exists>z. dlist (nexts m) (prevs m) p b z) ps bs" and "distinct (concat bs)"
  shows "free_buckets ps m = Some (m\<lparr>entries := (\<lambda>a. if a \<in> set (concat bs) then None else entries m a)\<rparr>)"
  using assms(2) assms(1)
proof (induction bs arbitrary: ps m)
  case Nil
  from Nil.prems(2) have "ps = []" by simp
  then show ?case by simp
next
  case (Cons b bs)
  obtain p qs z where ps: "ps = p # qs" and z: "dlist (nexts m) (prevs m) p b z"
    and r: "list_all2 (\<lambda>p b. \<exists>z. dlist (nexts m) (prevs m) p b z) qs bs"
    using Cons.prems(2) unfolding list_all2_Cons2 by blast
  let ?m = "m\<lparr>entries := (\<lambda>a. if a \<in> set b then None else entries m a)\<rparr>"
  have f: "free_entry_chain m p = Some ?m" using free_entry_chain_run [OF z] Cons.prems(1) by simp
  have same: "dlist (nexts ?m) (prevs ?m) q c y = dlist (nexts m) (prevs m) q c y" if "c \<in> set bs" for q c y
    by (rule dseg_cong) (use that Cons.prems(1) in \<open>auto simp: field_defs\<close>)
  have "list_all2 (\<lambda>p b. \<exists>z. dlist (nexts ?m) (prevs ?m) p b z) qs bs"
    using r by (auto simp: list_all2_conv_all_nth same)
  from Cons.IH [OF _ this] Cons.prems(1)
  have "free_buckets qs ?m = Some (?m\<lparr>entries := (\<lambda>a. if a \<in> set (concat bs) then None else entries ?m a)\<rparr>)"
    by simp
  moreover have "?m\<lparr>entries := (\<lambda>a. if a \<in> set (concat bs) then None else entries ?m a)\<rparr> =
      m\<lparr>entries := (\<lambda>a. if a \<in> set (concat (b # bs)) then None else entries m a)\<rparr>"
    by (auto simp: fun_eq_iff)
  ultimately show ?case using ps f by simp
qed

end
