(* ===== verification/GhtGrow.thy ===== *)
theory GhtGrow
  imports GhtRehash
begin

unbundle bit_operations_syntax

text \<open>
  Creating a table, rehashing it, and inserting into a table that rehashes itself when it has more than
  twice as many entries as buckets.
\<close>

section \<open>Creating\<close>

lemma create_loop_run:
  assumes "n \<le> 2 ^ 30" and "sz = 2 ^ (i - 1)" and "1 \<le> i" and "i \<le> 31"
  shows "\<exists>j. create_loop n sz i = Some (2 ^ (j - 1), j) \<and> 1 \<le> j \<and> j \<le> 31"
  using assms
proof (induction n sz i rule: create_loop.induct)
  case (1 n sz i)
  show ?case
  proof (cases "sz < n")
    case True
    then have "(2::nat) ^ (i - 1) < 2 ^ 30" using "1.prems" by simp
    then have "i - 1 < 30" by (rule power_less_imp_less_exp [rotated]) simp
    then have "i < 31" by simp
    moreover from this True have "\<exists>j. create_loop n (2 ^ i) (i + 1) = Some (2 ^ (j - 1), j) \<and> 1 \<le> j \<and> j \<le> 31"
      using "1.IH" "1.prems" by simp
    ultimately show ?thesis using True by (subst create_loop.simps) simp
  next
    case False
    then show ?thesis using "1.prems" by (subst create_loop.simps) auto
  qed
qed

lemma word_mask: "k < 32 \<Longrightarrow> (word_of_nat (2 ^ k - 1) :: 32 word) = mask k"
  by (simp add: mask_eq_exp_minus_1 of_nat_diff)

lemma replicate_buckets:
  "length xs = n \<Longrightarrow> xs = replicate n None \<Longrightarrow> pp_entries t = xs \<Longrightarrow> i_size_t t = n \<Longrightarrow> buckets_ok t m (replicate n [])"
  by (auto simp: buckets_ok_def)

definition no_blocks :: "ght_mem \<Rightarrow> bool" where
  "no_blocks m \<longleftrightarrow> (\<forall>a. entries m a \<noteq> None \<longrightarrow> a < brk m)"

lemma ght_create_run:
  assumes n: "n \<le> 2 ^ 30" and m: "no_blocks m"
  shows "\<exists>t bs. ght_create n = Some t \<and> ght_inv t m bs [] \<and> fn_hash t = ght_one_at_a_time_hash \<and>
    fn_alloc t = (\<lambda>_. True) \<and> \<not> i_automatic_rehash t \<and> bucket_limit t = 0 \<and> i_heuristics t = GHT_HEURISTICS_NONE"
proof -
  obtain j where j: "create_loop n 1 1 = Some (2 ^ (j - 1), j)" "1 \<le> j" "j \<le> 31"
    using create_loop_run [OF n, of 1 1] by auto
  let ?t = "\<lparr>i_items = 0, i_size_t = 2 ^ (j - 1), fn_hash = ght_one_at_a_time_hash, fn_alloc = (\<lambda>_. True),
             fn_bucket_free = False, i_heuristics = GHT_HEURISTICS_NONE, i_automatic_rehash = False,
             pp_entries = replicate (2 ^ (j - 1)) None, p_nr = replicate (2 ^ (j - 1)) 0,
             i_size_mask = word_of_nat (2 ^ (j - 1) - 1), bucket_limit = 0,
             p_oldest = None, p_newest = None\<rparr>"
  have c: "ght_create n = Some ?t" using j(1) by (simp add: ght_create_def)
  have "ght_inv ?t m (replicate (2 ^ (j - 1)) []) []"
  proof (rule ght_inv_intro)
    show "size_ok ?t" using j word_mask [of "j - 1"] by (auto simp: size_ok_def intro!: exI [of _ "j - 1"])
    show "buckets_ok ?t m (replicate (2 ^ (j - 1)) [])" by (rule replicate_buckets [where xs = "replicate (2 ^ (j - 1)) None"]) simp_all
    show "ages_ok ?t m []" by (simp add: ages_ok_def)
  qed (use m in \<open>simp_all add: no_blocks_def map_replicate_const\<close>)
  then show ?thesis using c by auto
qed

section \<open>Rehashing\<close>

text \<open>The pairs that \<open>ght_rehash\<close> copies.\<close>

definition copied :: "(byte list \<times> ptr) list \<Rightarrow> (byte list \<times> ptr) list" where
  "copied ps = takeWhile (\<lambda>p. snd p \<noteq> None) ps"

lemma copied_all: "\<forall>p \<in> set ps. snd p \<noteq> None \<Longrightarrow> copied ps = ps"
  by (simp add: copied_def takeWhile_eq_all_conv)

lemma rehash_loop_run:
  assumes "ght_inv u m bt at" and "bucket_limit u = 0" and "\<not> i_automatic_rehash u" and "\<forall>n. fn_alloc u n"
    and "dlist (newers m) (olders m) f (ys @ xs) z" and "set (ys @ xs) \<inter> set at = {}" and "\<forall>a \<in> set (ys @ xs). a < brk m"
    and "\<forall>a \<in> set xs. \<exists>k. keys m a = Some (hk_fill k)"
    and "inj_on (keys m) (set at \<union> set xs)" and "distinct xs" and "visit m xs = (p, k, it)"
  shows "\<exists>bt' at' u' m'. rehash_loop u m p it = Some (u', m') \<and> ght_inv u' m' bt' at' \<and>
    pairs m' at' = pairs m at @ copied (pairs m xs) \<and> same_config u u' \<and> same_size u u' \<and> bucket_freed m' = bucket_freed m \<and>
    only (set at) m m' \<and> (\<forall>a \<in> set at'. a \<in> set at \<or> brk m \<le> a) \<and> brk m' + length at = brk m + length at'"
  using assms
proof (induction xs arbitrary: ys u m bt at p k it)
  case Nil
  then have "rehash_loop u m p it = Some (u, m)" by (subst rehash_loop.simps) simp
  then show ?case using Nil.prems(1) by (auto simp: copied_def intro: only_refl)
next
  case (Cons a xs)
  note i = Cons.prems(1)
  obtain e where e: "entries m a = Some e" and v: "visit m (a # xs) = (p_data e, Some (key e), \<lparr>it_entry = Some a, it_next = p_newer e\<rparr>)"
    using visit_entry [OF Cons.prems(5)] by blast
  have pk: "p = p_data e" "it = \<lparr>it_entry = Some a, it_next = p_newer e\<rparr>" using v Cons.prems(11) by auto
  obtain c where "keys m a = Some (hk_fill c)" using Cons.prems(8) by auto
  then have c: "key e = hk_fill c" using e by (simp add: keys_def)
  have da: "pair_at m a = (c, p_data e)" using e c by (simp add: pair_at_def keys_def datas_def hk_fill_def)
  show ?case
  proof (cases "p_data e")
    case None
    then have "rehash_loop u m p it = Some (u, m)" using pk by (subst rehash_loop.simps) simp
    moreover have "copied (pairs m (a # xs)) = []" using None da by (simp add: copied_def)
    ultimately show ?thesis using i by (auto intro: only_refl)
  next
    case (Some d)
    have "keys m a \<notin> keys m ` set at"
      using Cons.prems(6,9) by (auto simp: inj_on_def)
    then have new: "entry_of m at c = None" using \<open>keys m a = _\<close> unfolding entry_of_None by (metis image_eqI)
    obtain u1 m1 where r: "insert_body (\<lambda>_ _ _. None) u m (p_data e) c = Some (0, u1, m1)" and ad: "added u m at (p_data e) c u1 m1"
      using insert_new_run [OF i _ new, of "\<lambda>_ _ _. None" "p_data e"] Cons.prems(2,3,4) by (auto simp: roomy_def)
    obtain bt1 where i1: "ght_inv u1 m1 bt1 (at @ [brk m])" using ad by (auto simp: added_def)
    have ad': "keys m1 = (keys m)(brk m \<mapsto> hk_fill c)" "datas m1 = (datas m)(brk m \<mapsto> p_data e)" "brk m1 = Suc (brk m)"
      "bucket_freed m1 = bucket_freed m" "same_config u u1" "same_size u u1" "only (set at) m m1"
      using ad by (simp_all add: added_def)
    have same: "entries m1 b = entries m b" if "b \<in> set (ys @ a # xs)" for b
      using ad'(7) Cons.prems(6,7) that by (auto simp: only_def)
    have ob: "b \<noteq> brk m" if "b \<in> set (ys @ a # xs)" for b using Cons.prems(7) that by blast
    have d1: "dlist (newers m1) (olders m1) f (ys @ a # xs) z"
      using Cons.prems(5) dseg_cong [of "ys @ a # xs" "newers m1" "newers m" "olders m1" "olders m"] entries_cong [OF same] by metis
    have w: "ght_next m1 it = Some (case visit m1 xs of (p', k', it') \<Rightarrow> (p', map_option p_key k', it'))"
    proof -
      have "next_keysize m1 it = Some (visit m1 xs)"
        using next_keysize_run [OF d1, of "Some a"] v pk by simp
      then show ?thesis by (simp add: ght_next_def split: prod.split)
    qed
    obtain p1 k1 it1 where v1: "visit m1 xs = (p1, k1, it1)" by (cases "visit m1 xs")
    have rl: "rehash_loop u m p it = rehash_loop u1 m1 p1 it1"
      using r w v1 pk Some e c by (subst rehash_loop.simps) (simp add: hk_fill_def)
    have px: "pairs m1 xs = pairs m xs" by (rule pairs_cong) (use entries_cong [OF same] in auto)
    have "\<exists>bt' at' u' m'. rehash_loop u1 m1 p1 it1 = Some (u', m') \<and> ght_inv u' m' bt' at' \<and>
      pairs m' at' = pairs m1 (at @ [brk m]) @ copied (pairs m1 xs) \<and> same_config u1 u' \<and> same_size u1 u' \<and> bucket_freed m' = bucket_freed m1 \<and>
      only (set (at @ [brk m])) m1 m' \<and> (\<forall>a \<in> set at'. a \<in> set (at @ [brk m]) \<or> brk m1 \<le> a) \<and>
      brk m' + length (at @ [brk m]) = brk m1 + length at'"
    proof (rule Cons.IH [OF i1, where ys = "ys @ [a]"])
      show "bucket_limit u1 = 0" "\<not> i_automatic_rehash u1" "\<forall>n. fn_alloc u1 n"
        using ad'(5) Cons.prems(2-4) by (simp_all add: same_config_def)
      show "dlist (newers m1) (olders m1) f ((ys @ [a]) @ xs) z" using d1 by simp
      show "set ((ys @ [a]) @ xs) \<inter> set (at @ [brk m]) = {}" using Cons.prems(6) ob by auto
      show "\<forall>b \<in> set ((ys @ [a]) @ xs). b < brk m1" using Cons.prems(7) ad'(3) less_Suc_eq by fastforce
      show "\<forall>b \<in> set xs. \<exists>k. keys m1 b = Some (hk_fill k)" using Cons.prems(8) ob ad'(1) by auto
      show "inj_on (keys m1) (set (at @ [brk m]) \<union> set xs)"
      proof -
        have "inj_on (keys m) (set at \<union> set xs)" using Cons.prems(9) by (rule inj_on_subset) auto
        then have "inj_on (keys m1) (set at \<union> set xs)"
          using ad'(1) brk_out [OF i] ob by (auto simp: inj_on_def)
        moreover have "keys m1 (brk m) \<notin> keys m1 ` (set at \<union> set xs)"
        proof
          assume "keys m1 (brk m) \<in> keys m1 ` (set at \<union> set xs)"
          then obtain b where b: "b \<in> set at \<union> set xs" "keys m1 b = keys m1 (brk m)" by (metis imageE)
          then have "b \<noteq> brk m" using brk_out [OF i] ob by auto
          moreover have "keys m1 (brk m) = keys m a" using ad'(1) \<open>keys m a = _\<close> by simp
          ultimately have "keys m b = keys m a" using b(2) ad'(1) by simp
          moreover have "b \<in> set at \<union> set (a # xs)" "a \<in> set at \<union> set (a # xs)" using b(1) by auto
          ultimately have "b = a" using inj_onD [OF Cons.prems(9)] by blast
          then show False using b(1) Cons.prems(6,10) by auto
        qed
        moreover have "brk m \<notin> set at \<union> set xs" using brk_out [OF i] ob by auto
        ultimately show ?thesis using inj_on_insert [of "keys m1" "brk m" "set at \<union> set xs"] by (simp add: Diff_triv)
      qed
      show "distinct xs" using Cons.prems(10) by simp
    qed (rule v1)
    then obtain bt' at' u' m' where q: "rehash_loop u1 m1 p1 it1 = Some (u', m')" "ght_inv u' m' bt' at'"
      "pairs m' at' = pairs m1 (at @ [brk m]) @ copied (pairs m1 xs)" "same_config u1 u'" "same_size u1 u'" "bucket_freed m' = bucket_freed m1"
      "only (set (at @ [brk m])) m1 m'" "\<forall>a \<in> set at'. a \<in> set (at @ [brk m]) \<or> brk m1 \<le> a"
      "brk m' + length (at @ [brk m]) = brk m1 + length at'" by blast
    have "pairs m' at' = pairs m at @ copied (pairs m (a # xs))"
      using q(3) added_pairs [OF i ad] px da Some by (simp add: copied_def)
    moreover have "only (set at) m m'" using ad'(7) q(7) by (rule only_trans) auto
    moreover have "\<forall>a \<in> set at'. a \<in> set at \<or> brk m \<le> a" using q(8) ad'(3) by fastforce
    moreover have "brk m' + length at = brk m + length at'" using q(9) ad'(3) by simp
    moreover have "same_config u u'" "same_size u u'"
      using same_config_trans [OF ad'(5) q(4)] same_size_trans [OF ad'(6) q(5)] .
    ultimately show ?thesis
      using rl q(1,2,6) ad'(4) by (intro exI [of _ bt'] exI [of _ at'] exI [of _ u'] exI [of _ m']) simp
  qed
qed
text \<open>\<open>ght_rehash\<close> as a whole: the new table has the copied pairs, the old entries are freed.\<close>

lemma empty_table_config:
  assumes "ght_inv t m bs []"
  shows "ght_inv (ght_set_rehash (ght_set_heuristics (ght_set_alloc (ght_set_hash t h) al) x) y) m bs []"
    (is "ght_inv ?t m bs []")
proof (rule ght_inv_intro)
  have "set b = {}" if "b \<in> set bs" for b using ght_invD(4) [OF assms] that by auto
  then have e: "bs ! l = []" if "l < i_size_t t" for l using ght_invD(12) [OF assms] that by (metis nth_mem set_empty)
  show "buckets_ok ?t m bs"
    using ght_invD(2) [OF assms] e
    by (simp add: buckets_ok_def ght_set_rehash_def ght_set_heuristics_def ght_set_alloc_def ght_set_hash_def)
qed (use ght_invD [OF assms] in \<open>simp_all add: size_ok_def ages_ok_def ght_set_rehash_def ght_set_heuristics_def ght_set_alloc_def ght_set_hash_def\<close>)

lemma ght_inv_no_blocks: "ght_inv t m bs as \<Longrightarrow> no_blocks m"
  using ght_invD(7) by (auto simp: no_blocks_def)

lemma ght_inv_swap:
  assumes "ght_inv u m bs as" and "fn_hash t = fn_hash u"
  shows "ght_inv (t\<lparr>i_size_t := i_size_t u, i_size_mask := i_size_mask u, i_items := i_items u,
      pp_entries := pp_entries u, p_nr := p_nr u, p_oldest := p_oldest u, p_newest := p_newest u\<rparr>) m bs as"
    (is "ght_inv ?t m bs as")
proof (rule ght_inv_intro)
  show "buckets_ok ?t m bs" using ght_invD(2) [OF assms(1)] assms(2) by (simp add: buckets_ok_def l_key_def)
  show "ages_ok ?t m as" using ght_invD(3) [OF assms(1)] by (simp add: ages_ok_def)
  show "size_ok ?t" using ght_invD(1) [OF assms(1)] by (simp add: size_ok_def)
  show "a < brk m" if "entries m a \<noteq> None" for a using that by (rule ght_invD(7) [OF assms(1)])
qed (simp_all add: ght_invD(4-6) [OF assms(1)])

lemma buckets_concat:
  assumes i: "ght_inv t m bs as"
  shows "distinct (concat bs)" and "set (concat bs) = set as"
    and "list_all2 (\<lambda>p b. \<exists>z. dlist (nexts m) (prevs m) p b z) (pp_entries t) bs"
proof -
  have len: "length bs = i_size_t t" using ght_invD(12) [OF i] .
  show "distinct (concat bs)"
  proof (rule distinct_concat_nth)
    show "distinct (bs ! l)" if "l < length bs" for l using buckets_okD(2) [OF ght_invD(2) [OF i]] that len by simp
    show "set (bs ! l) \<inter> set (bs ! j) = {}" if "l < length bs" "j < length bs" "l \<noteq> j" for l j
      using bucket_disjoint [OF ght_invD(2) [OF i]] that len by (metis disjoint_iff)
  qed
  show "set (concat bs) = set as" using ght_invD(4) [OF i] by simp
  show "list_all2 (\<lambda>p b. \<exists>z. dlist (nexts m) (prevs m) p b z) (pp_entries t) bs"
    using ght_invD(2) [OF i] by (simp add: list_all2_conv_all_nth buckets_ok_def)
qed

lemma ght_rehash_run:
  assumes i: "ght_inv t m bs as" and n: "n \<le> 2 ^ 30" and al: "\<forall>n. fn_alloc t n"
  shows "\<exists>bs' as' t' m'. ght_rehash t m n = Some (t', m') \<and> ght_inv t' m' bs' as' \<and> pairs m' as' = copied (pairs m as) \<and>
    same_config t t' \<and> bucket_freed m' = bucket_freed m \<and> only (set as) m m' \<and> (\<forall>a \<in> set as'. brk m \<le> a) \<and>
    dom (entries m') = dom (entries m) - set as \<union> set as'"
proof -
  obtain u bt where u: "ght_create n = Some u" "ght_inv u m bt []" "bucket_limit u = 0"
    using ght_create_run [OF n ght_inv_no_blocks [OF i]] by blast
  let ?u = "ght_set_rehash (ght_set_heuristics (ght_set_alloc (ght_set_hash u (fn_hash t)) (fn_alloc t)) GHT_HEURISTICS_NONE) False"
  note iu = empty_table_config [OF u(2), of "fn_hash t" "fn_alloc t" GHT_HEURISTICS_NONE False]
  have cu: "bucket_limit ?u = 0" "\<not> i_automatic_rehash ?u" "\<forall>n. fn_alloc ?u n" "fn_hash ?u = fn_hash t"
    using u(3) al by (simp_all add: ght_set_rehash_def ght_set_heuristics_def ght_set_alloc_def ght_set_hash_def)
  obtain p k it where v: "visit m as = (p, k, it)" by (cases "visit m as")
  have f: "ght_first t m = Some (p, map_option p_key k, it)"
    using first_keysize_run [OF ght_invD(11) [OF i]] v by (simp add: ght_first_def)
  have "\<exists>bt' at' u' m'. rehash_loop ?u m p it = Some (u', m') \<and> ght_inv u' m' bt' at' \<and>
    pairs m' at' = pairs m [] @ copied (pairs m as) \<and> same_config ?u u' \<and> same_size ?u u' \<and> bucket_freed m' = bucket_freed m \<and>
    only (set []) m m' \<and> (\<forall>a \<in> set at'. a \<in> set [] \<or> brk m \<le> a) \<and> brk m' + length ([] :: addr list) = brk m + length at'"
    by (rule rehash_loop_run [OF iu cu(1,2,3), where ys = "[]", OF _ _ _ _ _ _ v])
      (use ght_invD(8,9,10,11) [OF i] entry_live [OF i] ght_invD(7) [OF i] in auto)
  then obtain bt' at' u' m' where r: "rehash_loop ?u m p it = Some (u', m')" "ght_inv u' m' bt' at'"
    "pairs m' at' = copied (pairs m as)" "same_config ?u u'" "bucket_freed m' = bucket_freed m"
    "only {} m m'" "\<forall>a \<in> set at'. brk m \<le> a" "brk m' = brk m + length at'" by auto
  have lt: "a < brk m" if "a \<in> set as" for a using entry_live [OF i that] ght_invD(7) [OF i] by blast
  have same: "entries m' a = entries m a" if "a \<in> set as" for a using r(6) lt [OF that] by (simp add: only_def)
  let ?m = "m'\<lparr>entries := (\<lambda>a. if a \<in> set (concat bs) then None else entries m' a)\<rparr>"
  have fr: "free_buckets (pp_entries t) m' = Some ?m"
  proof (rule free_buckets_run [OF _ buckets_concat(1) [OF i]])
    have "dlist (nexts m') (prevs m') q b z = dlist (nexts m) (prevs m) q b z" if "b \<in> set bs" for q b z
      by (rule dseg_cong) (use entries_cong [OF same] ght_invD(4) [OF i] that in auto)
    then show "list_all2 (\<lambda>p b. \<exists>z. dlist (nexts m') (prevs m') p b z) (pp_entries t) bs"
      using buckets_concat(3) [OF i] by (simp add: list_all2_conv_all_nth)
  qed
  let ?t = "t\<lparr>i_size_t := i_size_t u', i_size_mask := i_size_mask u', i_items := i_items u',
      pp_entries := pp_entries u', p_nr := p_nr u', p_oldest := p_oldest u', p_newest := p_newest u'\<rparr>"
  have run: "ght_rehash t m n = Some (?t, ?m)"
    using u(1) f r(1) fr by (simp add: ght_rehash_def Let_def)
  have out: "a \<notin> set (concat bs)" if "a \<in> set at'" for a
    using r(7) lt [of a] that buckets_concat(2) [OF i] by fastforce
  have "ght_inv u' ?m bt' at'"
    using r(2)
  proof (rule ght_inv_other)
    show "entries ?m a = entries m' a" if "a \<in> set at'" for a using out [OF that] by simp
    show "a < brk ?m" if "entries ?m a \<noteq> None" for a using that ght_invD(7) [OF r(2), of a] by (simp split: if_splits)
  qed
  moreover have "fn_hash t = fn_hash u'" using r(4) cu(4) by (simp add: same_config_def)
  ultimately have "ght_inv ?t ?m bt' at'" by (rule ght_inv_swap)
  moreover have "pairs ?m at' = copied (pairs m as)"
    unfolding r(3) [symmetric] by (rule pairs_cong) (use out in \<open>auto simp: field_defs\<close>)
  moreover have "only (set as) m ?m" using r(6) buckets_concat(2) [OF i] by (simp add: only_def)
  moreover have "dom (entries ?m) = dom (entries m) - set as \<union> set at'"
  proof -
    have below: "a < brk m'" if "entries m' a \<noteq> None" for a using ght_invD(7) [OF r(2)] that .
    have "set at' \<subseteq> {brk m..<brk m'}" using r(7) below entry_live [OF r(2)] by auto
    moreover have "card (set at') = card {brk m..<brk m'}" using r(8) ght_invD(8) [OF r(2)] by (simp add: distinct_card)
    ultimately have new: "set at' = {brk m..<brk m'}" by (simp add: card_subset_eq)
    have "dom (entries m') = dom (entries m) \<union> set at'"
    proof (rule set_eqI)
      fix a
      show "a \<in> dom (entries m') \<longleftrightarrow> a \<in> dom (entries m) \<union> set at'"
      proof (cases "a < brk m")
        case True
        then show ?thesis using r(6) new by (simp add: only_def domIff)
      next
        case False
        then have "entries m a = None" using ght_invD(7) [OF i, of a] by blast
        then show ?thesis using False new below [of a] entry_live [OF r(2), of a] by (auto simp: domIff)
      qed
    qed
    moreover have "dom (entries ?m) = dom (entries m') - set as"
      unfolding buckets_concat(2) [OF i] by (auto simp: domIff split: if_splits)
    moreover have "set at' \<inter> set as = {}" using new lt by fastforce
    ultimately show ?thesis by blast
  qed
  ultimately show ?thesis using run r(5,7) by (intro exI [of _ bt'] exI [of _ at'] exI [of _ ?t] exI [of _ ?m]) (simp add: same_config_def)
qed

section \<open>Inserting\<close>

text \<open>
  The insertion of a new key, where buckets are not bounded and the table may rehash itself: its new
  size is less than its number of entries.
\<close>

lemma ght_insert_new_run:
  assumes i: "ght_inv t m bs as" and al: "\<forall>n. fn_alloc t n" and lim: "bucket_limit t = 0" and k: "entry_of m as k = None"
    and len: "length as \<le> 2 ^ 30" and nn: "\<forall>p \<in> set (pairs m as). snd p \<noteq> None"
  shows "\<exists>bs' as' t' m'. ght_insert t m d k = Some (0, t', m') \<and> ght_inv t' m' bs' as' \<and>
    pairs m' as' = pairs m as @ [(k, d)] \<and> same_config t t'"
proof (cases "i_automatic_rehash t \<and> 2 * i_size_t t < i_items t")
  case False
  obtain t' m' where r: "ght_insert t m d k = Some (0, t', m')" "added t m as d k t' m'"
    using insert_new_run [OF i _ k False, of ght_rehash d] al lim by (auto simp: roomy_def ght_insert_def)
  from r(2) obtain bs' where "ght_inv t' m' bs' (as @ [brk m])" "same_config t t'" by (auto simp: added_def)
  then show ?thesis using r(1) added_pairs [OF i r(2)] by blast
next
  case True
  let ?m = "created m d k" and ?a = "brk m"
  note c = created_inv [OF i, where d = d and k = k]
  have "2 * i_size_t t \<le> 2 ^ 30" using True len ght_invD(6) [OF i] by simp
  then obtain bs1 as1 t1 m1 where r: "ght_rehash t ?m (2 * i_size_t t) = Some (t1, m1)" "ght_inv t1 m1 bs1 as1"
    "pairs m1 as1 = copied (pairs ?m as)" "same_config t t1" "only (set as) ?m m1" "\<forall>a \<in> set as1. brk ?m \<le> a"
    using ght_rehash_run [OF c(1) _ al] by blast
  have ps: "pairs m1 as1 = pairs m as" using r(3) copied_all [OF nn] c(3) by simp
  have ea: "entries m1 ?a = entries ?m ?a" using r(5) brk_out [OF i] by (simp add: only_def)
  then have f: "fresh_entry m1 ?a d k" using fresh_created [of m d k] entries_cong [OF ea] by (simp add: fresh_entry_def)
  have "?a \<notin> set as1" using r(6) by auto
  moreover have "entry_of m1 as1 k = None"
    using pairs_lookup [OF r(2), of k] pairs_lookup [OF i, of k] ps k by simp
  moreover have "roomy t1 bs1 (l_key t1 (hk_fill k))" using lim r(4) by (simp add: roomy_def same_config_def)
  ultimately obtain t2 m2 t3 t4 m4 where s: "push_entry t1 m1 (l_key t1 (hk_fill k)) ?a = Some (t2, m2)"
    "bound_bucket t2 m2 (l_key t1 (hk_fill k)) = Some (t3, m2)" "append_age t3 m2 ?a = Some (t4, m4)"
    and v: "ght_inv t4 m4 (bs1[l_key t1 (hk_fill k) := ?a # bs1 ! l_key t1 (hk_fill k)]) (as1 @ [?a])"
      "keys m4 = keys m1" "datas m4 = datas m1" "same_config t1 t4"
    using link_roomy [OF r(2) f _ _ refl] by blast
  have run: "ght_insert t m d k = Some (0, t4, m4)"
    using search_plain [OF i, of k] k al True r(1) s by (simp add: ght_insert_def insert_body_def he_create_eq Let_def)
  have "pairs m4 (as1 @ [?a]) = pairs m1 (as1 @ [?a])" by (rule pairs_cong) (simp add: v)
  then have "pairs m4 (as1 @ [?a]) = pairs m as @ [(k, d)]"
    using ps f by (simp add: fresh_entry_def pair_at_def hk_fill_def)
  then show ?thesis using run v(1,4) r(4) same_config_trans by blast
qed

end
