(* ===== verification/GhtBounded.thy ===== *)
theory GhtBounded
  imports GhtGrow
begin

text \<open>
  Insertion into a table with bounded buckets: a full bucket loses its last entry, which goes to the
  callback of the user before it is freed.
\<close>

lemma last_entry_run:
  assumes "dseg (nexts m) (prevs m) q (Some a) xs z None" and "xs \<noteq> []"
  shows "last_entry (entries m) a = Some (last xs)"
  using assms
proof (induction xs arbitrary: q a)
  case Nil
  then show ?case by simp
next
  case (Cons b xs)
  obtain e where e: "a = b" "entries m a = Some e" "dseg (nexts m) (prevs m) (Some a) (p_next e) xs z None"
    using Cons.prems(1) by (auto simp: nexts_def)
  show ?case
  proof (cases xs)
    case Nil
    then show ?thesis using e by (subst last_entry.simps) simp
  next
    case (Cons c ys)
    then have "p_next e = Some c" using e(3) by simp
    then show ?thesis using Cons.IH [of "Some a" c] e Cons by (subst last_entry.simps) simp
  qed
qed

text \<open>What the callback gets.\<close>

definition evicted :: "ght_mem \<Rightarrow> addr \<Rightarrow> ptr \<times> byte list" where
  "evicted m v = (the (datas m v), p_key (the (keys m v)))"

lemma bound_bucket_full:
  assumes b: "buckets_ok t m bs" and l: "l < i_size_t t" and bl: "bs ! l = ys @ [v]"
    and o: "dlist (newers m) (olders m) (p_oldest t) (us @ v # vs) (p_newest t)" and dist: "distinct (us @ v # vs)"
    and n: "l < length (p_nr t)" "p_nr t ! l = int n" "n < 2 ^ 32" "bucket_limit t \<noteq> 0" "bucket_limit t \<le> n"
    and fn: "fn_bucket_free t"
  shows "\<exists>t' m'. bound_bucket t m l = Some (t', m') \<and> buckets_ok t' m' (bs[l := ys]) \<and>
    dlist (newers m') (olders m') (p_oldest t') (us @ vs) (p_newest t') \<and>
    t' = t\<lparr>pp_entries := pp_entries t', p_oldest := p_oldest t', p_newest := p_newest t'\<rparr> \<and>
    (\<forall>c. c \<noteq> v \<longrightarrow> keys m' c = keys m c \<and> datas m' c = datas m c \<and> (entries m' c = None \<longleftrightarrow> entries m c = None)) \<and>
    (\<forall>c. c \<noteq> v \<longrightarrow> c \<notin> set (us @ vs) \<longrightarrow> newers m' c = newers m c) \<and> entries m' v = None \<and>
    brk m' = brk m \<and> bucket_freed m' = bucket_freed m @ [evicted m v]"
proof -
  obtain z where d: "dlist (nexts m) (prevs m) (pp_entries t ! l) (ys @ [v]) z" using buckets_okD(1) [OF b l] bl by auto
  obtain h where h: "pp_entries t ! l = Some h" using dlist_first [OF d] by (cases ys) auto
  have last: "last_entry (entries m) h = Some v" using last_entry_run [of m None h "ys @ [v]" z] d h by simp
  obtain e where e: "entries m v = Some e" using dseg_live [OF d, of v] by (auto simp: field_defs)
  obtain t1 m1 where r: "remove_from_chain t m l v = Some (t1, m1)" "unlinked e m m1" "buckets_ok t1 m1 (bs[l := ys])"
      "dlist (newers m1) (olders m1) (p_oldest t1) (us @ vs) (p_newest t1)" "\<forall>c. entries m1 c = None \<longleftrightarrow> entries m c = None"
    and t1: "t1 = t\<lparr>pp_entries := pp_entries t1, p_oldest := p_oldest t1, p_newest := p_newest t1\<rparr>"
    using remove_from_chain_run [OF e b l, of ys "[]" us vs] bl o dist by auto
  obtain e1 where e1: "entries m1 v = Some e1" using r(5) e by (metis not_None_eq)
  have ev: "(p_data e1, p_key (key e1)) = evicted m v"
    using r(2) e1 by (simp add: unlinked_def evicted_def) (metis datas_def keys_def option.map(2) option.sel)
  have fn1: "fn_bucket_free t1" using fn by (subst t1) simp
  let ?m = "m1\<lparr>bucket_freed := bucket_freed m1 @ [evicted m v], entries := free_at v (entries m1)\<rparr>"
  have run: "bound_bucket t m l = Some (t1, ?m)"
    using n h last r(1) e1 fn1 ev buckets_okD(4) [OF b l]
    by (simp add: bound_bucket_def count_at_def bucket_head_def he_finalize_def)
  have same: "c \<noteq> v \<Longrightarrow> entries ?m c = entries m1 c" for c by simp
  have nov: "c \<noteq> v" if "j < i_size_t t" "c \<in> set (bs[l := ys] ! j)" for j c
  proof (cases "j = l")
    case True
    then show ?thesis using that buckets_okD(2,5) [OF b l] bl by auto
  next
    case False
    then show ?thesis using that bucket_disjoint [OF b l that(1), of v] bl by auto
  qed
  have f: "nexts ?m c = nexts m1 c \<and> prevs ?m c = prevs m1 c \<and> keys ?m c = keys m1 c \<and> datas ?m c = datas m1 c \<and>
      olders ?m c = olders m1 c \<and> newers ?m c = newers m1 c" if "c \<noteq> v" for c
    using entries_cong [OF same [OF that]] by blast
  have "buckets_ok t1 ?m (bs[l := ys])"
    unfolding buckets_ok_def
  proof (intro conjI allI impI)
    show "length (pp_entries t1) = i_size_t t1" "length (bs[l := ys]) = i_size_t t1"
      using r(3) by (simp_all add: buckets_ok_def)
    fix j assume j: "j < i_size_t t1"
    then have j': "j < i_size_t t" by (subst (asm) t1) simp
    have "dlist (nexts ?m) (prevs ?m) p (bs[l := ys] ! j) y = dlist (nexts m1) (prevs m1) p (bs[l := ys] ! j) y" for p y
      by (rule dseg_cong) (use f nov [OF j'] in blast)+
    then show "\<exists>y. dlist (nexts ?m) (prevs ?m) (pp_entries t1 ! j) (bs[l := ys] ! j) y"
      using buckets_okD(1) [OF r(3) j] by simp
    show "distinct (bs[l := ys] ! j)" by (rule buckets_okD(2) [OF r(3) j])
    show "\<forall>a\<in>set (bs[l := ys] ! j). \<exists>k. keys ?m a = Some k \<and> l_key t1 k = j"
      using buckets_okD(3) [OF r(3) j] f nov [OF j'] by metis
  qed
  moreover have "dlist (newers ?m) (olders ?m) (p_oldest t1) (us @ vs) (p_newest t1)"
  proof -
    have nv: "c \<noteq> v" if "c \<in> set (us @ vs)" for c using that dist by auto
    have "dlist (newers ?m) (olders ?m) (p_oldest t1) (us @ vs) (p_newest t1) = dlist (newers m1) (olders m1) (p_oldest t1) (us @ vs) (p_newest t1)"
      by (rule dseg_cong) (use f [OF nv] in blast)+
    then show ?thesis using r(4) by simp
  qed
  moreover have "\<forall>c. c \<noteq> v \<longrightarrow> keys ?m c = keys m c \<and> datas ?m c = datas m c \<and> (entries ?m c = None \<longleftrightarrow> entries m c = None)"
    using f r(2,5) by (simp add: unlinked_def)
  moreover have "\<forall>c. c \<noteq> v \<longrightarrow> c \<notin> set (us @ vs) \<longrightarrow> newers ?m c = newers m c"
  proof (intro allI impI)
    fix c assume c: "c \<noteq> v" "c \<notin> set (us @ vs)"
    have "olders m v = Some (p_older e)" using e by (simp add: field_defs)
    then have "p_older e \<noteq> Some c" using dlist_neighbours(1) [OF o] c(2) by auto
    then show "newers ?m c = newers m c" using f [OF c(1)] r(2) by (simp add: unlinked_def relink_other)
  qed
  ultimately show ?thesis using run r(2) t1
    by (intro exI [of _ t1] exI [of _ ?m]) (simp add: unlinked_def)
qed

text \<open>Linking a new entry into a full bucket.\<close>

lemma link_full:
  assumes i: "ght_inv t m bs as" and f: "fresh_entry m a d k" and a: "a \<notin> set as" and k: "entry_of m as k = None"
    and l: "l = l_key t (hk_fill k)" and lim: "bucket_limit t \<noteq> 0" "bucket_limit t \<le> length (bs ! l)" and fn: "fn_bucket_free t"
    and len: "length as < 2 ^ 32"
  shows "\<exists>v us vs t1 m1 t2 m2 t3 m3. as = us @ v # vs \<and> bs ! l \<noteq> [] \<and> v = last (bs ! l) \<and> entries m3 v = None \<and> push_entry t m l a = Some (t1, m1) \<and>
    bound_bucket t1 m1 l = Some (t2, m2) \<and> append_age t2 m2 a = Some (t3, m3) \<and>
    ght_inv t3 m3 (bs[l := a # butlast (bs ! l)]) (us @ vs @ [a]) \<and>
    (\<forall>c. c \<noteq> v \<longrightarrow> keys m3 c = keys m c \<and> datas m3 c = datas m c) \<and> brk m3 = brk m \<and>
    bucket_freed m3 = bucket_freed m @ [evicted m v] \<and> same_config t t3 \<and> same_size t t3"
proof -
  have ll: "l < i_size_t t" using l_key_bound [OF i] l by simp
  note b = ght_invD(2) [OF i]
  have fk: "keys m a = Some (hk_fill k)" "newers m a = Some None" using f by (simp_all add: fresh_entry_def)
  have out: "a \<notin> set (bs ! j)" if "j < i_size_t t" for j using bucket_sub [OF i that] a by blast
  obtain t1 m1 where p: "push_entry t m l a = Some (t1, m1)" "buckets_ok t1 m1 (bs[l := a # bs ! l])"
      "same_contents m m1" and t1: "t1 = t\<lparr>pp_entries := pp_entries t1\<rparr>"
    using push_entry_run [OF b ll fresh_live [OF f] out fk(1)] l by metis
  note st1 = only_entries [OF t1]
  have sz1: "i_size_t t1 = i_size_t t" "i_size_mask t1 = i_size_mask t" "bucket_limit t1 = bucket_limit t" "fn_bucket_free t1"
    using st1 fn by (simp_all add: same_size_def same_config_def)
  obtain xs v where bl: "bs ! l = xs @ [v]" using lim by (cases "bs ! l" rule: rev_cases) auto
  have va: "v \<in> set as" using bucket_sub [OF i ll] bl by auto
  obtain us vs where as: "as = us @ v # vs" using split_list [OF va] by auto
  have lb: "l < length bs" using ll ght_invD(12) [OF i] by simp
  let ?bs = "bs[l := a # bs ! l]"
  have bl1: "?bs ! l = (a # xs) @ [v]" using bl lb by simp
  have len1: "length (bs ! l) < 2 ^ 32"
    using len card_mono [OF _ bucket_sub [OF i ll]] buckets_okD(2) [OF b ll] ght_invD(8) [OF i]
    by (simp add: distinct_card)
  have o1: "dlist (newers m1) (olders m1) (p_oldest t1) (us @ v # vs) (p_newest t1)" "distinct (us @ v # vs)"
    using ght_invD(8,11) [OF i] p(3) st1 as by (simp_all add: same_contents_def)
  have nr: "l < length (p_nr t1)" "p_nr t1 ! l = int (length (bs ! l))"
    using st1 ght_invD(5,12) [OF i] ll by simp_all
  have limits: "bucket_limit t1 \<noteq> 0" "bucket_limit t1 \<le> length (bs ! l)" "l < i_size_t t1" using lim sz1 ll by simp_all
  obtain t2 m2 where q: "bound_bucket t1 m1 l = Some (t2, m2)" "buckets_ok t2 m2 (?bs[l := a # xs])"
      "dlist (newers m2) (olders m2) (p_oldest t2) (us @ vs) (p_newest t2)"
      "\<forall>c. c \<noteq> v \<longrightarrow> keys m2 c = keys m1 c \<and> datas m2 c = datas m1 c \<and> (entries m2 c = None \<longleftrightarrow> entries m1 c = None)"
      "\<forall>c. c \<noteq> v \<longrightarrow> c \<notin> set (us @ vs) \<longrightarrow> newers m2 c = newers m1 c" "entries m2 v = None"
      "brk m2 = brk m1" "bucket_freed m2 = bucket_freed m1 @ [evicted m1 v]"
    and t2: "t2 = t1\<lparr>pp_entries := pp_entries t2, p_oldest := p_oldest t2, p_newest := p_newest t2\<rparr>"
    using bound_bucket_full [OF p(2) limits(3) bl1 o1 nr len1 limits(1,2) sz1(4)] by blast
  have av: "a \<noteq> v" using a va by auto
  have anew: "distinct (a # us @ vs)" "live (Some a) m2" "newers m2 a = Some None"
    using a as ght_invD(8) [OF i] q(4,5) p(3) av fk(2) fresh_live [OF f]
    by (auto simp: same_contents_def live_def)
  obtain t3 m3 where w: "append_age t2 m2 a = Some (t3, m3)"
      "dlist (newers m3) (olders m3) (p_oldest t3) ((us @ vs) @ [a]) (p_newest t3)"
      "nexts m3 = nexts m2" "prevs m3 = prevs m2" "keys m3 = keys m2" "datas m3 = datas m2" "brk m3 = brk m2"
      "bucket_freed m3 = bucket_freed m2" "\<forall>c. entries m3 c = None \<longleftrightarrow> entries m2 c = None"
    and t3: "t3 = t2\<lparr>p_oldest := p_oldest t3, p_newest := p_newest t3\<rparr>"
    using append_age_run [OF q(3) anew] by auto
  have g2: "i_size_t t2 = i_size_t t" "i_size_mask t2 = i_size_mask t" "fn_hash t2 = fn_hash t"
    "p_nr t2 = p_nr t" "i_items t2 = i_items t" "same_config t t2" "same_size t t2"
    using st1 sz1 by (subst t2, simp add: same_config_def same_size_def)+
  have g: "pp_entries t3 = pp_entries t2" "i_size_t t3 = i_size_t t" "i_size_mask t3 = i_size_mask t" "fn_hash t3 = fn_hash t"
    "p_nr t3 = p_nr t" "i_items t3 = i_items t" "same_config t t3" "same_size t t3"
    using g2 by (subst t3, simp add: same_config_def same_size_def)+
  have km: "keys m1 = keys m" "datas m1 = datas m" "brk m1 = brk m" "bucket_freed m1 = bucket_freed m" using p(3) by (simp_all add: same_contents_def)
  have kd: "keys m3 c = keys m c \<and> datas m3 c = datas m c" if "c \<noteq> v" for c using q(4) w(5,6) km that by simp
  have "ght_inv t3 m3 (bs[l := a # xs]) ((us @ vs) @ [a])"
  proof (rule ght_inv_intro)
    show "size_ok t3" using ght_invD(1) [OF i] size_ok_cong [OF g(2,3)] by simp
    have "l_key t3 x = l_key t2 x" for x by (rule l_key_cong) (simp_all add: g g2)
    then show "buckets_ok t3 m3 (bs[l := a # xs])" using q(2) w(3,4,5) g(1,2) g2 by (simp add: buckets_ok_def)
    have A: "ages_ok t m (us @ v # vs)" using ght_invD(3) [OF i] as by simp
    have inj: "inj_on (keys m) (insert a (set as))"
    proof (rule inj_on_insert [THEN iffD2])
      have "keys m a \<notin> keys m ` set as" using fk(1) k by (auto simp: entry_of_None)
      then show "inj_on (keys m) (set as) \<and> keys m a \<notin> keys m ` (set as - {a})" using ght_invD(9) [OF i] by auto
    qed
    show "ages_ok t3 m3 ((us @ vs) @ [a])"
      unfolding ages_ok_def
    proof (intro conjI ballI)
      show "distinct ((us @ vs) @ [a])" using anew(1) by auto
      have s: "set ((us @ vs) @ [a]) \<subseteq> insert a (set as)" "v \<notin> set ((us @ vs) @ [a])" using as ght_invD(8) [OF i] av by auto
      show "inj_on (keys m3) (set ((us @ vs) @ [a]))"
      proof (rule inj_onI)
        fix x y assume xy: "x \<in> set ((us @ vs) @ [a])" "y \<in> set ((us @ vs) @ [a])" "keys m3 x = keys m3 y"
        then have "x \<noteq> v" "y \<noteq> v" using s(2) by auto
        then have "keys m x = keys m y" using xy(3) kd by metis
        then show "x = y" using inj_onD [OF inj] s(1) xy(1,2) by blast
      qed
      fix c assume "c \<in> set ((us @ vs) @ [a])"
      then have "c \<noteq> v" "c \<in> insert a (set as)" using s by auto
      then show "\<exists>k. keys m3 c = Some (hk_fill k)" using kd [of c] fk(1) ght_invD(10) [OF i] by auto
    qed (rule w(2))
    show "set ((us @ vs) @ [a]) = \<Union> (set ` set (bs[l := a # xs]))"
    proof -
      define R where "R = (\<Union>j \<in> {..<length bs} - {l}. set (bs ! j))"
      have "v \<notin> R"
      proof
        assume "v \<in> R"
        then obtain j where "j < length bs" "j \<noteq> l" "v \<in> set (bs ! j)" by (auto simp: R_def)
        then show False using bucket_disjoint [OF b ll, of j v] bl ght_invD(12) [OF i] by simp
      qed
      moreover have "insert v (set us \<union> set vs) = insert v (set xs \<union> R)"
        using Union_split [OF lb] ght_invD(4) [OF i] bl as by (simp add: R_def)
      moreover have "v \<notin> set us \<union> set vs" "v \<notin> set xs"
        using ght_invD(8) [OF i] buckets_okD(2) [OF b ll] bl as by auto
      ultimately have "set us \<union> set vs = set xs \<union> R"
        using insert_ident [of v "set us \<union> set vs" "set xs \<union> R"] by blast
      then show ?thesis using Union_update [OF lb, of "a # xs"] by (simp add: R_def)
    qed
    show "p_nr t3 = map (\<lambda>b. int (length b)) (bs[l := a # xs])"
      using g(5) ght_invD(5) [OF i] map_length_update [of "a # xs" bs l] bl by simp
    show "i_items t3 = length ((us @ vs) @ [a])" using g(6) ght_invD(6) [OF i] as by simp
    fix c assume "entries m3 c \<noteq> None"
    then have "entries m2 c \<noteq> None" using w(9) by metis
    then have "entries m1 c \<noteq> None" using q(4,6) by metis
    then have "entries m c \<noteq> None" using p(3) unfolding same_contents_def by metis
    then show "c < brk m3" using ght_invD(7) [OF i] w(7) q(7) km by simp
  qed
  moreover have "evicted m1 v = evicted m v" using km by (simp add: evicted_def)
  moreover have "butlast (bs ! l) = xs" "bs ! l \<noteq> []" "v = last (bs ! l)" using bl by simp_all
  moreover have "entries m3 v = None" using q(6) w(9) by metis
  ultimately show ?thesis
    using as p(1) q(1,7,8) w(1,7,8) kd km g(7,8)
    by (intro exI [of _ v] exI [of _ us] exI [of _ vs] exI [of _ t1] exI [of _ m1] exI [of _ t2] exI [of _ m2] exI [of _ t3] exI [of _ m3]) simp
qed

end
