(* ===== verification/GhtSpec.thy ===== *)
theory GhtSpec
  imports GhtBounded
begin

text \<open>
  What libghthash promises: a table is a list of keys and data in the order of insertion, and every
  operation acts on that list. The order of the buckets, the heuristics and rehashing do not show.
\<close>

section \<open>Programs that use a table\<close>

text \<open>\<open>Visit i\<close> is \<open>ght_first\<close> followed by \<open>i\<close> calls of \<open>ght_next\<close>.\<close>

datatype ght_op = Insert ptr "byte list" | Get "byte list" | Replace ptr "byte list" | Remove "byte list" | Visit nat | Items
  | Rehash nat | Heuristics int | AutoRehash bool

datatype ght_result = Status int | Data ptr | Item ptr "byte list option" | Count nat | Done

primrec advance :: "ght_mem \<Rightarrow> nat \<Rightarrow> ptr \<times> byte list option \<times> ght_iterator \<Rightarrow> (ptr \<times> byte list option \<times> ght_iterator) option" where
  "advance m 0 r = Some r"
| "advance m (Suc i) r = do { r' \<leftarrow> ght_next m (snd (snd r)); advance m i r' }"

fun ght_step :: "ght_op \<Rightarrow> ght_hash_table \<Rightarrow> ght_mem \<Rightarrow> (ght_result \<times> ght_hash_table \<times> ght_mem) option" where
  "ght_step (Insert d k) t m = do { (r, t, m) \<leftarrow> ght_insert t m d k; Some (Status r, t, m) }"
| "ght_step (Get k) t m = do { (d, t, m) \<leftarrow> ght_get t m k; Some (Data d, t, m) }"
| "ght_step (Replace d k) t m = do { (r, t, m) \<leftarrow> ght_replace t m d k; Some (Data r, t, m) }"
| "ght_step (Remove k) t m = do { (d, t, m) \<leftarrow> ght_remove t m k; Some (Data d, t, m) }"
| "ght_step (Visit i) t m = do { r \<leftarrow> ght_first t m; (d, k, it) \<leftarrow> advance m i r; Some (Item d k, t, m) }"
| "ght_step Items t m = Some (Count (ght_size t), t, m)"
| "ght_step (Rehash n) t m = do { (t, m) \<leftarrow> ght_rehash t m n; Some (Done, t, m) }"
| "ght_step (Heuristics h) t m = Some (Done, ght_set_heuristics t h, m)"
| "ght_step (AutoRehash b) t m = Some (Done, ght_set_rehash t b, m)"

fun ght_steps :: "ght_op list \<Rightarrow> ght_hash_table \<Rightarrow> ght_mem \<Rightarrow> (ght_result list \<times> ght_hash_table \<times> ght_mem) option" where
  "ght_steps [] t m = Some ([], t, m)"
| "ght_steps (c # cs) t m = do { (r, t, m) \<leftarrow> ght_step c t m; (rs, t, m) \<leftarrow> ght_steps cs t m; Some (r # rs, t, m) }"

text \<open>The same on a list of pairs.\<close>

fun list_step :: "ght_op \<Rightarrow> (byte list \<times> ptr) list \<Rightarrow> ght_result \<times> (byte list \<times> ptr) list" where
  "list_step (Insert d k) ps = (if k \<in> fst ` set ps then (Status (- 1), ps) else (Status 0, ps @ [(k, d)]))"
| "list_step (Get k) ps = (Data (data_of ps k), ps)"
| "list_step (Replace d k) ps = (Data (data_of ps k), set_data k d ps)"
| "list_step (Remove k) ps = (Data (data_of ps k), without k ps)"
| "list_step (Visit i) ps = (if i < length ps then Item (snd (ps ! i)) (Some (fst (ps ! i))) else Item None None, ps)"
| "list_step Items ps = (Count (length ps), ps)"
| "list_step (Rehash n) ps = (Done, ps)"
| "list_step (Heuristics h) ps = (Done, ps)"
| "list_step (AutoRehash b) ps = (Done, ps)"

fun list_steps :: "ght_op list \<Rightarrow> (byte list \<times> ptr) list \<Rightarrow> ght_result list" where
  "list_steps [] ps = []"
| "list_steps (c # cs) ps = (case list_step c ps of (r, ps') \<Rightarrow> r # list_steps cs ps')"

text \<open>What the operations need: data, and a size that fits.\<close>

fun op_ok :: "ght_op \<Rightarrow> bool" where
  "op_ok (Insert d k) \<longleftrightarrow> d \<noteq> None"
| "op_ok (Replace d k) \<longleftrightarrow> d \<noteq> None"
| "op_ok (Rehash n) \<longleftrightarrow> n \<le> 2 ^ 30"
| "op_ok _ \<longleftrightarrow> True"

section \<open>Each operation\<close>

definition holds :: "ght_hash_table \<Rightarrow> ght_mem \<Rightarrow> (byte list \<times> ptr) list \<Rightarrow> bool" where
  "holds t m ps \<longleftrightarrow> (\<exists>bs as. ght_inv t m bs as \<and> pairs m as = ps)"

lemma holdsI: "ght_inv t m bs as \<Longrightarrow> pairs m as = ps \<Longrightarrow> holds t m ps"
  by (auto simp: holds_def)

lemma pairs_keys:
  assumes "ght_inv t m bs as"
  shows "k \<in> fst ` set (pairs m as) \<longleftrightarrow> entry_of m as k \<noteq> None"
proof -
  have "map_of (pairs m as) k = None \<longleftrightarrow> entry_of m as k = None" by (simp add: pairs_lookup [OF assms])
  then show ?thesis by (metis map_of_eq_None_iff)
qed

lemma ght_inv_config:
  assumes "ght_inv t m bs as" and "fn_hash t' = fn_hash t" "i_size_t t' = i_size_t t" "i_size_mask t' = i_size_mask t"
    "pp_entries t' = pp_entries t" "p_nr t' = p_nr t" "i_items t' = i_items t" "p_oldest t' = p_oldest t" "p_newest t' = p_newest t"
  shows "ght_inv t' m bs as"
proof (rule ght_inv_intro)
  show "buckets_ok t' m bs" using ght_invD(2) [OF assms(1)] assms(2-5) by (simp add: buckets_ok_def l_key_def)
  show "ages_ok t' m as" using ght_invD(3) [OF assms(1)] assms(8,9) by (simp add: ages_ok_def)
  show "size_ok t'" using ght_invD(1) [OF assms(1)] assms(3,4) by (simp add: size_ok_def)
  show "a < brk m" if "entries m a \<noteq> None" for a using that by (rule ght_invD(7) [OF assms(1)])
qed (simp_all add: ght_invD(4-6) [OF assms(1)] assms)

lemma advance_run:
  assumes "ght_inv t m bs as" and "j \<le> length as"
    and "r = (case visit m (drop j as) of (d, k, it) \<Rightarrow> (d, map_option p_key k, it))"
  shows "advance m i r = Some (case visit m (drop (j + i) as) of (d, k, it) \<Rightarrow> (d, map_option p_key k, it))"
  using assms(2,3)
proof (induction i arbitrary: j r)
  case 0
  then show ?case by simp
next
  case (Suc i)
  have n: "ght_next m (snd (snd r)) = Some (case visit m (drop (Suc j) as) of (d, k, it) \<Rightarrow> (d, map_option p_key k, it))"
  proof (cases "j < length as")
    case True
    then have d: "drop j as = as ! j # drop (Suc j) as" by (simp add: Cons_nth_drop_Suc)
    have "dlist (newers m) (olders m) (p_oldest t) (take j as @ as ! j # drop (Suc j) as) (p_newest t)"
      using ght_invD(11) [OF assms(1)] d by (metis append_take_drop_id)
    from next_keysize_run [OF this] show ?thesis using Suc.prems(2) d by (simp add: ght_next_def split: prod.split)
  next
    case False
    then show ?thesis using Suc.prems by (simp add: ght_next_def next_keysize_def)
  qed
  show ?case
  proof (cases "j < length as")
    case True
    then show ?thesis using n Suc.IH [of "Suc j"] by simp
  next
    case False
    then have "drop j as = []" "drop (Suc j) as = drop j as" by simp_all
    then have "ght_next m (snd (snd r)) = Some r" using n Suc.prems(2) by simp
    then show ?thesis using Suc.IH [of j r] Suc.prems False by simp
  qed
qed

lemma visit_pairs:
  assumes "ght_inv t m bs as" and "visit m (drop i as) = (d, k, it)"
  shows "Item d (map_option p_key k) =
    (if i < length (pairs m as) then Item (snd (pairs m as ! i)) (Some (fst (pairs m as ! i))) else Item None None)"
proof (cases "i < length as")
  case True
  then have dr: "drop i as = as ! i # drop (Suc i) as" by (simp add: Cons_nth_drop_Suc)
  obtain c where c: "keys m (as ! i) = Some (hk_fill c)" using ght_invD(10) [OF assms(1), of "as ! i"] True by auto
  have "d = the (datas m (as ! i))" "k = keys m (as ! i)" using assms(2) dr by simp_all
  then show ?thesis using True c by (simp add: pairs_def pair_at_def)
next
  case False
  then show ?thesis using assms(2) by auto
qed

text \<open>The tables on which the refinement works.\<close>

definition plain :: "ght_hash_table \<Rightarrow> ght_mem \<Rightarrow> (byte list \<times> ptr) list \<Rightarrow> bool" where
  "plain t m ps \<longleftrightarrow> holds t m ps \<and> bucket_limit t = 0 \<and> (\<forall>n. fn_alloc t n) \<and> (\<forall>p \<in> set ps. snd p \<noteq> None)"

lemma plainI:
  assumes "plain t m ps" and "ght_inv t' m' bs as" and "pairs m' as = ps'" and "same_config t t'"
    and "\<forall>p \<in> set ps'. snd p \<noteq> None"
  shows "plain t' m' ps'"
  using assms by (auto simp: plain_def holds_def same_config_def)

lemma ght_step_run:
  assumes p: "plain t m ps" and ok: "op_ok c" and len: "length ps < 2 ^ 30"
  shows "\<exists>t' m'. ght_step c t m = Some (fst (list_step c ps), t', m') \<and> plain t' m' (snd (list_step c ps))"
proof -
  obtain bs as where i: "ght_inv t m bs as" and ps: "pairs m as = ps" using p by (auto simp: plain_def holds_def)
  have al: "\<forall>n. fn_alloc t n" and lim: "bucket_limit t = 0" and nn: "\<forall>p \<in> set ps. snd p \<noteq> None"
    using p by (auto simp: plain_def)
  have la: "length as = length ps" using ps by auto
  show ?thesis
  proof (cases c)
    case (Insert d k)
    show ?thesis
    proof (cases "entry_of m as k")
      case (Some a)
      then have "ght_insert t m d k = Some (- 1, t, m)" unfolding ght_insert_def by (rule insert_old_run [OF i])
      then show ?thesis using Insert Some pairs_keys [OF i, of k] ps p by simp
    next
      case None
      have "length as \<le> 2 ^ 30" using la len by simp
      then obtain bs' as' t' m' where r: "ght_insert t m d k = Some (0, t', m')" "ght_inv t' m' bs' as'" "pairs m' as' = ps @ [(k, d)]" "same_config t t'"
        using ght_insert_new_run [OF i al lim None, of d] nn ps by blast
      have "\<forall>p \<in> set (ps @ [(k, d)]). snd p \<noteq> None" using nn ok Insert by auto
      then have "plain t' m' (ps @ [(k, d)])" by (rule plainI [OF p r(2,3,4)])
      then show ?thesis using Insert None pairs_keys [OF i, of k] ps r(1) by simp
    qed
  next
    case (Get k)
    obtain bs' t' m' where r: "ght_get t m k = Some (data_of (pairs m as) k, t', m')" "ght_inv t' m' bs' as" "same_contents m m'" "same_config t t'"
      using ght_get_run [OF i, of k] by blast
    have "plain t' m' ps" using plainI [OF p r(2) _ r(4) nn] same_contents_pairs [OF r(3)] ps by simp
    then show ?thesis using Get r(1) ps by simp
  next
    case (Replace d k)
    obtain bs' t' m' where r: "ght_replace t m d k = Some (data_of (pairs m as) k, t', m')" "ght_inv t' m' bs' as"
      "pairs m' as = set_data k d (pairs m as)" "same_config t t'"
      using ght_replace_run [OF i, of d k] by blast
    have "\<forall>p \<in> set (set_data k d ps). snd p \<noteq> None" using nn ok Replace by (auto simp: set_data_def)
    then have "plain t' m' (set_data k d ps)" using plainI [OF p r(2) _ r(4)] r(3) ps by simp
    then show ?thesis using Replace r(1) ps by simp
  next
    case (Remove k)
    obtain bs' as' t' m' where r: "ght_remove t m k = Some (data_of (pairs m as) k, t', m')" "ght_inv t' m' bs' as'"
      "pairs m' as' = without k (pairs m as)" "same_config t t'"
      using ght_remove_run [OF i, of k] by blast
    have "\<forall>p \<in> set (without k ps). snd p \<noteq> None" using nn by (auto simp: without_def)
    then have "plain t' m' (without k ps)" using plainI [OF p r(2) _ r(4)] r(3) ps by simp
    then show ?thesis using Remove r(1) ps by simp
  next
    case (Visit n)
    obtain d k it where v: "visit m (drop n as) = (d, k, it)" by (cases "visit m (drop n as)")
    have "ght_first t m = Some (case visit m (drop 0 as) of (d, k, it) \<Rightarrow> (d, map_option p_key k, it))"
      using first_keysize_run [OF ght_invD(11) [OF i]] by (simp add: ght_first_def split: prod.split)
    then have "ght_step c t m = Some (Item d (map_option p_key k), t, m)"
      using advance_run [OF i _ refl, of 0 n] v Visit by simp
    then show ?thesis using Visit visit_pairs [OF i v] ps p by simp
  next
    case Items
    then show ?thesis using p ght_invD(6) [OF i] la by (simp add: ght_size_def)
  next
    case (Rehash n)
    obtain bs' as' t' m' where r: "ght_rehash t m n = Some (t', m')" "ght_inv t' m' bs' as'" "pairs m' as' = copied (pairs m as)" "same_config t t'"
      using ght_rehash_run [OF i _ al, of n] ok Rehash by auto
    have "plain t' m' ps" using plainI [OF p r(2) _ r(4) nn] r(3) copied_all [OF nn] ps by simp
    then show ?thesis using Rehash r(1) by simp
  next
    case (Heuristics h)
    have "ght_inv (ght_set_heuristics t h) m bs as"
      by (rule ght_inv_config [OF i]) (simp_all add: ght_set_heuristics_def)
    then have "plain (ght_set_heuristics t h) m ps" using p ps by (auto simp: plain_def holds_def ght_set_heuristics_def)
    then show ?thesis using Heuristics by simp
  next
    case (AutoRehash b)
    have "ght_inv (ght_set_rehash t b) m bs as"
      by (rule ght_inv_config [OF i]) (simp_all add: ght_set_rehash_def)
    then have "plain (ght_set_rehash t b) m ps" using p ps by (auto simp: plain_def holds_def ght_set_rehash_def)
    then show ?thesis using AutoRehash by simp
  qed
qed

lemma list_step_length: "length (snd (list_step c ps)) \<le> Suc (length ps)"
  by (cases c) (simp_all add: set_data_def without_def le_SucI)

lemma ght_steps_run:
  assumes "plain t m ps" and "\<forall>c \<in> set cs. op_ok c" and "length ps + length cs \<le> 2 ^ 30"
  shows "\<exists>t' m'. ght_steps cs t m = Some (list_steps cs ps, t', m')"
  using assms
proof (induction cs arbitrary: t m ps)
  case Nil
  then show ?case by simp
next
  case (Cons c cs)
  obtain t1 m1 where s: "ght_step c t m = Some (fst (list_step c ps), t1, m1)" "plain t1 m1 (snd (list_step c ps))"
    using ght_step_run [OF Cons.prems(1), of c] Cons.prems(2,3) by auto
  have "length (snd (list_step c ps)) + length cs \<le> 2 ^ 30"
    using list_step_length [of c ps] Cons.prems(3) by simp
  then obtain t2 m2 where "ght_steps cs t1 m1 = Some (list_steps cs (snd (list_step c ps)), t2, m2)"
    using Cons.IH [OF s(2)] Cons.prems(2) by auto
  then show ?case using s(1) by (simp add: case_prod_beta)
qed

end
