(* ===== verification/GhtProps.thy ===== *)
theory GhtProps
  imports GhtSpec
begin

text \<open>The properties of libghthash.\<close>

definition no_memory :: ght_mem where
  "no_memory = \<lparr>entries = (\<lambda>_. None), brk = 1, bucket_freed = []\<rparr>"

text \<open>A program on a new table with a hash function of the user.\<close>

definition ght_run :: "nat \<Rightarrow> (ght_hash_key \<Rightarrow> 32 word) \<Rightarrow> ght_op list \<Rightarrow> ght_result list option" where
  "ght_run n h cs =
     do {
       t \<leftarrow> ght_create n;
       (rs, t', m') \<leftarrow> ght_steps cs (ght_set_hash t h) no_memory;
       Some rs
     }"

lemma no_blocks_empty: "no_blocks no_memory"
  by (simp add: no_blocks_def no_memory_def)

lemma created_plain:
  assumes "n \<le> 2 ^ 30" and "no_blocks m"
  shows "\<exists>t. ght_create n = Some t \<and> plain (ght_set_hash t h) m []"
proof -
  obtain t bs where t: "ght_create n = Some t" "ght_inv t m bs []" "fn_alloc t = (\<lambda>_. True)" "bucket_limit t = 0"
    using ght_create_run [OF assms] by blast
  have "ght_inv (ght_set_rehash (ght_set_heuristics (ght_set_alloc (ght_set_hash t h) (fn_alloc t)) (i_heuristics t)) (i_automatic_rehash t)) m bs []"
    by (rule empty_table_config [OF t(2)])
  also have "ght_set_rehash (ght_set_heuristics (ght_set_alloc (ght_set_hash t h) (fn_alloc t)) (i_heuristics t)) (i_automatic_rehash t) = ght_set_hash t h"
    by (simp add: ght_set_rehash_def ght_set_heuristics_def ght_set_alloc_def ght_set_hash_def)
  finally have "holds (ght_set_hash t h) m []" by (rule holdsI) simp
  then show ?thesis using t by (simp add: plain_def ght_set_hash_def)
qed

text \<open>C24:
  A table of any size up to \<open>2 ^ 30\<close>, with any hash function, returns what a list of pairs in
  the order of insertion returns, for every sequence of insertions, lookups, replacements, removals,
  iterations (\<open>ght_first\<close> and \<open>ght_next\<close>), rehashes, and changes of the heuristics or of automatic
  rehashing, when all data are non-null: no undefined behaviour, no failed assertion, and neither heuristics nor
  rehashing can be observed.
\<close>

theorem ght_refines_list:
  assumes "n \<le> 2 ^ 30" and "\<forall>c \<in> set cs. op_ok c" and "length cs \<le> 2 ^ 30"
  shows "ght_run n h cs = Some (list_steps cs [])"
proof -
  obtain t where t: "ght_create n = Some t" "plain (ght_set_hash t h) no_memory []"
    using created_plain [OF assms(1) no_blocks_empty] by blast
  obtain t' m' where "ght_steps cs (ght_set_hash t h) no_memory = Some (list_steps cs [], t', m')"
    using ght_steps_run [OF t(2) assms(2)] assms(3) by auto
  then show ?thesis using t(1) by (simp add: ght_run_def)
qed

theorem ght_refines_list_witness:
  "ght_run 1 ght_one_at_a_time_hash [Heuristics 2, AutoRehash True, Insert (Some 7) [97], Insert (Some 8) [98], Insert (Some 9) [99],
      Insert (Some 3) [100], Replace (Some 5) [98], Get [98], Remove [97], Rehash 8, Visit 0, Visit 3, Items] =
    Some [Done, Done, Status 0, Status 0, Status 0, Status 0, Data (Some 8), Data (Some 5), Data (Some 7), Done,
      Item (Some 5) (Some [98]), Item None None, Count 3]"
  using ght_refines_list [of 1 "[Heuristics 2, AutoRehash True, Insert (Some 7) [97], Insert (Some 8) [98], Insert (Some 9) [99],
      Insert (Some 3) [100], Replace (Some 5) [98], Get [98], Remove [97], Rehash 8, Visit 0, Visit 3, Items]" ght_one_at_a_time_hash]
  by (simp add: data_of_def set_data_def without_def)

text \<open>C25:
  When the allocation function refuses nothing and the new size is at most \<open>2 ^ 30\<close>, \<open>ght_rehash\<close> keeps exactly
  the pairs that come before the first pair without data in the order of
  insertion: a null data pointer ends the loop over the table. The entries \<open>as'\<close> of the new table are all newly
  allocated, all entries \<open>as\<close> of the old one are freed, the copied ones and the others, and no other entry
  in memory is allocated or freed.
\<close>

theorem ght_rehash_effect:
  assumes "ght_inv t m bs as" and "n \<le> 2 ^ 30" and "\<forall>b. fn_alloc t b"
  shows "\<exists>t' m' bs' as'. ght_rehash t m n = Some (t', m') \<and> ght_inv t' m' bs' as' \<and>
    pairs m' as' = takeWhile (\<lambda>p. snd p \<noteq> None) (pairs m as) \<and>
    ght_size t' = length (takeWhile (\<lambda>p. snd p \<noteq> None) (pairs m as)) \<and>
    set as' \<inter> dom (entries m) = {} \<and> dom (entries m') = dom (entries m) - set as \<union> set as'"
proof -
  obtain bs' as' t' m' where r: "ght_rehash t m n = Some (t', m')" "ght_inv t' m' bs' as'" "pairs m' as' = copied (pairs m as)"
      "\<forall>a \<in> set as'. brk m \<le> a" "dom (entries m') = dom (entries m) - set as \<union> set as'"
    using ght_rehash_run [OF assms] by blast
  have "length as' = length (copied (pairs m as))" using r(3) by (metis length_pairs)
  moreover have "set as' \<inter> dom (entries m) = {}" using r(4) ght_invD(7) [OF assms(1)] by (fastforce simp: domIff)
  ultimately show ?thesis using r ght_invD(6) [OF r(2)] unfolding copied_def ght_size_def by metis
qed

lemma inserted_null:
  "\<exists>t m. holds t m [([97], None)] \<and> (\<forall>b. fn_alloc t b)"
proof -
  obtain t bs where t: "ght_inv t no_memory bs []" "fn_alloc t = (\<lambda>_. True)" "bucket_limit t = 0"
    using ght_create_run [OF _ no_blocks_empty, of 1] by auto
  obtain bs' as' t' m' where "ght_inv t' m' bs' as'" "pairs m' as' = pairs no_memory [] @ [([97], None)]" "same_config t t'"
    using ght_insert_new_run [OF t(1) _ t(3), of "[97]" None] t(2) by (auto simp: entry_of_def)
  then show ?thesis using t(2) holdsI [of t' m' bs' as'] by (auto simp: same_config_def)
qed

theorem ght_rehash_effect_witness:
  "\<exists>t m bs a t' m'. ght_inv t m bs [a] \<and> pairs m [a] = [([97], None)] \<and> a \<in> dom (entries m) \<and>
     ght_rehash t m 4 = Some (t', m') \<and> ght_size t' = 0 \<and> dom (entries m') = dom (entries m) - {a}"
proof -
  obtain t m where h: "holds t m [([97], None)]" "\<forall>b. fn_alloc t b" using inserted_null by blast
  then obtain bs as where i: "ght_inv t m bs as" "pairs m as = [([97], None)]" by (auto simp: holds_def)
  then obtain a where a: "as = [a]" by (cases as rule: remdups_adj.cases) (auto simp: pairs_def)
  obtain t' m' bs' as' where r: "ght_rehash t m 4 = Some (t', m')" "pairs m' as' = []" "ght_size t' = 0"
    "dom (entries m') = dom (entries m) - set as \<union> set as'"
    using ght_rehash_effect [OF i(1) _ h(2), of 4] i(2) by auto
  moreover have "as' = []" using r(2) by (simp add: pairs_def)
  moreover have "a \<in> dom (entries m)" using entry_live [OF i(1), of a] a by auto
  ultimately have "ght_inv t m bs [a] \<and> pairs m [a] = [([97], None)] \<and> a \<in> dom (entries m) \<and>
     ght_rehash t m 4 = Some (t', m') \<and> ght_size t' = 0 \<and> dom (entries m') = dom (entries m) - {a}"
    using i a by simp
  then show ?thesis by (intro exI)
qed

text \<open>C26:
  In a table with bounded buckets and a callback, without automatic rehashing, the insertion of a new key
  whose entry is not refused by the allocation function succeeds and keeps the bound. If the bucket
  of the key has fewer entries than the bound, the pair is added and no entry leaves. Otherwise the bucket is
  full, and exactly its last entry leaves the table: its data and key are handed to the callback
  and it is freed. In both cases the new entry is the first of its bucket and the newest of the table, and
  all other entries stay where they are.
\<close>

theorem ght_insert_bounded:
  assumes "ght_inv t m bs as" and "bucket_limit t \<noteq> 0" and "fn_bucket_free t" and "\<not> i_automatic_rehash t"
    and "\<forall>n \<in> set (p_nr t). n \<le> int (bucket_limit t)" and "fn_alloc t (ENTRY_SIZE + length k)"
    and "k \<notin> fst ` set (pairs m as)" and "length as < 2 ^ 32"
    and "l = l_key t (hk_fill k)" and "a = brk m"
  shows "\<exists>t' m'. ght_insert t m d k = Some (0, t', m') \<and>
    (\<forall>n \<in> set (p_nr t'). n \<le> int (bucket_limit t)) \<and> bucket_limit t' = bucket_limit t \<and>
    (if length (bs ! l) < bucket_limit t
     then ght_inv t' m' (bs[l := a # bs ! l]) (as @ [a]) \<and> pairs m' (as @ [a]) = pairs m as @ [(k, d)] \<and>
       bucket_freed m' = bucket_freed m
     else \<exists>x us vs. x = last (bs ! l) \<and> as = us @ x # vs \<and>
       ght_inv t' m' (bs[l := a # butlast (bs ! l)]) (us @ vs @ [a]) \<and>
       pairs m' (us @ vs @ [a]) = pairs m (us @ vs) @ [(k, d)] \<and> entries m' x = None \<and>
       bucket_freed m' = bucket_freed m @ [(snd (pair_at m x), fst (pair_at m x))])"
proof -
  note i = assms(1)
  have k: "entry_of m as k = None" using assms(7) pairs_keys [OF i, of k] by simp
  let ?m = "created m d k"
  have l: "l < i_size_t t" "l < length bs" using l_key_bound [OF i] ght_invD(12) [OF i] assms(9) by simp_all
  note c = created_inv [OF i, where d = d and k = k]
  have within: "length b \<le> bucket_limit t" if "b \<in> set bs" for b using assms(5) ght_invD(5) [OF i] that by auto
  have bnd: "\<forall>n \<in> set (p_nr t'). n \<le> int (bucket_limit t)"
    if "ght_inv t' m' (bs[l := b]) as'" "length b \<le> bucket_limit t" for t' m' b as'
    using that within ght_invD(5) [OF that(1)] by (fastforce dest: set_update_subset_insert [THEN subsetD])
  show ?thesis
  proof (cases "length (bs ! l) < bucket_limit t")
    case True
    then have "roomy t bs l" by (simp add: roomy_def)
    from link_roomy [OF c(1) fresh_created brk_out [OF i] _ assms(9) this] c(2) k
    obtain t1 m1 t2 t3 m3 where s: "push_entry t ?m l a = Some (t1, m1)" "bound_bucket t1 m1 l = Some (t2, m1)"
        "append_age t2 m1 a = Some (t3, m3)" and v: "ght_inv t3 m3 (bs[l := a # bs ! l]) (as @ [a])"
        "keys m3 = keys ?m" "datas m3 = datas ?m" "bucket_freed m3 = bucket_freed ?m" "same_config t t3"
      unfolding assms(10) by (simp only: refl) blast
    have run: "ght_insert t m d k = Some (0, t3, m3)"
      using search_plain [OF i, of k] k assms(4,6,9,10) s by (simp add: ght_insert_def insert_body_def he_create_eq)
    have "pairs m3 (as @ [a]) = pairs ?m (as @ [a])" by (rule pairs_cong) (simp add: v)
    then have "pairs m3 (as @ [a]) = pairs m as @ [(k, d)]" using c(3) assms(10) by (simp add: pair_at_def hk_fill_def)
    moreover have "\<forall>n \<in> set (p_nr t3). n \<le> int (bucket_limit t)" by (rule bnd [OF v(1)]) (use True in simp)
    moreover have "bucket_limit t3 = bucket_limit t" using v(5) by (simp add: same_config_def)
    moreover have "bucket_freed m3 = bucket_freed m" using v(4) by simp
    ultimately show ?thesis using run v(1) True by auto
  next
    case False
    have ek: "entry_of ?m as k = None" using c(2) k by simp
    from link_full [OF c(1) fresh_created brk_out [OF i] ek assms(9,2) _ assms(3,8)] False
    obtain x us vs t1 m1 t2 m2 t3 m3 where x: "as = us @ x # vs" "bs ! l \<noteq> []" "x = last (bs ! l)" "entries m3 x = None"
      "push_entry t ?m l a = Some (t1, m1)"
      "bound_bucket t1 m1 l = Some (t2, m2)" "append_age t2 m2 a = Some (t3, m3)"
      "ght_inv t3 m3 (bs[l := a # butlast (bs ! l)]) (us @ vs @ [a])"
      "\<forall>c. c \<noteq> x \<longrightarrow> keys m3 c = keys ?m c \<and> datas m3 c = datas ?m c" "bucket_freed m3 = bucket_freed ?m @ [evicted ?m x]"
      "same_config t t3" unfolding assms(10) by (auto simp: not_less)
    have run: "ght_insert t m d k = Some (0, t3, m3)"
      using search_plain [OF i, of k] k assms(4,6,9,10) x(5,6,7) by (simp add: ght_insert_def insert_body_def he_create_eq)
    have "x \<noteq> a" using brk_out [OF i] x(1) assms(10) by auto
    then have ev: "evicted ?m x = (snd (pair_at m x), fst (pair_at m x))"
      using assms(10) by (simp add: evicted_def pair_at_def)
    have "pairs m3 (us @ vs @ [a]) = pairs ?m (us @ vs @ [a])"
      by (rule pairs_cong) (use x(1,9) ght_invD(8) [OF i] \<open>x \<noteq> a\<close> in auto)
    also have "\<dots> = pairs ?m (us @ vs) @ [(k, d)]" using assms(10) by (simp add: pair_at_def hk_fill_def)
    also have "pairs ?m (us @ vs) = pairs m (us @ vs)"
      by (rule pairs_cong) (use brk_out [OF i] x(1) in auto)
    finally have "pairs m3 (us @ vs @ [a]) = pairs m (us @ vs) @ [(k, d)]" .
    moreover have "\<forall>n \<in> set (p_nr t3). n \<le> int (bucket_limit t)"
      by (rule bnd [OF x(8)]) (use within [OF nth_mem [OF l(2)]] x(2) in \<open>cases "bs ! l"; simp\<close>)
    moreover have "bucket_limit t3 = bucket_limit t" using x(11) by (simp add: same_config_def)
    moreover have "bucket_freed m3 = bucket_freed m @ [(snd (pair_at m x), fst (pair_at m x))]" using x(10) ev by simp
    ultimately show ?thesis using run x(1,3,4,8) False by auto
  qed
qed

lemma bounded_empty:
  "\<exists>t bs. ght_inv t no_memory bs [] \<and> bucket_limit t = 1 \<and> fn_bucket_free t \<and> \<not> i_automatic_rehash t \<and>
    (\<forall>n \<in> set (p_nr t). n \<le> int (bucket_limit t)) \<and> fn_alloc t = (\<lambda>_. True) \<and> i_size_t t = 1"
proof -
  obtain t bs where t: "ght_inv t no_memory bs []" "fn_alloc t = (\<lambda>_. True)" "\<not> i_automatic_rehash t" "ght_create 1 = Some t"
    using ght_create_run [OF _ no_blocks_empty, of 1] by auto
  let ?t = "ght_set_bounded_buckets t 1 True"
  have "ght_inv ?t no_memory bs []" by (rule ght_inv_config [OF t(1)]) (simp_all add: ght_set_bounded_buckets_def)
  moreover have "\<forall>b \<in> set bs. b = []" using ght_invD(4) [OF t(1)] by auto
  then have "\<forall>n \<in> set (p_nr t). n \<le> 1" using ght_invD(5) [OF t(1)] by auto
  moreover have "i_size_t t = 1" using t(4) by (auto simp: ght_create_def create_loop.simps)
  ultimately show ?thesis using t(2,3) by (intro exI [of _ ?t] exI [of _ bs]) (simp add: ght_set_bounded_buckets_def)
qed

lemma bounded_full:
  "\<exists>t m a. ght_inv t m [[a]] [a] \<and> pairs m [a] = [([97], Some 5)] \<and> bucket_limit t = 1 \<and> fn_bucket_free t \<and>
    \<not> i_automatic_rehash t \<and> p_nr t = [1] \<and> fn_alloc t = (\<lambda>_. True) \<and> bucket_freed m = []"
proof -
  obtain t bs where t: "ght_inv t no_memory bs []" "bucket_limit t = 1" "fn_bucket_free t" "\<not> i_automatic_rehash t"
    "\<forall>n \<in> set (p_nr t). n \<le> int (bucket_limit t)" "fn_alloc t = (\<lambda>_. True)" "i_size_t t = 1" using bounded_empty by blast
  have e: "entry_of no_memory [] [97] = None" by (simp add: entry_of_def)
  have "roomy t bs (l_key t (hk_fill [97]))"
    using t(2) ght_invD(4,12) [OF t(1)] l_key_bound [OF t(1)] by (auto simp: roomy_def)
  moreover have "fn_alloc t (ENTRY_SIZE + length [97])" "\<not> (i_automatic_rehash t \<and> 2 * i_size_t t < i_items t)"
    using t(4,6) by simp_all
  ultimately obtain t' m' where ad: "added t no_memory [] (Some 5) [97] t' m'"
    using insert_new_run [OF t(1) _ e, of ght_rehash "Some 5"] by blast
  obtain bs' where i: "ght_inv t' m' bs' [brk no_memory]" using ad by (auto simp: added_def)
  have sz: "i_size_t t' = 1" using ad t(7) by (simp add: added_def same_size_def)
  obtain b where b: "bs' = [b]" using ght_invD(12) [OF i] sz by (auto simp: length_Suc_conv)
  have "distinct b" "set b = {brk no_memory}"
    using buckets_okD(2) [OF ght_invD(2) [OF i], of 0] sz ght_invD(4) [OF i] b by simp_all
  then have "b = [brk no_memory]" by (cases b rule: remdups_adj.cases) auto
  moreover have "pairs m' [brk no_memory] = [([97], Some 5)]" using added_pairs [OF t(1) ad] by (simp add: pairs_def)
  ultimately show ?thesis
    using i b ad t(2-4,6) ght_invD(5) [OF i] by (auto simp: added_def same_config_def no_memory_def)
qed

text \<open>The insertion into the only bucket, which holds one entry, evicts that entry.\<close>

theorem ght_insert_bounded_witness:
  "\<exists>t m t' m'. bucket_limit t = 1 \<and> holds t m [([97], Some 5)] \<and> ght_insert t m (Some 6) [98] = Some (0, t', m') \<and>
     holds t' m' [([98], Some 6)] \<and> bucket_freed m' = [(Some 5, [97])]"
proof -
  obtain t m a where t: "ght_inv t m [[a]] [a]" "pairs m [a] = [([97], Some 5)]" "bucket_limit t = 1" "fn_bucket_free t"
    "\<not> i_automatic_rehash t" "p_nr t = [1]" "fn_alloc t = (\<lambda>_. True)" "bucket_freed m = []"
    using bounded_full by (elim exE conjE) (rule that)
  have l: "l_key t (hk_fill [98]) = 0" using l_key_bound [OF t(1), of "hk_fill [98]"] ght_invD(12) [OF t(1)] by simp
  have "[98] \<notin> fst ` set (pairs m [a])" "bucket_limit t \<noteq> 0" "fn_alloc t (ENTRY_SIZE + length [98])"
    "length [a] < 2 ^ 32" "\<forall>n \<in> set (p_nr t). n \<le> int (bucket_limit t)"
    unfolding t(2,3,6,7) by simp_all
  note run = ght_insert_bounded [OF t(1) this(2) t(4,5) this(5,3,1,4) l [symmetric] refl, of "Some 6"]
  have full: "\<not> length ([[a]] ! 0) < bucket_limit t" using t(3) by simp
  obtain t' m' x us vs where r0: "ght_insert t m (Some 6) [98] = Some (0, t', m')"
    "x = last ([[a]] ! 0) \<and> [a] = us @ x # vs \<and>
     ght_inv t' m' ([[a]][0 := brk m # butlast ([[a]] ! 0)]) (us @ vs @ [brk m]) \<and>
     pairs m' (us @ vs @ [brk m]) = pairs m (us @ vs) @ [([98], Some 6)] \<and> entries m' x = None \<and>
     bucket_freed m' = bucket_freed m @ [(snd (pair_at m x), fst (pair_at m x))]"
    using run unfolding if_not_P [OF full] by (elim exE conjE) (rule that, assumption, intro conjI)
  have x: "x = a" using conjunct1 [OF r0(2)] by simp
  note r = r0(1) r0(2) [THEN conjunct2, unfolded x, THEN conjunct1] r0(2) [THEN conjunct2, THEN conjunct2, THEN conjunct1]
    r0(2) [THEN conjunct2, THEN conjunct2, THEN conjunct2, THEN conjunct1]
    r0(2) [THEN conjunct2, THEN conjunct2, THEN conjunct2, THEN conjunct2, THEN conjunct2, unfolded x]
  have "us = [] \<and> vs = []" using r(2) by (cases us) auto
  then have "holds t' m' [([98], Some 6)]" using holdsI [OF r(3,4)] by (simp add: pairs_def)
  moreover have "pair_at m a = ([97], Some 5)" using t(2) by (simp add: pairs_def)
  ultimately show ?thesis using r(1,5) t(1,2,3,8) holdsI [OF t(1,2)] by auto
qed

text \<open>C27:
  A failed insertion changes nothing: \<open>ght_insert\<close> answers -1 for a key that is in the table and -2 when the
  allocation function refuses the entry, and in both cases the table and the memory are as before.
\<close>

theorem ght_insert_fails:
  assumes "holds t m ps" and "k \<in> fst ` set ps \<or> \<not> fn_alloc t (ENTRY_SIZE + length k)"
  shows "ght_insert t m d k = Some (if k \<in> fst ` set ps then - 1 else - 2, t, m)"
proof -
  obtain bs as where i: "ght_inv t m bs as" and ps: "pairs m as = ps" using assms(1) by (auto simp: holds_def)
  show ?thesis
  proof (cases "entry_of m as k")
    case None
    then show ?thesis
      using insert_refused_run [OF i None] assms(2) pairs_keys [OF i, of k] ps by (auto simp: ght_insert_def)
  next
    case (Some a)
    then show ?thesis using insert_old_run [OF i Some] pairs_keys [OF i, of k] ps by (simp add: ght_insert_def)
  qed
qed

theorem ght_insert_fails_witness:
  "\<exists>t m. holds t m [([97], None)] \<and> ght_insert t m (Some 5) [97] = Some (- 1, t, m)"
proof -
  obtain t m where "holds t m [([97], None)]" using inserted_null by blast
  from this ght_insert_fails [OF this, of "[97]" "Some 5"] show ?thesis by auto
qed

end
