(* ===== verification/GlobalTable.thy ===== *)
theory GlobalTable
  imports HashTableSpec
begin

text \<open>
  The hash table of \<open>assignment1/hashtable.c\<close> (\<open>Assig2/hashtable.c\<close> has the same code): a first version of
  the table of \<open>Assig4\<close>, with one global table and a global count of its entries. Searching, appending to
  a list and looking up are the code of \<open>Assig4\<close> word for word, and the functions of \<open>HashTable\<close>
  stand for them; what differs is modelled here. Two defects stay visible: the block for a key
  is one byte too short for the terminating zero (such a write is counted and has no other
  effect), and the loop of \<open>ht_to_list\<close> goes back to the first entry of a slot each time.
\<close>

record 'd globals =
  h_table :: "'d htable"
  ht_size :: int
  overruns :: nat

section \<open>Operations\<close>

text \<open>The field \<open>next\<close> of a dummy is never read; it is \<open>NULL\<close> here.\<close>

definition g_init :: "unit \<Rightarrow> 'd globals" where
  "g_init _ = \<lparr>h_table = h_init (), ht_size = 0, overruns = 0\<rparr>"

definition g_insert_entry :: "'d globals \<Rightarrow> addr \<Rightarrow> (bool \<times> 'd globals) option" where
  "g_insert_entry g ent =
     do {
       (ok, t) \<leftarrow> h_insert_entry (h_table g) ent;
       Some (ok, g\<lparr>h_table := t, ht_size := (if ok then ht_size g + 1 else ht_size g)\<rparr>)
     }"

text \<open>\<open>malloc(strlen(key))\<close> and \<open>strcpy\<close>: the zero byte is written behind the block.\<close>

definition g_insert :: "'d globals \<Rightarrow> cstring \<Rightarrow> 'd \<Rightarrow> (bool \<times> 'd globals) option" where
  "g_insert g k d =
     (let (ent, t) = malloc_node \<lparr>index = of_nat (hash k), key = Some k, data = Some d, link = None\<rparr> (h_table g)
      in g_insert_entry (g\<lparr>h_table := t, overruns := overruns g + 1\<rparr>) ent)"

definition g_get_entry :: "'d globals \<Rightarrow> cstring \<Rightarrow> ptr option" where
  "g_get_entry g k = h_get_entry (h_table g) k"

definition g_get :: "'d globals \<Rightarrow> cstring \<Rightarrow> 'd option option" where
  "g_get g k =
     do {
       found \<leftarrow> g_get_entry g k;
       (case found of
          None \<Rightarrow> Some None
        | Some a \<Rightarrow> do { e \<leftarrow> nodes (h_table g) a; d \<leftarrow> data e; Some (Some d) })
     }"

text \<open>
  The loop \<open>do { handle = h_table[i]; list[ind++] = handle->data; handle = handle->next; } while (handle)\<close>
  for a slot with first entry \<open>a\<close>, where \<open>list\<close> has room for \<open>cap\<close> pointers.
\<close>

partial_function (option) g_copy :: "(addr \<rightharpoonup> 'd entry_t) \<Rightarrow> addr \<Rightarrow> nat \<Rightarrow> 'd list \<Rightarrow> 'd list option" where
  "g_copy h a cap xs =
     (case h a of
        None \<Rightarrow> None
      | Some e \<Rightarrow>
         (case data e of
            None \<Rightarrow> None
          | Some d \<Rightarrow>
             if length xs < cap
             then (case link e of None \<Rightarrow> Some (xs @ [d]) | Some n \<Rightarrow> g_copy h a cap (xs @ [d]))
             else None))"

declare g_copy.simps [code]

fun g_copy_slots :: "(addr \<rightharpoonup> 'd entry_t) \<Rightarrow> addr list \<Rightarrow> nat \<Rightarrow> 'd list \<Rightarrow> 'd list option" where
  "g_copy_slots h [] cap xs = Some xs"
| "g_copy_slots h (a # as) cap xs =
     do {
       e \<leftarrow> h a;
       if index e = -1 then g_copy_slots h as cap xs
       else do { xs' \<leftarrow> g_copy h a cap xs; g_copy_slots h as cap xs' }
     }"

definition g_to_list :: "'d globals \<Rightarrow> 'd list option" where
  "g_to_list g = g_copy_slots (nodes (h_table g)) (slots (h_table g)) (nat (ht_size g)) []"

text \<open>
  \<open>h_remove\<close> frees the entry when it is not the first of its slot, and otherwise turns it into a
  dummy, which cuts off the rest of the slot; the data go to \<open>free\<close> in both cases.
\<close>

definition g_remove :: "'d globals \<Rightarrow> cstring \<Rightarrow> (bool \<times> 'd globals \<times> 'd option) option" where
  "g_remove g k =
     do {
       found \<leftarrow> g_get_entry g k;
       (case found of
          None \<Rightarrow> Some (False, g, None)
        | Some cur \<Rightarrow>
           do {
             first \<leftarrow> slot (h_table g) (hash k);
             prev \<leftarrow> find_prev (nodes (h_table g)) None first cur;
             e \<leftarrow> nodes (h_table g) cur;
             d \<leftarrow> data e;
             (case prev of
                Some p \<Rightarrow>
                  do {
                    pe \<leftarrow> nodes (h_table g) p;
                    let ns = free_at cur ((nodes (h_table g))(p \<mapsto> pe\<lparr>link := link e\<rparr>));
                    Some (True, g\<lparr>h_table := (h_table g)\<lparr>nodes := ns\<rparr>\<rparr>, Some d)
                  }
              | None \<Rightarrow>
                  do {
                    let ns = (nodes (h_table g))(cur \<mapsto> \<lparr>index = -1, key = None, data = None, link = None\<rparr>);
                    Some (True, g\<lparr>h_table := (h_table g)\<lparr>nodes := ns\<rparr>\<rparr>, Some d)
                  })
           })
     }"

section \<open>The table as a dictionary\<close>

definition g_inv :: "'d globals \<Rightarrow> bool" where
  "g_inv g \<longleftrightarrow> ht_inv (h_table g) \<and> ht_size g = int (length (concat (ht_view (h_table g))))"

definition g_map :: "'d globals \<Rightarrow> cstring \<rightharpoonup> 'd" where
  "g_map g = ht_map (h_table g)"

lemma g_insert_eq:
  "g_insert g k d =
     do {
       (ok, t) \<leftarrow> h_insert (h_table g) k d;
       Some (ok, g\<lparr>h_table := t, ht_size := (if ok then ht_size g + 1 else ht_size g), overruns := overruns g + 1\<rparr>)
     }"
proof -
  obtain ent t where m: "malloc_node \<lparr>index = of_nat (hash k), key = Some k, data = Some d, link = None\<rparr> (h_table g) = (ent, t)"
    by fastforce
  show ?thesis
    by (cases "h_insert_entry t ent") (auto simp: g_insert_def h_insert_def g_insert_entry_def m)
qed

lemma g_get_eq: "g_get g k = h_get (h_table g) k"
  by (simp add: g_get_def h_get_def g_get_entry_def)

lemma length_concat_update:
  "i < length xss \<Longrightarrow> length (concat (xss[i := xss ! i @ [p]])) = Suc (length (concat xss))"
proof (induction xss arbitrary: i)
  case (Cons xs xss)
  then show ?case by (cases i) auto
qed simp

lemma g_insert_new_run:
  assumes "g_inv g" and "g_map g k = None"
  shows "\<exists>g'. g_insert g k d = Some (True, g') \<and> g_inv g' \<and> g_map g' = (g_map g)(k \<mapsto> d) \<and> overruns g' = overruns g + 1"
proof -
  have i: "ht_inv (h_table g)" using assms(1) by (simp add: g_inv_def)
  obtain t where t: "h_insert (h_table g) k d = Some (True, t)" "ht_inv t" "ht_map t = (ht_map (h_table g))(k \<mapsto> d)"
    using ht.insert_new [OF i] assms(2) by (auto simp: g_map_def)
  have v: "ht_view t = (ht_view (h_table g))[hash k := ht_view (h_table g) ! hash k @ [(k, d)]]"
    by (rule ht.insert_view [OF i t(1)])
  have "length (concat (ht_view t)) = Suc (length (concat (ht_view (h_table g))))"
    unfolding v by (rule length_concat_update) (simp add: length_ht_view [OF i])
  then show ?thesis using t assms(1) by (simp add: g_insert_eq g_inv_def g_map_def)
qed

lemma g_insert_old_run:
  assumes "g_inv g" and "g_map g k \<noteq> None"
  shows "\<exists>g'. g_insert g k d = Some (False, g') \<and> g_inv g' \<and> g_map g' = g_map g"
proof -
  have i: "ht_inv (h_table g)" using assms(1) by (simp add: g_inv_def)
  obtain t where t: "h_insert (h_table g) k d = Some (False, t)" "ht_inv t" "ht_map t = ht_map (h_table g)"
    using ht.insert_old [OF i] assms(2) by (auto simp: g_map_def)
  then show ?thesis using ht.insert_view_old [OF i t(1)] assms(1) by (simp add: g_insert_eq g_inv_def g_map_def)
qed

lemma g_init_run:
  "g_inv (g_init () :: 'a globals)" "g_map (g_init () :: 'a globals) = Map.empty" "overruns (g_init () :: 'a globals) = 0"
proof -
  have i: "ht_inv (h_init () :: 'a htable)" and v: "ht_view (h_init () :: 'a htable) = replicate HT_SIZ []"
    by (rule h_init_view)+
  have "concat (ht_view (h_init () :: 'a htable)) = []" unfolding v by simp
  then show "g_inv (g_init () :: 'a globals)" using i by (simp add: g_inv_def g_init_def)
  show "g_map (g_init () :: 'a globals) = Map.empty" using ht.lookup_empty by (simp add: g_map_def g_init_def)
  show "overruns (g_init () :: 'a globals) = 0" by (simp add: g_init_def)
qed

interpretation gt: dictionary g_inv g_map g_get g_insert "g_init ()"
proof (unfold_locales, goal_cases)
  case (3 g k) then show ?case by (simp add: g_get_eq g_inv_def g_map_def ht.get_lookup)
next
  case (4 g k d) then show ?case by (rule g_insert_old_run)
next
  case (5 g k d)
  from g_insert_new_run [OF this, of d] show ?case by blast
qed (rule g_init_run)+

section \<open>Listing\<close>

text \<open>The loop does not end properly when the first entry of a slot has a successor.\<close>

lemma g_copy_stuck:
  assumes "h a = Some e" and "link e = Some n"
  shows "g_copy h a cap xs = None"
proof (induction "cap - length xs" arbitrary: xs)
  case 0
  then show ?case by (subst g_copy.simps) (simp add: assms split: option.split)
next
  case (Suc m)
  have "g_copy h a cap (xs @ [d]) = None" for d using Suc(2) by (intro Suc(1)) simp
  then show ?case by (subst g_copy.simps) (simp add: assms split: option.split)
qed

lemma g_copy_bucket:
  assumes "bucket_ok h i a f" and "i < HT_SIZ" and "slot_view h a \<noteq> []"
  shows "g_copy h a cap xs =
    (if length (slot_view h a) = 1 \<and> length xs < cap then Some (xs @ map snd (slot_view h a)) else None)"
  using assms(1,2)
proof (cases rule: bucket_cases)
  case (live e)
  show ?thesis
  proof (cases "link e")
    case None
    obtain fs where fs: "f = a # fs" "chain h (link e) fs" using live(1,3) chain_Cons_start by fastforce
    then have "f = [a]" using None by (cases fs) simp_all
    moreover obtain d where "data e = Some d" using live(1,5) fs(1) by (auto simp: live_def)
    ultimately show ?thesis using live(1,7) None by (subst g_copy.simps) (simp add: node_data_def)
  next
    case (Some n)
    then have "length f \<noteq> 1" using live(1,3) by (auto simp: length_Suc_conv)
    then show ?thesis using g_copy_stuck [where h = h, OF live(1) Some] live(7) by simp
  qed
qed (use assms(3) in simp)

lemma g_copy_slots_run:
  assumes "well_slots h as" and "length xs + length (concat (map (slot_view h) as)) \<le> cap"
  shows "g_copy_slots h as cap xs =
    (if \<forall>a \<in> set as. length (slot_view h a) \<le> 1 then Some (xs @ map snd (concat (map (slot_view h) as))) else None)"
  using assms
proof (induction as arbitrary: xs)
  case Nil
  then show ?case by simp
next
  case (Cons a as)
  obtain i f where b: "bucket_ok h i a f" "i < HT_SIZ" using Cons.prems(1) by (auto simp: well_slots_def)
  have w: "well_slots h as" using Cons.prems(1) by (simp add: well_slots_def)
  show ?case
  proof (cases "slot_view h a = []")
    case True
    from b have "\<exists>e. h a = Some e \<and> index e = -1"
      by (cases rule: bucket_cases) (use True in auto)
    then show ?thesis using Cons.IH [OF w] Cons.prems(2) True by auto
  next
    case False
    from b have e: "\<exists>e. h a = Some e \<and> index e \<noteq> -1"
      by (cases rule: bucket_cases) (use False in auto)
    have l: "0 < length (slot_view h a)" using False by simp
    show ?thesis
    proof (cases "length (slot_view h a) = 1")
      case True
      then have c: "g_copy h a cap xs = Some (xs @ map snd (slot_view h a))"
        using g_copy_bucket [OF b False] Cons.prems(2) by simp
      show ?thesis using e c True Cons.IH [OF w, of "xs @ map snd (slot_view h a)"] Cons.prems(2) by auto
    next
      case False
      have n: "slot_view h a \<noteq> []" using l by simp
      have c: "g_copy h a cap xs = None" using g_copy_bucket [OF b n] False by simp
      have "\<not> length (slot_view h a) \<le> 1" using False l by linarith
      then have "\<not> (\<forall>a \<in> set (a # as). length (slot_view h a) \<le> 1)" by simp
      then show ?thesis using e c by auto
    qed
  qed
qed

lemma g_to_list_run:
  assumes "g_inv g"
  shows "g_to_list g =
    (if \<forall>b \<in> set (ht_view (h_table g)). length b \<le> 1 then Some (map snd (concat (ht_view (h_table g)))) else None)"
proof -
  have i: "ht_inv (h_table g)" using assms by (simp add: g_inv_def)
  obtain foot where f: "ht_inv_with (h_table g) foot" using i by (auto simp: ht_inv_def)
  have "well_slots (nodes (h_table g)) (slots (h_table g))"
    using f unfolding well_slots_def ht_inv_with_def by (metis in_set_conv_nth)
  from g_copy_slots_run [OF this, of "[]" "nat (ht_size g)"] show ?thesis
    using assms by (simp add: g_to_list_def g_inv_def ht_view_def)
qed

text \<open>In terms of keys: no two keys of the table have the same hash value.\<close>

lemma slots_single:
  assumes i: "ht_inv t"
  shows "(\<forall>b \<in> set (ht_view t). length b \<le> 1) \<longleftrightarrow> inj_on hash (dom (ht_map t))"
proof
  have at: "(k, d) \<in> set (ht_view t ! hash k)" if "ht_map t k = Some d" for k d
    using that by (simp add: ht_map_def map_of_SomeD)
  show "inj_on hash (dom (ht_map t))" if s: "\<forall>b \<in> set (ht_view t). length b \<le> 1"
  proof (rule inj_onI)
    fix k j assume kj: "k \<in> dom (ht_map t)" "j \<in> dom (ht_map t)" "hash k = hash j"
    then obtain d e where "(k, d) \<in> set (ht_view t ! hash k)" "(j, e) \<in> set (ht_view t ! hash k)" using at by (metis domD)
    moreover have "length (ht_view t ! hash k) \<le> 1" using s length_ht_view [OF i] by simp
    ultimately show "k = j" by (cases "ht_view t ! hash k") auto
  qed
  show "\<forall>b \<in> set (ht_view t). length b \<le> 1" if inj: "inj_on hash (dom (ht_map t))"
  proof
    fix b assume "b \<in> set (ht_view t)"
    then obtain n where n: "n < HT_SIZ" "b = ht_view t ! n" using length_ht_view [OF i] by (metis in_set_conv_nth)
    have k: "hash (fst p) = n \<and> fst p \<in> dom (ht_map t)" if "p \<in> set b" for p
    proof -
      have "hash (fst p) = n" using ht_view_keys(1) [OF i n(1)] n(2) that by blast
      moreover have "ht_map t (fst p) \<noteq> None"
        using that n(2) calculation by (simp add: ht_map_def map_of_eq_None_iff)
      ultimately show ?thesis by auto
    qed
    have d: "distinct (map fst b)" using ht_view_keys(2) [OF i n(1)] n(2) by simp
    show "length b \<le> 1"
    proof (rule ccontr)
      assume "\<not> length b \<le> 1"
      then obtain p q c where b: "b = p # q # c" by (cases b; cases "tl b") auto
      then have "fst p = fst q" using k [of p] k [of q] inj by (auto dest: inj_onD)
      then show False using d b by simp
    qed
  qed
qed

lemma g_to_list_keys:
  assumes "g_inv g"
  shows "g_to_list g = (if inj_on hash (dom (g_map g)) then Some (map snd (concat (ht_view (h_table g)))) else None)"
proof -
  have "ht_inv (h_table g)" using assms by (simp add: g_inv_def)
  from slots_single [OF this] show ?thesis using g_to_list_run [OF assms] by (simp only: g_map_def)
qed

end
