(* ===== verification/FreqTable.thy ===== *)
theory FreqTable
  imports GlobalTable "HOL-Library.List_Lexorder" "HOL-Library.Char_ord"
begin

text \<open>
  The symbol table of \<open>assignment1/symboltable.c\<close>: how often each identifier occurs, in the global hash
  table of \<open>GlobalTable\<close>. Symbols are objects of a memory. \<open>qsort\<close> is a sort by name; \<open>strcmp\<close> compares
  bytes, which is the order on lists of characters used here. \<open>None\<close> is undefined behaviour or a
  loop without end.
\<close>

section \<open>State\<close>

definition SYM_NAME_LEN :: nat where
  "SYM_NAME_LEN = 256"

record symbol_t =
  name :: cstring
  freq :: int

record freqstate =
  ids :: "addr globals"
  symbols :: "addr \<rightharpoonup> symbol_t"
  symbols_brk :: addr
  num_ids :: int

section \<open>Operations\<close>

text \<open>\<open>strcpy\<close> into the array \<open>name\<close> is defined for names that fit with their zero byte.\<close>

definition new_symbol :: "cstring \<Rightarrow> freqstate \<Rightarrow> (addr \<times> freqstate) option" where
  "new_symbol n s =
     (if length n < SYM_NAME_LEN
      then Some (symbols_brk s,
                 s\<lparr>symbols := (symbols s)(symbols_brk s \<mapsto> \<lparr>name = n, freq = 0\<rparr>), symbols_brk := Suc (symbols_brk s)\<rparr>)
      else None)"

definition insert_freq_symbol :: "addr \<Rightarrow> freqstate \<Rightarrow> (bool \<times> freqstate) option" where
  "insert_freq_symbol a s =
     do {
       sym \<leftarrow> symbols s a;
       (ok, t) \<leftarrow> g_insert (ids s) (name sym) a;
       Some (ok, s\<lparr>ids := t\<rparr>)
     }"

definition init_freq_symtab :: "unit \<Rightarrow> freqstate" where
  "init_freq_symtab _ = \<lparr>ids = g_init (), symbols = Map.empty, symbols_brk = 0, num_ids = 0\<rparr>"

text \<open>\<open>sym->freq++\<close>\<close>

definition count_symbol :: "addr \<Rightarrow> freqstate \<Rightarrow> freqstate option" where
  "count_symbol a s =
     do { sym \<leftarrow> symbols s a; Some (s\<lparr>symbols := (symbols s)(a \<mapsto> sym\<lparr>freq := freq sym + 1\<rparr>)\<rparr>) }"

definition insert_freq_id :: "cstring \<Rightarrow> freqstate \<Rightarrow> freqstate option" where
  "insert_freq_id text s =
     do {
       found \<leftarrow> g_get (ids s) text;
       (case found of
          Some a \<Rightarrow> count_symbol a s
        | None \<Rightarrow>
           do {
             (a, s) \<leftarrow> new_symbol text s;
             (ok, t) \<leftarrow> g_insert (ids s) text a;
             let s = s\<lparr>ids := t\<rparr>;
             s \<leftarrow> (if ok then do { again \<leftarrow> g_get (ids s) text; b \<leftarrow> again; count_symbol b s } else Some s);
             Some (s\<lparr>num_ids := num_ids s + 1\<rparr>)
           })
     }"

definition sym_cmp_key :: "(addr \<rightharpoonup> symbol_t) \<Rightarrow> addr \<Rightarrow> cstring" where
  "sym_cmp_key h a = name (the (h a))"

text \<open>\<open>printf\<close> with \<open>%-10s\<close> and \<open>%2d\<close>.\<close>

definition pad_right :: "nat \<Rightarrow> cstring \<Rightarrow> cstring" where
  "pad_right n s = s @ replicate (n - length s) CHR '' ''"

definition pad_left :: "nat \<Rightarrow> cstring \<Rightarrow> cstring" where
  "pad_left n s = replicate (n - length s) CHR '' '' @ s"

definition freq_line :: "cstring \<Rightarrow> int \<Rightarrow> cstring" where
  "freq_line n i = pad_right 10 n @ '' '' @ pad_left 2 (fmt_d i) @ [CHR 0x0A]"

fun symbol_lines :: "(addr \<rightharpoonup> symbol_t) \<Rightarrow> addr list \<Rightarrow> cstring option" where
  "symbol_lines h [] = Some []"
| "symbol_lines h (a # as) =
     do { sym \<leftarrow> h a; rest \<leftarrow> symbol_lines h as; Some (freq_line (name sym) (freq sym) @ rest) }"

definition print_freq_symtab :: "freqstate \<Rightarrow> cstring option" where
  "print_freq_symtab s =
     do {
       sym_list \<leftarrow> g_to_list (ids s);
       out \<leftarrow> symbol_lines (symbols s) (sort_key (sym_cmp_key (symbols s)) sym_list);
       Some ([CHR 0x0A] @ ''Frequency of identifiers'' @ [CHR 0x0A] @ out)
     }"

definition cleanup_freq_symtab :: "freqstate \<Rightarrow> freqstate" where
  "cleanup_freq_symtab s = s\<lparr>num_ids := 0\<rparr>"

text \<open>The scanner enters the identifiers of a program one after the other.\<close>

primrec insert_freq_ids :: "cstring list \<Rightarrow> freqstate \<Rightarrow> freqstate option" where
  "insert_freq_ids [] s = Some s"
| "insert_freq_ids (n # ns) s = do { s \<leftarrow> insert_freq_id n s; insert_freq_ids ns s }"

section \<open>What the table holds\<close>

text \<open>The identifiers read so far, with their numbers of occurrences.\<close>

definition freq_inv :: "freqstate \<Rightarrow> cstring list \<Rightarrow> bool" where
  "freq_inv s ns \<longleftrightarrow>
     g_inv (ids s) \<and> dom (g_map (ids s)) = set ns \<and> num_ids s = int (card (set ns)) \<and>
     overruns (ids s) = card (set ns) \<and> (\<forall>a. symbols s a \<noteq> None \<longrightarrow> a < symbols_brk s) \<and>
     (\<forall>n a. g_map (ids s) n = Some a \<longrightarrow> symbols s a = Some \<lparr>name = n, freq = int (count_list ns n)\<rparr>)"

lemma freq_inv_init: "freq_inv (init_freq_symtab ()) []"
  by (simp add: freq_inv_def init_freq_symtab_def g_init_run)

lemma freq_invD:
  assumes "freq_inv s ns"
  shows "g_inv (ids s)" "dom (g_map (ids s)) = set ns" "num_ids s = int (card (set ns))" "overruns (ids s) = card (set ns)"
    "symbols s a \<noteq> None \<Longrightarrow> a < symbols_brk s"
    "g_map (ids s) n = Some a \<Longrightarrow> symbols s a = Some \<lparr>name = n, freq = int (count_list ns n)\<rparr>"
  using assms by (auto simp: freq_inv_def)

lemma count_list_snoc: "count_list (ns @ [n]) m = count_list ns m + (if m = n then 1 else 0)"
  by (induction ns) auto

lemma insert_freq_id_run:
  assumes i: "freq_inv s ns" and len: "length n < SYM_NAME_LEN"
  shows "\<exists>s'. insert_freq_id n s = Some s' \<and> freq_inv s' (ns @ [n])"
proof (cases "g_map (ids s) n")
  case (Some a)
  note sy = freq_invD(6) [OF i]
  have "n \<in> set ns" using Some freq_invD(2) [OF i] by auto
  let ?s = "s\<lparr>symbols := (symbols s)(a \<mapsto> \<lparr>name = n, freq = int (count_list ns n) + 1\<rparr>)\<rparr>"
  have "insert_freq_id n s = Some ?s"
    using Some sy [OF Some] gt.get_lookup [OF freq_invD(1) [OF i], of n] by (simp add: insert_freq_id_def count_symbol_def)
  moreover have "freq_inv ?s (ns @ [n])"
    unfolding freq_inv_def
  proof (intro conjI allI impI)
    show "dom (g_map (ids ?s)) = set (ns @ [n])" using freq_invD(2) [OF i] \<open>n \<in> set ns\<close> by auto
    show "symbols ?s b = Some \<lparr>name = m, freq = int (count_list (ns @ [n]) m)\<rparr>" if "g_map (ids ?s) m = Some b" for m b
    proof -
      have "symbols s b = Some \<lparr>name = m, freq = int (count_list ns m)\<rparr>" using sy that by simp
      then show ?thesis using sy [OF Some] that Some by (cases "b = a") (auto simp: count_list_snoc)
    qed
    show "b < symbols_brk ?s" if "symbols ?s b \<noteq> None" for b
      using that freq_invD(5) [OF i] sy [OF Some] by (auto split: if_splits)
  qed (use freq_invD(1,3,4) [OF i] \<open>n \<in> set ns\<close> in \<open>simp_all add: insert_absorb\<close>)
  ultimately show ?thesis by blast
next
  case None
  have "n \<notin> set ns" using None freq_invD(2) [OF i] by auto
  let ?a = "symbols_brk s"
  obtain g where g: "g_insert (ids s) n ?a = Some (True, g)" "g_inv g" "g_map g = (g_map (ids s))(n \<mapsto> ?a)"
    "overruns g = overruns (ids s) + 1"
    using g_insert_new_run [OF freq_invD(1) [OF i] None] by blast
  let ?s = "\<lparr>ids = g, symbols = (symbols s)(?a \<mapsto> \<lparr>name = n, freq = 1\<rparr>), symbols_brk = Suc ?a, num_ids = num_ids s + 1\<rparr>"
  have "insert_freq_id n s = Some ?s"
    using None len g(1,3) gt.get_lookup [OF freq_invD(1) [OF i], of n] gt.get_lookup [OF g(2), of n]
    by (simp add: insert_freq_id_def new_symbol_def count_symbol_def Let_def)
  moreover have "freq_inv ?s (ns @ [n])"
    unfolding freq_inv_def
  proof (intro conjI allI impI)
    show "dom (g_map (ids ?s)) = set (ns @ [n])" using freq_invD(2) [OF i] g(3) by simp
    show "symbols ?s b = Some \<lparr>name = m, freq = int (count_list (ns @ [n]) m)\<rparr>" if m: "g_map (ids ?s) m = Some b" for m b
    proof (cases "m = n")
      case True
      then show ?thesis using m g(3) \<open>n \<notin> set ns\<close> by (simp add: count_list_snoc count_list_0_iff)
    next
      case False
      then have "symbols s b = Some \<lparr>name = m, freq = int (count_list ns m)\<rparr>" using m g(3) freq_invD(6) [OF i] by simp
      moreover from this have "b < ?a" using freq_invD(5) [OF i, of b] by simp
      ultimately show ?thesis using False by (simp add: count_list_snoc)
    qed
    show "b < symbols_brk ?s" if "symbols ?s b \<noteq> None" for b
      using that freq_invD(5) [OF i, of b] by (simp add: less_Suc_eq split: if_splits)
  qed (use freq_invD(3,4) [OF i] g(2,4) \<open>n \<notin> set ns\<close> in simp_all)
  ultimately show ?thesis by blast
qed

lemma insert_freq_ids_run:
  assumes "freq_inv s ms" and "\<forall>n \<in> set ns. length n < SYM_NAME_LEN"
  shows "\<exists>s'. insert_freq_ids ns s = Some s' \<and> freq_inv s' (ms @ ns)"
  using assms
proof (induction ns arbitrary: s ms)
  case (Cons n ns)
  obtain s1 where s1: "insert_freq_id n s = Some s1" "freq_inv s1 (ms @ [n])"
    using insert_freq_id_run [OF Cons.prems(1)] Cons.prems(2) by auto
  then show ?case using Cons.IH [OF s1(2)] Cons.prems(2) by auto
qed simp

section \<open>Printing\<close>

lemma sort_map: "sort (map f xs) = map f (sort_key f xs)"
  by (rule properties_for_sort) simp_all

lemma symbol_lines_run:
  assumes "\<And>a. a \<in> set as \<Longrightarrow> h a = Some \<lparr>name = f a, freq = c (f a)\<rparr>"
  shows "symbol_lines h as = Some (concat (map (\<lambda>n. freq_line n (c n)) (map f as)))"
  using assms by (induction as) auto

lemma listed_names:
  assumes i: "freq_inv s ns"
  shows "mset (map (sym_cmp_key (symbols s)) (map snd (concat (ht_view (h_table (ids s)))))) = mset (sort (remdups ns))"
    and "a \<in> set (map snd (concat (ht_view (h_table (ids s))))) \<Longrightarrow>
      symbols s a = Some \<lparr>name = sym_cmp_key (symbols s) a, freq = int (count_list ns (sym_cmp_key (symbols s) a))\<rparr>"
proof -
  let ?v = "concat (ht_view (h_table (ids s)))"
  have ht: "ht_inv (h_table (ids s))" using freq_invD(1) [OF i] by (simp add: g_inv_def)
  have look: "g_map (ids s) n = Some a \<longleftrightarrow> (n, a) \<in> set ?v" for n a
    using ht.lookup_iff [OF ht, of n a] by (simp add: g_map_def)
  have sy: "symbols s a = Some \<lparr>name = n, freq = int (count_list ns n)\<rparr>" if "(n, a) \<in> set ?v" for n a
    using freq_invD(6) [OF i] look that by blast
  have nm: "sym_cmp_key (symbols s) (snd p) = fst p" if "p \<in> set ?v" for p
    using sy [of "fst p" "snd p"] that by (simp add: sym_cmp_key_def)
  then have m: "map (sym_cmp_key (symbols s)) (map snd ?v) = map fst ?v" by simp
  have d: "distinct (map fst ?v)" by (rule ht.view_keys_distinct [OF ht])
  have "set (map fst ?v) = set ns"
  proof -
    have "n \<in> set (map fst ?v) \<longleftrightarrow> n \<in> dom (g_map (ids s))" for n
      using look by (force simp: dom_def)
    then show ?thesis using freq_invD(2) [OF i] by blast
  qed
  then have "mset (map fst ?v) = mset (remdups ns)"
    using set_eq_iff_mset_eq_distinct [OF d, of "remdups ns"] by simp
  then show "mset (map (sym_cmp_key (symbols s)) (map snd ?v)) = mset (sort (remdups ns))"
    unfolding m by (simp only: mset_sort)
  show "symbols s a = Some \<lparr>name = sym_cmp_key (symbols s) a, freq = int (count_list ns (sym_cmp_key (symbols s) a))\<rparr>"
    if "a \<in> set (map snd ?v)"
  proof -
    from that have "a \<in> snd ` set ?v" by (simp only: set_map)
    then obtain p where "a = snd p" "p \<in> set ?v" by (rule imageE)
    then show ?thesis using sy [of "fst p" "snd p"] nm [of p] by simp
  qed
qed

lemma print_freq_run:
  assumes i: "freq_inv s ns"
  shows "print_freq_symtab s =
    (if inj_on hash (set ns)
     then Some ([CHR 0x0A] @ ''Frequency of identifiers'' @ [CHR 0x0A] @
       concat (map (\<lambda>n. freq_line n (int (count_list ns n))) (sort (remdups ns))))
     else None)"
proof -
  let ?l = "map snd (concat (ht_view (h_table (ids s))))" and ?k = "sym_cmp_key (symbols s)"
  have "sort (map ?k ?l) = sort (remdups ns)"
    by (rule properties_for_sort) (simp_all only: listed_names(1) [OF i] sorted_sort)
  then have m: "map ?k (sort_key ?k ?l) = sort (remdups ns)" by (simp only: sort_map)
  have "symbol_lines (symbols s) (sort_key ?k ?l) =
    Some (concat (map (\<lambda>n. freq_line n (int (count_list ns n))) (map ?k (sort_key ?k ?l))))"
    by (rule symbol_lines_run) (use listed_names(2) [OF i] in simp)
  then show ?thesis
    using g_to_list_keys [OF freq_invD(1) [OF i]] freq_invD(2) [OF i] m by (simp add: print_freq_symtab_def)
qed

text \<open>C29:
  Reading any identifiers of fewer than 256 characters, the program enters each of them once and counts
  its occurrences; the table it then prints lists the names in the order of \<open>strcmp\<close>, each once with its
  number of occurrences, if no two of the names have the same hash value. If two have, the program does
  not print the table: the loop of \<open>ht_to_list\<close> never leaves the first entry of their slot. Each
  distinct name also wrote one byte past the block allocated for its key.
\<close>

theorem freq_table_correct:
  assumes "\<forall>n \<in> set ns. length n < SYM_NAME_LEN"
  shows "\<exists>s. insert_freq_ids ns (init_freq_symtab ()) = Some s \<and> num_ids s = int (card (set ns)) \<and>
    overruns (ids s) = card (set ns) \<and>
    print_freq_symtab s =
      (if inj_on hash (set ns)
       then Some ([CHR 0x0A] @ ''Frequency of identifiers'' @ [CHR 0x0A] @
         concat (map (\<lambda>n. freq_line n (int (count_list ns n))) (sort (remdups ns))))
       else None)"
proof -
  obtain s where "insert_freq_ids ns (init_freq_symtab ()) = Some s" "freq_inv s ([] @ ns)"
    using insert_freq_ids_run [OF freq_inv_init assms] by blast
  then show ?thesis using print_freq_run [of s ns] freq_invD(3,4) [of s ns] by simp
qed

theorem freq_table_correct_witness:
  "\<exists>s t. insert_freq_ids [''b'', ''a'', ''b''] (init_freq_symtab ()) = Some s \<and>
     print_freq_symtab s = Some ([CHR 0x0A] @ ''Frequency of identifiers'' @ [CHR 0x0A] @
       ''a           1'' @ [CHR 0x0A] @ ''b           2'' @ [CHR 0x0A]) \<and>
     insert_freq_ids [''ab'', ''ba''] (init_freq_symtab ()) = Some t \<and> print_freq_symtab t = None"
proof -
  have h: "hash ''a'' = 97" "hash ''b'' = 98" "hash ''ab'' = 95" "hash ''ba'' = 95"
    by (simp_all add: hash_def char_word_def HT_SIZ_def)
  have s: "sort (remdups [''b'', ''a'', ''b'']) = [''a'', ''b'']"
    by (simp add: less_list_code less_eq_list_code)
  have f: "fmt_d 1 = ''1''" "fmt_d 2 = ''2''"
    by code_simp+
  have l: "freq_line ''a'' 1 = ''a           1'' @ [CHR 0x0A]" "freq_line ''b'' 2 = ''b           2'' @ [CHR 0x0A]"
    by (simp_all add: freq_line_def pad_right_def pad_left_def f numeral_eq_Suc)
  have i: "inj_on hash (set [''b'', ''a'', ''b''])" "\<not> inj_on hash (set [''ab'', ''ba''])"
    using h by (simp_all add: inj_on_def)
  have "\<forall>n \<in> set [''b'', ''a'', ''b'']. length n < SYM_NAME_LEN" "\<forall>n \<in> set [''ab'', ''ba'']. length n < SYM_NAME_LEN"
    by (simp_all add: SYM_NAME_LEN_def)
  from freq_table_correct [OF this(1)] freq_table_correct [OF this(2)] show ?thesis
    using i s l by auto
qed

end
