(* ===== verification/ArrayTable.thy ===== *)
theory ArrayTable
  imports Prelude "HOL-Library.Monad_Syntax" "HOL-Library.List_Lexorder" "HOL-Library.Char_ord"
begin

text \<open>
  The symbol and comment tables of \<open>Assig1/symboltable.c\<close>: two global arrays with their lengths
  (\<open>assignment1/symboltable.c\<close> has the same comment table). \<open>None\<close> is a write outside of an array.
\<close>

section \<open>State\<close>

definition MAX_COMMENT_SIZE :: nat where "MAX_COMMENT_SIZE = 100"

definition MAX_COMMENTS_NUM :: nat where "MAX_COMMENTS_NUM = 100"

definition MAX_ID_SIZE :: nat where "MAX_ID_SIZE = 256"

definition MAX_ID_NUM :: nat where "MAX_ID_NUM = 100"

record id_info =
  id_name :: cstring
  id_freq :: int

record tables =
  symtab :: "id_info list"
  num_ids :: nat
  comments_arr :: "cstring list"
  num_comments :: nat

text \<open>Global variables start with zero bytes.\<close>

definition start_tables :: tables where
  "start_tables = \<lparr>symtab = replicate MAX_ID_NUM \<lparr>id_name = [], id_freq = 0\<rparr>, num_ids = 0,
     comments_arr = replicate MAX_COMMENTS_NUM [], num_comments = 0\<rparr>"

section \<open>Identifiers\<close>

definition init_arr_symtab :: "tables \<Rightarrow> tables" where
  "init_arr_symtab s = s\<lparr>num_ids := 0\<rparr>"

text \<open>The loop of \<open>find_id\<close> from index \<open>i\<close>; \<open>None\<close> stands for the result -1.\<close>

function find_id_loop :: "tables \<Rightarrow> cstring \<Rightarrow> nat \<Rightarrow> nat option" where
  "find_id_loop s text i =
     (if i < num_ids s then (if id_name (symtab s ! i) = text then Some i else find_id_loop s text (Suc i)) else None)"
  by pat_completeness auto
termination
  by (relation "measure (\<lambda>(s, text, i). num_ids s - i)") auto

declare find_id_loop.simps [simp del]

definition find_id :: "tables \<Rightarrow> cstring \<Rightarrow> nat option" where
  "find_id s text = find_id_loop s text 0"

definition insert_arr_id :: "cstring \<Rightarrow> tables \<Rightarrow> tables option" where
  "insert_arr_id text s =
     (case find_id s text of
        None \<Rightarrow>
          if num_ids s < length (symtab s) \<and> length text < MAX_ID_SIZE
          then Some (s\<lparr>symtab := (symtab s)[num_ids s := \<lparr>id_name = text, id_freq = 1\<rparr>], num_ids := num_ids s + 1\<rparr>)
          else None
      | Some pos \<Rightarrow>
          Some (s\<lparr>symtab := (symtab s)[pos := (symtab s ! pos)\<lparr>id_freq := id_freq (symtab s ! pos) + 1\<rparr>]\<rparr>))"

text \<open>\<open>qsort(symtab, num_ids, sizeof(id_info), id_info_cmp)\<close>; the names differ, so the result is determined.\<close>

definition id_info_cmp :: "id_info \<Rightarrow> id_info \<Rightarrow> int" where
  "id_info_cmp x y = (if id_name x = id_name y then 0 else if id_name x < id_name y then - 1 else 1)"

definition sort_symtab :: "tables \<Rightarrow> tables" where
  "sort_symtab s = s\<lparr>symtab := sort_key id_name (take (num_ids s) (symtab s)) @ drop (num_ids s) (symtab s)\<rparr>"

definition id_line :: "id_info \<Rightarrow> cstring" where
  "id_line x = id_name x @ '' '' @ fmt_d (id_freq x) @ [CHR 0x0A]"

definition print_arr_symtab :: "tables \<Rightarrow> cstring" where
  "print_arr_symtab s = concat (map id_line (take (num_ids s) (symtab s)))"

definition cleanup_arr_symtab :: "tables \<Rightarrow> tables" where
  "cleanup_arr_symtab s = s\<lparr>num_ids := 0\<rparr>"

section \<open>Comments\<close>

definition init_comtab :: "tables \<Rightarrow> tables" where
  "init_comtab s = s\<lparr>num_comments := 0\<rparr>"

definition insert_comment :: "cstring \<Rightarrow> tables \<Rightarrow> tables option" where
  "insert_comment comment s =
     (if num_comments s < length (comments_arr s) \<and> length comment < MAX_COMMENT_SIZE
      then Some (s\<lparr>comments_arr := (comments_arr s)[num_comments s := comment], num_comments := num_comments s + 1\<rparr>)
      else None)"

definition print_comtab :: "tables \<Rightarrow> cstring" where
  "print_comtab s = concat (map (\<lambda>c. c @ [CHR 0x0A]) (take (num_comments s) (comments_arr s)))"

definition cleanup_comtab :: "tables \<Rightarrow> tables" where
  "cleanup_comtab s = s\<lparr>num_comments := 0\<rparr>"

section \<open>Running the tables\<close>

text \<open>The scanner enters an identifier and then sorts the table.\<close>

primrec enter_ids :: "cstring list \<Rightarrow> tables \<Rightarrow> tables option" where
  "enter_ids [] s = Some s"
| "enter_ids (n # ns) s = do { s \<leftarrow> insert_arr_id n s; enter_ids ns (sort_symtab s) }"

primrec enter_comments :: "cstring list \<Rightarrow> tables \<Rightarrow> tables option" where
  "enter_comments [] s = Some s"
| "enter_comments (c # cs) s = do { s \<leftarrow> insert_comment c s; enter_comments cs s }"

lemma find_id_loop_run:
  assumes "i \<le> num_ids s"
  shows "find_id_loop s text i =
    (if \<exists>j. i \<le> j \<and> j < num_ids s \<and> id_name (symtab s ! j) = text
     then Some (LEAST j. i \<le> j \<and> j < num_ids s \<and> id_name (symtab s ! j) = text) else None)"
  using assms
proof (induction "num_ids s - i" arbitrary: i)
  case 0
  then show ?case by (subst find_id_loop.simps) auto
next
  case (Suc m)
  then have i: "i < num_ids s" by simp
  show ?case
  proof (cases "id_name (symtab s ! i) = text")
    case True
    then have "(LEAST j. i \<le> j \<and> j < num_ids s \<and> id_name (symtab s ! j) = text) = i"
      using i by (intro Least_equality) auto
    then show ?thesis using True i by (subst find_id_loop.simps) auto
  next
    case False
    then have e: "(i \<le> j \<and> j < num_ids s \<and> id_name (symtab s ! j) = text) =
        (Suc i \<le> j \<and> j < num_ids s \<and> id_name (symtab s ! j) = text)" for j
      by (metis Suc_leD le_antisym not_less_eq_eq)
    have "find_id_loop s text i = find_id_loop s text (Suc i)" using False i by (subst find_id_loop.simps) simp
    then show ?thesis using Suc.hyps(1) [of "Suc i"] Suc.hyps(2) i unfolding e by simp
  qed
qed

section \<open>What the tables hold\<close>

definition entry_for :: "cstring list \<Rightarrow> cstring \<Rightarrow> id_info" where
  "entry_for ns n = \<lparr>id_name = n, id_freq = int (count_list ns n)\<rparr>"

definition arr_inv :: "tables \<Rightarrow> cstring list \<Rightarrow> bool" where
  "arr_inv s ns \<longleftrightarrow>
     length (symtab s) = MAX_ID_NUM \<and> num_ids s = card (set ns) \<and> card (set ns) \<le> MAX_ID_NUM \<and>
     take (num_ids s) (symtab s) = map (entry_for ns) (sort (remdups ns))"

lemma count_snoc: "count_list (ns @ [n]) m = count_list ns m + (if m = n then 1 else 0)"
  by (induction ns) auto

lemma sort_entries:
  assumes "distinct zs" and "set zs = set ms"
  shows "sort_key id_name (map (entry_for ns) zs) = map (entry_for ns) (sort (remdups ms))"
proof -
  have "mset zs = mset (remdups ms)" using set_eq_iff_mset_eq_distinct [OF assms(1), of "remdups ms"] assms(2) by simp
  then have "sort zs = sort (remdups ms)" by (intro properties_for_sort) simp_all
  then show ?thesis by (simp add: sort_key_map entry_for_def)
qed

lemma length_entries: "length (sort (remdups ns)) = card (set ns)"
  by (simp add: length_remdups_card_conv)

lemma arr_invD:
  assumes "arr_inv s ns"
  shows "length (symtab s) = MAX_ID_NUM" "num_ids s = card (set ns)" "card (set ns) \<le> MAX_ID_NUM"
    "take (num_ids s) (symtab s) = map (entry_for ns) (sort (remdups ns))"
  using assms unfolding arr_inv_def by blast+

lemma arr_inv_sorted:
  assumes "length (symtab s) = MAX_ID_NUM" and "num_ids s = card (set ns)" and "card (set ns) \<le> MAX_ID_NUM"
    and "take (num_ids s) (symtab s) = map (entry_for ns) zs" and "distinct zs" and "set zs = set ns"
  shows "arr_inv (sort_symtab s) ns"
  using assms sort_entries [OF assms(5,6), of ns] length_entries [of ns]
  by (simp add: arr_inv_def sort_symtab_def MAX_ID_NUM_def)

lemma take_snoc_update: "n < length xs \<Longrightarrow> take (Suc n) (xs[n := x]) = take n xs @ [x]"
  by (simp add: take_Suc_conv_app_nth)

lemma enter_id_run:
  assumes i: "arr_inv s ns" and len: "length n < MAX_ID_SIZE"
  shows "if card (set (ns @ [n])) \<le> MAX_ID_NUM
    then \<exists>s'. insert_arr_id n s = Some s' \<and> arr_inv (sort_symtab s') (ns @ [n])
    else insert_arr_id n s = None"
proof -
  let ?zs = "sort (remdups ns)"
  have l: "length (symtab s) = MAX_ID_NUM" "num_ids s = card (set ns)" "card (set ns) \<le> MAX_ID_NUM"
    "take (num_ids s) (symtab s) = map (entry_for ns) ?zs" using arr_invD [OF i] .
  have lz: "length ?zs = num_ids s" using length_entries l(2) by simp
  have nth: "symtab s ! j = entry_for ns (?zs ! j)" if "j < num_ids s" for j
  proof -
    have "symtab s ! j = take (num_ids s) (symtab s) ! j" using that by simp
    then show ?thesis using l(4) that lz by simp
  qed
  show ?thesis
  proof (cases "n \<in> set ns")
    case True
    then have "n \<in> set ?zs" by simp
    then obtain j0 where j0: "j0 < num_ids s" "?zs ! j0 = n" using lz by (metis in_set_conv_nth)
    then have ex: "\<exists>j. 0 \<le> j \<and> j < num_ids s \<and> id_name (symtab s ! j) = n" using nth by (auto simp: entry_for_def)
    define pos where "pos = (LEAST j. 0 \<le> j \<and> j < num_ids s \<and> id_name (symtab s ! j) = n)"
    have pos: "pos < num_ids s" "id_name (symtab s ! pos) = n"
      using LeastI_ex [OF ex] by (simp_all add: pos_def)
    have f: "find_id s n = Some pos" using ex find_id_loop_run [of 0 s n] by (simp add: find_id_def pos_def)
    let ?s = "s\<lparr>symtab := (symtab s)[pos := (symtab s ! pos)\<lparr>id_freq := id_freq (symtab s ! pos) + 1\<rparr>]\<rparr>"
    have zp: "?zs ! pos = n" using pos nth by (simp add: entry_for_def)
    have "take (num_ids s) (symtab ?s) = map (entry_for (ns @ [n])) ?zs"
    proof (rule nth_equalityI)
      fix j assume "j < length (take (num_ids s) (symtab ?s))"
      then have j: "j < num_ids s" by simp
      have "?zs ! j = n \<longleftrightarrow> j = pos" using zp j pos(1) lz by (metis distinct_remdups distinct_sort nth_eq_iff_index_eq)
      then show "take (num_ids s) (symtab ?s) ! j = map (entry_for (ns @ [n])) ?zs ! j"
        using j lz nth pos(1) l(1-3) zp by (cases "j = pos") (simp_all add: entry_for_def count_snoc)
    qed (use lz l in simp)
    then have "arr_inv (sort_symtab ?s) (ns @ [n])"
      using True l(1-3) by (intro arr_inv_sorted [where zs = ?zs]) (simp_all add: insert_absorb)
    moreover have "insert_arr_id n s = Some ?s" using f by (simp add: insert_arr_id_def)
    ultimately show ?thesis using True l(3) by (simp add: insert_absorb)
  next
    case False
    have "\<not> (\<exists>j. 0 \<le> j \<and> j < num_ids s \<and> id_name (symtab s ! j) = n)"
    proof
      assume "\<exists>j. 0 \<le> j \<and> j < num_ids s \<and> id_name (symtab s ! j) = n"
      then obtain j where "j < num_ids s" "?zs ! j = n" using nth by (auto simp: entry_for_def)
      then have "n \<in> set ?zs" using lz nth_mem by metis
      then show False using False by simp
    qed
    then have f: "find_id s n = None" using find_id_loop_run [of 0 s n] by (simp add: find_id_def)
    have c: "card (set (ns @ [n])) = Suc (num_ids s)" using False l(2) by simp
    show ?thesis
    proof (cases "Suc (num_ids s) \<le> MAX_ID_NUM")
      case True
      let ?s = "s\<lparr>symtab := (symtab s)[num_ids s := \<lparr>id_name = n, id_freq = 1\<rparr>], num_ids := num_ids s + 1\<rparr>"
      have e: "map (entry_for (ns @ [n])) ?zs = map (entry_for ns) ?zs"
        using False by (auto simp: entry_for_def count_snoc)
      have en: "entry_for (ns @ [n]) n = \<lparr>id_name = n, id_freq = 1\<rparr>"
        using False by (simp add: entry_for_def count_snoc count_list_0_iff)
      have "take (num_ids ?s) (symtab ?s) = map (entry_for (ns @ [n])) (?zs @ [n])"
        using take_snoc_update [of "num_ids s" "symtab s"] True l(1,4) e en by simp
      then have "arr_inv (sort_symtab ?s) (ns @ [n])"
        using False l(1,2) c True by (intro arr_inv_sorted [where zs = "?zs @ [n]"]) simp_all
      moreover have "insert_arr_id n s = Some ?s" using f True l(1) len by (simp add: insert_arr_id_def)
      ultimately show ?thesis using c True by simp
    next
      case over: False
      then have "insert_arr_id n s = None" using f l(1) by (simp add: insert_arr_id_def)
      then show ?thesis using c over by simp
    qed
  qed
qed

lemma enter_ids_run:
  assumes "arr_inv s ms" and "\<forall>n \<in> set ns. length n < MAX_ID_SIZE"
  shows "if card (set (ms @ ns)) \<le> MAX_ID_NUM
    then \<exists>s'. enter_ids ns s = Some s' \<and> arr_inv s' (ms @ ns)
    else enter_ids ns s = None"
  using assms
proof (induction ns arbitrary: s ms)
  case Nil
  then show ?case using arr_invD(3) [OF Nil(1)] by simp
next
  case (Cons n ns)
  note step = enter_id_run [OF Cons.prems(1), of n]
  show ?case
  proof (cases "card (set (ms @ [n])) \<le> MAX_ID_NUM")
    case True
    then obtain s' where s': "insert_arr_id n s = Some s'" "arr_inv (sort_symtab s') (ms @ [n])" using step Cons.prems(2) by auto
    show ?thesis using Cons.IH [OF s'(2)] Cons.prems(2) s'(1) by (auto split: if_splits)
  next
    case False
    moreover have "card (set (ms @ [n])) \<le> card (set (ms @ n # ns))" by (rule card_mono) auto
    ultimately show ?thesis using step Cons.prems(2) by simp
  qed
qed

lemma arr_inv_start: "arr_inv (init_arr_symtab start_tables) []"
  by (simp add: arr_inv_def init_arr_symtab_def start_tables_def)

text \<open>C30:
  Reading identifiers of fewer than 256 characters, the table prints every name once, in the order of
  \<open>strcmp\<close>, with its number of occurrences, as long as there are at most 100 different names; the
  101st name is written behind the end of the array.
\<close>

theorem arr_table_correct:
  assumes "\<forall>n \<in> set ns. length n < MAX_ID_SIZE"
  shows "map_option print_arr_symtab (enter_ids ns (init_arr_symtab start_tables)) =
    (if card (set ns) \<le> 100
     then Some (concat (map (\<lambda>n. n @ '' '' @ fmt_d (int (count_list ns n)) @ [CHR 0x0A]) (sort (remdups ns))))
     else None)"
proof -
  note run = enter_ids_run [OF arr_inv_start assms]
  show ?thesis
  proof (cases "card (set ns) \<le> 100")
    case True
    then obtain s where s: "enter_ids ns (init_arr_symtab start_tables) = Some s" "arr_inv s ns"
      using run by (auto simp: MAX_ID_NUM_def)
    have "map id_line (take (num_ids s) (symtab s)) =
        map (\<lambda>n. n @ '' '' @ fmt_d (int (count_list ns n)) @ [CHR 0x0A]) (sort (remdups ns))"
      unfolding arr_invD(4) [OF s(2)] by (simp add: id_line_def entry_for_def)
    then show ?thesis using True s(1) by (simp add: print_arr_symtab_def)
  qed (use run in \<open>simp add: MAX_ID_NUM_def\<close>)
qed

theorem arr_table_correct_witness:
  "map_option print_arr_symtab (enter_ids [''b'', ''a'', ''b''] (init_arr_symtab start_tables)) =
     Some (''a 1'' @ [CHR 0x0A] @ ''b 2'' @ [CHR 0x0A])"
proof -
  have s: "sort (remdups [''b'', ''a'', ''b'']) = [''a'', ''b'']"
    by (simp add: less_list_code less_eq_list_code)
  have f: "fmt_d 1 = ''1''" "fmt_d 2 = ''2''"
    by code_simp+
  have "\<forall>n \<in> set [''b'', ''a'', ''b'']. length n < MAX_ID_SIZE" by (simp add: MAX_ID_SIZE_def)
  moreover have "card (set [''b'', ''a'', ''b'']) = 2" by (simp add: card_insert_if)
  ultimately show ?thesis using arr_table_correct [of "[''b'', ''a'', ''b'']"] f by (simp only: s) simp
qed

text \<open>
  The comment table keeps up to 100 comments of fewer than 100 characters in their order and prints
  them one per line; a further or a longer comment is written behind the end of the array.
\<close>

theorem comment_table_correct:
  "map_option print_comtab (enter_comments cs (init_comtab start_tables)) =
    (if length cs \<le> 100 \<and> list_all (\<lambda>c. length c < 100) cs
     then Some (concat (map (\<lambda>c. c @ [CHR 0x0A]) cs)) else None)"
proof -
  have run: "if num_comments s + length cs \<le> 100 \<and> list_all (\<lambda>c. length c < 100) cs
      then \<exists>s'. enter_comments cs s = Some s' \<and> num_comments s' = num_comments s + length cs \<and>
        take (num_comments s') (comments_arr s') = take (num_comments s) (comments_arr s) @ cs
      else enter_comments cs s = None" if "length (comments_arr s) = 100" "num_comments s \<le> 100" for s
    using that
  proof (induction cs arbitrary: s)
    case (Cons c cs)
    show ?case
    proof (cases "num_comments s < 100 \<and> length c < 100")
      case True
      let ?s = "s\<lparr>comments_arr := (comments_arr s)[num_comments s := c], num_comments := num_comments s + 1\<rparr>"
      have "insert_comment c s = Some ?s" using True Cons.prems by (simp add: insert_comment_def MAX_COMMENT_SIZE_def)
      moreover have "take (num_comments ?s) (comments_arr ?s) = take (num_comments s) (comments_arr s) @ [c]"
        using take_snoc_update [of "num_comments s" "comments_arr s" c] True Cons.prems by simp
      ultimately show ?thesis using Cons.IH [of ?s] Cons.prems True by (auto split: if_splits)
    next
      case False
      then have "insert_comment c s = None" using Cons.prems by (auto simp: insert_comment_def MAX_COMMENT_SIZE_def)
      then show ?thesis using False by auto
    qed
  qed simp
  have st: "length (comments_arr (init_comtab start_tables)) = 100" "num_comments (init_comtab start_tables) = 0"
    by (simp_all add: init_comtab_def start_tables_def MAX_COMMENTS_NUM_def)
  show ?thesis
  proof (cases "length cs \<le> 100 \<and> list_all (\<lambda>c. length c < 100) cs")
    case True
    then obtain s where "enter_comments cs (init_comtab start_tables) = Some s"
      "take (num_comments s) (comments_arr s) = cs" using run [OF st(1)] st(2) by auto
    then show ?thesis using True by (simp add: print_comtab_def)
  next
    case False
    then show ?thesis using run [OF st(1)] st(2) by auto
  qed
qed

end
