(* ===== verification/TypeNames.thy ===== *)
theory TypeNames
  imports GlobalTable
begin

text \<open>
  The type table of \<open>Assig2/table.c\<close>, on the global hash table. The table stores the address of a local
  variable of \<open>insert_type\<close>, which dies with the call; nothing reads through it, because only the
  presence of a name is asked for.
\<close>

text \<open>The address of the variable \<open>t\<close>.\<close>

datatype local_address = Address_of_t

definition TYPE_NAME_SIZ :: nat where "TYPE_NAME_SIZ = 20"

definition insert_type_name :: "cstring \<Rightarrow> local_address globals \<Rightarrow> local_address globals option" where
  "insert_type_name type g =
     (if length type < TYPE_NAME_SIZ then map_option snd (g_insert g type Address_of_t) else None)"

definition type_name_exists :: "cstring \<Rightarrow> local_address globals \<Rightarrow> bool option" where
  "type_name_exists type g = map_option (\<lambda>found. found \<noteq> None) (g_get g type)"

definition init_type_names :: "unit \<Rightarrow> local_address globals" where
  "init_type_names _ = g_init ()"

primrec insert_type_names :: "cstring list \<Rightarrow> local_address globals \<Rightarrow> local_address globals option" where
  "insert_type_names [] g = Some g"
| "insert_type_names (t # ts) g = do { g \<leftarrow> insert_type_name t g; insert_type_names ts g }"

lemma insert_type_name_run:
  assumes "g_inv g" and "length t < TYPE_NAME_SIZ"
  shows "\<exists>g'. insert_type_name t g = Some g' \<and> g_inv g' \<and> dom (g_map g') = Set.insert t (dom (g_map g))"
proof -
  obtain ok g' where g': "g_insert g t Address_of_t = Some (ok, g')" using gt.insert_total [OF assms(1)] by blast
  have "dom (g_map g') = Set.insert t (dom (g_map g))"
    using gt.insert_result(1,3) [OF assms(1) g'] by (cases ok) auto
  then show ?thesis using g' gt.insert_result(2) [OF assms(1) g'] assms(2) by (simp add: insert_type_name_def)
qed

lemma insert_type_names_run:
  assumes "g_inv g" and "\<forall>t \<in> set ts. length t < TYPE_NAME_SIZ"
  shows "\<exists>g'. insert_type_names ts g = Some g' \<and> g_inv g' \<and> dom (g_map g') = set ts \<union> dom (g_map g)"
  using assms
proof (induction ts arbitrary: g)
  case (Cons t ts)
  obtain g' where g': "insert_type_name t g = Some g'" "g_inv g'" "dom (g_map g') = Set.insert t (dom (g_map g))"
    using insert_type_name_run [OF Cons.prems(1), of t] Cons.prems(2) by auto
  then show ?case using Cons.IH [OF g'(2)] Cons.prems(2) by auto
qed simp

text \<open>After any insertions of type names of fewer than 20 characters (a name may come twice),
  \<open>is_type_exists\<close> answers true for exactly the inserted names.
\<close>

theorem type_names_correct:
  assumes "\<forall>t \<in> set ts. length t < TYPE_NAME_SIZ"
  shows "\<exists>g. insert_type_names ts (init_type_names ()) = Some g \<and> (\<forall>t. type_name_exists t g = Some (t \<in> set ts))"
proof -
  obtain g where g: "insert_type_names ts (g_init ()) = Some g" "g_inv g" "dom (g_map g) = set ts"
    using insert_type_names_run [OF gt.inv_empty assms] by (auto simp: gt.lookup_empty)
  have "type_name_exists t g = Some (t \<in> set ts)" for t
    using gt.get_lookup [OF g(2), of t] g(3) by (auto simp: type_name_exists_def)
  then show ?thesis using g(1) by (simp add: init_type_names_def)
qed

theorem type_names_correct_witness:
  "\<exists>g. insert_type_names [''point'', ''list'', ''point''] (init_type_names ()) = Some g \<and>
     type_name_exists ''list'' g = Some True \<and> type_name_exists ''node'' g = Some False"
proof -
  have "\<forall>t \<in> set [''point'', ''list'', ''point'']. length t < TYPE_NAME_SIZ" by (simp add: TYPE_NAME_SIZ_def)
  from type_names_correct [OF this] show ?thesis by fastforce
qed

end
