(* ===== verification/StoresRemoval.thy ===== *)
theory StoresRemoval
  imports Prelude "HOL-Library.Monad_Syntax"
begin

text \<open>
  The LLVM pass of \<open>Assig5/StoresRemoval/StoresRemoval.cpp\<close> that removes stores from a basic block: it
  counts how often the name of an operand occurs in the stores of the block, and erases a store
  while the name of its operand occurs again. Of an instruction the pass only looks at the opcode and
  the names of the operands; a constant has the empty name, and so has a value without a name. \<open>None\<close> is
  undefined behaviour: after \<open>eraseFromParent\<close> the loop goes on to the next operand of
  the erased instruction.
\<close>

section \<open>The pass\<close>

datatype opcode = Store | Load | OtherOp

text \<open>An operand is a constant or a value of the function, which has a number and perhaps a name.\<close>

datatype operand = Const int | Val nat cstring

fun getName :: "operand \<Rightarrow> cstring" where
  "getName (Const c) = []"
| "getName (Val n s) = s"

record instruction =
  getOpcode :: opcode
  operands :: "operand list"
  result :: nat

definition operand_names :: "instruction \<Rightarrow> cstring list" where
  "operand_names i = map getName (operands i)"

text \<open>The first loop: the names of all operands of stores, in order.\<close>

fun collect_names :: "instruction list \<Rightarrow> cstring list" where
  "collect_names [] = []"
| "collect_names (Inst # blk) =
     (if getOpcode Inst = Store then filter (\<lambda>str. str \<noteq> []) (operand_names Inst) else []) @ collect_names blk"

text \<open>
  The operands of one store; the result says whether it was erased, and the names that are left.
\<close>

fun visit_operands :: "cstring list \<Rightarrow> cstring list \<Rightarrow> (bool \<times> cstring list) option" where
  "visit_operands [] names = Some (False, names)"
| "visit_operands (str # us) names =
     (if str = [] then visit_operands us names
      else if 1 < length (filter (\<lambda>n. n = str) names)
      then (if us = [] then Some (True, remove1 str names) else None)
      else visit_operands us names)"

text \<open>The second loop: the instructions that stay, and the number of erased ones.\<close>

fun erase_stores :: "instruction list \<Rightarrow> cstring list \<Rightarrow> (instruction list \<times> nat) option" where
  "erase_stores [] names = Some ([], 0)"
| "erase_stores (Inst # blk) names =
     (if getOpcode Inst = Store
      then do {
        (erased, names') \<leftarrow> visit_operands (operand_names Inst) names;
        (kept, n) \<leftarrow> erase_stores blk names';
        Some (if erased then (kept, n + 1) else (Inst # kept, n))
      }
      else do {
        (kept, n) \<leftarrow> erase_stores blk names;
        Some (Inst # kept, n)
      })"

text \<open>\<open>runOnBasicBlock\<close>: the changed block, the returned flag, and what is added to the statistic.\<close>

definition runOnBasicBlock :: "instruction list \<Rightarrow> (instruction list \<times> bool \<times> nat) option" where
  "runOnBasicBlock blk =
     do {
       (kept, n) \<leftarrow> erase_stores blk (collect_names blk);
       Some (kept, 0 < n, n)
     }"

section \<open>Which stores stay\<close>

definition is_store_to :: "cstring \<Rightarrow> instruction \<Rightarrow> bool" where
  "is_store_to p i \<longleftrightarrow> getOpcode i = Store \<and> operand_names i \<noteq> [] \<and> last (operand_names i) = p"

fun last_stores :: "instruction list \<Rightarrow> instruction list" where
  "last_stores [] = []"
| "last_stores (i # blk) =
     (if getOpcode i = Store \<and> (\<exists>j \<in> set blk. is_store_to (last (operand_names i)) j)
      then last_stores blk else i # last_stores blk)"

text \<open>A store has a value and a named place; the name of a value occurs only once.\<close>

definition store_shape :: "instruction \<Rightarrow> bool" where
  "store_shape i \<longleftrightarrow> (getOpcode i = Store \<longrightarrow> length (operands i) = 2 \<and> last (operand_names i) \<noteq> [])"

definition value_names :: "instruction list \<Rightarrow> cstring list" where
  "value_names blk = filter (\<lambda>v. v \<noteq> []) (map (\<lambda>i. hd (operand_names i)) (filter (\<lambda>i. getOpcode i = Store) blk))"

definition place_names :: "instruction list \<Rightarrow> cstring list" where
  "place_names blk = map (\<lambda>i. last (operand_names i)) (filter (\<lambda>i. getOpcode i = Store) blk)"

lemma store_shapeD:
  assumes "store_shape i" and "getOpcode i = Store"
  obtains v p where "operand_names i = [v, p]" and "p \<noteq> []"
  using assms by (auto simp: store_shape_def operand_names_def numeral_2_eq_2 length_Suc_conv)

lemma collect_names_mset:
  "list_all store_shape blk \<Longrightarrow> mset (collect_names blk) = mset (value_names blk) + mset (place_names blk)"
  by (induction blk) (auto simp: value_names_def place_names_def elim!: store_shapeD)

lemma length_filter_eq: "length (filter (\<lambda>n. n = s) xs) = count (mset xs) s"
  by (induction xs) auto

lemma place_names_iff:
  "list_all store_shape blk \<Longrightarrow> p \<in> set (place_names blk) \<longleftrightarrow> (\<exists>j \<in> set blk. is_store_to p j)"
  by (fastforce simp: place_names_def is_store_to_def list_all_iff elim!: store_shapeD)

text \<open>
  When the loop reaches a block \<open>blk\<close>, the names left are those of its stores and names \<open>K\<close> that do
  not occur as places in it.
\<close>

lemma erase_stores_run:
  assumes "list_all store_shape blk" and "mset names = mset (value_names blk) + mset (place_names blk) + K"
    and "\<forall>p \<in> set (place_names blk). p \<notin># K \<and> p \<notin> set (value_names blk)"
    and "distinct (value_names blk)" and "\<forall>v \<in> set (value_names blk). v \<notin># K"
  shows "\<exists>n. erase_stores blk names = Some (last_stores blk, n) \<and> n + length (last_stores blk) = length blk"
  using assms
proof (induction blk arbitrary: names K)
  case Nil
  then show ?case by simp
next
  case (Cons i blk)
  have sh: "list_all store_shape blk" using Cons.prems(1) by simp
  show ?case
  proof (cases "getOpcode i = Store")
    case False
    then have e: "value_names (i # blk) = value_names blk" "place_names (i # blk) = place_names blk"
      by (simp_all add: value_names_def place_names_def)
    obtain n where "erase_stores blk names = Some (last_stores blk, n)" "n + length (last_stores blk) = length blk"
      using Cons.IH [OF sh] Cons.prems(2-5) unfolding e by blast
    then show ?thesis using False by simp
  next
    case True
    obtain v p where vp: "operand_names i = [v, p]" "p \<noteq> []" using Cons.prems(1) True by (auto elim!: store_shapeD)
    have e: "value_names (i # blk) = (if v = [] then [] else [v]) @ value_names blk"
      "place_names (i # blk) = p # place_names blk"
      using True vp by (simp_all add: value_names_def place_names_def)
    have m: "mset names = mset (if v = [] then [] else [v]) + mset (value_names blk) + add_mset p (mset (place_names blk)) + K"
      using Cons.prems(2) e by simp
    have pK: "p \<notin># K" "p \<notin> set (value_names blk)" "p \<noteq> v" using Cons.prems(3) e vp(2) by (auto split: if_splits)
    have cp: "count (mset names) p = Suc (count (mset (place_names blk)) p)"
      using m pK by (auto simp: not_in_iff count_mset_0_iff)
    have vstep: "v = [] \<or> \<not> 1 < length (filter (\<lambda>n. n = v) names)"
    proof (cases "v = []")
      case False
      then have "v \<notin># K" "v \<notin> set (value_names blk)" "v \<notin> set (place_names blk)"
        using Cons.prems(3,4,5) e by auto
      then have "count (mset names) v = 1" using m pK(3) False by (simp add: not_in_iff count_mset_0_iff)
      then show ?thesis by (simp add: length_filter_eq)
    qed simp
    have vis: "visit_operands (operand_names i) names =
      Some (if p \<in> set (place_names blk) then (True, remove1 p names) else (False, names))"
      using vstep vp cp by (auto simp: length_filter_eq count_mset_0_iff count_greater_zero_iff [symmetric] simp del: count_greater_zero_iff)
    have st: "p \<in> set (place_names blk) \<longleftrightarrow> (\<exists>j \<in> set blk. is_store_to (last (operand_names i)) j)"
      using place_names_iff [OF sh, of p] vp by simp
    let ?V = "mset (if v = [] then [] else [v])"
    show ?thesis
    proof (cases "p \<in> set (place_names blk)")
      case again: True
      have "mset (remove1 p names) = mset (value_names blk) + mset (place_names blk) + (K + ?V)"
        using m by simp
      moreover have "\<forall>q \<in> set (place_names blk). q \<notin># K + ?V \<and> q \<notin> set (value_names blk)"
        using Cons.prems(3) e by (auto split: if_splits)
      moreover have "distinct (value_names blk)" "\<forall>w \<in> set (value_names blk). w \<notin># K + ?V"
        using Cons.prems(4,5) e by (auto split: if_splits)
      ultimately obtain n where "erase_stores blk (remove1 p names) = Some (last_stores blk, n)"
        "n + length (last_stores blk) = length blk" using Cons.IH [OF sh] by blast
      then show ?thesis using True vis again st by simp
    next
      case last: False
      have "mset names = mset (value_names blk) + mset (place_names blk) + (add_mset p K + ?V)"
        using m by simp
      moreover have "\<forall>q \<in> set (place_names blk). q \<notin># add_mset p K + ?V \<and> q \<notin> set (value_names blk)"
        using Cons.prems(3) e last by (auto split: if_splits)
      moreover have "distinct (value_names blk)" "\<forall>w \<in> set (value_names blk). w \<notin># add_mset p K + ?V"
        using Cons.prems(4,5) e pK(2) by (auto split: if_splits)
      ultimately obtain n where "erase_stores blk names = Some (last_stores blk, n)"
        "n + length (last_stores blk) = length blk" using Cons.IH [OF sh] by blast
      then show ?thesis using True vis last st by simp
    qed
  qed
qed

lemma stores_removal_run:
  assumes "list_all store_shape blk" and "distinct (value_names blk)" and "set (value_names blk) \<inter> set (place_names blk) = {}"
  shows "\<exists>n. runOnBasicBlock blk = Some (last_stores blk, 0 < n, n) \<and> n + length (last_stores blk) = length blk"
proof -
  obtain n where "erase_stores blk (collect_names blk) = Some (last_stores blk, n)" "n + length (last_stores blk) = length blk"
    using erase_stores_run [OF assms(1), of "collect_names blk" "{#}"] collect_names_mset [OF assms(1)] assms(2,3) by auto
  then show ?thesis by (simp add: runOnBasicBlock_def)
qed

section \<open>What a block does\<close>

text \<open>
  The state is the memory, where a cell is known by the name of its place, and the values of the
  function: a store writes a constant or a value, a load defines its result from memory, and another
  instruction defines its result from values, as \<open>compute\<close> says; calls that use memory are not covered.
\<close>

type_synonym block_state = "(cstring \<Rightarrow> int) \<times> (nat \<Rightarrow> int)"

fun operand_value :: "(nat \<Rightarrow> int) \<Rightarrow> operand \<Rightarrow> int" where
  "operand_value \<rho> (Const c) = c"
| "operand_value \<rho> (Val n s) = \<rho> n"

definition place :: "instruction \<Rightarrow> cstring" where
  "place i = last (operand_names i)"

fun exec_inst :: "(instruction \<Rightarrow> (nat \<Rightarrow> int) \<Rightarrow> int) \<Rightarrow> instruction \<Rightarrow> block_state \<Rightarrow> block_state" where
  "exec_inst compute i (\<mu>, \<rho>) =
     (case getOpcode i of
        Store \<Rightarrow> (\<mu>(place i := operand_value \<rho> (hd (operands i))), \<rho>)
      | Load \<Rightarrow> (\<mu>, \<rho>(result i := \<mu> (place i)))
      | OtherOp \<Rightarrow> (\<mu>, \<rho>(result i := compute i \<rho>)))"

definition exec_block :: "(instruction \<Rightarrow> (nat \<Rightarrow> int) \<Rightarrow> int) \<Rightarrow> instruction list \<Rightarrow> block_state \<Rightarrow> block_state" where
  "exec_block compute = fold (exec_inst compute)"

lemma exec_block_simps [simp]:
  "exec_block compute [] s = s"
  "exec_block compute (i # blk) s = exec_block compute blk (exec_inst compute i s)"
  "exec_block compute (xs @ ys) s = exec_block compute ys (exec_block compute xs s)"
  by (simp_all add: exec_block_def)

text \<open>
  A place is overwritten by a block if it is stored to before it is loaded; a block spares the loads
  if every store to a place that is stored to again later is overwritten.
\<close>

fun overwritten :: "cstring \<Rightarrow> instruction list \<Rightarrow> bool" where
  "overwritten p [] = False"
| "overwritten p (i # blk) =
     (if getOpcode i \<noteq> OtherOp \<and> place i = p then getOpcode i = Store else overwritten p blk)"

fun spares_loads :: "instruction list \<Rightarrow> bool" where
  "spares_loads [] = True"
| "spares_loads (i # blk) \<longleftrightarrow>
     (getOpcode i = Store \<and> (\<exists>j \<in> set blk. is_store_to (place i) j) \<longrightarrow> overwritten (place i) blk) \<and> spares_loads blk"

lemma exec_last_stores:
  assumes "spares_loads blk" and "\<And>p. \<mu> p \<noteq> \<mu>' p \<Longrightarrow> overwritten p blk"
  shows "exec_block compute (last_stores blk) (\<mu>, \<rho>) = exec_block compute blk (\<mu>', \<rho>)"
  using assms
proof (induction blk arbitrary: \<mu> \<mu>' \<rho>)
  case Nil
  then show ?case by (auto simp: fun_eq_iff)
next
  case (Cons i blk)
  have sp: "spares_loads blk" using Cons.prems(1) by simp
  have other: "overwritten q blk" if "\<mu> q \<noteq> \<mu>' q" "getOpcode i = OtherOp \<or> place i \<noteq> q" for q
    using Cons.prems(2) [OF that(1)] that(2) by (auto split: if_splits)
  show ?case
  proof (cases "getOpcode i")
    case Store
    let ?w = "operand_value \<rho> (hd (operands i))"
    have "exec_block compute (last_stores blk) (\<mu>(place i := ?w), \<rho>) = exec_block compute blk (\<mu>'(place i := ?w), \<rho>)"
      by (rule Cons.IH [OF sp]) (use other in \<open>auto split: if_splits\<close>)
    moreover have "exec_block compute (last_stores blk) (\<mu>, \<rho>) = exec_block compute blk (\<mu>'(place i := ?w), \<rho>)"
      if "\<exists>j \<in> set blk. is_store_to (place i) j"
      by (rule Cons.IH [OF sp]) (use other that Store Cons.prems(1) in \<open>auto split: if_splits\<close>)
    ultimately show ?thesis using Store by (simp add: place_def)
  next
    case Load
    have "\<mu> (place i) = \<mu>' (place i)" using Cons.prems(2) [of "place i"] Load by auto
    moreover have "overwritten q blk" if "\<mu> q \<noteq> \<mu>' q" for q using other [OF that] calculation that by blast
    ultimately show ?thesis using Load Cons.IH [OF sp] by simp
  next
    case OtherOp
    then show ?thesis using Cons.IH [OF sp, of \<mu> \<mu>'] other by simp
  qed
qed

text \<open>C31:
  On a block whose stores have a value and a named place, where no named value is stored twice or is
  also a place, the pass erases exactly the stores to a place that is stored to again later, and reports the
  change and the number of erased stores. If moreover no erased store is loaded before the next store
  to its place, the changed block computes the same values and leaves the same memory as
  the original one, from every state, where different names stand for different memory cells and only loads and stores
  use the memory.
\<close>

theorem stores_removal_correct:
  assumes "list_all store_shape blk" and "distinct (value_names blk)" and "set (value_names blk) \<inter> set (place_names blk) = {}"
  shows "runOnBasicBlock blk =
      Some (last_stores blk, last_stores blk \<noteq> blk, length blk - length (last_stores blk)) \<and>
    (spares_loads blk \<longrightarrow> exec_block compute (last_stores blk) s = exec_block compute blk s)"
proof
  obtain n where n: "runOnBasicBlock blk = Some (last_stores blk, 0 < n, n)" "n + length (last_stores blk) = length blk"
    using stores_removal_run [OF assms] by blast
  have "length (last_stores b) \<le> length b \<and> (length (last_stores b) = length b \<longrightarrow> last_stores b = b)" for b
    by (induction b) auto
  from this [of blk] have "0 < n \<longleftrightarrow> last_stores blk \<noteq> blk" using n(2) by auto
  moreover have "n = length blk - length (last_stores blk)" using n(2) by simp
  ultimately show "runOnBasicBlock blk = Some (last_stores blk, last_stores blk \<noteq> blk, length blk - length (last_stores blk))"
    using n(1) by simp
  show "spares_loads blk \<longrightarrow> exec_block compute (last_stores blk) s = exec_block compute blk s"
    by (cases s) (simp add: exec_last_stores)
qed

definition st :: "operand \<Rightarrow> cstring \<Rightarrow> instruction" where
  "st v p = \<lparr>getOpcode = Store, operands = [v, Val 0 p], result = 0\<rparr>"

definition ld :: "nat \<Rightarrow> cstring \<Rightarrow> instruction" where
  "ld r p = \<lparr>getOpcode = Load, operands = [Val 0 p], result = r\<rparr>"

text \<open>The second store to \<open>x\<close> is kept, and what is loaded from \<open>x\<close> after it goes to \<open>y\<close>.\<close>

definition good_block :: "instruction list" where
  "good_block = [st (Const 1) ''x'', st (Const 3) ''x'', ld 7 ''x'', st (Val 7 ''v'') ''y'']"

theorem stores_removal_correct_witness:
  "runOnBasicBlock good_block = Some (drop 1 good_block, True, 1) \<and>
   (\<forall>\<mu> \<rho>. fst (exec_block (\<lambda>_ _. 0) (drop 1 good_block) (\<mu>, \<rho>)) = \<mu>(''x'' := 3, ''y'' := 3))"
  using stores_removal_correct [of good_block "\<lambda>_ _. 0" "(\<mu>, \<rho>)" for \<mu> \<rho>]
  by (simp add: good_block_def st_def ld_def store_shape_def value_names_def place_names_def is_store_to_def
      operand_names_def place_def)

section \<open>Where the pass is wrong\<close>

text \<open>A name that is no place is removed from the list by nobody.\<close>

lemma visit_operands_names:
  assumes "visit_operands [w, p] names = Some (b, names')" and "v \<noteq> p"
  shows "count (mset names') v = count (mset names) v"
  using assms by (auto split: if_splits)

lemma erase_stores_None:
  assumes "list_all store_shape blk" and "v \<noteq> []" and "v \<in> set (value_names blk)" and "v \<notin> set (place_names blk)"
    and "1 < count (mset names) v"
  shows "erase_stores blk names = None"
  using assms
proof (induction blk arbitrary: names)
  case Nil
  then show ?case by (simp add: value_names_def)
next
  case (Cons i blk)
  show ?case
  proof (cases "getOpcode i = Store")
    case False
    then show ?thesis using Cons by (simp add: value_names_def place_names_def)
  next
    case True
    then obtain w p where wp: "operand_names i = [w, p]" "p \<noteq> []" using Cons.prems(1) by (auto elim!: store_shapeD)
    have p: "v \<noteq> p" "v \<notin> set (place_names blk)" using Cons.prems(4) True wp(1) by (simp_all add: place_names_def)
    show ?thesis
    proof (cases "w = v")
      case w: True
      then show ?thesis using True wp Cons.prems(2,5) by (simp add: length_filter_eq)
    next
      case False
      then have "v \<in> set (value_names blk)" using Cons.prems(3) True wp by (simp add: value_names_def split: if_splits)
      then have "erase_stores blk names' = None" if "count (mset names') v = count (mset names) v" for names'
        using Cons.IH Cons.prems(1,2,5) p(2) that by simp
      then show ?thesis
        using True visit_operands_names [of w p names _ _ v] p(1) wp(1)
        by (cases "visit_operands (operand_names i) names") auto
    qed
  qed
qed

text \<open>
  The place \<open>p\<close> keeps what it holds while nothing is stored to it; the pass erases what comes
  before a later store.
\<close>

lemma exec_block_frame:
  "(\<forall>j \<in> set blk. \<not> (getOpcode j = Store \<and> place j = p)) \<Longrightarrow> fst (exec_block compute blk (\<mu>, \<rho>)) p = \<mu> p"
proof (induction blk arbitrary: \<mu> \<rho>)
  case (Cons i blk)
  then show ?case by (cases "getOpcode i") auto
qed simp

lemma last_stores_subset: "set (last_stores blk) \<subseteq> set blk"
  by (induction blk) auto

lemma last_stores_split:
  "getOpcode l \<noteq> Store \<Longrightarrow> \<exists>pre. last_stores (ys @ l # zs) = pre @ l # last_stores zs \<and>
     set pre \<subseteq> {i \<in> set ys. \<not> (getOpcode i = Store \<and> (\<exists>j \<in> set zs. is_store_to (place i) j))}"
proof (induction ys)
  case (Cons i ys)
  then obtain pre where pre: "last_stores (ys @ l # zs) = pre @ l # last_stores zs"
    "set pre \<subseteq> {i \<in> set ys. \<not> (getOpcode i = Store \<and> (\<exists>j \<in> set zs. is_store_to (place i) j))}" by blast
  show ?case
  proof (cases "getOpcode i = Store \<and> (\<exists>j \<in> set (ys @ l # zs). is_store_to (place i) j)")
    case True
    then show ?thesis using pre by (intro exI [of _ pre]) (auto simp: place_def)
  next
    case False
    then show ?thesis using pre by (intro exI [of _ "i # pre"]) (auto simp: place_def)
  qed
qed simp

text \<open>C32:
  On a block whose stores have a value and a named place, and where no named value is also a place:
  if some named value is stored twice, the pass goes on reading an erased instruction, and otherwise it is
  defined. And it does not look at loads: a load of a place that is stored to later reads, in the changed
  block, what the place held before the block, whatever the original block had stored to it.
\<close>

theorem stores_removal_unsound:
  assumes "list_all store_shape blk" and "set (value_names blk) \<inter> set (place_names blk) = {}"
  shows "(runOnBasicBlock blk = None \<longleftrightarrow> \<not> distinct (value_names blk)) \<and>
    (\<forall>xs l zs. distinct (value_names blk) \<and> blk = xs @ l # zs \<and> getOpcode l = Load \<and>
       (\<exists>j \<in> set zs. is_store_to (place l) j) \<longrightarrow>
       (\<exists>pre post n. runOnBasicBlock blk = Some (pre @ l # post, 0 < n, n) \<and>
          snd (exec_block compute (pre @ [l]) (\<mu>, \<rho>)) (result l) = \<mu> (place l) \<and>
          snd (exec_block compute (xs @ [l]) (\<mu>, \<rho>)) (result l) = fst (exec_block compute xs (\<mu>, \<rho>)) (place l)))"
proof
  have "runOnBasicBlock blk = None" if dup: "\<not> distinct (value_names blk)"
  proof -
    obtain v where v: "1 < count (mset (value_names blk)) v"
      using dup by (metis distinct_count_atmost_1 count_mset_0_iff less_one linorder_neqE_nat not_less_iff_gr_or_eq)
    then have "v \<in> set (value_names blk)" by (metis count_mset_0_iff not_less_zero)
    moreover have "v \<noteq> []" using calculation by (simp add: value_names_def)
    moreover have "v \<notin> set (place_names blk)" using calculation(1) assms(2) by blast
    moreover have "1 < count (mset (collect_names blk)) v" using v collect_names_mset [OF assms(1)] by simp
    ultimately show ?thesis using erase_stores_None [OF assms(1)] by (simp add: runOnBasicBlock_def)
  qed
  moreover have "runOnBasicBlock blk \<noteq> None" if "distinct (value_names blk)"
    using stores_removal_run [OF assms(1) that assms(2)] by auto
  ultimately show "runOnBasicBlock blk = None \<longleftrightarrow> \<not> distinct (value_names blk)" by blast
  show "\<forall>xs l zs. distinct (value_names blk) \<and> blk = xs @ l # zs \<and> getOpcode l = Load \<and>
       (\<exists>j \<in> set zs. is_store_to (place l) j) \<longrightarrow>
       (\<exists>pre post n. runOnBasicBlock blk = Some (pre @ l # post, 0 < n, n) \<and>
          snd (exec_block compute (pre @ [l]) (\<mu>, \<rho>)) (result l) = \<mu> (place l) \<and>
          snd (exec_block compute (xs @ [l]) (\<mu>, \<rho>)) (result l) = fst (exec_block compute xs (\<mu>, \<rho>)) (place l))"
  proof (intro allI impI, elim conjE)
    fix xs l zs
    assume d: "distinct (value_names blk)" and b: "blk = xs @ l # zs" and l: "getOpcode l = Load"
      and j: "\<exists>j \<in> set zs. is_store_to (place l) j"
    obtain pre where pre: "last_stores blk = pre @ l # last_stores zs"
      "set pre \<subseteq> {i \<in> set xs. \<not> (getOpcode i = Store \<and> (\<exists>j \<in> set zs. is_store_to (place i) j))}"
      using last_stores_split [of l xs zs] l b by auto
    obtain n where "runOnBasicBlock blk = Some (pre @ l # last_stores zs, 0 < n, n)"
      using stores_removal_run [OF assms(1) d assms(2)] unfolding pre(1) by blast
    moreover have "fst (exec_block compute pre (\<mu>, \<rho>)) (place l) = \<mu> (place l)"
      by (rule exec_block_frame) (use pre(2) j in auto)
    then have "snd (exec_block compute (pre @ [l]) (\<mu>, \<rho>)) (result l) = \<mu> (place l)"
      using l by (cases "exec_block compute pre (\<mu>, \<rho>)") simp
    moreover have "snd (exec_block compute (xs @ [l]) (\<mu>, \<rho>)) (result l) = fst (exec_block compute xs (\<mu>, \<rho>)) (place l)"
      using l by (cases "exec_block compute xs (\<mu>, \<rho>)") simp
    ultimately show "\<exists>pre post n. runOnBasicBlock blk = Some (pre @ l # post, 0 < n, n) \<and>
        snd (exec_block compute (pre @ [l]) (\<mu>, \<rho>)) (result l) = \<mu> (place l) \<and>
        snd (exec_block compute (xs @ [l]) (\<mu>, \<rho>)) (result l) = fst (exec_block compute xs (\<mu>, \<rho>)) (place l)"
      by blast
  qed
qed

definition bad_block :: "instruction list" where
  "bad_block = [st (Const 1) ''x'', ld 7 ''x'', st (Val 7 []) ''y'', st (Const 2) ''x'']"

theorem stores_removal_unsound_witness:
  "\<forall>\<mu> \<rho>. (\<exists>pre post n. runOnBasicBlock bad_block = Some (pre @ ld 7 ''x'' # post, 0 < n, n) \<and>
      snd (exec_block (\<lambda>_ _. 0) (pre @ [ld 7 ''x'']) (\<mu>, \<rho>)) 7 = \<mu> ''x'') \<and>
   snd (exec_block (\<lambda>_ _. 0) [st (Const 1) ''x'', ld 7 ''x''] (\<mu>, \<rho>)) 7 = 1"
proof -
  have "list_all store_shape bad_block" "set (value_names bad_block) \<inter> set (place_names bad_block) = {}"
    "distinct (value_names bad_block)"
    by (simp_all add: bad_block_def st_def ld_def store_shape_def value_names_def place_names_def operand_names_def)
  moreover have "bad_block = [st (Const 1) ''x''] @ ld 7 ''x'' # [st (Val 7 []) ''y'', st (Const 2) ''x'']"
    by (simp add: bad_block_def)
  moreover have "getOpcode (ld 7 ''x'') = Load" "place (ld 7 ''x'') = ''x''" "result (ld 7 ''x'') = 7"
    by (simp_all add: ld_def place_def operand_names_def)
  moreover have "\<exists>j \<in> set [st (Val 7 []) ''y'', st (Const 2) ''x'']. is_store_to ''x'' j"
    by (simp add: st_def is_store_to_def operand_names_def)
  ultimately have "\<exists>pre post n. runOnBasicBlock bad_block = Some (pre @ ld 7 ''x'' # post, 0 < n, n) \<and>
      snd (exec_block (\<lambda>_ _. 0) (pre @ [ld 7 ''x'']) (\<mu>, \<rho>)) 7 = \<mu> ''x''" for \<mu> \<rho>
    using stores_removal_unsound [of bad_block "\<lambda>_ _. 0" \<mu> \<rho>] by metis
  then show ?thesis by (simp add: st_def ld_def place_def operand_names_def)
qed

end
