(* ===== verification/ScanTables.thy ===== *)
theory ScanTables
  imports Prelude "HOL-Library.Monad_Syntax"
begin

text \<open>
  The tables of the scanner that flex generates from \<open>lexer.lex\<close> (\<open>Assig1/lex.yy.c\<close>), and the
  transition that the code computes from them. A transition looks the character class up in the
  entries of the state; a miss goes on with the default state, and from state 79 on with the
  meta class. State 78 is the one from which nothing more can match. Numbers are those of the file; an
  index outside a table is \<open>None\<close>, and so is a search that never ends.
\<close>

section \<open>Tables\<close>

definition yy_accept :: "int list" where
  "yy_accept =
    [0, 0, 0, 11, 10, 1, 2, 10, 10, 4, 2, 2, 2, 4, 10, 7, 2, 2, 2, 8,
     8, 8, 8, 8, 8, 8, 8, 8, 8, 8, 10, 2, 0, 5, 0, 0, 7, 7, 9, 0,
     8, 8, 8, 8, 8, 3, 8, 8, 8, 8, 8, 8, 8, 0, 8, 8, 8, 8, 8, 8,
     8, 8, 8, 0, 7, 8, 8, 8, 8, 8, 8, 8, 6, 8, 8, 8, 8, 8, 0]"

definition yy_ec :: "int list" where
  "yy_ec =
    [0, 1, 1, 1, 1, 1, 1, 1, 1, 1, 2, 1, 1, 1, 1, 1, 1, 1, 1, 1,
     1, 1, 1, 1, 1, 1, 1, 1, 1, 1, 1, 1, 1, 3, 4, 1, 1, 1, 5, 1,
     6, 7, 8, 9, 10, 11, 12, 13, 14, 14, 14, 14, 14, 14, 14, 14, 14, 14, 1, 15,
     16, 17, 18, 1, 1, 19, 19, 19, 19, 20, 19, 19, 19, 19, 19, 19, 19, 19, 19, 19,
     19, 19, 19, 19, 19, 19, 19, 19, 19, 19, 19, 21, 1, 22, 1, 23, 1, 24, 19, 25,
     26, 27, 28, 29, 30, 31, 19, 19, 32, 19, 33, 34, 35, 19, 36, 37, 38, 39, 40, 41,
     19, 42, 19, 43, 44, 45, 1, 1, 1, 1, 1, 1, 1, 1, 1, 1, 1, 1, 1, 1,
     1, 1, 1, 1, 1, 1, 1, 1, 1, 1, 1, 1, 1, 1, 1, 1, 1, 1, 1, 1,
     1, 1, 1, 1, 1, 1, 1, 1, 1, 1, 1, 1, 1, 1, 1, 1, 1, 1, 1, 1,
     1, 1, 1, 1, 1, 1, 1, 1, 1, 1, 1, 1, 1, 1, 1, 1, 1, 1, 1, 1,
     1, 1, 1, 1, 1, 1, 1, 1, 1, 1, 1, 1, 1, 1, 1, 1, 1, 1, 1, 1,
     1, 1, 1, 1, 1, 1, 1, 1, 1, 1, 1, 1, 1, 1, 1, 1, 1, 1, 1, 1,
     1, 1, 1, 1, 1, 1, 1, 1, 1, 1, 1, 1, 1, 1, 1, 1]"

definition yy_meta :: "int list" where
  "yy_meta =
    [0, 1, 2, 1, 1, 1, 1, 1, 1, 1, 1, 1, 1, 1, 3, 1, 1, 1, 1, 3,
     3, 1, 1, 3, 3, 3, 3, 3, 3, 3, 3, 3, 3, 3, 3, 3, 3, 3, 3, 3,
     3, 3, 3, 1, 1, 1]"

definition yy_base :: "int list" where
  "yy_base =
    [0, 0, 0, 126, 127, 127, 108, 120, 118, 127, 127, 127, 35, 108, 113, 36, 103, 102, 101, 0,
     86, 84, 19, 24, 88, 76, 71, 79, 77, 80, 65, 127, 104, 103, 44, 92, 47, 40, 127, 85,
     0, 75, 66, 68, 65, 0, 62, 61, 62, 62, 65, 64, 63, 51, 62, 65, 67, 51, 50, 61,
     53, 60, 53, 55, 70, 45, 44, 45, 55, 53, 45, 49, 47, 39, 33, 43, 37, 36, 127, 74,
     57]"

definition yy_def :: "int list" where
  "yy_def =
    [0, 78, 1, 78, 78, 78, 78, 79, 78, 78, 78, 78, 78, 78, 78, 78, 78, 78, 78, 80,
     80, 80, 80, 80, 80, 80, 80, 80, 80, 80, 78, 78, 79, 79, 78, 78, 78, 78, 78, 78,
     80, 80, 80, 80, 80, 80, 80, 80, 80, 80, 80, 80, 80, 78, 80, 80, 80, 80, 80, 80,
     80, 80, 80, 78, 78, 80, 80, 80, 80, 80, 80, 80, 80, 80, 80, 80, 80, 80, 0, 78,
     78]"

definition yy_nxt :: "int list" where
  "yy_nxt =
    [0, 4, 5, 6, 7, 8, 9, 9, 10, 11, 9, 12, 13, 14, 15, 9, 16, 17, 18, 19,
     19, 9, 9, 4, 19, 19, 20, 21, 22, 19, 19, 23, 19, 19, 19, 19, 24, 25, 26, 27,
     28, 29, 19, 9, 30, 9, 34, 35, 35, 36, 36, 43, 45, 44, 37, 34, 35, 46, 36, 35,
     40, 36, 63, 39, 45, 64, 63, 39, 41, 64, 77, 45, 45, 76, 39, 32, 45, 32, 45, 75,
     74, 73, 45, 72, 64, 71, 45, 70, 69, 68, 67, 66, 45, 65, 62, 61, 60, 59, 58, 57,
     45, 45, 56, 55, 54, 53, 37, 33, 33, 31, 52, 51, 50, 49, 48, 47, 42, 41, 31, 31,
     31, 38, 37, 31, 33, 31, 78, 3, 78, 78, 78, 78, 78, 78, 78, 78, 78, 78, 78, 78,
     78, 78, 78, 78, 78, 78, 78, 78, 78, 78, 78, 78, 78, 78, 78, 78, 78, 78, 78, 78,
     78, 78, 78, 78, 78, 78, 78, 78, 78, 78, 78, 78, 78]"

definition yy_chk :: "int list" where
  "yy_chk =
    [0, 1, 1, 1, 1, 1, 1, 1, 1, 1, 1, 1, 1, 1, 1, 1, 1, 1, 1, 1,
     1, 1, 1, 1, 1, 1, 1, 1, 1, 1, 1, 1, 1, 1, 1, 1, 1, 1, 1, 1,
     1, 1, 1, 1, 1, 1, 12, 12, 15, 12, 15, 22, 23, 22, 37, 34, 34, 23, 34, 36,
     80, 36, 53, 15, 77, 53, 63, 37, 76, 63, 75, 74, 73, 72, 36, 79, 71, 79, 70, 69,
     68, 67, 66, 65, 64, 62, 61, 60, 59, 58, 57, 56, 55, 54, 52, 51, 50, 49, 48, 47,
     46, 44, 43, 42, 41, 39, 35, 33, 32, 30, 29, 28, 27, 26, 25, 24, 21, 20, 18, 17,
     16, 14, 13, 8, 7, 6, 3, 78, 78, 78, 78, 78, 78, 78, 78, 78, 78, 78, 78, 78,
     78, 78, 78, 78, 78, 78, 78, 78, 78, 78, 78, 78, 78, 78, 78, 78, 78, 78, 78, 78,
     78, 78, 78, 78, 78, 78, 78, 78, 78, 78, 78, 78, 78]"

text \<open>Reading a table.\<close>

definition at :: "int list \<Rightarrow> int \<Rightarrow> int option" where
  "at xs i = (if 0 \<le> i \<and> i < int (length xs) then Some (xs ! nat i) else None)"

section \<open>Transitions\<close>

partial_function (option) yy_trans :: "int \<Rightarrow> int \<Rightarrow> int option" where
  "yy_trans s c =
     do { b \<leftarrow> at yy_base s;
          k \<leftarrow> at yy_chk (b + c);
          if k \<noteq> s
          then do { d \<leftarrow> at yy_def s; c' \<leftarrow> (if d \<ge> 79 then at yy_meta c else Some c); yy_trans d c' }
          else at yy_nxt (b + c) }"

declare yy_trans.simps [code]

section \<open>Evaluation\<close>

text \<open>The entries of the tables one by one, and one step of a transition with them.\<close>

lemma at_all:
  assumes "xs = ys" and "length xs = n"
  shows "map (at xs) [0..int n - 1] = map Some ys"
  unfolding assms(1) [symmetric] using assms(2) by (intro nth_equalityI) (auto simp: at_def)

lemma table_lengths:
  "length yy_accept = 79" "length yy_ec = 256" "length yy_meta = 46" "length yy_base = 81"
  "length yy_def = 81" "length yy_nxt = 173" "length yy_chk = 173"
  by (simp_all add: yy_accept_def yy_ec_def yy_meta_def yy_base_def yy_def_def yy_nxt_def yy_chk_def)

lemmas table_entries =
  at_all [OF yy_accept_def table_lengths(1), simplified upto_rec1, simplified]
  at_all [OF yy_meta_def table_lengths(3), simplified upto_rec1, simplified]
  at_all [OF yy_base_def table_lengths(4), simplified upto_rec1, simplified]
  at_all [OF yy_def_def table_lengths(5), simplified upto_rec1, simplified]
  at_all [OF yy_nxt_def table_lengths(6), simplified upto_rec1, simplified]
  at_all [OF yy_chk_def table_lengths(7), simplified upto_rec1, simplified]

lemma yy_trans_hit: "at yy_base s = Some b \<Longrightarrow> at yy_chk (b + c) = Some s \<Longrightarrow> yy_trans s c = at yy_nxt (b + c)"
  by (subst yy_trans.simps) simp

lemma yy_trans_default:
  "at yy_base s = Some b \<Longrightarrow> at yy_chk (b + c) = Some k \<Longrightarrow> k \<noteq> s \<Longrightarrow> at yy_def s = Some d \<Longrightarrow> d < 79 \<Longrightarrow>
   yy_trans s c = yy_trans d c"
  by (subst yy_trans.simps) simp

lemma yy_trans_meta:
  "at yy_base s = Some b \<Longrightarrow> at yy_chk (b + c) = Some k \<Longrightarrow> k \<noteq> s \<Longrightarrow> at yy_def s = Some d \<Longrightarrow> 79 \<le> d \<Longrightarrow>
   at yy_meta c = Some m \<Longrightarrow> yy_trans s c = yy_trans d m"
  by (subst yy_trans.simps) simp

lemmas trans_eval = table_entries yy_trans_hit yy_trans_default yy_trans_meta

end
