(* ===== verification/ScanPatterns.thy ===== *)
theory ScanPatterns
  imports Prelude "HOL-Library.Char_ord"
begin

text \<open>
  The patterns of \<open>lexer.lex\<close> as regular expressions, with derivatives that decide them. An
  expression has atoms that stand for sets of symbols; which symbols an atom admits is a parameter,
  because the same patterns are read over bytes and over the character classes of the scanner.
\<close>

section \<open>Regular expressions\<close>

datatype 'a rexp = Zero | One | Atom 'a | Plus "'a rexp" "'a rexp" | Times "'a rexp" "'a rexp" | Star "'a rexp"

text \<open>The words of an expression.\<close>

primrec lang :: "('b \<Rightarrow> 'a \<Rightarrow> bool) \<Rightarrow> 'a rexp \<Rightarrow> 'b list set" where
  "lang mem Zero = {}"
| "lang mem One = {[]}"
| "lang mem (Atom a) = {[c] | c. mem c a}"
| "lang mem (Plus r s) = lang mem r \<union> lang mem s"
| "lang mem (Times r s) = {u @ v | u v. u \<in> lang mem r \<and> v \<in> lang mem s}"
| "lang mem (Star r) = {concat ws | ws. set ws \<subseteq> lang mem r}"

primrec nullable :: "'a rexp \<Rightarrow> bool" where
  "nullable Zero = False"
| "nullable One = True"
| "nullable (Atom a) = False"
| "nullable (Plus r s) = (nullable r \<or> nullable s)"
| "nullable (Times r s) = (nullable r \<and> nullable s)"
| "nullable (Star r) = True"

text \<open>Products and sums that drop what has no effect.\<close>

fun times :: "'a rexp \<Rightarrow> 'a rexp \<Rightarrow> 'a rexp" where
  "times Zero s = Zero"
| "times r Zero = Zero"
| "times One s = s"
| "times r One = r"
| "times r s = Times r s"

fun summand :: "'a rexp \<Rightarrow> 'a rexp \<Rightarrow> bool" where
  "summand r (Plus s t) = (r = Plus s t \<or> summand r s \<or> summand r t)"
| "summand r s = (r = s)"

fun plus_norm :: "'a rexp \<Rightarrow> 'a rexp \<Rightarrow> 'a rexp" where
  "plus_norm Zero s = s"
| "plus_norm r Zero = r"
| "plus_norm (Plus r s) t = plus_norm r (plus_norm s t)"
| "plus_norm r s = (if summand r s then s else Plus r s)"

text \<open>What may follow a first symbol.\<close>

primrec nder :: "('b \<Rightarrow> 'a \<Rightarrow> bool) \<Rightarrow> 'b \<Rightarrow> 'a rexp \<Rightarrow> 'a rexp" where
  "nder mem c Zero = Zero"
| "nder mem c One = Zero"
| "nder mem c (Atom a) = (if mem c a then One else Zero)"
| "nder mem c (Plus r s) = plus_norm (nder mem c r) (nder mem c s)"
| "nder mem c (Times r s) =
     (if nullable r then plus_norm (times (nder mem c r) s) (nder mem c s) else times (nder mem c r) s)"
| "nder mem c (Star r) = times (nder mem c r) (Star r)"

lemma nullable_iff: "nullable r \<longleftrightarrow> [] \<in> lang mem r"
  by (induction r) (auto intro: exI [of _ "[]"])

lemma lang_times [simp]: "lang mem (times r s) = lang mem (Times r s)"
  by (induction r s rule: times.induct) auto

lemma summand_lang: "summand r s \<Longrightarrow> lang mem r \<subseteq> lang mem s"
  by (induction r s rule: summand.induct) auto

lemma lang_plus_norm [simp]: "lang mem (plus_norm r s) = lang mem r \<union> lang mem s"
proof -
  have u: "summand r s \<Longrightarrow> lang mem s = lang mem r \<union> lang mem s" for r s
    using summand_lang by blast
  show ?thesis
    by (induction r s rule: plus_norm.induct)
      (simp_all del: summand.simps lang.simps add: lang.simps(1) u [symmetric],
       simp_all del: summand.simps add: Un_assoc)
qed

lemma cons_concat: 
  "(\<exists>ws. c # w = concat ws \<and> set ws \<subseteq> A) \<longleftrightarrow> (\<exists>u ws. c # u \<in> A \<and> set ws \<subseteq> A \<and> w = u @ concat ws)"
proof
  assume "\<exists>ws. c # w = concat ws \<and> set ws \<subseteq> A"
  then obtain ws where ws: "c # w = concat ws" "set ws \<subseteq> A" by blast
  then show "\<exists>u ws. c # u \<in> A \<and> set ws \<subseteq> A \<and> w = u @ concat ws"
  proof (induction ws)
    case (Cons v vs)
    then show ?case by (cases v) (auto intro: exI [of _ "_ :: _ list"])
  qed simp
next
  assume "\<exists>u ws. c # u \<in> A \<and> set ws \<subseteq> A \<and> w = u @ concat ws"
  then obtain u ws where "c # u \<in> A" "set ws \<subseteq> A" "w = u @ concat ws" by blast
  then show "\<exists>ws. c # w = concat ws \<and> set ws \<subseteq> A" by (intro exI [of _ "(c # u) # ws"]) simp
qed

lemma lang_nder: "w \<in> lang mem (nder mem c r) \<longleftrightarrow> c # w \<in> lang mem r"
proof (induction r arbitrary: w)
  case (Times r s)
  show ?case by (auto simp: Times.IH nullable_iff [of _ mem] Cons_eq_append_conv)
next
  case (Star r)
  show ?case using cons_concat [of c w "lang mem r"] by (auto simp: Star.IH)
qed auto

section \<open>Rules\<close>

text \<open>The first rule, counted from 1, that admits the empty word; 0 if none does.\<close>

primrec first_nullable :: "int \<Rightarrow> 'a rexp list \<Rightarrow> int" where
  "first_nullable k [] = 0"
| "first_nullable k (r # rs) = (if nullable r then k else first_nullable (k + 1) rs)"

text \<open>The first rule that admits a word.\<close>

primrec first_rule :: "('b \<Rightarrow> 'a \<Rightarrow> bool) \<Rightarrow> int \<Rightarrow> 'a rexp list \<Rightarrow> 'b list \<Rightarrow> int" where
  "first_rule mem k [] w = 0"
| "first_rule mem k (r # rs) w = (if w \<in> lang mem r then k else first_rule mem (k + 1) rs w)"

definition nders :: "('b \<Rightarrow> 'a \<Rightarrow> bool) \<Rightarrow> 'b list \<Rightarrow> 'a rexp list \<Rightarrow> 'a rexp list" where
  "nders mem w rs = foldl (\<lambda>rs c. map (nder mem c) rs) rs w"

lemma nders_simps [simp]:
  "nders mem [] rs = rs"
  "nders mem (c # w) rs = nders mem w (map (nder mem c) rs)"
  "nders mem (w @ v) rs = nders mem v (nders mem w rs)"
  by (simp_all add: nders_def)

lemma first_rule_Nil: "first_rule mem k rs [] = first_nullable k rs"
  by (induction rs arbitrary: k) (simp_all add: nullable_iff [of _ mem])

lemma first_rule_Cons: "first_rule mem k rs (c # w) = first_rule mem k (map (nder mem c) rs) w"
  by (induction rs arbitrary: k) (simp_all add: lang_nder)

lemma first_rule_nders: "first_rule mem k rs (w @ v) = first_rule mem k (nders mem w rs) v"
  by (induction w arbitrary: rs) (simp_all add: first_rule_Cons)

lemma first_rule_Zero: "set rs \<subseteq> {Zero} \<Longrightarrow> first_rule mem k rs w = 0"
  by (induction rs arbitrary: k) auto

text \<open>Words over symbols whose atoms agree.\<close>

lemma lang_map:
  assumes "\<forall>a \<in> set_rexp r. \<forall>b. mem b a = mem' (f b) a"
  shows "w \<in> lang mem r \<longleftrightarrow> map f w \<in> lang mem' r"
  using assms
proof (induction r arbitrary: w)
  case (Times r s)
  then have IH: "v \<in> lang mem r \<longleftrightarrow> map f v \<in> lang mem' r" "v \<in> lang mem s \<longleftrightarrow> map f v \<in> lang mem' s" for v by auto
  show ?case by (auto simp: IH map_eq_append_conv)
next
  case (Star r)
  then have IH: "v \<in> lang mem r \<longleftrightarrow> map f v \<in> lang mem' r" for v by auto
  have "(\<exists>vs. map f w = concat vs \<and> set vs \<subseteq> lang mem' r) \<longleftrightarrow> (\<exists>ws. w = concat ws \<and> set ws \<subseteq> lang mem r)"
  proof
    assume "\<exists>vs. map f w = concat vs \<and> set vs \<subseteq> lang mem' r"
    then obtain vs where "map f w = concat vs" "set vs \<subseteq> lang mem' r" by blast
    then show "\<exists>ws. w = concat ws \<and> set ws \<subseteq> lang mem r"
    proof (induction vs arbitrary: w)
      case Nil
      then show ?case by (intro exI [of _ "[]"]) simp
    next
      case (Cons v vs)
      then obtain a b where "w = a @ b" "map f a = v" "map f b = concat vs"
        by (auto simp: map_eq_append_conv)
      moreover from this Cons obtain ws where "b = concat ws" "set ws \<subseteq> lang mem r" by auto
      ultimately show ?case using Cons.prems IH by (intro exI [of _ "a # ws"]) auto
    qed
  next
    assume "\<exists>ws. w = concat ws \<and> set ws \<subseteq> lang mem r"
    then obtain ws where "w = concat ws" "set ws \<subseteq> lang mem r" by blast
    then show "\<exists>vs. map f w = concat vs \<and> set vs \<subseteq> lang mem' r"
      using IH by (intro exI [of _ "map (map f) ws"]) (auto simp: map_concat)
  qed
  then show ?case by auto
qed auto

lemma first_rule_map:
  assumes "\<forall>r \<in> set rs. \<forall>a \<in> set_rexp r. \<forall>b. mem b a = mem' (f b) a"
  shows "first_rule mem k rs w = first_rule mem' k rs (map f w)"
  using assms lang_map [of _ mem mem' f w] by (induction rs arbitrary: k) simp_all

section \<open>The patterns of the scanner\<close>

text \<open>
  The sets of characters the patterns use: a single character, \<open>[A-Za-z]\<close>, \<open>[0-9]\<close>, the dot (every
  character but the newline), and every character, for the rule that copies what nothing else matches.
\<close>

datatype charset = Sym char | Letter | Digit | Dot | Any

type_synonym pattern = "charset rexp"

fun lit :: "cstring \<Rightarrow> pattern" where
  "lit [] = One"
| "lit [c] = Atom (Sym c)"
| "lit (c # cs) = Times (Atom (Sym c)) (lit cs)"

fun alts :: "pattern list \<Rightarrow> pattern" where
  "alts [] = Zero"
| "alts [r] = r"
| "alts (r # rs) = Plus r (alts rs)"

definition some :: "pattern \<Rightarrow> pattern" where "some r = Times r (Star r)"

definition maybe :: "pattern \<Rightarrow> pattern" where "maybe r = Plus r One"

definition ID :: pattern where
  "ID = Times (Atom Letter) (Star (alts [Atom Letter, Atom Digit, Atom (Sym CHR ''_'')]))"

definition RESERVED :: pattern where
  "RESERVED = alts (map lit [''return'', ''typedef'', ''if'', ''else'', ''int'', ''float'', ''for'', ''struct'',
     ''union'', ''void'', ''while''])"

definition OPERATOR :: pattern where
  "OPERATOR = alts (map lit [''+'', ''-'', ''*'', ''*'', ''<'', ''>'', ''>='', ''<='', ''!='', ''=='', ''||'',
     ''&&'', ''!'', ''=''])"

definition SEPARATOR :: pattern where
  "SEPARATOR = alts (map lit [''{'', ''}'', ''('', '')'', ''['', '']'', '';'', '','', ''.''])"

definition STRING_LITERAL :: pattern where
  "STRING_LITERAL = Times (Atom (Sym CHR 0x22)) (Times (Star (Atom Dot)) (Atom (Sym CHR 0x22)))"

definition INT_CONST :: pattern where
  "INT_CONST = some (lit ''digit'')"

definition FLOAT_CONST :: pattern where
  "FLOAT_CONST =
     (let sign = maybe (some (Atom (Sym CHR ''-''))); digits = some (Atom Digit)
      in Times sign (Times (Star (Atom Digit)) (Times (maybe (Atom (Sym CHR ''.'')))
           (Times digits (maybe (Times (lit ''eE'') (Times sign digits)))))))"

text \<open>The rules in the order of the file; the last one is the default rule.\<close>

definition rules :: "pattern list" where
  "rules = [Atom (Sym CHR 0x0A), OPERATOR, RESERVED, SEPARATOR, STRING_LITERAL, INT_CONST, FLOAT_CONST,
     ID, lit ''/*'', Atom Any]"

fun in_charset :: "char \<Rightarrow> charset \<Rightarrow> bool" where
  "in_charset b (Sym c) = (b = c)"
| "in_charset b Letter = (CHR ''A'' \<le> b \<and> b \<le> CHR ''Z'' \<or> CHR ''a'' \<le> b \<and> b \<le> CHR ''z'')"
| "in_charset b Digit = (CHR ''0'' \<le> b \<and> b \<le> CHR ''9'')"
| "in_charset b Dot = (b \<noteq> CHR 0x0A)"
| "in_charset b Any = True"

end
