(* ===== verification/ScanStates.thy ===== *)
theory ScanStates
  imports ScanTables ScanPatterns
begin

text \<open>
  The states of the scanner's automaton, labelled. Every state is labelled with the derivatives of the
  rules by a word that leads to it; the label of each successor is the derivative of the label,
  and the accepting entry is the first rule whose label admits the empty word. All of this is
  evaluated for the 75 states and 45 character classes.
\<close>

section \<open>Character classes\<close>

text \<open>
  The class of a character, as \<open>yy_get_previous_state\<close> computes it: the zero byte, which \<open>yy_ec\<close>
  reserves for the end of the buffer, counts as class 1.
\<close>

definition cls_of :: "int \<Rightarrow> int" where
  "cls_of i = (if i = 0 then 1 else the (at yy_ec i))"

definition cls :: "char \<Rightarrow> int" where
  "cls b = cls_of (of_char b)"

fun in_class :: "int \<Rightarrow> charset \<Rightarrow> bool" where
  "in_class k (Sym c) = (k = cls c)"
| "in_class k Letter = (k = 19 \<or> k = 20 \<or> 24 \<le> k \<and> k \<le> 42)"
| "in_class k Digit = (k = 14)"
| "in_class k Dot = (k \<noteq> 2)"
| "in_class k Any = True"

lemmas ec_entries = at_all [OF yy_ec_def table_lengths(2), simplified upto_rec1, simplified]

text \<open>The characters the patterns name are alone in their classes.\<close>

definition named :: cstring where
  "named = CHR 0x0A # CHR 0x22 # ''+-*<>=!|&{}()[];,./_returntypdifloascuvwhgE''"

lemma named_alone: "list_all (\<lambda>i. list_all (\<lambda>c. (cls_of i = cls_of (of_char c)) = (i = of_char c)) named) [0..255]"
  by (simp add: named_def cls_of_def ec_entries upto_rec1)

lemma sets_agree:
  "list_all (\<lambda>i. (cls_of i = 19 \<or> cls_of i = 20 \<or> 24 \<le> cls_of i \<and> cls_of i \<le> 42) = (65 \<le> i \<and> i \<le> 90 \<or> 97 \<le> i \<and> i \<le> 122) \<and>
    (cls_of i = 14) = (48 \<le> i \<and> i \<le> 57) \<and> (cls_of i \<noteq> 2) = (i \<noteq> 10)) [0..255]"
  by (simp add: cls_of_def ec_entries upto_rec1)

section \<open>Labels\<close>

definition delta :: "int \<Rightarrow> int \<Rightarrow> int" where
  "delta s c = the (yy_trans s c)"

text \<open>For every state a word of classes that leads to it from the start state.\<close>

definition access :: "(int \<times> int list) list" where
  "access = [
    (1, []), (4, [1]), (5, [2]), (6, [3]), (7, [4]), (8, [5]), (9, [6]), (10, [8]), (11, [9]),
    (12, [11]), (13, [12]), (14, [13]), (15, [14]), (16, [16]), (17, [17]), (18, [18]), (19, [19]),
    (20, [26]), (21, [27]), (22, [28]), (23, [31]), (24, [36]), (25, [37]), (26, [38]), (27, [39]),
    (28, [40]), (29, [41]), (30, [44]), (31, [3, 17]), (32, [4, 1]), (33, [4, 4]), (34, [11, 11]),
    (35, [11, 12]), (36, [11, 14]), (37, [12, 14]), (38, [13, 8]), (39, [14, 27]), (40, [19, 14]),
    (41, [26, 31]), (42, [27, 32]), (43, [28, 32]), (44, [28, 34]), (45, [31, 28]), (46, [31, 33]),
    (47, [36, 27]), (48, [37, 38]), (49, [38, 42]), (50, [39, 33]), (51, [40, 34]), (52, [41, 30]),
    (53, [14, 27, 20]), (54, [26, 31, 29]), (55, [27, 32, 37]), (56, [28, 32, 34]),
    (57, [36, 27, 38]), (58, [37, 38, 36]), (59, [38, 42, 35]), (60, [39, 33, 31]),
    (61, [40, 34, 31]), (62, [41, 30, 31]), (63, [14, 27, 20, 11]), (64, [14, 27, 20, 14]),
    (65, [26, 31, 29, 31]), (66, [28, 32, 34, 24]), (67, [36, 27, 38, 39]), (68, [37, 38, 36, 39]),
    (69, [38, 42, 35, 27]), (70, [39, 33, 31, 34]), (71, [41, 30, 31, 32]),
    (72, [26, 31, 29, 31, 38]), (73, [36, 27, 38, 39, 36]), (74, [37, 38, 36, 39, 25]),
    (75, [38, 42, 35, 27, 26]), (76, [26, 31, 29, 31, 38, 26]), (77, [38, 42, 35, 27, 26, 27])]"

definition residual :: "int \<Rightarrow> pattern list" where
  "residual s = (if s = 78 then replicate (length rules) Zero else nders in_class (the (map_of access s)) rules)"

lemmas pattern_defs =
  rules_def OPERATOR_def RESERVED_def SEPARATOR_def STRING_LITERAL_def INT_CONST_def FLOAT_CONST_def ID_def
  some_def maybe_def Let_def

declare table_entries [simp] ec_entries [simp]

lemma cls_at: "b \<noteq> CHR 0x00 \<Longrightarrow> cls b = the (at yy_ec (of_char b))"
proof -
  assume "b \<noteq> CHR 0x00"
  then have "of_char b \<noteq> (0 :: int)" by (cases b) auto
  then show ?thesis by (simp add: cls_def cls_of_def)
qed

lemma cls_names: "list_all (\<lambda>b. cls b = the (at yy_ec (of_char b))) named"
  by (simp add: named_def cls_at)

lemmas cls_entries [simp] = cls_names [unfolded named_def, simplified]

lemma residual_all:
  "list_all (\<lambda>(s, w). residual s = nders in_class w rules) access"
  by (simp add: access_def residual_def)

lemmas residual_entries =
  residual_all [unfolded access_def, unfolded pattern_defs, simplified]
lemma residual_78: "residual 78 = [Zero, Zero, Zero, Zero, Zero, Zero, Zero, Zero, Zero, Zero]"
  by (simp add: residual_def rules_def)

definition states :: "int list" where
  "states = map fst access"

lemmas states_eval = states_def [unfolded access_def, simplified]

lemma states_range: "set states = insert 1 {4..77}"
proof -
  have e: "states = 1 # [4..77]" by (simp add: states_eval upto_rec1)
  show ?thesis unfolding e list.simps(15) set_upto ..
qed

lemma states_accept: "list_all (\<lambda>s. at yy_accept s = Some (first_nullable 1 (residual s))) states"
  by (simp add: states_eval residual_entries)

lemma states_step:
  "list_all (\<lambda>s. list_all (\<lambda>c. case yy_trans s c of
       None \<Rightarrow> False
     | Some t \<Rightarrow> 4 \<le> t \<and> t \<le> 78 \<and> map (nder in_class c) (residual s) = residual t) [1..45]) states"
  by (simp add: states_eval residual_entries residual_78 yy_trans_hit yy_trans_default yy_trans_meta upto_rec1)

text \<open>The end of the buffer is class 0; state 3 reads it, and nothing follows.\<close>

lemma states_eob: "list_all (\<lambda>s. yy_trans s 0 = Some 3) states"
  by (simp add: states_eval yy_trans_hit yy_trans_default yy_trans_meta)

lemma eob_jams: "list_all (\<lambda>c. yy_trans 3 c = Some 78) [0..45]"
  by (simp add: yy_trans_hit yy_trans_default yy_trans_meta upto_rec1)

text \<open>The states with base 127 have no successor but the last one.\<close>

lemma states_base:
  "list_all (\<lambda>s. case at yy_base s of
       None \<Rightarrow> False
     | Some b \<Rightarrow> b = 127 \<longrightarrow> at yy_accept s \<noteq> Some 0 \<and> list_all (\<lambda>c. yy_trans s c = Some 78) [1..45]) states"
  by (simp add: states_eval yy_trans_hit yy_trans_default yy_trans_meta upto_rec1)

declare table_entries [simp del] ec_entries [simp del] cls_entries [simp del]

end
