(* ===== verification/ScanDfa.thy ===== *)
theory ScanDfa
  imports ScanStates
begin

text \<open>
  The tables implement the patterns: after reading a word the accepting entry of the state is the
  first rule of \<open>lexer.lex\<close> that admits the word, and state 78 means that no continuation is admitted.
\<close>

section \<open>The automaton and the rules\<close>

definition is_state :: "int \<Rightarrow> bool" where
  "is_state s \<longleftrightarrow> s = 1 \<or> 4 \<le> s \<and> s \<le> 77"

lemma is_state_iff: "is_state s \<longleftrightarrow> s \<in> set states"
  by (auto simp: is_state_def states_range)

lemma cls_of_range: "0 \<le> i \<Longrightarrow> i < 256 \<Longrightarrow> 1 \<le> cls_of i \<and> cls_of i \<le> 45"
proof -
  have "list_all (\<lambda>i. 1 \<le> cls_of i \<and> cls_of i \<le> 45) [0..255]"
    by (simp add: cls_of_def ec_entries upto_rec1)
  then show "0 \<le> i \<Longrightarrow> i < 256 \<Longrightarrow> 1 \<le> cls_of i \<and> cls_of i \<le> 45" by (simp add: list_all_iff)
qed

lemma of_char_range: "0 \<le> (of_char b :: int)" "(of_char b :: int) < 256"
  by (cases b, simp)+

lemma cls_range [simp]: "1 \<le> cls b" "cls b \<le> 45"
  using cls_of_range [OF of_char_range] by (simp_all add: cls_def)

lemma state_cases:
  assumes "list_all P states" and "is_state s"
  shows "P s"
  using assms by (auto simp: list_all_iff is_state_iff)

lemma step_state:
  assumes "is_state s"
  shows "yy_trans s (cls b) = Some (delta s (cls b)) \<and>
    (delta s (cls b) = 78 \<or> is_state (delta s (cls b))) \<and>
    residual (delta s (cls b)) = map (nder in_class (cls b)) (residual s)"
proof -
  have "cls b \<in> set [1..45]" by simp
  with state_cases [OF states_step assms]
  have "case yy_trans s (cls b) of None \<Rightarrow> False
      | Some t \<Rightarrow> 4 \<le> t \<and> t \<le> 78 \<and> map (nder in_class (cls b)) (residual s) = residual t"
    unfolding list_all_iff by blast
  then obtain t where t: "yy_trans s (cls b) = Some t" "4 \<le> t" "t \<le> 78"
      "map (nder in_class (cls b)) (residual s) = residual t"
    by (auto split: option.splits)
  then show ?thesis by (auto simp: delta_def is_state_def)
qed

lemma step_78: "yy_trans 78 (cls b) = Some 78"
proof -
  have "list_all (\<lambda>c. yy_trans 78 c = Some 78) [1..45]"
    by (simp add: table_entries yy_trans_hit yy_trans_default yy_trans_meta upto_rec1)
  then show ?thesis by (simp add: list_all_iff)
qed

text \<open>The state after a word.\<close>

definition run :: "int \<Rightarrow> cstring \<Rightarrow> int" where
  "run s w = foldl (\<lambda>s b. delta s (cls b)) s w"

lemma run_simps [simp]:
  "run s [] = s" "run s (b # w) = run (delta s (cls b)) w" "run s (w @ v) = run (run s w) v"
  by (simp_all add: run_def)

lemma run_78 [simp]: "run 78 w = 78"
  by (induction w) (simp_all add: delta_def step_78)

lemma run_state:
  assumes "is_state s"
  shows "(run s w = 78 \<or> is_state (run s w)) \<and> residual (run s w) = nders in_class (map cls w) (residual s)"
  using assms
proof (induction w arbitrary: s)
  case (Cons b w)
  show ?case
  proof (cases "delta s (cls b) = 78")
    case True
    have z: "nders in_class v (residual 78) = residual 78" for v
      by (induction v) (simp_all add: residual_78)
    from step_state [OF Cons.prems, of b] True show ?thesis
      by (simp add: z del: of_char_of) (metis z)
  next
    case False
    with step_state [OF Cons.prems, of b] have "is_state (delta s (cls b))" by blast
    from Cons.IH [OF this] step_state [OF Cons.prems, of b] show ?thesis by simp
  qed
qed simp

lemma residual_1: "residual 1 = rules"
  by (simp add: residual_def access_def)

lemma accept_state: "is_state s \<Longrightarrow> at yy_accept s = Some (first_nullable 1 (residual s))"
  using states_accept by (simp add: list_all_iff is_state_iff)

lemma accept_78: "at yy_accept 78 = Some 0"
  by (simp add: table_entries)

text \<open>Bytes and classes.\<close>

lemma named_class: "c \<in> set named \<Longrightarrow> in_charset b (Sym c) = in_class (cls b) (Sym c)"
proof -
  assume c: "c \<in> set named"
  have "(of_char b :: int) \<in> set [0..255]" using of_char_range [of b] by simp
  with named_alone c have "(cls_of (of_char b) = cls_of (of_char c)) = ((of_char b :: int) = of_char c)"
    by (simp only: list_all_iff)
  then show ?thesis by (simp add: cls_def)
qed

lemma char_le_iff: "b \<le> (c :: char) \<longleftrightarrow> (of_char b :: int) \<le> of_char c"
proof -
  have "(of_char x :: int) = int (of_char x)" for x :: char by (cases x) simp
  then show ?thesis by (simp only: less_eq_char_def zle_int)
qed

lemma set_class:
  "a \<in> {Letter, Digit, Dot, Any} \<Longrightarrow> in_charset b a = in_class (cls b) a"
proof -
  assume a: "a \<in> {Letter, Digit, Dot, Any}"
  have "(of_char b :: int) \<in> set [0..255]" using of_char_range [of b] by simp
  with sets_agree have
    "(cls b = 19 \<or> cls b = 20 \<or> 24 \<le> cls b \<and> cls b \<le> 42) =
       (65 \<le> (of_char b :: int) \<and> (of_char b :: int) \<le> 90 \<or> 97 \<le> (of_char b :: int) \<and> (of_char b :: int) \<le> 122)"
    "(cls b = 14) = (48 \<le> (of_char b :: int) \<and> (of_char b :: int) \<le> 57)"
    "(cls b \<noteq> 2) = ((of_char b :: int) \<noteq> 10)"
    unfolding cls_def list_all_iff by blast+
  moreover have "in_charset b Letter =
      (65 \<le> (of_char b :: int) \<and> (of_char b :: int) \<le> 90 \<or> 97 \<le> (of_char b :: int) \<and> (of_char b :: int) \<le> 122)"
    "in_charset b Digit = (48 \<le> (of_char b :: int) \<and> (of_char b :: int) \<le> 57)"
    unfolding in_charset.simps char_le_iff by simp_all
  moreover have "in_charset b Dot = ((of_char b :: int) \<noteq> 10)"
  proof -
    have "b = CHR 0x0A \<longleftrightarrow> (of_char b :: int) = of_char (CHR 0x0A)" by (metis of_char_eq_iff)
    then show ?thesis by simp
  qed
  ultimately show ?thesis using a unfolding in_class.simps by (elim insertE) (simp_all only: in_class.simps in_charset.simps, simp)
qed

lemma rules_agree: "\<forall>r \<in> set rules. \<forall>a \<in> set_rexp r. \<forall>b. in_charset b a = in_class (cls b) a"
proof -
  have "\<forall>r \<in> set rules. set_rexp r \<subseteq> Sym ` set named \<union> {Letter, Digit, Dot, Any}"
    by (simp add: pattern_defs named_def)
  then show ?thesis using named_class set_class by blast
qed

text \<open>
  The accepting entry of the state after a word is the first rule that admits the word; if the
  automaton is stuck, no rule admits the word or a longer one.
\<close>

lemma accept_run: "at yy_accept (run 1 w) = Some (first_rule in_charset 1 rules w)"
proof -
  have "first_rule in_charset 1 rules w = first_rule in_class 1 rules (map cls w)"
    by (rule first_rule_map [where f = cls and mem = in_charset and mem' = in_class and rs = rules, OF rules_agree])
  also have "\<dots> = first_nullable 1 (residual (run 1 w))"
    using run_state [of 1 w] first_rule_nders [of in_class 1 rules "map cls w" "[]"]
    by (simp add: first_rule_Nil residual_1 is_state_def)
  finally have e: "first_rule in_charset 1 rules w = first_nullable 1 (residual (run 1 w))" .
  show ?thesis
  proof (cases "run 1 w = 78")
    case True
    then show ?thesis unfolding e by (simp add: accept_78 residual_78)
  next
    case False
    then have "is_state (run 1 w)" using run_state [of 1 w] by (simp add: is_state_def)
    then show ?thesis unfolding e by (rule accept_state)
  qed
qed

lemma jam_run: "run 1 w = 78 \<Longrightarrow> first_rule in_charset 1 rules (w @ v) = 0"
  using accept_run [of "w @ v"] by (simp add: accept_78)

end
