(* ===== verification/ScanState.thy ===== *)
theory ScanState
  imports ScanTables ArrayTable
begin

text \<open>
  The state of the generated scanner of \<open>Assig1/lex.yy.c\<close>: its static variables, the buffers and
  their characters, the files, and the globals of \<open>lexer.lex\<close>. A \<open>char *\<close> is a block with an
  offset. A step ends normally, or the scanner exits with a message (\<open>YY_FATAL_ERROR\<close>), or the
  behaviour is undefined. Sizes are natural numbers, with the wrap-around of \<open>yy_size_t\<close> where one is subtracted or
  doubled; offsets stay below \<open>2 ^ 31\<close>, so that the casts to \<open>int\<close> change nothing. \<open>malloc\<close>
  never fails and memory it returns holds zero bytes; the code writes a byte before it reads it.
\<close>

section \<open>Data\<close>

type_synonym cptr = "addr \<times> nat"

definition YY_BUF_SIZE :: nat where "YY_BUF_SIZE = 16384"

definition YY_READ_BUF_SIZE :: nat where "YY_READ_BUF_SIZE = 8192"

definition YY_END_OF_BUFFER :: int where "YY_END_OF_BUFFER = 11"

datatype buffer_status = YY_BUFFER_NEW | YY_BUFFER_NORMAL | YY_BUFFER_EOF_PENDING

record yy_buffer_state =
  yy_input_file :: ptr
  yy_ch_buf :: addr
  yy_buf_pos :: cptr
  yy_buf_size :: nat
  b_n_chars :: nat
  yy_is_our_buffer :: bool
  yy_is_interactive :: bool
  yy_at_bol :: bool
  yy_bs_lineno :: int
  yy_bs_column :: int
  yy_fill_buffer :: bool
  yy_buffer_status :: buffer_status

text \<open>
  A file: the characters still to be read, whether it is a terminal, the errors that the next
  reads meet (a list for each of them), and what was written to it.
\<close>

datatype read_error = EINTR | EIO

record yy_file =
  f_rest :: "char list"
  f_tty :: bool
  f_errors :: "read_error list list"
  f_out :: "char list"

text \<open>The globals of the first section of \<open>lexer.lex\<close>, with the tables of \<open>symboltable.c\<close>.\<close>

record user_globals =
  linenumber :: int
  tokens :: int
  comments :: int
  tabs :: tables

record scanner =
  blocks :: "addr \<rightharpoonup> char list"
  buffers :: "addr \<rightharpoonup> yy_buffer_state"
  yy_brk :: addr
  yy_files :: "addr \<rightharpoonup> yy_file"
  yy_buffer_stack :: "ptr list option"
  yy_buffer_stack_top :: nat
  yy_buffer_stack_max :: nat
  yy_hold_char :: char
  yy_n_chars :: nat
  yyleng :: nat
  yy_c_buf_p :: "cptr option"
  yy_init :: bool
  yy_start :: int
  yy_did_buffer_switch_on_eof :: bool
  yyin :: ptr
  yyout :: ptr
  yylineno :: int
  yy_flex_debug :: int
  yytext :: "cptr option"
  yy_last_accepting_state :: int
  yy_last_accepting_cpos :: "cptr option"
  usr :: user_globals

text \<open>The first two files are \<open>stdin\<close> and \<open>stdout\<close>.\<close>

definition stdin_file :: addr where "stdin_file = 0"

definition stdout_file :: addr where "stdout_file = 1"

section \<open>Steps\<close>

datatype 'a outcome = Done 'a scanner | Fatal cstring | Fail

type_synonym 'a scan = "scanner \<Rightarrow> 'a outcome"

definition give :: "'a \<Rightarrow> 'a scan" where
  "give x = (\<lambda>st. Done x st)"

definition bind_to :: "'a scan \<Rightarrow> ('a \<Rightarrow> 'b scan) \<Rightarrow> 'b scan" where
  "bind_to m k = (\<lambda>st. case m st of Done x st' \<Rightarrow> k x st' | Fatal e \<Rightarrow> Fatal e | Fail \<Rightarrow> Fail)"

definition after :: "unit scan \<Rightarrow> 'b scan \<Rightarrow> 'b scan" where
  "after m k = bind_to m (\<lambda>_. k)"

definition fail :: "'a scan" where
  "fail = (\<lambda>st. Fail)"

definition look :: "(scanner \<Rightarrow> 'a) \<Rightarrow> 'a scan" where
  "look f = (\<lambda>st. Done (f st) st)"

definition change :: "(scanner \<Rightarrow> scanner) \<Rightarrow> unit scan" where
  "change f = (\<lambda>st. Done () (f st))"

definition need :: "(scanner \<Rightarrow> 'a option) \<Rightarrow> 'a scan" where
  "need f = (\<lambda>st. case f st of None \<Rightarrow> Fail | Some x \<Rightarrow> Done x st)"

definition when_so :: "bool \<Rightarrow> unit scan \<Rightarrow> unit scan" where
  "when_so b m = (if b then m else give ())"

text \<open>\<open>yy_fatal_error\<close>.\<close>

definition yy_fatal_error :: "cstring \<Rightarrow> 'a scan" where
  "yy_fatal_error msg = (\<lambda>st. Fatal msg)"

lemmas step_defs = give_def bind_to_def after_def fail_def look_def change_def need_def when_so_def yy_fatal_error_def

section \<open>Characters and pointers\<close>

definition char_at :: "cptr \<Rightarrow> char scan" where
  "char_at p = need (\<lambda>st. case blocks st (fst p) of
     None \<Rightarrow> None | Some b \<Rightarrow> if snd p < length b then Some (b ! snd p) else None)"

definition put_char :: "cptr \<Rightarrow> char \<Rightarrow> unit scan" where
  "put_char p c = (\<lambda>st. case blocks st (fst p) of
     None \<Rightarrow> Fail
   | Some b \<Rightarrow> if snd p < length b then Done () (st\<lparr>blocks := (blocks st)(fst p \<mapsto> b[snd p := c])\<rparr>) else Fail)"

definition move :: "cptr \<Rightarrow> nat \<Rightarrow> cptr" where
  "move p n = (fst p, snd p + n)"

text \<open>The difference of two pointers into the same block, the first one not below the second.\<close>

definition diff :: "cptr \<Rightarrow> cptr \<Rightarrow> nat scan" where
  "diff p q = (if fst p = fst q \<and> snd q \<le> snd p then give (snd p - snd q) else fail)"

text \<open>Comparison of two pointers into the same block.\<close>

definition ptr_le :: "cptr \<Rightarrow> cptr \<Rightarrow> bool scan" where
  "ptr_le p q = (if fst p = fst q then give (snd p \<le> snd q) else fail)"

definition yyalloc :: "nat \<Rightarrow> addr scan" where
  "yyalloc n = (\<lambda>st. Done (yy_brk st) (st\<lparr>blocks := (blocks st)(yy_brk st \<mapsto> replicate n CHR 0x00), yy_brk := yy_brk st + 1\<rparr>))"

definition yyfree :: "addr \<Rightarrow> unit scan" where
  "yyfree a = (\<lambda>st. if blocks st a = None then Fail else Done () (st\<lparr>blocks := free_at a (blocks st)\<rparr>))"

text \<open>\<open>realloc\<close> moves the characters into a new block.\<close>

definition yyrealloc :: "addr \<Rightarrow> nat \<Rightarrow> addr scan" where
  "yyrealloc a n = (\<lambda>st. case blocks st a of
     None \<Rightarrow> Fail
   | Some b \<Rightarrow> Done (yy_brk st)
      (st\<lparr>blocks := (free_at a (blocks st))(yy_brk st \<mapsto> take n (b @ replicate n CHR 0x00)), yy_brk := yy_brk st + 1\<rparr>))"

text \<open>The C string that starts at a pointer.\<close>

definition cstring_at :: "cptr \<Rightarrow> cstring scan" where
  "cstring_at p = need (\<lambda>st. case blocks st (fst p) of
     None \<Rightarrow> None
   | Some b \<Rightarrow> if CHR 0x00 \<in> set (drop (snd p) b) then Some (takeWhile (\<lambda>c. c \<noteq> CHR 0x00) (drop (snd p) b)) else None)"

definition write_file :: "ptr \<Rightarrow> cstring \<Rightarrow> unit scan" where
  "write_file f s = (\<lambda>st. case f of
     None \<Rightarrow> Fail
   | Some a \<Rightarrow> case yy_files st a of
       None \<Rightarrow> Fail
     | Some y \<Rightarrow> Done () (st\<lparr>yy_files := (yy_files st)(a \<mapsto> y\<lparr>f_out := f_out y @ s\<rparr>)\<rparr>))"

end
