(* ===== verification/ScanBuffer.thy ===== *)
theory ScanBuffer
  imports ScanState
begin

text \<open>
  The buffers of the scanner: the stack of buffers, how buffers are made, flushed, switched and
  deleted, scanning from memory, and the accessors.
\<close>

section \<open>The current buffer\<close>

text \<open>\<open>YY_CURRENT_BUFFER\<close>, and an assignment to \<open>YY_CURRENT_BUFFER_LVALUE\<close>.\<close>

definition current_buffer :: "ptr scan" where
  "current_buffer = need (\<lambda>st. case yy_buffer_stack st of
     None \<Rightarrow> Some None
   | Some s \<Rightarrow> if yy_buffer_stack_top st < length s then Some (s ! yy_buffer_stack_top st) else None)"

definition set_current :: "ptr \<Rightarrow> unit scan" where
  "set_current p = (\<lambda>st. case yy_buffer_stack st of
     None \<Rightarrow> Fail
   | Some s \<Rightarrow> if yy_buffer_stack_top st < length s
       then Done () (st\<lparr>yy_buffer_stack := Some (s[yy_buffer_stack_top st := p])\<rparr>) else Fail)"

definition buffer_at :: "ptr \<Rightarrow> yy_buffer_state scan" where
  "buffer_at p = need (\<lambda>st. case p of None \<Rightarrow> None | Some a \<Rightarrow> buffers st a)"

definition set_buffer :: "ptr \<Rightarrow> (yy_buffer_state \<Rightarrow> yy_buffer_state) \<Rightarrow> unit scan" where
  "set_buffer p f = bind_to (buffer_at p) (\<lambda>b. change (\<lambda>st. st\<lparr>buffers := (buffers st)(the p \<mapsto> f b)\<rparr>))"

text \<open>A read and a change through \<open>YY_CURRENT_BUFFER_LVALUE->\<close>.\<close>

definition lvalue :: "yy_buffer_state scan" where
  "lvalue = bind_to current_buffer buffer_at"

definition set_lvalue :: "(yy_buffer_state \<Rightarrow> yy_buffer_state) \<Rightarrow> unit scan" where
  "set_lvalue f = bind_to current_buffer (\<lambda>p. set_buffer p f)"

text \<open>The static pointers, which must not be \<open>NULL\<close> where they are used.\<close>

definition c_buf_p :: "cptr scan" where
  "c_buf_p = need yy_c_buf_p"

definition text_ptr :: "cptr scan" where
  "text_ptr = need yytext"

text \<open>\<open>*(yy_c_buf_p) = (yy_hold_char)\<close>.\<close>

definition restore_hold :: "unit scan" where
  "restore_hold = bind_to c_buf_p (\<lambda>p. bind_to (look yy_hold_char) (\<lambda>c. put_char p c))"

section \<open>Operations on buffers\<close>

definition yy_load_buffer_state :: "unit scan" where
  "yy_load_buffer_state =
     bind_to lvalue (\<lambda>b.
     after (change (\<lambda>st. st\<lparr>yy_n_chars := b_n_chars b, yytext := Some (yy_buf_pos b),
                             yy_c_buf_p := Some (yy_buf_pos b), yyin := yy_input_file b\<rparr>))
    (bind_to (char_at (yy_buf_pos b)) (\<lambda>c.
     change (\<lambda>st. st\<lparr>yy_hold_char := c\<rparr>))))"

definition yy_flush_buffer :: "ptr \<Rightarrow> unit scan" where
  "yy_flush_buffer b =
     (if b = None then give ()
      else
        after (set_buffer b (\<lambda>x. x\<lparr>b_n_chars := 0\<rparr>))
       (bind_to (buffer_at b) (\<lambda>x.
        after (put_char (yy_ch_buf x, 0) CHR 0x00)
       (after (put_char (yy_ch_buf x, 1) CHR 0x00)
       (after (set_buffer b (\<lambda>x. x\<lparr>yy_buf_pos := (yy_ch_buf x, 0), yy_at_bol := True, yy_buffer_status := YY_BUFFER_NEW\<rparr>))
       (bind_to current_buffer (\<lambda>cur.
        when_so (b = cur) yy_load_buffer_state)))))))"

definition is_terminal :: "ptr \<Rightarrow> bool scan" where
  "is_terminal f = need (\<lambda>st. case f of None \<Rightarrow> Some False
     | Some a \<Rightarrow> (case yy_files st a of None \<Rightarrow> None | Some y \<Rightarrow> Some (f_tty y)))"

definition yy_init_buffer :: "ptr \<Rightarrow> ptr \<Rightarrow> unit scan" where
  "yy_init_buffer b file =
     after (yy_flush_buffer b)
    (after (set_buffer b (\<lambda>x. x\<lparr>yy_input_file := file, yy_fill_buffer := True\<rparr>))
    (bind_to current_buffer (\<lambda>cur.
     after (when_so (b \<noteq> cur) (set_buffer b (\<lambda>x. x\<lparr>yy_bs_lineno := 1, yy_bs_column := 0\<rparr>)))
    (bind_to (is_terminal file) (\<lambda>i.
     set_buffer b (\<lambda>x. x\<lparr>yy_is_interactive := i\<rparr>))))))"

text \<open>A new \<open>struct yy_buffer_state\<close>; \<open>a\<close> is its block of characters.\<close>

definition new_buffer :: "addr \<Rightarrow> nat \<Rightarrow> addr scan" where
  "new_buffer a n = (\<lambda>st. Done (yy_brk st)
     (st\<lparr>buffers := (buffers st)(yy_brk st \<mapsto>
          \<lparr>yy_input_file = None, yy_ch_buf = a, yy_buf_pos = (a, 0), yy_buf_size = n, b_n_chars = 0,
           yy_is_our_buffer = False, yy_is_interactive = False, yy_at_bol = False, yy_bs_lineno = 0,
           yy_bs_column = 0, yy_fill_buffer = False, yy_buffer_status = YY_BUFFER_NEW\<rparr>),
         yy_brk := yy_brk st + 1\<rparr>))"

definition yy_create_buffer :: "ptr \<Rightarrow> nat \<Rightarrow> addr scan" where
  "yy_create_buffer file n =
     bind_to (yyalloc (n + 2)) (\<lambda>a.
     bind_to (new_buffer a n) (\<lambda>b.
     after (set_buffer (Some b) (\<lambda>x. x\<lparr>yy_is_our_buffer := True\<rparr>))
    (after (yy_init_buffer (Some b) file)
    (give b))))"

definition free_buffer :: "addr \<Rightarrow> unit scan" where
  "free_buffer a = (\<lambda>st. if buffers st a = None then Fail else Done () (st\<lparr>buffers := free_at a (buffers st)\<rparr>))"

definition yy_delete_buffer :: "ptr \<Rightarrow> unit scan" where
  "yy_delete_buffer b =
     (case b of
        None \<Rightarrow> give ()
      | Some a \<Rightarrow>
          bind_to current_buffer (\<lambda>cur.
          after (when_so (b = cur) (set_current None))
         (bind_to (buffer_at b) (\<lambda>x.
          after (when_so (yy_is_our_buffer x) (yyfree (yy_ch_buf x)))
         (free_buffer a)))))"

text \<open>The first stack has one element; a full one grows by eight.\<close>

definition yyensure_buffer_stack :: "unit scan" where
  "yyensure_buffer_stack = (\<lambda>st.
     case yy_buffer_stack st of
       None \<Rightarrow> Done () (st\<lparr>yy_buffer_stack := Some [None], yy_buffer_stack_max := 1, yy_buffer_stack_top := 0\<rparr>)
     | Some s \<Rightarrow>
         if int (yy_buffer_stack_top st) \<ge> (int (yy_buffer_stack_max st) - 1) mod 2 ^ 64
         then Done () (st\<lparr>yy_buffer_stack := Some (s @ replicate 8 None), yy_buffer_stack_max := yy_buffer_stack_max st + 8\<rparr>)
         else Done () st)"

text \<open>The current buffer, if there is one, keeps its place.\<close>

definition save_current :: "unit scan" where
  "save_current =
     bind_to current_buffer (\<lambda>cur.
     when_so (cur \<noteq> None)
      (after restore_hold
      (bind_to c_buf_p (\<lambda>p.
       bind_to (look yy_n_chars) (\<lambda>n.
       set_lvalue (\<lambda>x. x\<lparr>yy_buf_pos := p, b_n_chars := n\<rparr>))))))"

definition yy_switch_to_buffer :: "ptr \<Rightarrow> unit scan" where
  "yy_switch_to_buffer b =
     after yyensure_buffer_stack
    (bind_to current_buffer (\<lambda>cur.
     if cur = b then give ()
     else
       after save_current
      (after (set_current b)
      (after yy_load_buffer_state
      (change (\<lambda>st. st\<lparr>yy_did_buffer_switch_on_eof := True\<rparr>))))))"

definition create_if_none :: "unit scan" where
  "create_if_none =
     bind_to current_buffer (\<lambda>cur.
     when_so (cur = None)
      (after yyensure_buffer_stack
      (bind_to (look yyin) (\<lambda>f.
       bind_to (yy_create_buffer f YY_BUF_SIZE) (\<lambda>b.
       set_current (Some b))))))"

definition yyrestart :: "ptr \<Rightarrow> unit scan" where
  "yyrestart file =
     after create_if_none
    (bind_to current_buffer (\<lambda>cur.
     after (yy_init_buffer cur file)
     yy_load_buffer_state))"

definition yypush_buffer_state :: "ptr \<Rightarrow> unit scan" where
  "yypush_buffer_state b =
     (if b = None then give ()
      else
        after yyensure_buffer_stack
       (after save_current
       (bind_to current_buffer (\<lambda>cur.
        after (when_so (cur \<noteq> None) (change (\<lambda>st. st\<lparr>yy_buffer_stack_top := yy_buffer_stack_top st + 1\<rparr>)))
       (after (set_current b)
       (after yy_load_buffer_state
       (change (\<lambda>st. st\<lparr>yy_did_buffer_switch_on_eof := True\<rparr>))))))))"

definition yypop_buffer_state :: "unit scan" where
  "yypop_buffer_state =
     bind_to current_buffer (\<lambda>cur.
     if cur = None then give ()
     else
       after (yy_delete_buffer cur)
      (after (set_current None)
      (after (change (\<lambda>st. st\<lparr>yy_buffer_stack_top := yy_buffer_stack_top st - 1\<rparr>))
      (bind_to current_buffer (\<lambda>cur.
       when_so (cur \<noteq> None)
        (after yy_load_buffer_state
        (change (\<lambda>st. st\<lparr>yy_did_buffer_switch_on_eof := True\<rparr>))))))))"

section \<open>Scanning from memory\<close>

text \<open>The characters start at the beginning of a block. The result is the new buffer, or \<open>NULL\<close>.\<close>

definition yy_scan_buffer :: "addr \<Rightarrow> nat \<Rightarrow> ptr scan" where
  "yy_scan_buffer base n =
     (if n < 2 then give None
      else
        bind_to (char_at (base, n - 2)) (\<lambda>c.
        if c \<noteq> CHR 0x00 then give None
        else
        bind_to (char_at (base, n - 1)) (\<lambda>c.
        if c \<noteq> CHR 0x00 then give None
        else
        bind_to (new_buffer base (n - 2)) (\<lambda>b.
        after (set_buffer (Some b) (\<lambda>x. x\<lparr>yy_buf_pos := (base, 0), yy_is_our_buffer := False,
                  yy_input_file := None, b_n_chars := yy_buf_size x, yy_is_interactive := False,
                  yy_at_bol := True, yy_fill_buffer := False, yy_buffer_status := YY_BUFFER_NEW\<rparr>))
       (after (yy_switch_to_buffer (Some b))
       (give (Some b)))))))"

text \<open>The loop that copies the bytes from index \<open>i\<close> on.\<close>

primrec copy_bytes :: "addr \<Rightarrow> nat \<Rightarrow> cstring \<Rightarrow> unit scan" where
  "copy_bytes a i [] = give ()"
| "copy_bytes a i (c # cs) = after (put_char (a, i) c) (copy_bytes a (i + 1) cs)"

definition yy_scan_bytes :: "cstring \<Rightarrow> nat \<Rightarrow> ptr scan" where
  "yy_scan_bytes bytes len =
     (if length bytes < len then fail
      else
        bind_to (yyalloc (len + 2)) (\<lambda>buf.
        after (copy_bytes buf 0 (take len bytes))
       (after (put_char (buf, len + 1) CHR 0x00)
       (after (put_char (buf, len) CHR 0x00)
       (bind_to (yy_scan_buffer buf (len + 2)) (\<lambda>b.
        if b = None then yy_fatal_error ''bad buffer in yy_scan_bytes()''
        else
        after (set_buffer b (\<lambda>x. x\<lparr>yy_is_our_buffer := True\<rparr>))
       (give b)))))))"

definition yy_scan_string :: "cstring \<Rightarrow> ptr scan" where
  "yy_scan_string s = yy_scan_bytes s (length s)"

section \<open>Accessors and the end\<close>

definition yyget_lineno :: "int scan" where "yyget_lineno = look yylineno"

definition yyget_in :: "ptr scan" where "yyget_in = look yyin"

definition yyget_out :: "ptr scan" where "yyget_out = look yyout"

definition yyget_leng :: "nat scan" where "yyget_leng = look yyleng"

definition yyget_text :: "cptr option scan" where "yyget_text = look yytext"

definition yyset_lineno :: "int \<Rightarrow> unit scan" where "yyset_lineno n = change (\<lambda>st. st\<lparr>yylineno := n\<rparr>)"

definition yyset_in :: "ptr \<Rightarrow> unit scan" where "yyset_in f = change (\<lambda>st. st\<lparr>yyin := f\<rparr>)"

definition yyset_out :: "ptr \<Rightarrow> unit scan" where "yyset_out f = change (\<lambda>st. st\<lparr>yyout := f\<rparr>)"

definition yyget_debug :: "int scan" where "yyget_debug = look yy_flex_debug"

definition yyset_debug :: "int \<Rightarrow> unit scan" where "yyset_debug b = change (\<lambda>st. st\<lparr>yy_flex_debug := b\<rparr>)"

definition yy_init_globals :: "unit scan" where
  "yy_init_globals =
     change (\<lambda>st. st\<lparr>yy_buffer_stack := None, yy_buffer_stack_top := 0, yy_buffer_stack_max := 0,
       yy_c_buf_p := None, yy_init := False, yy_start := 0, yyin := None, yyout := None\<rparr>)"

text \<open>The loop that deletes the buffers, and the deletion of the stack.\<close>

partial_function (option) destroy_loop :: "scanner \<Rightarrow> unit outcome option" where
  "destroy_loop st =
     (case current_buffer st of
        Done cur st \<Rightarrow>
          if cur = None then Some (Done () st)
          else
            (case after (yy_delete_buffer cur) (after (set_current None) yypop_buffer_state) st of
               Done u st \<Rightarrow> destroy_loop st
             | r \<Rightarrow> Some r)
      | Fatal e \<Rightarrow> Some (Fatal e)
      | Fail \<Rightarrow> Some Fail)"

declare destroy_loop.simps [code]

definition yylex_destroy :: "unit scan" where
  "yylex_destroy =
     after (\<lambda>st. case destroy_loop st of None \<Rightarrow> Fail | Some r \<Rightarrow> r)
    (after (change (\<lambda>st. st\<lparr>yy_buffer_stack := None\<rparr>))
     yy_init_globals)"

end
