(* ===== verification/ScanInput.thy ===== *)
theory ScanInput
  imports ScanBuffer
begin

text \<open>
  How characters reach the scanner: \<open>YY_INPUT\<close>, the refill of a buffer, \<open>yyunput\<close> and \<open>input\<close>. The
  macro \<open>yywrap\<close> is 1, so there is never a next file.
\<close>

section \<open>Reading a file\<close>

text \<open>\<open>fread\<close>: an interrupted read is repeated, another error is fatal. The errors of one read are consumed.\<close>

primrec fread_fails :: "read_error list \<Rightarrow> bool" where
  "fread_fails [] = False"
| "fread_fails (e # es) = (case e of EINTR \<Rightarrow> fread_fails es | EIO \<Rightarrow> True)"

text \<open>The loop over \<open>getc\<close>: the characters it stores, and whether it met the end of the file.\<close>

fun getc_loop :: "nat \<Rightarrow> char list \<Rightarrow> char list \<times> bool" where
  "getc_loop 0 r = ([], False)"
| "getc_loop (Suc m) [] = ([], True)"
| "getc_loop (Suc m) (c # r) =
     (if c = CHR 0x0A then ([c], False) else let (l, e) = getc_loop m r in (c # l, e))"

definition read_failed :: "'a scan" where
  "read_failed = yy_fatal_error ''input in flex scanner failed''"

definition set_file :: "addr \<Rightarrow> char list \<Rightarrow> yy_file \<Rightarrow> unit scan" where
  "set_file a r y = change (\<lambda>st. st\<lparr>yy_files := (yy_files st)(a \<mapsto> y\<lparr>f_rest := r, f_errors := tl (f_errors y)\<rparr>)\<rparr>)"

text \<open>\<open>YY_INPUT\<close>: the characters go to \<open>p\<close>, their number is the result.\<close>

definition YY_INPUT :: "cptr \<Rightarrow> nat \<Rightarrow> nat scan" where
  "YY_INPUT p max_size =
     bind_to (need yyin) (\<lambda>a.
     bind_to (need (\<lambda>st. yy_files st a)) (\<lambda>y.
     bind_to lvalue (\<lambda>b.
     let errs = (case f_errors y of [] \<Rightarrow> [] | es # _ \<Rightarrow> es);
         (cs, eof) = (if yy_is_interactive b then getc_loop max_size (f_rest y) else (take max_size (f_rest y), False))
     in
     if yy_is_interactive b \<and> eof \<and> errs \<noteq> [] \<or> \<not> yy_is_interactive b \<and> fread_fails errs then read_failed
     else
       after (copy_bytes (fst p) (snd p) cs)
      (after (set_file a (drop (length cs) (f_rest y)) y)
      (give (length cs))))))"

section \<open>Refilling the buffer\<close>

datatype eob_act = EOB_ACT_CONTINUE_SCAN | EOB_ACT_END_OF_FILE | EOB_ACT_LAST_MATCH

text \<open>Copying \<open>n\<close> characters to the start of the buffer, one after the other.\<close>

primrec move_chars :: "cptr \<Rightarrow> cptr \<Rightarrow> nat \<Rightarrow> unit scan" where
  "move_chars dest source 0 = give ()"
| "move_chars dest source (Suc n) =
     bind_to (char_at source) (\<lambda>c. after (put_char dest c) (move_chars (move dest 1) (move source 1) n))"

definition room :: "yy_buffer_state \<Rightarrow> nat \<Rightarrow> nat" where
  "room b moved = nat ((int (yy_buf_size b) - int moved - 1) mod 2 ^ 64)"

text \<open>The loop that grows the buffer until there is room for a character.\<close>

definition grow_once :: "unit scan" where
  "grow_once =
     bind_to lvalue (\<lambda>b.
     bind_to c_buf_p (\<lambda>p.
     bind_to (diff p (yy_ch_buf b, 0)) (\<lambda>offset.
     if yy_is_our_buffer b then
       let new_size = yy_buf_size b * 2 mod 2 ^ 64;
           n = (if new_size = 0 then yy_buf_size b + yy_buf_size b div 8 else new_size)
       in
       after (set_lvalue (\<lambda>x. x\<lparr>yy_buf_size := n\<rparr>))
      (bind_to (yyrealloc (yy_ch_buf b) (n + 2)) (\<lambda>a.
       after (set_lvalue (\<lambda>x. x\<lparr>yy_ch_buf := a\<rparr>))
      (change (\<lambda>st. st\<lparr>yy_c_buf_p := Some (a, offset)\<rparr>))))
     else yy_fatal_error ''fatal error - scanner input buffer overflow'')))"

partial_function (option) grow_loop :: "nat \<Rightarrow> scanner \<Rightarrow> nat outcome option" where
  "grow_loop moved st =
     (case lvalue st of
        Done b st \<Rightarrow>
          if room b moved = 0 then
            (case grow_once st of Done u st \<Rightarrow> grow_loop moved st | Fatal e \<Rightarrow> Some (Fatal e) | Fail \<Rightarrow> Some Fail)
          else Some (Done (room b moved) st)
      | Fatal e \<Rightarrow> Some (Fatal e)
      | Fail \<Rightarrow> Some Fail)"

declare grow_loop.simps [code]

definition run_loop :: "(scanner \<Rightarrow> 'a outcome option) \<Rightarrow> 'a scan" where
  "run_loop f = (\<lambda>st. case f st of None \<Rightarrow> Fail | Some r \<Rightarrow> r)"

text \<open>Reading more characters behind those that were moved.\<close>

definition read_more :: "nat \<Rightarrow> unit scan" where
  "read_more moved =
     bind_to lvalue (\<lambda>b.
     if yy_buffer_status b = YY_BUFFER_EOF_PENDING then
       after (set_lvalue (\<lambda>x. x\<lparr>b_n_chars := 0\<rparr>)) (change (\<lambda>st. st\<lparr>yy_n_chars := 0\<rparr>))
     else
       bind_to (run_loop (grow_loop moved)) (\<lambda>room.
       bind_to lvalue (\<lambda>b.
       bind_to (YY_INPUT (yy_ch_buf b, moved) (min room YY_READ_BUF_SIZE)) (\<lambda>n.
       after (change (\<lambda>st. st\<lparr>yy_n_chars := n\<rparr>))
      (set_lvalue (\<lambda>x. x\<lparr>b_n_chars := n\<rparr>))))))"

text \<open>What the number of characters read means.\<close>

definition eob_result :: "nat \<Rightarrow> eob_act scan" where
  "eob_result moved =
     bind_to (look yy_n_chars) (\<lambda>n.
     if n = 0 then
       (if moved = 0 then
          bind_to (look yyin) (\<lambda>f. after (yyrestart f) (give EOB_ACT_END_OF_FILE))
        else
          after (set_lvalue (\<lambda>x. x\<lparr>yy_buffer_status := YY_BUFFER_EOF_PENDING\<rparr>)) (give EOB_ACT_LAST_MATCH))
     else give EOB_ACT_CONTINUE_SCAN)"

text \<open>The array grows if it is too short for what was read; then two end-of-buffer characters follow.\<close>

definition extend_array :: "nat \<Rightarrow> unit scan" where
  "extend_array moved =
     bind_to lvalue (\<lambda>b.
     bind_to (look yy_n_chars) (\<lambda>n.
     when_so (n + moved > yy_buf_size b)
      (bind_to (yyrealloc (yy_ch_buf b) (n + moved + n div 2)) (\<lambda>a.
       set_lvalue (\<lambda>x. x\<lparr>yy_ch_buf := a\<rparr>)))))"

definition finish_refill :: "nat \<Rightarrow> unit scan" where
  "finish_refill moved =
     after (extend_array moved)
    (after (change (\<lambda>st. st\<lparr>yy_n_chars := yy_n_chars st + moved\<rparr>))
    (bind_to (look yy_n_chars) (\<lambda>n.
     bind_to lvalue (\<lambda>b.
     after (put_char (yy_ch_buf b, n) CHR 0x00)
    (after (put_char (yy_ch_buf b, n + 1) CHR 0x00)
    (change (\<lambda>st. st\<lparr>yytext := Some (yy_ch_buf b, 0)\<rparr>)))))))"

text \<open>The callers have stepped over the first end-of-buffer character, so there is one to leave behind.\<close>

definition yy_get_next_buffer :: "eob_act scan" where
  "yy_get_next_buffer =
     bind_to lvalue (\<lambda>b.
     bind_to text_ptr (\<lambda>t.
     bind_to c_buf_p (\<lambda>p.
     bind_to (look yy_n_chars) (\<lambda>n.
     bind_to (ptr_le p (yy_ch_buf b, n + 1)) (\<lambda>inside.
     if \<not> inside then yy_fatal_error ''fatal flex scanner internal error--end of buffer missed''
     else
     bind_to (diff p t) (\<lambda>d.
     if \<not> yy_fill_buffer b then give (if d = 1 then EOB_ACT_END_OF_FILE else EOB_ACT_LAST_MATCH)
     else if d = 0 then fail
     else
       after (move_chars (yy_ch_buf b, 0) t (d - 1))
      (after (read_more (d - 1))
      (bind_to (eob_result (d - 1)) (\<lambda>r.
       after (finish_refill (d - 1)) (give r))))))))))"

section \<open>Single characters\<close>

text \<open>The loop that shifts the buffer up: \<open>n\<close> characters, from the last one.\<close>

primrec shift_up :: "addr \<Rightarrow> nat \<Rightarrow> nat \<Rightarrow> unit scan" where
  "shift_up a dest 0 = give ()"
| "shift_up a dest (Suc n) =
     bind_to (char_at (a, n)) (\<lambda>c. after (put_char (a, dest - 1) c) (shift_up a (dest - 1) n))"

definition put_back :: "char \<Rightarrow> cptr \<Rightarrow> cptr \<Rightarrow> unit scan" where
  "put_back c cp bp =
     (if snd cp = 0 then fail
      else
        after (put_char (fst cp, snd cp - 1) c)
       (change (\<lambda>st. st\<lparr>yytext := Some bp, yy_hold_char := c, yy_c_buf_p := Some (fst cp, snd cp - 1)\<rparr>)))"

definition yyunput :: "char \<Rightarrow> cptr \<Rightarrow> unit scan" where
  "yyunput c bp =
     bind_to c_buf_p (\<lambda>cp.
     after restore_hold
    (bind_to lvalue (\<lambda>b.
     bind_to (ptr_le (yy_ch_buf b, 2) cp) (\<lambda>enough.
     if enough then put_back c cp bp
     else
       bind_to (look yy_n_chars) (\<lambda>n.
       let up = yy_buf_size b - n in
       if yy_buf_size b < n then fail
       else
       after (shift_up (yy_ch_buf b) (yy_buf_size b + 2) (n + 2))
      (after (set_lvalue (\<lambda>x. x\<lparr>b_n_chars := yy_buf_size x\<rparr>))
      (after (change (\<lambda>st. st\<lparr>yy_n_chars := yy_buf_size b\<rparr>))
      (if snd cp + up < 2 then yy_fatal_error ''flex scanner push-back overflow''
       else put_back c (move cp up) (move bp up)))))))))"

text \<open>The character that \<open>input\<close> returns; \<open>yytext\<close> keeps a zero byte at its end.\<close>

definition take_char :: "int scan" where
  "take_char =
     bind_to c_buf_p (\<lambda>p.
     bind_to (char_at p) (\<lambda>c.
     after (put_char p CHR 0x00)
    (after (change (\<lambda>st. st\<lparr>yy_c_buf_p := Some (move p 1)\<rparr>))
    (bind_to (char_at (move p 1)) (\<lambda>h.
     after (change (\<lambda>st. st\<lparr>yy_hold_char := h\<rparr>))
    (give (of_char c)))))))"

definition input_more :: "int scan" where
  "input_more =
     bind_to c_buf_p (\<lambda>p.
     bind_to text_ptr (\<lambda>t.
     bind_to (diff p t) (\<lambda>offset.
     after (change (\<lambda>st. st\<lparr>yy_c_buf_p := Some (move p 1)\<rparr>))
    (bind_to yy_get_next_buffer (\<lambda>r.
     case r of
       EOB_ACT_LAST_MATCH \<Rightarrow> bind_to (look yyin) (\<lambda>f. after (yyrestart f) (give 0))
     | EOB_ACT_END_OF_FILE \<Rightarrow> give 0
     | EOB_ACT_CONTINUE_SCAN \<Rightarrow>
         bind_to text_ptr (\<lambda>t.
         after (change (\<lambda>st. st\<lparr>yy_c_buf_p := Some (move t offset)\<rparr>))
         take_char))))))"

definition yy_input :: "int scan" where
  "yy_input =
     after restore_hold
    (bind_to c_buf_p (\<lambda>p.
     bind_to (char_at p) (\<lambda>c.
     if c \<noteq> CHR 0x00 then take_char
     else
       bind_to lvalue (\<lambda>b.
       bind_to (look yy_n_chars) (\<lambda>n.
       if fst p \<noteq> yy_ch_buf b then fail
       else if snd p < n then after (put_char p CHR 0x00) take_char
       else input_more)))))"

end
