(* ===== verification/ScanLex.thy ===== *)
theory ScanLex
  imports ScanInput
begin

text \<open>
  The scanner function \<open>yylex\<close> and \<open>main\<close>. The labels of \<open>yylex\<close> are the constructors of \<open>yy_label\<close>,
  with the values of its local variables; a step of the model runs from a label to the next one.
\<close>

section \<open>States before the end of the buffer\<close>

text \<open>The last accepting state is noted before a transition.\<close>

definition note_accept :: "int \<Rightarrow> cptr \<Rightarrow> unit scan" where
  "note_accept s cp =
     bind_to (need (\<lambda>_. at yy_accept s)) (\<lambda>a.
     when_so (a \<noteq> 0) (change (\<lambda>st. st\<lparr>yy_last_accepting_state := s, yy_last_accepting_cpos := Some cp\<rparr>)))"

text \<open>The loop of \<open>yy_get_previous_state\<close> over \<open>n\<close> characters.\<close>

primrec previous_loop :: "nat \<Rightarrow> cptr \<Rightarrow> int \<Rightarrow> int scan" where
  "previous_loop 0 cp s = give s"
| "previous_loop (Suc n) cp s =
     bind_to (char_at cp) (\<lambda>b.
     bind_to (need (\<lambda>_. if b \<noteq> CHR 0x00 then at yy_ec (of_char b) else Some 1)) (\<lambda>c.
     after (note_accept s cp)
    (bind_to (need (\<lambda>_. yy_trans s c)) (\<lambda>s. previous_loop n (move cp 1) s))))"

definition yy_get_previous_state :: "int scan" where
  "yy_get_previous_state =
     bind_to (look yy_start) (\<lambda>s.
     bind_to text_ptr (\<lambda>t.
     bind_to c_buf_p (\<lambda>p.
     bind_to (diff p t) (\<lambda>n. previous_loop n t s))))"

definition yy_try_NUL_trans :: "int \<Rightarrow> int scan" where
  "yy_try_NUL_trans s =
     bind_to c_buf_p (\<lambda>cp.
     after (note_accept s cp)
    (bind_to (need (\<lambda>_. yy_trans s 1)) (\<lambda>s.
     give (if s = 78 then 0 else s))))"

section \<open>Matching\<close>

record locals =
  yy_cp :: cptr
  yy_bp :: cptr
  yy_current_state :: int
  yy_act :: int

datatype yy_label = Token | Match locals | Find_action locals | Do_action locals | Return int

text \<open>The beginning of a token.\<close>

definition token_start :: "yy_label scan" where
  "token_start =
     bind_to c_buf_p (\<lambda>cp.
     after restore_hold
    (bind_to (look yy_start) (\<lambda>s.
     give (Match \<lparr>yy_cp = cp, yy_bp = cp, yy_current_state = s, yy_act = 0\<rparr>))))"

text \<open>One round of the loop at \<open>yy_match\<close>.\<close>

definition match_char :: "locals \<Rightarrow> yy_label scan" where
  "match_char l =
     bind_to (char_at (yy_cp l)) (\<lambda>b.
     bind_to (need (\<lambda>_. at yy_ec (of_char b))) (\<lambda>c.
     after (note_accept (yy_current_state l) (yy_cp l))
    (bind_to (need (\<lambda>_. yy_trans (yy_current_state l) c)) (\<lambda>s.
     bind_to (need (\<lambda>_. at yy_base s)) (\<lambda>base.
     let l = l\<lparr>yy_cp := move (yy_cp l) 1, yy_current_state := s\<rparr>
     in give (if base \<noteq> 127 then Match l else Find_action l))))))"

text \<open>\<open>YY_DO_BEFORE_ACTION\<close>.\<close>

definition before_action :: "locals \<Rightarrow> unit scan" where
  "before_action l =
     bind_to (diff (yy_cp l) (yy_bp l)) (\<lambda>n.
     bind_to (char_at (yy_cp l)) (\<lambda>c.
     after (change (\<lambda>st. st\<lparr>yytext := Some (yy_bp l), yyleng := n, yy_hold_char := c\<rparr>))
    (after (put_char (yy_cp l) CHR 0x00)
    (change (\<lambda>st. st\<lparr>yy_c_buf_p := Some (yy_cp l)\<rparr>)))))"

text \<open>The last accepting state, to back up to.\<close>

definition back_up :: "locals \<Rightarrow> locals scan" where
  "back_up l =
     bind_to (need yy_last_accepting_cpos) (\<lambda>cp.
     bind_to (look yy_last_accepting_state) (\<lambda>s.
     give (l\<lparr>yy_cp := cp, yy_current_state := s\<rparr>)))"

definition find_action :: "locals \<Rightarrow> yy_label scan" where
  "find_action l =
     bind_to (need (\<lambda>_. at yy_accept (yy_current_state l))) (\<lambda>act.
     bind_to (if act = 0 then back_up l else give l) (\<lambda>l.
     bind_to (need (\<lambda>_. at yy_accept (yy_current_state l))) (\<lambda>act.
     after (before_action l) (give (Do_action (l\<lparr>yy_act := act\<rparr>))))))"

section \<open>Comments\<close>

text \<open>
  The action of the comment rule: the array \<open>this_comment\<close> and its index. The loops eat text up to a star, and
  stars. \<open>c\<close> is a \<open>char\<close>, so that the byte 255 is taken for \<open>EOF\<close>, and the 0 that \<open>input\<close> returns at the
  end of the file is not.
\<close>

datatype comment_phase = Eat | Stars

definition char_EOF :: char where "char_EOF = char_of (255 :: nat)"

definition store :: "char list \<times> nat \<Rightarrow> char \<Rightarrow> (char list \<times> nat) option" where
  "store a c = (if snd a < length (fst a) then Some ((fst a)[snd a := c], snd a + 1) else None)"

definition user :: "(user_globals \<Rightarrow> user_globals) \<Rightarrow> unit scan" where
  "user f = change (\<lambda>st. st\<lparr>usr := f (usr st)\<rparr>)"

partial_function (option) comment_loop ::
  "comment_phase \<Rightarrow> char list \<times> nat \<Rightarrow> scanner \<Rightarrow> (char list \<times> nat) outcome option" where
  "comment_loop ph a st =
     (case yy_input st of
        Fatal e \<Rightarrow> Some (Fatal e)
      | Fail \<Rightarrow> Some Fail
      | Done i st \<Rightarrow>
          let c = char_of i :: char in
          if ph = Eat \<and> c = char_EOF then Some (after (write_file (Some stdout_file) ''Error: EOF in comment'') (give a) st)
          else
            (case store a c of
               None \<Rightarrow> Some Fail
             | Some a \<Rightarrow>
                 if ph = Eat then
                   (if c = CHR ''*'' then comment_loop Stars a st
                    else comment_loop Eat a
                      (if c = CHR 0x0A then st\<lparr>usr := (usr st)\<lparr>linenumber := linenumber (usr st) + 1\<rparr>\<rparr> else st))
                 else if c = CHR ''*'' then comment_loop Stars a st
                 else if c = CHR ''/'' then Some (Done a st)
                 else if c = char_EOF then Some (after (write_file (Some stdout_file) ''Error: EOF in comment'') (give a) st)
                 else comment_loop Eat a st))"

declare comment_loop.simps [code]

text \<open>The C string in an array that may not be terminated.\<close>

definition array_string :: "char list \<Rightarrow> cstring option" where
  "array_string b = (if CHR 0x00 \<in> set b then Some (takeWhile (\<lambda>c. c \<noteq> CHR 0x00) b) else None)"

definition comment_action :: "unit scan" where
  "comment_action =
     after (user (\<lambda>u. u\<lparr>comments := comments u + 1, tokens := tokens u + 1\<rparr>))
    (bind_to (run_loop (comment_loop Eat ((replicate MAX_COMMENT_SIZE CHR 0x00)[0 := CHR ''/'', 1 := CHR ''*''], 2))) (\<lambda>a.
     bind_to (need (\<lambda>st. array_string (fst a))) (\<lambda>s.
     bind_to (need (\<lambda>st. insert_comment s (tabs (usr st)))) (\<lambda>t.
     user (\<lambda>u. u\<lparr>tabs := t\<rparr>)))))"

section \<open>Actions\<close>

definition count_token :: "unit scan" where
  "count_token = user (\<lambda>u. u\<lparr>tokens := tokens u + 1\<rparr>)"

definition id_action :: "unit scan" where
  "id_action =
     after count_token
    (bind_to text_ptr (\<lambda>p.
     bind_to (cstring_at p) (\<lambda>s.
     bind_to (need (\<lambda>st. insert_arr_id s (tabs (usr st)))) (\<lambda>t.
     user (\<lambda>u. u\<lparr>tabs := sort_symtab t\<rparr>)))))"

text \<open>\<open>ECHO\<close> writes \<open>yyleng\<close> characters.\<close>

definition ECHO :: "unit scan" where
  "ECHO =
     bind_to text_ptr (\<lambda>p.
     bind_to (look yyleng) (\<lambda>n.
     bind_to (need (\<lambda>st. case blocks st (fst p) of
         None \<Rightarrow> None
       | Some b \<Rightarrow> if snd p + n \<le> length b then Some (take n (drop (snd p) b)) else None)) (\<lambda>s.
     bind_to (look yyout) (\<lambda>f. write_file f s))))"

text \<open>The end of the buffer: a zero byte of the input, or a refill.\<close>

definition nul_action :: "locals \<Rightarrow> cptr \<Rightarrow> nat \<Rightarrow> yy_label scan" where
  "nul_action l t matched =
     after (change (\<lambda>st. st\<lparr>yy_c_buf_p := Some (move t matched)\<rparr>))
    (bind_to yy_get_previous_state (\<lambda>s.
     bind_to (yy_try_NUL_trans s) (\<lambda>s'.
     let p = move t matched in
     if s' \<noteq> 0 then
       after (change (\<lambda>st. st\<lparr>yy_c_buf_p := Some (move p 1)\<rparr>))
       (give (Match (l\<lparr>yy_cp := move p 1, yy_bp := t, yy_current_state := s'\<rparr>)))
     else
       give (Find_action (l\<lparr>yy_cp := p, yy_bp := t, yy_current_state := s\<rparr>)))))"

definition continue_scan :: "locals \<Rightarrow> nat \<Rightarrow> yy_label scan" where
  "continue_scan l matched =
     bind_to text_ptr (\<lambda>t.
     after (change (\<lambda>st. st\<lparr>yy_c_buf_p := Some (move t matched)\<rparr>))
    (bind_to yy_get_previous_state (\<lambda>s.
     give (Match (l\<lparr>yy_cp := move t matched, yy_bp := t, yy_current_state := s\<rparr>)))))"

definition last_match :: "locals \<Rightarrow> yy_label scan" where
  "last_match l =
     bind_to lvalue (\<lambda>b.
     bind_to (look yy_n_chars) (\<lambda>n.
     after (change (\<lambda>st. st\<lparr>yy_c_buf_p := Some (yy_ch_buf b, n)\<rparr>))
    (bind_to yy_get_previous_state (\<lambda>s.
     bind_to text_ptr (\<lambda>t.
     give (Find_action (l\<lparr>yy_cp := (yy_ch_buf b, n), yy_bp := t, yy_current_state := s\<rparr>)))))))"

definition end_of_file :: "locals \<Rightarrow> yy_label scan" where
  "end_of_file l =
     bind_to text_ptr (\<lambda>t.
     after (change (\<lambda>st. st\<lparr>yy_did_buffer_switch_on_eof := False, yy_c_buf_p := Some t\<rparr>))
    (bind_to (look yy_start) (\<lambda>s.
     give (Do_action (l\<lparr>yy_act := YY_END_OF_BUFFER + (s - 1) div 2 + 1\<rparr>)))))"

text \<open>A new buffer takes over the globals.\<close>

definition adopt_buffer :: "unit scan" where
  "adopt_buffer =
     bind_to lvalue (\<lambda>b.
     when_so (yy_buffer_status b = YY_BUFFER_NEW)
      (after (change (\<lambda>st. st\<lparr>yy_n_chars := b_n_chars b\<rparr>))
      (bind_to (look yyin) (\<lambda>f.
       set_lvalue (\<lambda>x. x\<lparr>yy_input_file := f, yy_buffer_status := YY_BUFFER_NORMAL\<rparr>)))))"

definition end_of_buffer :: "locals \<Rightarrow> yy_label scan" where
  "end_of_buffer l =
     bind_to text_ptr (\<lambda>t.
     bind_to (diff (yy_cp l) t) (\<lambda>d.
     if d = 0 then fail
     else
       bind_to (look yy_hold_char) (\<lambda>h.
       after (put_char (yy_cp l) h)
      (after adopt_buffer
      (bind_to lvalue (\<lambda>b.
       bind_to (look yy_n_chars) (\<lambda>n.
       bind_to c_buf_p (\<lambda>p.
       bind_to (ptr_le p (yy_ch_buf b, n)) (\<lambda>nul.
       if nul then nul_action l t (d - 1)
       else
         bind_to yy_get_next_buffer (\<lambda>r.
         case r of
           EOB_ACT_END_OF_FILE \<Rightarrow> end_of_file l
         | EOB_ACT_CONTINUE_SCAN \<Rightarrow> continue_scan l (d - 1)
         | EOB_ACT_LAST_MATCH \<Rightarrow> last_match l))))))))))"

text \<open>The switch over the action.\<close>

definition do_action :: "locals \<Rightarrow> yy_label scan" where
  "do_action l =
     (let act = yy_act l in
      if act = 0 then
        bind_to (look yy_hold_char) (\<lambda>h.
        after (put_char (yy_cp l) h)
       (bind_to (back_up l) (\<lambda>l. give (Find_action l))))
      else if act = 1 then after (user (\<lambda>u. u\<lparr>linenumber := linenumber u + 1\<rparr>)) (give Token)
      else if 2 \<le> act \<and> act \<le> 7 then after count_token (give Token)
      else if act = 8 then after id_action (give Token)
      else if act = 9 then after comment_action (give Token)
      else if act = 10 then after ECHO (give Token)
      else if act = YY_END_OF_BUFFER + 0 + 1 then give (Return 0)
      else if act = YY_END_OF_BUFFER then end_of_buffer l
      else yy_fatal_error ''fatal flex scanner internal error--no action found'')"

section \<open>The scanner\<close>

definition yy_step :: "yy_label \<Rightarrow> yy_label scan" where
  "yy_step g = (case g of
     Token \<Rightarrow> token_start
   | Match l \<Rightarrow> match_char l
   | Find_action l \<Rightarrow> find_action l
   | Do_action l \<Rightarrow> do_action l
   | Return r \<Rightarrow> give (Return r))"

partial_function (option) yy_run :: "yy_label \<Rightarrow> scanner \<Rightarrow> int outcome option" where
  "yy_run g st =
     (case g of
        Return r \<Rightarrow> Some (Done r st)
      | _ \<Rightarrow>
          (case yy_step g st of
             Done g st \<Rightarrow> yy_run g st
           | Fatal e \<Rightarrow> Some (Fatal e)
           | Fail \<Rightarrow> Some Fail))"

declare yy_run.simps [code]

definition yy_initialize :: "unit scan" where
  "yy_initialize =
     bind_to (look yy_init) (\<lambda>i.
     when_so (\<not> i)
      (after (change (\<lambda>st. st\<lparr>yy_init := True,
                yy_start := (if yy_start st = 0 then 1 else yy_start st),
                yyin := (if yyin st = None then Some stdin_file else yyin st),
                yyout := (if yyout st = None then Some stdout_file else yyout st)\<rparr>))
      (after create_if_none
       yy_load_buffer_state)))"

definition yylex :: "int scan" where
  "yylex = after yy_initialize (run_loop (yy_run Token))"

section \<open>The program\<close>

text \<open>\<open>fopen\<close> for reading: a new file with the contents that the file system has for the name, or \<open>NULL\<close>.\<close>

definition fopen :: "(cstring \<rightharpoonup> cstring) \<Rightarrow> cstring \<Rightarrow> ptr scan" where
  "fopen fs nm = (\<lambda>st. case fs nm of
     None \<Rightarrow> Done None st
   | Some s \<Rightarrow> Done (Some (yy_brk st))
       (st\<lparr>yy_files := (yy_files st)(yy_brk st \<mapsto> \<lparr>f_rest = s, f_tty = False, f_errors = [], f_out = []\<rparr>),
           yy_brk := yy_brk st + 1\<rparr>))"

definition print :: "cstring \<Rightarrow> unit scan" where
  "print s = write_file (Some stdout_file) s"

text \<open>\<open>main\<close>; the arguments are those after the name of the program.\<close>

definition scanner_main :: "(cstring \<rightharpoonup> cstring) \<Rightarrow> cstring list \<Rightarrow> int scan" where
  "scanner_main fs args =
     after (user (\<lambda>u. u\<lparr>tabs := init_comtab (init_arr_symtab (tabs u))\<rparr>))
    (bind_to (if args \<noteq> [] then fopen fs (hd args) else give (Some stdin_file)) (\<lambda>f.
     after (change (\<lambda>st. st\<lparr>yyin := f\<rparr>))
    (bind_to yylex (\<lambda>_.
     after (print [CHR 0x0A])
    (bind_to (look usr) (\<lambda>u.
     after (print (''number of tokens '' @ fmt_d (tokens u) @ [CHR 0x0A]))
    (after (print (''number of lines '' @ fmt_d (linenumber u) @ [CHR 0x0A]))
    (after (print (''There are '' @ fmt_d (comments u) @ '' comments:'' @ [CHR 0x0A]))
    (after (print (print_comtab (tabs u)))
    (after (print (print_arr_symtab (tabs u)))
    (after (user (\<lambda>u. u\<lparr>tabs := cleanup_arr_symtab (cleanup_comtab (tabs u))\<rparr>))
    (give 0))))))))))))"

text \<open>The program's memory when \<open>main\<close> starts: the static variables are zero.\<close>

definition start_scanner :: "yy_file \<Rightarrow> scanner" where
  "start_scanner stdin_contents =
     \<lparr>blocks = (\<lambda>_. None), buffers = (\<lambda>_. None), yy_brk = 2,
      yy_files = [stdin_file \<mapsto> stdin_contents, stdout_file \<mapsto> \<lparr>f_rest = [], f_tty = False, f_errors = [], f_out = []\<rparr>],
      yy_buffer_stack = None, yy_buffer_stack_top = 0, yy_buffer_stack_max = 0, yy_hold_char = CHR 0x00,
      yy_n_chars = 0, yyleng = 0, yy_c_buf_p = None, yy_init = False, yy_start = 0,
      yy_did_buffer_switch_on_eof = False, yyin = None, yyout = None, yylineno = 1, yy_flex_debug = 0,
      yytext = None, yy_last_accepting_state = 0, yy_last_accepting_cpos = None,
      usr = \<lparr>linenumber = 0, tokens = 0, comments = 0, tabs = start_tables\<rparr>\<rparr>"

end
