(* ===== verification/ScanText.thy ===== *)
theory ScanText
  imports ScanDfa ScanLex
begin

text \<open>
  What the scanner does with a text: repeatedly the longest prefix that a rule of \<open>lexer.lex\<close>
  admits, by the first of the rules that admit it, and the action of that rule. This is the
  reference that the buffers and tables implement.
\<close>

section \<open>Longest match\<close>

text \<open>The first rule that admits a word; 0 if none does.\<close>

definition admitted :: "cstring \<Rightarrow> int" where
  "admitted w = first_nullable 1 (nders in_charset w rules)"

text \<open>The length of the longest admitted prefix of at most \<open>n\<close> characters.\<close>

fun longest :: "nat \<Rightarrow> cstring \<Rightarrow> nat" where
  "longest 0 cs = 0"
| "longest (Suc n) cs = (if admitted (take (Suc n) cs) \<noteq> 0 then Suc n else longest n cs)"

definition token_length :: "cstring \<Rightarrow> nat" where
  "token_length cs = longest (length cs) cs"

section \<open>Comments\<close>

text \<open>
  The text of a comment after its first two characters: what is stored, what is left, the number of
  newlines that are counted, and whether a byte 255 ended it. A newline right after a star is not counted.
\<close>

definition prepend :: "char \<Rightarrow> nat \<Rightarrow> (cstring \<times> cstring \<times> nat \<times> bool) option \<Rightarrow> (cstring \<times> cstring \<times> nat \<times> bool) option" where
  "prepend c k r = (case r of None \<Rightarrow> None | Some (t, rest, n, e) \<Rightarrow> Some (c # t, rest, n + k, e))"

fun comment_text :: "comment_phase \<Rightarrow> cstring \<Rightarrow> (cstring \<times> cstring \<times> nat \<times> bool) option" where
  "comment_text ph [] = None"
| "comment_text Eat (c # cs) =
     (if c = char_EOF then Some ([], cs, 0, True)
      else if c = CHR ''*'' then prepend c 0 (comment_text Stars cs)
      else prepend c (if c = CHR 0x0A then 1 else 0) (comment_text Eat cs))"
| "comment_text Stars (c # cs) =
     (if c = CHR ''*'' then prepend c 0 (comment_text Stars cs)
      else if c = CHR ''/'' then Some ([c], cs, 0, False)
      else if c = char_EOF then Some ([c], cs, 0, True)
      else prepend c 0 (comment_text Eat cs))"

text \<open>The comment as a C string, if it fits its array.\<close>

definition comment_string :: "cstring \<Rightarrow> cstring option" where
  "comment_string t =
     (if length t + 2 \<le> MAX_COMMENT_SIZE
      then array_string (''/*'' @ t @ replicate (MAX_COMMENT_SIZE - 2 - length t) CHR 0x00) else None)"

section \<open>Texts\<close>

text \<open>The actions of the rules other than the comment, on the globals and the output.\<close>

definition act_on :: "int \<Rightarrow> cstring \<Rightarrow> user_globals \<times> cstring \<Rightarrow> (user_globals \<times> cstring) option" where
  "act_on r w = (\<lambda>(u, out).
     if r = 1 then Some (u\<lparr>linenumber := linenumber u + 1\<rparr>, out)
     else if r = 8 then
       (case insert_arr_id w (tabs u) of
          None \<Rightarrow> None
        | Some t \<Rightarrow> Some (u\<lparr>tokens := tokens u + 1, tabs := sort_symtab t\<rparr>, out))
     else if r = 10 then Some (u, out @ w)
     else Some (u\<lparr>tokens := tokens u + 1\<rparr>, out))"

definition act_comment :: "cstring \<Rightarrow> user_globals \<times> cstring \<Rightarrow> ((user_globals \<times> cstring) \<times> cstring) option" where
  "act_comment cs = (\<lambda>(u, out).
     case comment_text Eat cs of
       None \<Rightarrow> None
     | Some (t, rest, n, e) \<Rightarrow>
         (case comment_string t of
            None \<Rightarrow> None
          | Some s \<Rightarrow>
              (case insert_comment s (tabs u) of
                 None \<Rightarrow> None
               | Some tb \<Rightarrow> Some ((u\<lparr>linenumber := linenumber u + int n, tokens := tokens u + 1,
                                  comments := comments u + 1, tabs := tb\<rparr>,
                                 out @ (if e then ''Error: EOF in comment'' else [])), rest))))"

function scan_text :: "cstring \<Rightarrow> user_globals \<times> cstring \<Rightarrow> (user_globals \<times> cstring) option" where
  "scan_text cs o1 =
     (if cs = [] then Some o1
      else
        let m = token_length cs; w = take m cs; r = admitted w
        in if r = 9
           then (case act_comment (drop m cs) o1 of
                   None \<Rightarrow> None
                 | Some (o2, rest) \<Rightarrow> if length rest < length cs then scan_text rest o2 else None)
           else (case act_on r w o1 of
                   None \<Rightarrow> None
                 | Some o2 \<Rightarrow> if m = 0 then None else scan_text (drop m cs) o2))"
  by pat_completeness auto
termination
  by (relation "measure (\<lambda>(cs, o1). length cs)") auto

declare scan_text.simps [simp del]

section \<open>Facts about the longest match\<close>

lemma admitted_iff: "admitted w = first_rule in_charset 1 rules w"
  using first_rule_nders [of in_charset 1 rules w "[]"] by (simp add: admitted_def first_rule_Nil)

lemma admitted_run: "at yy_accept (run 1 w) = Some (admitted w)"
  by (simp add: accept_run admitted_iff)

lemma admitted_jam: "run 1 w = 78 \<Longrightarrow> admitted (w @ v) = 0"
  by (simp add: jam_run admitted_iff)

lemma admitted_Nil [simp]: "admitted [] = 0"
  by (simp add: admitted_def pattern_defs)

lemma admitted_range: "0 \<le> admitted w \<and> admitted w \<le> 10"
proof -
  have "length rs = n \<Longrightarrow> first_rule mem k rs w = 0 \<or> k \<le> first_rule mem k rs w \<and> first_rule mem k rs w < k + int n"
    for mem and rs :: "pattern list" and k n
    by (induction rs arbitrary: k n) force+
  from this [of rules 10 in_charset 1] show ?thesis by (auto simp: admitted_iff rules_def)
qed

lemma admitted_single: "admitted [c] \<noteq> 0"
proof -
  have "first_rule mem k rs w \<noteq> 0" if "0 < k" "\<exists>r \<in> set rs. w \<in> lang mem r" for mem k and rs :: "pattern list" and w :: cstring
    using that
  proof (induction rs arbitrary: k)
    case (Cons r rs)
    have "0 < k + 1" using Cons.prems by simp
    then show ?case using Cons.IH [of "k + 1"] Cons.prems by (cases "w \<in> lang mem r") (simp, force)
  qed simp
  from this [of 1 rules "[c]" in_charset] show ?thesis by (simp add: admitted_iff rules_def)
qed

lemma longest_le: "longest n cs \<le> n"
  by (induction n) auto

lemma longest_admitted: "longest n cs \<noteq> 0 \<Longrightarrow> admitted (take (longest n cs) cs) \<noteq> 0"
  by (induction n) (auto split: if_splits)

lemma longest_max: "k \<le> n \<Longrightarrow> admitted (take k cs) \<noteq> 0 \<Longrightarrow> k \<le> longest n cs"
  by (induction n) (auto simp: le_Suc_eq)

lemma longest_pos: "0 < n \<Longrightarrow> cs \<noteq> [] \<Longrightarrow> 0 < longest n cs"
proof -
  assume "0 < n" "cs \<noteq> []"
  then have "take 1 cs = [hd cs]" by (cases cs) auto
  then have "1 \<le> longest n cs" using \<open>0 < n\<close> admitted_single by (intro longest_max) auto
  then show ?thesis by simp
qed

lemma longest_cong: "take n cs = take n ds \<Longrightarrow> longest n cs = longest n ds"
proof (induction n)
  case (Suc n)
  then have "take n cs = take n ds" by (metis Suc_n_not_le_n min.absorb1 nat_le_linear take_take)
  with Suc show ?case by simp
qed simp

text \<open>Once the automaton is stuck, longer prefixes do not matter.\<close>

lemma longest_stuck:
  assumes "run 1 (take (Suc j) cs) = 78" and "j \<le> n"
  shows "longest n cs = longest j cs"
  using assms(2)
proof (induction n)
  case (Suc n)
  show ?case
  proof (cases "j = Suc n")
    case False
    then have "take (Suc n) cs = take (Suc j) cs @ drop (Suc j) (take (Suc n) cs)"
      using Suc.prems by (metis Suc_leI append_take_drop_id le_neq_implies_less min.absorb1 take_take)
    then have "admitted (take (Suc n) cs) = 0" using admitted_jam [OF assms(1)] by metis
    with Suc False show ?thesis by simp
  qed simp
qed simp

end
