(* ===== verification/ScanFrame.thy ===== *)
theory ScanFrame
  imports ScanText
begin

text \<open>
  The scanner while it reads one file: one buffer on the stack, its characters in one block with two
  end-of-buffer characters behind them. What the elementary steps do in such a state.
\<close>

section \<open>One buffer\<close>

text \<open>
  \<open>B\<close> is the buffer, \<open>b\<close> its structure, \<open>y\<close> the file it reads. \<open>L\<close> bounds the text, and with it the
  size of the buffer.
\<close>

definition frame :: "nat \<Rightarrow> scanner \<Rightarrow> addr \<Rightarrow> yy_buffer_state \<Rightarrow> yy_file \<Rightarrow> bool" where
  "frame L st B b y \<longleftrightarrow>
     yy_buffer_stack st = Some [Some B] \<and> yy_buffer_stack_top st = 0 \<and> yy_buffer_stack_max st = 1 \<and>
     buffers st B = Some b \<and> yy_is_our_buffer b \<and> yy_fill_buffer b \<and> yy_init st \<and> yy_start st = 1 \<and>
     yy_input_file b = yyin st \<and> (\<exists>F. yyin st = Some F \<and> F \<noteq> stdout_file \<and> yy_files st F = Some y) \<and>
     f_errors y = [] \<and> yyout st = Some stdout_file \<and> (\<exists>o1. yy_files st stdout_file = Some o1) \<and>
     L < 2 ^ 31 \<and> yy_buf_size b \<le> YY_BUF_SIZE + 2 * L \<and> yy_n_chars st < yy_buf_size b \<and>
     (yy_buffer_status b = YY_BUFFER_NEW \<longrightarrow> b_n_chars b = 0 \<and> yy_n_chars st = 0) \<and>
     (yy_buffer_status b = YY_BUFFER_EOF_PENDING \<longrightarrow> f_rest y = [])"

text \<open>The characters of the block: the text, then two zero bytes.\<close>

definition contents :: "char list \<Rightarrow> nat \<Rightarrow> nat \<Rightarrow> bool" where
  "contents cs n m \<longleftrightarrow> length cs = m + 2 \<and> n < m \<and> cs ! n = CHR 0x00 \<and> cs ! (n + 1) = CHR 0x00"

text \<open>What the program shows: its counters and tables, and the output.\<close>

definition out_of :: "scanner \<Rightarrow> cstring" where
  "out_of st = (case yy_files st stdout_file of None \<Rightarrow> [] | Some y \<Rightarrow> f_out y)"

definition shown :: "scanner \<Rightarrow> user_globals \<times> cstring" where
  "shown st = (usr st, out_of st)"

lemma bind_Done [simp]:
  "m st = Done x st' \<Longrightarrow> bind_to m k st = k x st'"
  "m1 st = Done () st' \<Longrightarrow> after m1 k1 st = k1 st'"
  by (simp_all add: bind_to_def after_def)

lemma basic_steps [simp]:
  "give x st = Done x st" "look f st = Done (f st) st" "change g st = Done () (g st)"
  "when_so c m = (if c then m else give ())"
  "need h st = (case h st of None \<Rightarrow> Fail | Some z \<Rightarrow> Done z st)"
  "user v st = Done () (st\<lparr>usr := v (usr st)\<rparr>)"
  by (simp_all add: give_def look_def change_def when_so_def need_def user_def)

lemma frame_current:
  assumes "frame L st B b y"
  shows "current_buffer st = Done (Some B) st" "buffer_at (Some B) st = Done b st" "lvalue st = Done b st"
    "set_lvalue f st = Done () (st\<lparr>buffers := (buffers st)(B \<mapsto> f b)\<rparr>)"
    "set_buffer (Some B) f st = Done () (st\<lparr>buffers := (buffers st)(B \<mapsto> f b)\<rparr>)"
    "create_if_none st = Done () st"
  using assms
  by (simp_all add: frame_def current_buffer_def buffer_at_def lvalue_def set_lvalue_def set_buffer_def create_if_none_def)

lemma char_at_block [simp]:
  "blocks st a = Some cs \<Longrightarrow> i < length cs \<Longrightarrow> char_at (a, i) st = Done (cs ! i) st"
  by (simp add: char_at_def)

lemma put_char_block [simp]:
  "blocks st a = Some cs \<Longrightarrow> i < length cs \<Longrightarrow>
   put_char (a, i) c st = Done () (st\<lparr>blocks := (blocks st)(a \<mapsto> cs[i := c])\<rparr>)"
  by (simp add: put_char_def)

lemma move_pair [simp]: "move (a, i) n = (a, i + n)"
  by (simp add: move_def)

lemma diff_pair [simp]: "j \<le> i \<Longrightarrow> diff (a, i) (a, j) st = Done (i - j) st"
  by (simp add: diff_def)

lemma ptr_le_pair [simp]: "ptr_le (a, i) (a, j) st = Done (i \<le> j) st"
  by (simp add: ptr_le_def)

lemma pointers [simp]:
  "yy_c_buf_p st = Some p \<Longrightarrow> c_buf_p st = Done p st"
  "yytext st = Some q \<Longrightarrow> text_ptr st = Done q st"
  by (simp_all add: c_buf_p_def text_ptr_def)

lemma restore_hold_block [simp]:
  "yy_c_buf_p st = Some (a, i) \<Longrightarrow> blocks st a = Some cs \<Longrightarrow> i < length cs \<Longrightarrow>
   restore_hold st = Done () (st\<lparr>blocks := (blocks st)(a \<mapsto> cs[i := yy_hold_char st])\<rparr>)"
  by (simp add: restore_hold_def)

lemma yyrealloc_block:
  "blocks st a = Some cs \<Longrightarrow> take n (cs @ replicate n CHR 0x00) = ds \<Longrightarrow>
   yyrealloc a n st = Done (yy_brk st) (st\<lparr>blocks := (free_at a (blocks st))(yy_brk st \<mapsto> ds), yy_brk := yy_brk st + 1\<rparr>)"
  by (simp add: yyrealloc_def)

text \<open>Copying into a block.\<close>

lemma copy_bytes_block:
  assumes "blocks st a = Some cs" and "i + length ds \<le> length cs"
  shows "copy_bytes a i ds st = Done () (st\<lparr>blocks := (blocks st)(a \<mapsto> take i cs @ ds @ drop (i + length ds) cs)\<rparr>)"
  using assms
proof (induction ds arbitrary: i st cs)
  case Nil
  then show ?case by (cases st) (simp add: fun_upd_idem)
next
  case (Cons d ds)
  have "take (Suc i) (cs[i := d]) = take i cs @ [d]" using Cons.prems(2)
    by (simp add: take_Suc_conv_app_nth)
  with Cons.prems show ?case
    by (simp add: Cons.IH [where cs = "cs[i := d]"] drop_update_cancel fun_upd_def cong: if_cong)
qed

text \<open>Moving characters to the start of the block, from further up.\<close>

lemma move_chars_block:
  assumes "blocks st a = Some cs" and "d \<le> s" and "s + n \<le> length cs"
  shows "move_chars (a, d) (a, s) n st =
    Done () (st\<lparr>blocks := (blocks st)(a \<mapsto> take d cs @ take n (drop s cs) @ drop (d + n) cs)\<rparr>)"
  using assms
proof (induction n arbitrary: d s st cs)
  case 0
  then show ?case by (cases st) (simp add: fun_upd_idem)
next
  case (Suc n)
  let ?cs = "cs[d := cs ! s]"
  have t: "take (Suc d) ?cs = take d cs @ [cs ! s]" using Suc.prems by (simp add: take_Suc_conv_app_nth)
  have m: "take n (drop (Suc s) ?cs) = take n (drop (Suc s) cs)" using Suc.prems by (simp add: drop_update_cancel)
  have "take (Suc n) (drop s cs) = cs ! s # take n (drop (Suc s) cs)"
    using Suc.prems by (metis Suc_le_lessD add_Suc_right Cons_nth_drop_Suc le_add1 le_trans not_less_eq_eq take_Suc_Cons)
  with Suc.prems t m show ?case
    by (simp add: Suc.IH [where cs = ?cs] drop_update_cancel fun_upd_def cong: if_cong)
qed

section \<open>Changes that keep the frame\<close>

lemma frame_updates [simp]:
  "frame L (st\<lparr>blocks := bl\<rparr>) B b y = frame L st B b y"
  "frame L (st\<lparr>yy_brk := n\<rparr>) B b y = frame L st B b y"
  "frame L (st\<lparr>yy_c_buf_p := p\<rparr>) B b y = frame L st B b y"
  "frame L (st\<lparr>yytext := p\<rparr>) B b y = frame L st B b y"
  "frame L (st\<lparr>yyleng := n\<rparr>) B b y = frame L st B b y"
  "frame L (st\<lparr>yy_hold_char := c\<rparr>) B b y = frame L st B b y"
  "frame L (st\<lparr>yy_last_accepting_state := s\<rparr>) B b y = frame L st B b y"
  "frame L (st\<lparr>yy_last_accepting_cpos := p\<rparr>) B b y = frame L st B b y"
  "frame L (st\<lparr>yy_did_buffer_switch_on_eof := d\<rparr>) B b y = frame L st B b y"
  "frame L (st\<lparr>usr := u\<rparr>) B b y = frame L st B b y"
  by (simp_all add: frame_def)

lemma shown_updates [simp]:
  "shown (st\<lparr>blocks := bl\<rparr>) = shown st" "shown (st\<lparr>yy_brk := n\<rparr>) = shown st"
  "shown (st\<lparr>yy_c_buf_p := p\<rparr>) = shown st" "shown (st\<lparr>yytext := p\<rparr>) = shown st"
  "shown (st\<lparr>yyleng := n\<rparr>) = shown st" "shown (st\<lparr>yy_hold_char := c\<rparr>) = shown st"
  "shown (st\<lparr>yy_last_accepting_state := s\<rparr>) = shown st" "shown (st\<lparr>yy_last_accepting_cpos := p\<rparr>) = shown st"
  "shown (st\<lparr>yy_did_buffer_switch_on_eof := d\<rparr>) = shown st" "shown (st\<lparr>yy_n_chars := n\<rparr>) = shown st"
  "shown (st\<lparr>buffers := bs\<rparr>) = shown st"
  by (simp_all add: shown_def out_of_def)

text \<open>The parts of the state that a frame speaks of, the number of characters aside.\<close>

definition same_frame :: "scanner \<Rightarrow> scanner \<Rightarrow> bool" where
  "same_frame st st' \<longleftrightarrow>
     yy_buffer_stack st' = yy_buffer_stack st \<and> yy_buffer_stack_top st' = yy_buffer_stack_top st \<and>
     yy_buffer_stack_max st' = yy_buffer_stack_max st \<and> buffers st' = buffers st \<and> yy_init st' = yy_init st \<and>
     yy_start st' = yy_start st \<and> yyin st' = yyin st \<and> yyout st' = yyout st \<and> yy_files st' = yy_files st"

lemma frame_same:
  "frame L st B b y \<Longrightarrow> same_frame st st' \<Longrightarrow> yy_n_chars st' = yy_n_chars st \<Longrightarrow> frame L st' B b y"
  by (simp add: frame_def same_frame_def)

lemma frame_buffer:
  assumes "frame L st B b y" and "yy_is_our_buffer b'" "yy_fill_buffer b'" "yy_input_file b' = yy_input_file b"
    and "yy_buf_size b' \<le> YY_BUF_SIZE + 2 * L" "yy_buf_size b \<le> yy_buf_size b'"
    and "yy_buffer_status b' = YY_BUFFER_NEW \<longrightarrow> b_n_chars b' = 0 \<and> yy_n_chars st = 0"
    and "yy_buffer_status b' = YY_BUFFER_EOF_PENDING \<longrightarrow> f_rest y = []"
  shows "frame L (st\<lparr>buffers := (buffers st)(B \<mapsto> b')\<rparr>) B b' y"
  using assms by (simp add: frame_def)

text \<open>Characters are read from the file.\<close>

lemma frame_read:
  assumes "frame L st B b y" and "yyin st = Some F" and "yy_n_chars st' < yy_buf_size b"
    and "yy_buffer_status b = YY_BUFFER_NORMAL \<or> yy_buffer_status b = YY_BUFFER_NEW \<and> yy_n_chars st' = 0"
    and "same_frame (st\<lparr>yy_files := (yy_files st)(F \<mapsto> y\<lparr>f_rest := r\<rparr>)\<rparr>) st'"
  shows "frame L st' B b (y\<lparr>f_rest := r\<rparr>)"
  using assms by (auto simp: frame_def same_frame_def)

lemma shown_same:
  "usr st' = usr st \<Longrightarrow> yy_files st' stdout_file = yy_files st stdout_file \<Longrightarrow> shown st' = shown st"
  by (simp add: shown_def out_of_def)

lemma frame_size:
  assumes "frame L st B b y"
  shows "yy_buf_size b \<le> YY_BUF_SIZE + 2 * L" "yy_n_chars st < yy_buf_size b" "yy_is_our_buffer b"
    "yy_fill_buffer b" "L < 2 ^ 31" "yy_input_file b = yyin st" "yy_start st = 1"
  using assms by (simp_all add: frame_def)

lemma frame_in:
  assumes "frame L st B b y"
  obtains F where "yyin st = Some F" "yy_files st F = Some y" "f_errors y = []" "F \<noteq> stdout_file"
  using assms by (auto simp: frame_def)

end
