(* ===== verification/ScanRefill.thy ===== *)
theory ScanRefill
  imports ScanFrame
begin

text \<open>
  The refill of the buffer keeps the text that is not yet consumed and puts the next characters of
  the file behind it.
\<close>

section \<open>Making room\<close>

lemma room_small:
  assumes "frame L st B b y" and "m < yy_buf_size b"
  shows "room b m = yy_buf_size b - m - 1"
proof -
  have "yy_buf_size b \<le> 2 ^ 33" using assms(1) by (simp add: frame_def YY_BUF_SIZE_def)
  with assms(2) have "0 \<le> int (yy_buf_size b) - int m - 1" "int (yy_buf_size b) - int m - 1 < 2 ^ 64" by auto
  then show ?thesis unfolding room_def by (simp add: mod_pos_pos_trivial)
qed

lemma grow_loop_enough:
  assumes "frame L st B b y" and "m + 1 < yy_buf_size b"
  shows "grow_loop m st = Some (Done (yy_buf_size b - m - 1) st)"
  using assms room_small [OF assms(1), of m]
  by (subst grow_loop.simps) (simp add: frame_current)

text \<open>A full buffer is doubled.\<close>

definition grown :: "scanner \<Rightarrow> addr \<Rightarrow> yy_buffer_state \<Rightarrow> nat \<Rightarrow> char list \<Rightarrow> scanner" where
  "grown st B b i cs =
     st\<lparr>blocks := (free_at (yy_ch_buf b) (blocks st))(yy_brk st \<mapsto> cs @ replicate (yy_buf_size b) CHR 0x00),
        buffers := (buffers st)(B \<mapsto> b\<lparr>yy_buf_size := 2 * yy_buf_size b, yy_ch_buf := yy_brk st\<rparr>),
        yy_brk := yy_brk st + 1, yy_c_buf_p := Some (yy_brk st, i)\<rparr>"

lemma grow_once_full:
  assumes f: "frame L st B b y" and c: "blocks st (yy_ch_buf b) = Some cs" "length cs = yy_buf_size b + 2"
    and p: "yy_c_buf_p st = Some (yy_ch_buf b, i)" and s: "yy_buf_size b = m + 1" "m \<le> L"
  shows "grow_once st = Done () (grown st B b i cs)"
    and "frame L (grown st B b i cs) B (b\<lparr>yy_buf_size := 2 * yy_buf_size b, yy_ch_buf := yy_brk st\<rparr>) y"
proof -
  note z = frame_size [OF f]
  have w: "yy_buf_size b * 2 mod 2 ^ 64 = 2 * yy_buf_size b" using z by (simp add: YY_BUF_SIZE_def)
  let ?b = "b\<lparr>yy_buf_size := 2 * yy_buf_size b\<rparr>"
  let ?st = "st\<lparr>buffers := (buffers st)(B \<mapsto> ?b)\<rparr>"
  let ?st2 = "?st\<lparr>blocks := (free_at (yy_ch_buf b) (blocks st))(yy_brk st \<mapsto> cs @ replicate (yy_buf_size b) CHR 0x00), yy_brk := yy_brk st + 1\<rparr>"
  have f1: "frame L ?st B ?b y"
    using f s by (auto intro!: frame_buffer [OF f] simp: z YY_BUF_SIZE_def) (simp_all add: frame_def)
  have t: "take (2 * yy_buf_size b + 2) (cs @ replicate (2 * yy_buf_size b + 2) CHR 0x00) = cs @ replicate (yy_buf_size b) CHR 0x00"
    using c(2) by (simp add: take_replicate del: replicate.simps replicate_Suc)
  have r: "yyrealloc (yy_ch_buf b) (2 * yy_buf_size b + 2) ?st = Done (yy_brk st) ?st2"
    using yyrealloc_block [of ?st "yy_ch_buf b" cs, OF _ t] c(1) by simp
  have o: "yy_is_our_buffer b" "0 < yy_buf_size b" using z by simp_all
  have f2: "frame L ?st2 B ?b y" using f1 by simp
  show "grow_once st = Done () (grown st B b i cs)"
    using o p w unfolding grow_once_def
    by (simp add: frame_current [OF f] Let_def r [simplified] frame_current(4) [OF f2, simplified] grown_def)
  have "frame L (?st2\<lparr>buffers := (buffers ?st2)(B \<mapsto> b\<lparr>yy_buf_size := 2 * yy_buf_size b, yy_ch_buf := yy_brk st\<rparr>)\<rparr>) B
      (b\<lparr>yy_buf_size := 2 * yy_buf_size b, yy_ch_buf := yy_brk st\<rparr>) y"
    using f s by (auto intro!: frame_buffer [OF f2] simp: z YY_BUF_SIZE_def) (simp_all add: frame_def YY_BUF_SIZE_def)
  then show "frame L (grown st B b i cs) B (b\<lparr>yy_buf_size := 2 * yy_buf_size b, yy_ch_buf := yy_brk st\<rparr>) y"
    by (rule frame_same) (simp_all add: grown_def same_frame_def)
qed

lemma grow_loop_room:
  assumes f: "frame L st B b y" and c: "blocks st (yy_ch_buf b) = Some cs" "length cs = yy_buf_size b + 2"
    and p: "yy_c_buf_p st = Some (yy_ch_buf b, i)" and s: "m < yy_buf_size b" "m \<le> L"
  obtains st' b' cs' where
    "run_loop (grow_loop m) st = Done (yy_buf_size b' - m - 1) st'" "frame L st' B b' y"
    "blocks st' (yy_ch_buf b') = Some cs'" "length cs' = yy_buf_size b' + 2" "take (length cs) cs' = cs"
    "m + 1 < yy_buf_size b'" "shown st' = shown st" "yy_n_chars st' = yy_n_chars st" "yyin st' = yyin st"
    "yy_buffer_status b' = yy_buffer_status b" "yytext st' = yytext st"
proof (cases "yy_buf_size b = m + 1")
  case True
  note g = grow_once_full [OF f c p True s(2)]
  let ?b = "b\<lparr>yy_buf_size := 2 * yy_buf_size b, yy_ch_buf := yy_brk st\<rparr>"
  have e: "grow_loop m (grown st B b i cs) = Some (Done (yy_buf_size ?b - m - 1) (grown st B b i cs))"
    using True f by (intro grow_loop_enough [OF g(2)]) (simp add: frame_def)
  have "run_loop (grow_loop m) st = Done (yy_buf_size ?b - m - 1) (grown st B b i cs)"
    unfolding run_loop_def
    by (subst grow_loop.simps) (use True room_small [OF f s(1)] e in \<open>simp add: frame_current [OF f] g(1)\<close>)
  moreover have "m + 1 < yy_buf_size ?b" using True f by (simp add: frame_def)
  ultimately show ?thesis
    using c(2) by (intro that [OF _ g(2), of "cs @ replicate (yy_buf_size b) CHR 0x00"])
      (simp_all add: grown_def shown_def out_of_def)
next
  case False
  then have "m + 1 < yy_buf_size b" using s(1) by simp
  with that [OF _ f, of cs] grow_loop_enough [OF f this] c show ?thesis by (simp add: run_loop_def)
qed

section \<open>Reading\<close>

lemma getc_loop_prefix:
  assumes "getc_loop m r = (l, e)"
  shows "l = take (length l) r \<and> length l \<le> m \<and> (0 < m \<longrightarrow> r \<noteq> [] \<longrightarrow> l \<noteq> [])"
  using assms
proof (induction m r arbitrary: l e rule: getc_loop.induct)
  case (3 m c r)
  then show ?case by (auto split: if_splits prod.splits)
qed auto

lemma YY_INPUT_reads:
  assumes f: "frame L st B b y" and c: "blocks st (yy_ch_buf b) = Some cs" "m + k \<le> length cs"
  obtains j where "YY_INPUT (yy_ch_buf b, m) k st =
      Done j (st\<lparr>blocks := (blocks st)(yy_ch_buf b \<mapsto> take m cs @ take j (f_rest y) @ drop (m + j) cs),
                 yy_files := (yy_files st)(the (yyin st) \<mapsto> y\<lparr>f_rest := drop j (f_rest y)\<rparr>)\<rparr>)"
    "j \<le> k" "j \<le> length (f_rest y)" "0 < k \<longrightarrow> f_rest y \<noteq> [] \<longrightarrow> 0 < j"
proof -
  from f obtain F where F: "yyin st = Some F" "yy_files st F = Some y" "f_errors y = []" by (auto simp: frame_def)
  define r where "r = (if yy_is_interactive b then getc_loop k (f_rest y) else (take k (f_rest y), False))"
  obtain l e where r': "r = (l, e)" by (cases r)
  have l: "l = take (length l) (f_rest y)" "length l \<le> k" "0 < k \<longrightarrow> f_rest y \<noteq> [] \<longrightarrow> l \<noteq> []"
  proof -
    have "l = take (length l) (f_rest y) \<and> length l \<le> k \<and> (0 < k \<longrightarrow> f_rest y \<noteq> [] \<longrightarrow> l \<noteq> [])"
    proof (cases "yy_is_interactive b")
      case True
      then show ?thesis using r' unfolding r_def by (intro getc_loop_prefix) simp
    next
      case False
      then show ?thesis using r' unfolding r_def by (auto simp: min_def)
    qed
    then show "l = take (length l) (f_rest y)" "length l \<le> k" "0 < k \<longrightarrow> f_rest y \<noteq> [] \<longrightarrow> l \<noteq> []" by blast+
  qed
  have y: "y\<lparr>f_rest := q, f_errors := []\<rparr> = y\<lparr>f_rest := q\<rparr>" for q using F(3) by (cases y) simp
  have cb: "copy_bytes (yy_ch_buf b) m l st =
      Done () (st\<lparr>blocks := (blocks st)(yy_ch_buf b \<mapsto> take m cs @ l @ drop (m + length l) cs)\<rparr>)"
    using c l(2) by (intro copy_bytes_block) auto
  have "YY_INPUT (yy_ch_buf b, m) k st =
      Done (length l) (st\<lparr>blocks := (blocks st)(yy_ch_buf b \<mapsto> take m cs @ l @ drop (m + length l) cs),
                 yy_files := (yy_files st)(F \<mapsto> y\<lparr>f_rest := drop (length l) (f_rest y)\<rparr>)\<rparr>)"
    using F r' cb unfolding YY_INPUT_def
    by (simp add: frame_current [OF f] r_def [symmetric] Let_def set_file_def y)
  with l have "YY_INPUT (yy_ch_buf b, m) k st =
      Done (length l) (st\<lparr>blocks := (blocks st)(yy_ch_buf b \<mapsto> take m cs @ take (length l) (f_rest y) @ drop (m + length l) cs),
                 yy_files := (yy_files st)(the (yyin st) \<mapsto> y\<lparr>f_rest := drop (length l) (f_rest y)\<rparr>)\<rparr>)"
    using F(1) by simp
  moreover have "length l \<le> length (f_rest y)" by (subst l(1)) simp
  ultimately show thesis using that l by blast
qed

section \<open>The next buffer\<close>

text \<open>The text of a refilled buffer: \<open>cs\<close> before, \<open>t\<close> the start of the token; \<open>j\<close> characters are read.\<close>

definition refilled :: "nat \<Rightarrow> scanner \<Rightarrow> addr \<Rightarrow> yy_buffer_state \<Rightarrow> yy_file \<Rightarrow> cstring \<Rightarrow> nat \<Rightarrow> yy_buffer_state \<Rightarrow> scanner \<Rightarrow> bool" where
  "refilled L st B b y keep j b' st' \<longleftrightarrow>
     (\<exists>cs'. frame L st' B b' (y\<lparr>f_rest := drop j (f_rest y)\<rparr>) \<and> blocks st' (yy_ch_buf b') = Some cs' \<and>
        contents cs' (yy_n_chars st') (yy_buf_size b') \<and> yy_n_chars st' = length keep + j \<and>
        take (yy_n_chars st') cs' = keep @ take j (f_rest y) \<and>
        yytext st' = Some (yy_ch_buf b', 0) \<and> shown st' = shown st \<and> j \<le> length (f_rest y))"

text \<open>The characters are moved, the buffer has room, more characters are read.\<close>

lemma read_more_reads:
  assumes f: "frame L st B b y" and c: "blocks st (yy_ch_buf b) = Some cs" "length cs = yy_buf_size b + 2"
    and p: "yy_c_buf_p st = Some (yy_ch_buf b, i)" and s: "m < yy_buf_size b" "m \<le> L"
    and pending: "yy_buffer_status b = YY_BUFFER_NORMAL \<or> yy_buffer_status b = YY_BUFFER_NEW \<and> f_rest y = []"
  obtains st' b' cs' j where
    "read_more m st = Done () st'" "frame L st' B b' (y\<lparr>f_rest := drop j (f_rest y)\<rparr>)"
    "blocks st' (yy_ch_buf b') = Some cs'" "length cs' = yy_buf_size b' + 2"
    "take (m + j) cs' = take m cs @ take j (f_rest y)" "yy_n_chars st' = j" "m + j < yy_buf_size b'"
    "yy_buffer_status b' = yy_buffer_status b" "shown st' = shown st" "yyin st' = yyin st"
    "j \<le> length (f_rest y)" "f_rest y \<noteq> [] \<longrightarrow> 0 < j"
proof -
  from grow_loop_room [OF f c p s] obtain st1 b1 cs1 where g:
    "run_loop (grow_loop m) st = Done (yy_buf_size b1 - m - 1) st1" "frame L st1 B b1 y"
    "blocks st1 (yy_ch_buf b1) = Some cs1" "length cs1 = yy_buf_size b1 + 2" "take (length cs) cs1 = cs"
    "m + 1 < yy_buf_size b1" "shown st1 = shown st" "yyin st1 = yyin st" "yy_buffer_status b1 = yy_buffer_status b"
    by metis
  let ?k = "min (yy_buf_size b1 - m - 1) YY_READ_BUF_SIZE"
  have k: "0 < ?k" "m + ?k \<le> length cs1" using g(4,6) by (auto simp: YY_READ_BUF_SIZE_def)
  from YY_INPUT_reads [OF g(2,3) k(2)] obtain j where j:
    "YY_INPUT (yy_ch_buf b1, m) ?k st1 =
      Done j (st1\<lparr>blocks := (blocks st1)(yy_ch_buf b1 \<mapsto> take m cs1 @ take j (f_rest y) @ drop (m + j) cs1),
                 yy_files := (yy_files st1)(the (yyin st1) \<mapsto> y\<lparr>f_rest := drop j (f_rest y)\<rparr>)\<rparr>)"
    "j \<le> ?k" "j \<le> length (f_rest y)" "0 < ?k \<longrightarrow> f_rest y \<noteq> [] \<longrightarrow> 0 < j" by metis
  let ?cs = "take m cs1 @ take j (f_rest y) @ drop (m + j) cs1"
  let ?y = "y\<lparr>f_rest := drop j (f_rest y)\<rparr>" and ?b = "b1\<lparr>b_n_chars := j\<rparr>"
  define st2 where "st2 = st1\<lparr>blocks := (blocks st1)(yy_ch_buf b1 \<mapsto> ?cs), yy_files := (yy_files st1)(the (yyin st1) \<mapsto> ?y),
    yy_n_chars := j\<rparr>"
  define st' where "st' = st2\<lparr>buffers := (buffers st2)(B \<mapsto> ?b)\<rparr>"
  have jb: "m + j < yy_buf_size b1" using j(2) g(6) by auto
  have n: "yy_buffer_status b1 = YY_BUFFER_NORMAL \<or> yy_buffer_status b1 = YY_BUFFER_NEW \<and> j = 0"
    using pending g(9) j(3) by auto
  obtain F where F: "yyin st1 = Some F" "F \<noteq> stdout_file" using frame_in [OF g(2)] by metis
  have f2: "frame L st2 B b1 ?y" 
    using jb n by (intro frame_read [OF g(2) F(1)]) (auto simp: st2_def F same_frame_def)
  have f': "frame L st' B ?b ?y"
    unfolding st'_def using frame_size [OF g(2)] n by (intro frame_buffer [OF f2]) (auto simp: st2_def)
  have not_pending: "yy_buffer_status b \<noteq> YY_BUFFER_EOF_PENDING" using pending by auto
  have rd: "read_more m st = Done () st'"
    using not_pending unfolding read_more_def
    by (simp add: frame_current [OF f] g(1) frame_current [OF g(2)] j(1) [simplified] frame_current(4) [OF f2, unfolded st2_def] st'_def st2_def)
  have tk: "take (m + j) ?cs = take m cs @ take j (f_rest y)"
  proof -
    have "take m cs1 = take m cs" using g(5) c(2) s(1) by (metis le_add2 le_less_trans less_or_eq_imp_le min.absorb1 take_take add.commute trans_le_add1)
    moreover have "length (take m cs1) = m" using g(4,6) by simp
    ultimately show ?thesis using j(3) by simp
  qed
  have sh: "shown st' = shown st" using g(7) F by (subst g(7) [symmetric], intro shown_same) (simp_all add: st'_def st2_def)
  show ?thesis
  proof (rule that [of st' ?b j ?cs])
    show "f_rest y \<noteq> [] \<longrightarrow> 0 < j" using j(4) k(1) by blast
    show "length ?cs = yy_buf_size ?b + 2" using g(4) jb j(3) by simp
  qed (rule rd f' tk sh j(3) | use g(8,9) jb n in \<open>simp add: st'_def st2_def\<close>)+
qed

text \<open>
  What \<open>yy_get_next_buffer\<close> does at the end of the buffer: \<open>t\<close> is the start of the token, \<open>n\<close> the number
  of characters in the buffer. \<open>refilled\<close> says that the unread text comes first in the new buffer, with
  \<open>j\<close> more characters of the file behind it.
\<close>

lemma finish_refill_ends:
  assumes f: "frame L st B b y" and c: "blocks st (yy_ch_buf b) = Some cs" "length cs = yy_buf_size b + 2"
    and n: "m + yy_n_chars st < yy_buf_size b" "yy_buffer_status b \<noteq> YY_BUFFER_NEW \<or> m = 0"
  obtains st' where "finish_refill m st = Done () st'" "frame L st' B b y"
    "blocks st' (yy_ch_buf b) = Some (cs[m + yy_n_chars st := CHR 0x00, m + yy_n_chars st + 1 := CHR 0x00])"
    "yy_n_chars st' = m + yy_n_chars st" "yytext st' = Some (yy_ch_buf b, 0)" "shown st' = shown st"
    "yy_c_buf_p st' = yy_c_buf_p st" "yyin st' = yyin st" "yy_hold_char st' = yy_hold_char st"
proof -
  let ?n = "m + yy_n_chars st"
  define st1 where "st1 = st\<lparr>yy_n_chars := ?n\<rparr>"
  define st' where "st' = st1\<lparr>blocks := (blocks st)(yy_ch_buf b \<mapsto> cs[?n := CHR 0x00, ?n + 1 := CHR 0x00]), yytext := Some (yy_ch_buf b, 0)\<rparr>"
  have f1: "frame L st1 B b y" using f n by (auto simp: frame_def st1_def)
  have "extend_array m st = Done () st" using n(1) by (simp add: extend_array_def frame_current [OF f])
  then have "finish_refill m st = Done () st'"
    using c n(1) unfolding finish_refill_def
    by (simp add: frame_current(3) [OF f1, unfolded st1_def] st'_def st1_def add.commute fun_upd_def cong: if_cong)
  moreover have "frame L st' B b y" by (rule frame_same [OF f1]) (simp_all add: st'_def same_frame_def)
  ultimately show ?thesis using that by (simp add: st'_def st1_def)
qed

lemma read_more_any:
  assumes f: "frame L st B b y" and c: "blocks st (yy_ch_buf b) = Some cs" "length cs = yy_buf_size b + 2"
    and p: "yy_c_buf_p st = Some (yy_ch_buf b, i)" and s: "m < yy_buf_size b" "m \<le> L"
    and status: "yy_buffer_status b \<noteq> YY_BUFFER_NEW \<or> f_rest y = []"
  obtains st' b' cs' j where
    "read_more m st = Done () st'" "frame L st' B b' (y\<lparr>f_rest := drop j (f_rest y)\<rparr>)"
    "blocks st' (yy_ch_buf b') = Some cs'" "length cs' = yy_buf_size b' + 2"
    "take (m + j) cs' = take m cs @ take j (f_rest y)" "yy_n_chars st' = j" "m + j < yy_buf_size b'"
    "yy_buffer_status b' = yy_buffer_status b" "shown st' = shown st"
    "j \<le> length (f_rest y)" "f_rest y \<noteq> [] \<longrightarrow> 0 < j"
proof (cases "yy_buffer_status b = YY_BUFFER_NORMAL \<or> yy_buffer_status b = YY_BUFFER_NEW \<and> f_rest y = []")
  case True
  from read_more_reads [OF f c p s this] show ?thesis
    using that by metis
next
  case False
  then have st: "yy_buffer_status b = YY_BUFFER_EOF_PENDING" using status by (cases "yy_buffer_status b") auto
  then have y: "f_rest y = []" using f by (simp add: frame_def)
  let ?b = "b\<lparr>b_n_chars := 0\<rparr>"
  define st' where "st' = st\<lparr>buffers := (buffers st)(B \<mapsto> ?b), yy_n_chars := 0\<rparr>"
  have "y\<lparr>f_rest := drop 0 (f_rest y)\<rparr> = y" by simp
  then have "frame L st' B ?b (y\<lparr>f_rest := drop 0 (f_rest y)\<rparr>)" using f st by (auto simp: frame_def st'_def)
  moreover have "read_more m st = Done () st'" using st unfolding read_more_def by (simp add: frame_current [OF f] st'_def)
  ultimately show ?thesis
    using c s(1) y by (intro that [of st' ?b 0 cs]) (simp_all add: st'_def)
qed

lemma get_next_buffer_steps:
  assumes f: "frame L st B b y" and c: "blocks st (yy_ch_buf b) = Some cs" "contents cs (yy_n_chars st) (yy_buf_size b)"
    and p: "yy_c_buf_p st = Some (yy_ch_buf b, yy_n_chars st + 1)" "yytext st = Some (yy_ch_buf b, t)" "t \<le> yy_n_chars st"
    and s: "m = yy_n_chars st - t" "m \<le> L" and status: "yy_buffer_status b \<noteq> YY_BUFFER_NEW \<or> f_rest y = []"
  obtains st2 b2 cs2 j where
    "frame L st2 B b2 (y\<lparr>f_rest := drop j (f_rest y)\<rparr>)"
    "blocks st2 (yy_ch_buf b2) = Some cs2" "length cs2 = yy_buf_size b2 + 2"
    "take (m + j) cs2 = drop t (take (yy_n_chars st) cs) @ take j (f_rest y)" "yy_n_chars st2 = j"
    "m + j < yy_buf_size b2" "yy_buffer_status b2 = yy_buffer_status b" "shown st2 = shown st"
    "j \<le> length (f_rest y)" "f_rest y \<noteq> [] \<longrightarrow> 0 < j"
    "\<And>r st3. eob_result m st2 = Done r st3 \<Longrightarrow> yy_get_next_buffer st = after (finish_refill m) (give r) st3"
proof -
  note z = frame_size [OF f]
  have len: "length cs = yy_buf_size b + 2" using c(2) by (simp add: contents_def)
  have m: "m < yy_buf_size b" using z(2) s by simp
  let ?cs1 = "take m (drop t cs) @ drop m cs"
  define st1 where "st1 = st\<lparr>blocks := (blocks st)(yy_ch_buf b \<mapsto> ?cs1)\<rparr>"
  have mv: "move_chars (yy_ch_buf b, 0) (yy_ch_buf b, t) m st = Done () st1"
    using move_chars_block [OF c(1), of 0 t m] len z(2) p(3) by (simp add: st1_def s)
  have f1: "frame L st1 B b y" using f by (simp add: st1_def)
  have c1: "blocks st1 (yy_ch_buf b) = Some ?cs1" "length ?cs1 = yy_buf_size b + 2"
    using len z(2) p(3) by (simp_all add: st1_def s)
  have p1: "yy_c_buf_p st1 = Some (yy_ch_buf b, yy_n_chars st + 1)" using p by (simp add: st1_def)
  from read_more_any [OF f1 c1 p1 m s(2) status] obtain st2 b2 cs2 j where r:
    "read_more m st1 = Done () st2" "frame L st2 B b2 (y\<lparr>f_rest := drop j (f_rest y)\<rparr>)"
    "blocks st2 (yy_ch_buf b2) = Some cs2" "length cs2 = yy_buf_size b2 + 2"
    "take (m + j) cs2 = take m ?cs1 @ take j (f_rest y)" "yy_n_chars st2 = j" "m + j < yy_buf_size b2"
    "yy_buffer_status b2 = yy_buffer_status b" "shown st2 = shown st1" "j \<le> length (f_rest y)" "f_rest y \<noteq> [] \<longrightarrow> 0 < j"
    by metis
  have d: "diff (yy_ch_buf b, yy_n_chars st + 1) (yy_ch_buf b, t) st = Done (m + 1) st"
    using p(3) by (simp add: s)
  have run: "yy_get_next_buffer st = after (finish_refill m) (give r) st3" if "eob_result m st2 = Done r st3" for r st3
    using p z(4) d that unfolding yy_get_next_buffer_def
    by (simp add: frame_current [OF f] mv r(1))
  have "take (m + j) cs2 = drop t (take (yy_n_chars st) cs) @ take j (f_rest y)"
    using r(5) c1(2) z(2) p(3) len by (simp add: s drop_take min_def)
  from that [OF r(2-4) this r(6-8) _ r(10,11) run] r(9) show thesis by (simp add: st1_def)
qed

lemma refilledI:
  assumes f: "frame L st B b (y\<lparr>f_rest := drop j (f_rest y)\<rparr>)"
    and c: "blocks st (yy_ch_buf b) = Some cs" "length cs = yy_buf_size b + 2"
    and n: "take (m + j) cs = keep @ take j (f_rest y)" "yy_n_chars st = j" "length keep = m" "m + j < yy_buf_size b"
      "j \<le> length (f_rest y)" "yy_buffer_status b \<noteq> YY_BUFFER_NEW \<or> m = 0" "shown st = shown st0"
  obtains st' where "finish_refill m st = Done () st'" "refilled L st0 B b0 y keep j b st'"
    "yy_c_buf_p st' = yy_c_buf_p st" "yyin st' = yyin st" "yy_hold_char st' = yy_hold_char st"
proof -
  have "m + yy_n_chars st < yy_buf_size b" using n by simp
  from finish_refill_ends [OF f c this n(6)] obtain st' where g:
    "finish_refill m st = Done () st'" "frame L st' B b (y\<lparr>f_rest := drop j (f_rest y)\<rparr>)"
    "blocks st' (yy_ch_buf b) = Some (cs[m + yy_n_chars st := CHR 0x00, m + yy_n_chars st + 1 := CHR 0x00])"
    "yy_n_chars st' = m + yy_n_chars st" "yytext st' = Some (yy_ch_buf b, 0)" "shown st' = shown st"
    "yy_c_buf_p st' = yy_c_buf_p st" "yyin st' = yyin st" "yy_hold_char st' = yy_hold_char st" by metis
  let ?cs = "cs[m + j := CHR 0x00, m + j + 1 := CHR 0x00]"
  have "contents ?cs (m + j) (yy_buf_size b)" using c(2) n(4) by (simp add: contents_def)
  moreover have "take (m + j) ?cs = keep @ take j (f_rest y)" using n(1) by simp
  ultimately have "refilled L st0 B b0 y keep j b st'"
    unfolding refilled_def using g n by (intro exI [of _ ?cs]) simp
  with that g show thesis by metis
qed

lemma get_next_buffer_reads:
  assumes f: "frame L st B b y" and c: "blocks st (yy_ch_buf b) = Some cs" "contents cs (yy_n_chars st) (yy_buf_size b)"
    and p: "yy_c_buf_p st = Some (yy_ch_buf b, yy_n_chars st + 1)" "yytext st = Some (yy_ch_buf b, t)" "t \<le> yy_n_chars st"
    and s: "yy_n_chars st - t \<le> L" and status: "yy_buffer_status b \<noteq> YY_BUFFER_NEW"
    and rest: "f_rest y \<noteq> []"
  obtains st' b' j where "yy_get_next_buffer st = Done EOB_ACT_CONTINUE_SCAN st'" "0 < j"
    "refilled L st B b y (drop t (take (yy_n_chars st) cs)) j b' st'" "yy_buffer_status b' \<noteq> YY_BUFFER_NEW"
proof -
  let ?m = "yy_n_chars st - t"
  from get_next_buffer_steps [OF f c p refl s disjI1 [OF status]] obtain st2 b2 cs2 j where r:
    "frame L st2 B b2 (y\<lparr>f_rest := drop j (f_rest y)\<rparr>)"
    "blocks st2 (yy_ch_buf b2) = Some cs2" "length cs2 = yy_buf_size b2 + 2"
    "take (?m + j) cs2 = drop t (take (yy_n_chars st) cs) @ take j (f_rest y)" "yy_n_chars st2 = j"
    "?m + j < yy_buf_size b2" "yy_buffer_status b2 = yy_buffer_status b" "shown st2 = shown st"
    "j \<le> length (f_rest y)" "f_rest y \<noteq> [] \<longrightarrow> 0 < j"
    "\<And>r st3. eob_result ?m st2 = Done r st3 \<Longrightarrow> yy_get_next_buffer st = after (finish_refill ?m) (give r) st3"
    by metis
  have j: "0 < j" using r(10) rest by simp
  have e: "eob_result ?m st2 = Done EOB_ACT_CONTINUE_SCAN st2" using j r(5) by (simp add: eob_result_def)
  have k: "length (drop t (take (yy_n_chars st) cs)) = ?m" using c(2) by (simp add: contents_def)
  from refilledI [OF r(1-5) k r(6,9) _ r(8)] r(7) status obtain st' where
    "finish_refill ?m st2 = Done () st'" "refilled L st B b y (drop t (take (yy_n_chars st) cs)) j b2 st'" by metis
  with that [OF _ j] r(7) r(11) [OF e] status show thesis by simp
qed

lemma get_next_buffer_pending:
  assumes f: "frame L st B b y" and c: "blocks st (yy_ch_buf b) = Some cs" "contents cs (yy_n_chars st) (yy_buf_size b)"
    and p: "yy_c_buf_p st = Some (yy_ch_buf b, yy_n_chars st + 1)" "yytext st = Some (yy_ch_buf b, t)" "t < yy_n_chars st"
    and s: "yy_n_chars st - t \<le> L" and status: "yy_buffer_status b \<noteq> YY_BUFFER_NEW"
    and rest: "f_rest y = []"
  obtains st' b' where "yy_get_next_buffer st = Done EOB_ACT_LAST_MATCH st'"
    "refilled L st B b y (drop t (take (yy_n_chars st) cs)) 0 b' st'" "yy_buffer_status b' \<noteq> YY_BUFFER_NEW"
proof -
  let ?m = "yy_n_chars st - t"
  have t: "t \<le> yy_n_chars st" using p(3) by simp
  from get_next_buffer_steps [OF f c p(1,2) t refl s disjI1 [OF status]] obtain st2 b2 cs2 j where r:
    "frame L st2 B b2 (y\<lparr>f_rest := drop j (f_rest y)\<rparr>)"
    "blocks st2 (yy_ch_buf b2) = Some cs2" "length cs2 = yy_buf_size b2 + 2"
    "take (?m + j) cs2 = drop t (take (yy_n_chars st) cs) @ take j (f_rest y)" "yy_n_chars st2 = j"
    "?m + j < yy_buf_size b2" "yy_buffer_status b2 = yy_buffer_status b" "shown st2 = shown st"
    "j \<le> length (f_rest y)" "f_rest y \<noteq> [] \<longrightarrow> 0 < j"
    "\<And>r st3. eob_result ?m st2 = Done r st3 \<Longrightarrow> yy_get_next_buffer st = after (finish_refill ?m) (give r) st3"
    by metis
  have j: "j = 0" using r(9) rest by simp
  let ?b = "b2\<lparr>yy_buffer_status := YY_BUFFER_EOF_PENDING\<rparr>"
  define st3 where "st3 = st2\<lparr>buffers := (buffers st2)(B \<mapsto> ?b)\<rparr>"
  have e: "eob_result ?m st2 = Done EOB_ACT_LAST_MATCH st3"
    using j r(5) p(3) by (simp add: eob_result_def frame_current [OF r(1)] st3_def)
  have f3: "frame L st3 B ?b (y\<lparr>f_rest := drop j (f_rest y)\<rparr>)"
    unfolding st3_def using frame_size [OF r(1)] rest by (intro frame_buffer [OF r(1)]) simp_all
  have k: "length (drop t (take (yy_n_chars st) cs)) = ?m" using c(2) by (simp add: contents_def)
  obtain st' where
    "finish_refill ?m st3 = Done () st'" "refilled L st B b y (drop t (take (yy_n_chars st) cs)) j ?b st'"
    by (rule refilledI [OF f3, of cs2 ?m "drop t (take (yy_n_chars st) cs)" st b])
      (use r k in \<open>simp_all add: st3_def\<close>)
  with that [of st' ?b] r(11) [OF e] j show thesis by simp
qed

text \<open>At the end of the file with nothing left, the buffer is empty and new.\<close>

lemma yyrestart_frame:
  assumes f: "frame L st B b y" and c: "blocks st (yy_ch_buf b) = Some cs" "length cs = yy_buf_size b + 2"
  obtains st' b' where "yyrestart (yyin st) st = Done () st'" "frame L st' B b' y"
    "yy_ch_buf b' = yy_ch_buf b" "yy_buf_size b' = yy_buf_size b" "yy_n_chars st' = 0" "yy_buffer_status b' = YY_BUFFER_NEW"
    "blocks st' (yy_ch_buf b) = Some (cs[0 := CHR 0x00, 1 := CHR 0x00])"
    "yy_c_buf_p st' = Some (yy_ch_buf b, 0)" "yytext st' = Some (yy_ch_buf b, 0)" "shown st' = shown st"
    "yyin st' = yyin st" "yy_hold_char st' = CHR 0x00"
proof -
  obtain F where F: "yyin st = Some F" "yy_files st F = Some y" using frame_in [OF f] by metis
  note z = frame_size [OF f]
  let ?b1 = "b\<lparr>b_n_chars := 0\<rparr>"
  let ?b2 = "?b1\<lparr>yy_buf_pos := (yy_ch_buf b, 0), yy_at_bol := True, yy_buffer_status := YY_BUFFER_NEW\<rparr>"
  let ?b3 = "?b2\<lparr>yy_input_file := Some F, yy_fill_buffer := True, yy_is_interactive := f_tty y\<rparr>"
  let ?cs = "cs[0 := CHR 0x00, 1 := CHR 0x00]"
  define st1 where "st1 = st\<lparr>yy_n_chars := 0, buffers := (buffers st)(B \<mapsto> ?b2), blocks := (blocks st)(yy_ch_buf b \<mapsto> ?cs),
    yytext := Some (yy_ch_buf b, 0), yy_c_buf_p := Some (yy_ch_buf b, 0), yyin := Some F, yy_hold_char := CHR 0x00\<rparr>"
  define st' where "st' = st1\<lparr>buffers := (buffers st)(B \<mapsto> ?b3)\<rparr>"
  have f': "frame L st' B ?b3 y" using f F by (auto simp: frame_def st'_def st1_def)
  show thesis
  proof (rule that [OF _ f'])
    show "yyrestart (yyin st) st = Done () st'"
      using f c F z
      by (simp add: yyrestart_def frame_current [OF f] yy_init_buffer_def yy_flush_buffer_def set_buffer_def buffer_at_def
        current_buffer_def yy_load_buffer_state_def lvalue_def is_terminal_def frame_def st'_def st1_def put_char_def char_at_def)
  qed (use c F in \<open>simp_all add: st'_def st1_def shown_def out_of_def\<close>)
qed

lemma get_next_buffer_end:
  assumes f: "frame L st B b y" and c: "blocks st (yy_ch_buf b) = Some cs" "contents cs (yy_n_chars st) (yy_buf_size b)"
    and p: "yy_c_buf_p st = Some (yy_ch_buf b, yy_n_chars st + 1)" "yytext st = Some (yy_ch_buf b, yy_n_chars st)"
    and rest: "f_rest y = []"
  obtains st' b' where "yy_get_next_buffer st = Done EOB_ACT_END_OF_FILE st'"
    "refilled L st B b y [] 0 b' st'" "yy_c_buf_p st' = Some (yy_ch_buf b', 0)" "yy_buffer_status b' = YY_BUFFER_NEW"
    "yy_hold_char st' = CHR 0x00"
proof -
  have s: "0 = yy_n_chars st - yy_n_chars st" "0 \<le> L" by simp_all
  from get_next_buffer_steps [OF f c p order_refl s disjI2 [OF rest]] obtain st2 b2 cs2 j where r:
    "frame L st2 B b2 (y\<lparr>f_rest := drop j (f_rest y)\<rparr>)"
    "blocks st2 (yy_ch_buf b2) = Some cs2" "length cs2 = yy_buf_size b2 + 2" "yy_n_chars st2 = j"
    "shown st2 = shown st" "j \<le> length (f_rest y)"
    "\<And>r st3. eob_result 0 st2 = Done r st3 \<Longrightarrow> yy_get_next_buffer st = after (finish_refill 0) (give r) st3"
    by metis
  have j: "j = 0" using r(6) rest by simp
  from yyrestart_frame [OF r(1-3)] obtain st3 b3 where e: "yyrestart (yyin st2) st2 = Done () st3"
    "frame L st3 B b3 (y\<lparr>f_rest := drop j (f_rest y)\<rparr>)"
    "yy_ch_buf b3 = yy_ch_buf b2" "yy_buf_size b3 = yy_buf_size b2" "yy_n_chars st3 = 0"
    "yy_buffer_status b3 = YY_BUFFER_NEW" "blocks st3 (yy_ch_buf b2) = Some (cs2[0 := CHR 0x00, 1 := CHR 0x00])"
    "yy_c_buf_p st3 = Some (yy_ch_buf b2, 0)" "shown st3 = shown st2" "yy_hold_char st3 = CHR 0x00" by metis
  have res: "eob_result 0 st2 = Done EOB_ACT_END_OF_FILE st3" using j r(4) e(1) by (simp add: eob_result_def)
  have n: "yy_buf_size b3 \<noteq> 0" using frame_size [OF e(2)] by simp
  obtain st' where
    "finish_refill 0 st3 = Done () st'" "refilled L st B b y [] j b3 st'" "yy_c_buf_p st' = yy_c_buf_p st3"
      "yy_hold_char st' = yy_hold_char st3"
    by (rule refilledI [OF e(2), of "cs2[0 := CHR 0x00, 1 := CHR 0x00]" 0 "[]" st b])
      (use e r j n in simp_all)
  with that [of st' b3] r(7) [OF res] j e show thesis by simp
qed

end
