(* ===== verification/ScanMatch.thy ===== *)
theory ScanMatch
  imports ScanRefill
begin

text \<open>
  The match loop with its backing up finds the longest match, whatever the buffer does meanwhile. A word
  \<open>w\<close> is the part of the token that was read; the state of the automaton is \<open>run 1 w\<close>.
\<close>

section \<open>Noting accepting states\<close>

text \<open>The last accepting state is the one of the longest admitted proper prefix of the word.\<close>

definition noted :: "scanner \<Rightarrow> addr \<Rightarrow> nat \<Rightarrow> cstring \<Rightarrow> bool" where
  "noted st a t w \<longleftrightarrow> (let k = longest (length w - 1) w in
     0 < k \<longrightarrow> yy_last_accepting_state st = run 1 (take k w) \<and> yy_last_accepting_cpos st = Some (a, t + k))"

definition last_noted :: "scanner \<Rightarrow> scanner \<Rightarrow> bool" where
  "last_noted st st' \<longleftrightarrow> (\<exists>s p. st' = st\<lparr>yy_last_accepting_state := s, yy_last_accepting_cpos := p\<rparr>)"

lemma last_noted_refl [simp]: "last_noted st st"
  unfolding last_noted_def by (intro exI [of _ "yy_last_accepting_state st"] exI [of _ "yy_last_accepting_cpos st"]) simp

lemma last_noted_trans: "last_noted st st1 \<Longrightarrow> last_noted st1 st2 \<Longrightarrow> last_noted st st2"
  unfolding last_noted_def by (elim exE) (simp, blast)

lemma last_notedD:
  assumes "last_noted st st'"
  shows "blocks st' = blocks st" "yytext st' = yytext st" "yy_c_buf_p st' = yy_c_buf_p st" "yy_n_chars st' = yy_n_chars st"
    "yy_start st' = yy_start st" "shown st' = shown st" "frame L st' B b y = frame L st B b y" "yy_hold_char st' = yy_hold_char st"
  using assms by (auto simp: last_noted_def shown_def out_of_def)

lemma noted_Nil [simp]: "noted st a t []"
  by (simp add: noted_def)

lemma noted_snoc:
  assumes "admitted w = 0"
  shows "noted st a t (w @ [c]) = noted st a t w"
proof -
  have "longest (length w) (w @ [c]) = longest (length w - 1) w"
  proof (cases "length w")
    case (Suc n)
    then have "longest (length w) (w @ [c]) = longest n (w @ [c])" using assms by simp
    also have "\<dots> = longest n w" using Suc by (intro longest_cong) simp
    finally show ?thesis using Suc by simp
  qed simp
  moreover have "take k (w @ [c]) = take k w" if "k = longest (length w - 1) w" for k
    using longest_le [of "length w - 1" w] that by simp
  ultimately show ?thesis unfolding noted_def Let_def by simp
qed

lemma note_accept_word:
  assumes "noted st a t w"
  obtains st' where "note_accept (run 1 w) (a, t + length w) st = Done () st'" "last_noted st st'"
    "noted st' a t (w @ [c])"
proof (cases "admitted w = 0")
  case True
  then have "noted st a t (w @ [c])" using assms by (simp add: noted_snoc)
  with that [of st] True show ?thesis by (simp add: note_accept_def admitted_run)
next
  case False
  then have "w \<noteq> []" by auto
  then have "longest (length w) (w @ [c]) = length w" using False by (cases "length w") auto
  then have "noted (st\<lparr>yy_last_accepting_state := run 1 w, yy_last_accepting_cpos := Some (a, t + length w)\<rparr>) a t (w @ [c])"
    by (simp add: noted_def)
  moreover have "last_noted st (st\<lparr>yy_last_accepting_state := run 1 w, yy_last_accepting_cpos := Some (a, t + length w)\<rparr>)"
    unfolding last_noted_def by blast
  ultimately show ?thesis using that False by (simp add: note_accept_def admitted_run)
qed

lemma trans_word: "yy_trans (run 1 w) (cls b) = Some (run 1 (w @ [b]))"
proof (cases "run 1 w = 78")
  case True
  then show ?thesis by (simp add: step_78 delta_def)
next
  case False
  then have "is_state (run 1 w)" using run_state [of 1 w] by (simp add: is_state_def)
  then show ?thesis using step_state [of "run 1 w" b] by simp
qed

lemma class_at: "b \<noteq> CHR 0x00 \<Longrightarrow> at yy_ec (of_char b) = Some (cls b)"
proof -
  assume "b \<noteq> CHR 0x00"
  then have "of_char b \<noteq> (0 :: int)" by (cases b) auto
  moreover have "at yy_ec (of_char b) \<noteq> None" using of_char_range [of b] by (simp add: at_def table_lengths)
  ultimately show ?thesis by (auto simp: cls_def cls_of_def)
qed

lemma class_NUL [simp]: "cls CHR 0x00 = 1"
  by (simp add: cls_def cls_of_def)

section \<open>The state before the end of the buffer\<close>

lemma previous_loop_word:
  assumes "blocks st a = Some cs" and "take n (drop (t + length v) cs) = u" "length u = n" and "noted st a t v"
  shows "\<exists>st'. previous_loop n (a, t + length v) (run 1 v) st = Done (run 1 (v @ u)) st' \<and> last_noted st st' \<and> noted st' a t (v @ u)"
  using assms
proof (induction n arbitrary: v u st)
  case 0
  then show ?case by simp
next
  case (Suc n)
  let ?b = "cs ! (t + length v)"
  have len: "t + length v < length cs" using Suc.prems(2,3) by auto
  then have u: "u = ?b # take n (drop (t + length v + 1) cs)"
    using Suc.prems(2) by (simp add: Cons_nth_drop_Suc [symmetric])
  obtain st1 where n: "note_accept (run 1 v) (a, t + length v) st = Done () st1" "last_noted st st1" "noted st1 a t (v @ [?b])"
    using note_accept_word [OF Suc.prems(4)] by metis
  have c: "(if ?b \<noteq> CHR 0x00 then at yy_ec (of_char ?b) else Some 1) = Some (cls ?b)" by (simp add: class_at)
  have "take n (drop (t + length (v @ [?b])) cs) = tl u" "length (tl u) = n" using u Suc.prems(3) by (simp, simp)
  from Suc.IH [OF _ this n(3)] n(2) Suc.prems(1) obtain st' where
    "previous_loop n (a, t + length (v @ [?b])) (run 1 (v @ [?b])) st1 = Done (run 1 ((v @ [?b]) @ tl u)) st'"
    "last_noted st1 st'" "noted st' a t ((v @ [?b]) @ tl u)"
    by (auto simp: last_notedD)
  moreover have "(v @ [?b]) @ tl u = v @ u" using u by (metis append.assoc append_Cons append_Nil list.sel(3))
  ultimately show ?case
    using Suc.prems(1) len c n trans_word [of v ?b] last_noted_trans [OF n(2)]
    by (auto simp del: run_simps(3))
qed

lemma previous_state_word:
  assumes "blocks st a = Some cs" and "yytext st = Some (a, t)" and "yy_c_buf_p st = Some (a, t + length w)"
    and "take (length w) (drop t cs) = w" and "yy_start st = 1"
  obtains st' where "yy_get_previous_state st = Done (run 1 w) st'" "last_noted st st'" "noted st' a t w"
  using previous_loop_word [of st a cs "length w" t "[]" w] assms that
  by (auto simp: yy_get_previous_state_def)

section \<open>The action that is found\<close>

text \<open>
  The state at an action: the token is \<open>cs\<close> from \<open>t\<close> on, \<open>m\<close> characters long, with a zero byte
  behind it; \<open>all\<close> is the text from the token on.
\<close>

definition at_action :: "nat \<Rightarrow> scanner \<Rightarrow> addr \<Rightarrow> cstring \<Rightarrow> nat \<Rightarrow> bool" where
  "at_action L st B all m \<longleftrightarrow>
     (\<exists>b y cs t. frame L st B b y \<and> contents cs (yy_n_chars st) (yy_buf_size b) \<and>
        blocks st (yy_ch_buf b) = Some (cs[t + m := CHR 0x00]) \<and> yy_hold_char st = cs ! (t + m) \<and>
        yytext st = Some (yy_ch_buf b, t) \<and> yy_c_buf_p st = Some (yy_ch_buf b, t + m) \<and> yyleng st = m \<and>
        t + m \<le> yy_n_chars st \<and> drop t (take (yy_n_chars st) cs) @ f_rest y = all)"

text \<open>The token that is found is the longest one.\<close>

definition token_found :: "nat \<Rightarrow> scanner \<Rightarrow> addr \<Rightarrow> cstring \<Rightarrow> locals \<Rightarrow> bool" where
  "token_found L st B all l \<longleftrightarrow>
     yy_act l = admitted (take (token_length all) all) \<and> at_action L st B all (token_length all)"

lemma find_action_token:
  assumes f: "frame L st B b y" and c: "blocks st (yy_ch_buf b) = Some cs" "contents cs (yy_n_chars st) (yy_buf_size b)"
    and all: "drop t (take (yy_n_chars st) cs) @ f_rest y = all" and w: "w = take (length w) all"
    and m: "token_length all = longest (length w) w" "0 < token_length all" "t + token_length all \<le> yy_n_chars st"
    and l: "yy_bp l = (yy_ch_buf b, t)" "yy_current_state l = run 1 w"
      "admitted w \<noteq> 0 \<Longrightarrow> yy_cp l = (yy_ch_buf b, t + length w)" "admitted w = 0 \<Longrightarrow> noted st (yy_ch_buf b) t w"
  obtains l' st' where "yy_run (Find_action l) st = yy_run (Do_action l') st'" "token_found L st' B all l'" "shown st' = shown st"
proof -
  let ?m = "token_length all"
  have mw: "take ?m all = take ?m w" using w m(1) longest_le [of "length w" w] by (metis min.absorb1 take_take)
  obtain l1 where l1: "(if admitted w = 0 then back_up l else give l) st = Done l1 st" "yy_current_state l1 = run 1 (take ?m w)"
      "yy_cp l1 = (yy_ch_buf b, t + ?m)" "yy_bp l1 = (yy_ch_buf b, t)"
  proof (cases "admitted w = 0")
    case True
    have "?m = longest (length w - 1) w" using True m(1) by (cases "length w") auto
    with l(4) [OF True] m(2) l(1) show thesis
      using that [of "l\<lparr>yy_cp := (yy_ch_buf b, t + ?m), yy_current_state := run 1 (take ?m w)\<rparr>"] True
      by (simp add: noted_def Let_def back_up_def)
  next
    case False
    then have "?m = length w" using m(1) by (cases "length w") auto
    with that [of l] False l show thesis by simp
  qed
  let ?cs = "cs[t + ?m := CHR 0x00]"
  have i: "t + ?m < length cs" using c(2) m(3) by (simp add: contents_def)
  define st' where "st' = st\<lparr>yytext := Some (yy_ch_buf b, t), yyleng := ?m, yy_hold_char := cs ! (t + ?m),
    blocks := (blocks st)(yy_ch_buf b \<mapsto> ?cs), yy_c_buf_p := Some (yy_ch_buf b, t + ?m)\<rparr>"
  let ?l = "l1\<lparr>yy_act := admitted (take ?m all)\<rparr>"
  have "find_action l st = Done (Do_action ?l) st'"
    using l1 l(2) c(1) i unfolding find_action_def before_action_def
    by (simp add: admitted_run mw st'_def)
  then have "yy_run (Find_action l) st = yy_run (Do_action ?l) st'"
    by (subst yy_run.simps) (simp add: yy_step_def)
  moreover have "frame L st' B b y" by (rule frame_same [OF f]) (simp_all add: st'_def same_frame_def)
  then have "at_action L st' B all ?m"
    unfolding at_action_def using c m(3) all
    by (intro exI [of _ b] exI [of _ y] exI [of _ cs] exI [of _ t]) (simp add: st'_def)
  then have "token_found L st' B all ?l" by (simp add: token_found_def)
  moreover have "shown st' = shown st" by (simp add: st'_def)
  ultimately show thesis using that by blast
qed

section \<open>One character\<close>

lemma match_char_word:
  assumes c: "blocks st a = Some cs" "t + length w < length cs" "cs ! (t + length w) = x" "x \<noteq> CHR 0x00"
    and l: "l = \<lparr>yy_cp = (a, t + length w), yy_bp = (a, t), yy_current_state = run 1 w, yy_act = k\<rparr>"
    and n: "noted st a t w" and base: "at yy_base (run 1 (w @ [x])) = Some base"
  obtains st' where
    "yy_run (Match l) st =
       (let l' = \<lparr>yy_cp = (a, t + length (w @ [x])), yy_bp = (a, t), yy_current_state = run 1 (w @ [x]), yy_act = k\<rparr>
        in yy_run (if base \<noteq> 127 then Match l' else Find_action l') st')"
    "last_noted st st'" "noted st' a t (w @ [x])"
proof -
  obtain st' where s: "note_accept (run 1 w) (a, t + length w) st = Done () st'" "last_noted st st'" "noted st' a t (w @ [x])"
    using note_accept_word [OF n] by metis
  have "yy_run (Match l) st =
       (let l' = \<lparr>yy_cp = (a, t + length (w @ [x])), yy_bp = (a, t), yy_current_state = run 1 (w @ [x]), yy_act = k\<rparr>
        in yy_run (if base \<noteq> 127 then Match l' else Find_action l') st')"
    using c s(1) base trans_word [of w x]
    by (subst yy_run.simps) (simp add: yy_step_def match_char_def l class_at Let_def del: run_simps(3))
  with that s show thesis by blast
qed

lemma base_state: "is_state s \<Longrightarrow> \<exists>k. at yy_base s = Some k \<and> (k = 127 \<longrightarrow> at yy_accept s \<noteq> Some 0 \<and> (\<forall>c \<in> {1..45}. yy_trans s c = Some 78))"
  using state_cases [OF states_base, of s] by (auto simp: list_all_iff split: option.splits)

lemma table_78: "at yy_base 78 = Some 127" "at yy_base 3 = Some 126" "at yy_accept 3 = Some 11" "at yy_ec 0 = Some 0"
  by (simp_all add: table_entries ec_entries)

lemma class_range: "\<exists>c. at yy_ec (of_char b) = Some c \<and> 0 \<le> c \<and> c \<le> 45"
proof (cases "b = CHR 0x00")
  case True
  then show ?thesis by (simp add: table_78)
next
  case False
  moreover have "0 \<le> cls b" using cls_range(1) [of b] by linarith
  ultimately show ?thesis using cls_range(2) [of b] class_at [of b] by blast
qed

text \<open>A zero byte leads to the end-of-buffer action, whatever follows it.\<close>

lemma match_NUL:
  assumes f: "frame L st B b y" and c: "blocks st (yy_ch_buf b) = Some cs" "i + 1 < length cs" "cs ! i = CHR 0x00" "t \<le> i"
    and l: "l = \<lparr>yy_cp = (yy_ch_buf b, i), yy_bp = (yy_ch_buf b, t), yy_current_state = s, yy_act = k\<rparr>"
    and s: "is_state s"
  obtains l' st' where "yy_run (Match l) st = yy_run (Do_action l') st'" "frame L st' B b y"
    "blocks st' (yy_ch_buf b) = Some (cs[i + 1 := CHR 0x00])" "yy_hold_char st' = cs ! (i + 1)"
    "yytext st' = Some (yy_ch_buf b, t)" "yy_c_buf_p st' = Some (yy_ch_buf b, i + 1)" "shown st' = shown st"
    "yy_n_chars st' = yy_n_chars st" "yy_act l' = 11" "yy_cp l' = (yy_ch_buf b, i + 1)"
proof -
  let ?a = "yy_ch_buf b"
  have t0: "yy_trans s 0 = Some 3" using states_eob s by (auto simp: list_all_iff is_state_iff)
  obtain a1 where a1: "at yy_accept s = Some a1" using accept_state [OF s] by simp
  obtain st1 where st1: "note_accept s (?a, i) st = Done () st1" "last_noted st st1"
    using a1 unfolding note_accept_def
    by (cases "a1 = 0") (auto simp: last_noted_def intro: exI [of _ "yy_last_accepting_state st"])
  let ?st2 = "st1\<lparr>yy_last_accepting_state := 3, yy_last_accepting_cpos := Some (?a, i + 1)\<rparr>"
  obtain x where x: "at yy_ec (of_char (cs ! (i + 1))) = Some x" "0 \<le> x" "x \<le> 45" using class_range by metis
  have t3: "yy_trans 3 x = Some 78" using eob_jams x by (simp add: list_all_iff)
  have b1: "blocks st1 = blocks st" using st1(2) by (simp add: last_notedD)
  let ?l1 = "\<lparr>yy_cp = (?a, i + 1), yy_bp = (?a, t), yy_current_state = 3, yy_act = k\<rparr>"
  let ?l2 = "\<lparr>yy_cp = (?a, i + 2), yy_bp = (?a, t), yy_current_state = 78, yy_act = k\<rparr>"
  have r1: "yy_run (Match l) st = yy_run (Match ?l1) st1"
    using c st1 t0 by (subst yy_run.simps) (simp add: yy_step_def match_char_def l table_78 Let_def)
  have r2: "yy_run (Match ?l1) st1 = yy_run (Find_action ?l2) ?st2"
    using c x t3 b1 by (subst yy_run.simps) (simp add: yy_step_def match_char_def table_78 Let_def note_accept_def)
  define st' where "st' = ?st2\<lparr>yytext := Some (?a, t), yyleng := i + 1 - t, yy_hold_char := cs ! (i + 1),
    blocks := (blocks st)(?a \<mapsto> cs[i + 1 := CHR 0x00]), yy_c_buf_p := Some (?a, i + 1)\<rparr>"
  let ?l' = "\<lparr>yy_cp = (?a, i + 1), yy_bp = (?a, t), yy_current_state = 3, yy_act = 11\<rparr>"
  have r3: "yy_run (Find_action ?l2) ?st2 = yy_run (Do_action ?l') st'"
    using c b1
    by (subst yy_run.simps) (simp add: yy_step_def find_action_def before_action_def back_up_def accept_78 table_78 st'_def Suc_diff_le)
  show thesis
  proof (rule that [of ?l' st'])
    have f1: "frame L st1 B b y" using f by (simp only: last_notedD(7) [OF st1(2)])
    show "frame L st' B b y" by (rule frame_same [OF f1]) (simp_all add: st'_def same_frame_def)
    show "shown st' = shown st" by (simp add: st'_def last_notedD(6) [OF st1(2)])
    show "yy_run (Match l) st = yy_run (Do_action ?l') st'" by (simp only: r1 r2 r3)
  qed (simp_all add: st'_def last_notedD(4) [OF st1(2)])
qed

section \<open>The end of the buffer\<close>

lemma adopt_buffer_frame:
  assumes f: "frame L st B b y"
  obtains st' b' where "adopt_buffer st = Done () st'" "frame L st' B b' y" "yy_buffer_status b' \<noteq> YY_BUFFER_NEW"
    "yy_ch_buf b' = yy_ch_buf b" "yy_buf_size b' = yy_buf_size b" "blocks st' = blocks st" "yytext st' = yytext st"
    "yy_c_buf_p st' = yy_c_buf_p st" "yy_n_chars st' = yy_n_chars st" "shown st' = shown st"
proof (cases "yy_buffer_status b = YY_BUFFER_NEW")
  case True
  then have n: "b_n_chars b = 0" "yy_n_chars st = 0" using f by (simp_all add: frame_def)
  let ?b = "b\<lparr>yy_input_file := yyin st, yy_buffer_status := YY_BUFFER_NORMAL\<rparr>"
  let ?st = "st\<lparr>buffers := (buffers st)(B \<mapsto> ?b)\<rparr>"
  have s: "st\<lparr>yy_n_chars := 0\<rparr> = st" using n by (cases st) simp
  have f': "frame L ?st B ?b y"
    using frame_size [OF f] by (intro frame_buffer [OF f]) simp_all
  have "adopt_buffer st = Done () ?st"
    using True n unfolding adopt_buffer_def by (simp add: frame_current [OF f] s)
  from that [OF this f'] show thesis by simp
next
  case False
  with that [of st b] f show thesis by (simp add: adopt_buffer_def frame_current [OF f])
qed

lemma end_of_buffer_enter:
  assumes f: "frame L st B b y" and c: "blocks st (yy_ch_buf b) = Some (cs[i + 1 := CHR 0x00])" "i + 1 < length cs" "t \<le> i"
    and h: "yy_hold_char st = cs ! (i + 1)" and p: "yytext st = Some (yy_ch_buf b, t)" "yy_c_buf_p st = Some (yy_ch_buf b, i + 1)"
    and l: "yy_act l = 11" "yy_cp l = (yy_ch_buf b, i + 1)"
  obtains st' b' where "frame L st' B b' y" "yy_buffer_status b' \<noteq> YY_BUFFER_NEW" "yy_ch_buf b' = yy_ch_buf b"
    "yy_buf_size b' = yy_buf_size b" "blocks st' (yy_ch_buf b) = Some cs" "yytext st' = Some (yy_ch_buf b, t)"
    "yy_c_buf_p st' = Some (yy_ch_buf b, i + 1)" "yy_n_chars st' = yy_n_chars st" "shown st' = shown st"
    "do_action l st =
       (if i < yy_n_chars st then nul_action l (yy_ch_buf b, t) (i - t)
        else bind_to yy_get_next_buffer (\<lambda>r.
         case r of
           EOB_ACT_END_OF_FILE \<Rightarrow> end_of_file l
         | EOB_ACT_CONTINUE_SCAN \<Rightarrow> continue_scan l (i - t)
         | EOB_ACT_LAST_MATCH \<Rightarrow> last_match l)) st'"
proof -
  have r: "cs[i + 1 := CHR 0x00, i + 1 := cs ! (i + 1)] = cs" by simp
  let ?st1 = "st\<lparr>blocks := (blocks st)(yy_ch_buf b \<mapsto> cs)\<rparr>"
  have f1: "frame L ?st1 B b y" using f by simp
  have pc: "put_char (yy_ch_buf b, i + 1) (cs ! (i + 1)) st = Done () ?st1"
    using put_char_block [OF c(1), of "i + 1"] c(2) r by simp
  from adopt_buffer_frame [OF f1] obtain st' b' where a:
    "adopt_buffer ?st1 = Done () st'" "frame L st' B b' y" "yy_buffer_status b' \<noteq> YY_BUFFER_NEW"
    "yy_ch_buf b' = yy_ch_buf b" "yy_buf_size b' = yy_buf_size b" "blocks st' = blocks ?st1" "yytext st' = yytext ?st1"
    "yy_c_buf_p st' = yy_c_buf_p ?st1" "yy_n_chars st' = yy_n_chars ?st1" "shown st' = shown ?st1" by metis
  have d: "diff (yy_ch_buf b, i + 1) (yy_ch_buf b, t) st = Done (i + 1 - t) st" using c(3) by simp
  have "do_action l st =
       (if i < yy_n_chars st then nul_action l (yy_ch_buf b, t) (i - t)
        else bind_to yy_get_next_buffer (\<lambda>r.
         case r of
           EOB_ACT_END_OF_FILE \<Rightarrow> end_of_file l
         | EOB_ACT_CONTINUE_SCAN \<Rightarrow> continue_scan l (i - t)
         | EOB_ACT_LAST_MATCH \<Rightarrow> last_match l)) st'"
    using p h l c(3) a(4,7,8,9) pc a(1)
    by (simp add: do_action_def Let_def YY_END_OF_BUFFER_def end_of_buffer_def frame_current [OF a(2)] Suc_le_eq Suc_diff_le)
  with that [OF a(2,3,4,5)] a p show thesis by simp
qed

text \<open>The text of a token is kept by a refill.\<close>

lemma refilled_token:
  assumes "refilled L st B b y w j b' st'"
  obtains cs' where "frame L st' B b' (y\<lparr>f_rest := drop j (f_rest y)\<rparr>)" "blocks st' (yy_ch_buf b') = Some cs'"
    "contents cs' (yy_n_chars st') (yy_buf_size b')" "yy_n_chars st' = length w + j" "take (length w) cs' = w"
    "yytext st' = Some (yy_ch_buf b', 0)" "shown st' = shown st" "j \<le> length (f_rest y)"
    "take (yy_n_chars st') cs' @ drop j (f_rest y) = w @ f_rest y"
proof -
  from assms obtain cs' where r: "frame L st' B b' (y\<lparr>f_rest := drop j (f_rest y)\<rparr>)" "blocks st' (yy_ch_buf b') = Some cs'"
    "contents cs' (yy_n_chars st') (yy_buf_size b')" "yy_n_chars st' = length w + j"
    "take (yy_n_chars st') cs' = w @ take j (f_rest y)"
    "yytext st' = Some (yy_ch_buf b', 0)" "shown st' = shown st" "j \<le> length (f_rest y)"
    unfolding refilled_def by blast
  have "take (length w) cs' = take (length w) (take (yy_n_chars st') cs')" using r(4) by simp
  also have "\<dots> = w" unfolding r(5) by simp
  finally show thesis using that r by simp
qed

section \<open>The longest match\<close>

text \<open>
  The match loop in the middle of a token: \<open>w\<close> is what was read of it, \<open>all\<close> is the text from the
  token on. It ends with the action of the longest match, or with the end of the file when
  there is no text.
\<close>

definition token_run :: "nat \<Rightarrow> addr \<Rightarrow> cstring \<Rightarrow> yy_label \<Rightarrow> scanner \<Rightarrow> bool" where
  "token_run L B all g st \<longleftrightarrow>
     (if all = [] then \<exists>st' b y. yy_run g st = Some (Done 0 st') \<and> shown st' = shown st \<and> frame L st' B b y
      else \<exists>l' st'. yy_run g st = yy_run (Do_action l') st' \<and> token_found L st' B all l' \<and> shown st' = shown st)"

lemma token_run_step:
  "yy_run g st = yy_run g' st' \<Longrightarrow> shown st' = shown st \<Longrightarrow> token_run L B all g' st' \<Longrightarrow> token_run L B all g st"
  by (simp add: token_run_def split: if_splits)

lemma token_length_stuck:
  "run 1 (take (Suc j) all) = 78 \<Longrightarrow> j \<le> length all \<Longrightarrow> token_length all = longest j all"
  unfolding token_length_def by (rule longest_stuck)

lemma longest_word: "w = take (length w) all \<Longrightarrow> n \<le> length w \<Longrightarrow> longest n w = longest n all"
proof (rule longest_cong)
  assume w: "w = take (length w) all" and n: "n \<le> length w"
  have "take n w = take n (take (length w) all)" by (rule arg_cong [OF w])
  then show "take n w = take n all" using n by (simp add: min_def)
qed

lemma first_char_runs: "run 1 [x] \<noteq> 78"
  using admitted_run [of "[x]"] admitted_single [of x] by (auto simp: accept_78)

lemma find_action_run:
  assumes f: "frame L st B b y" and c: "blocks st (yy_ch_buf b) = Some cs" "contents cs (yy_n_chars st) (yy_buf_size b)"
    and all: "drop t (take (yy_n_chars st) cs) @ f_rest y = all" and w: "w = take (length w) all" "w \<noteq> []"
    and m: "token_length all = longest (length w) w" and n: "t + length w \<le> yy_n_chars st"
    and l: "yy_bp l = (yy_ch_buf b, t)" "yy_current_state l = run 1 w"
      "admitted w \<noteq> 0 \<Longrightarrow> yy_cp l = (yy_ch_buf b, t + length w)" "admitted w = 0 \<Longrightarrow> noted st (yy_ch_buf b) t w"
  shows "token_run L B all (Find_action l) st"
proof -
  have "0 < token_length all" unfolding m using w(2) by (intro longest_pos) auto
  moreover have "t + token_length all \<le> yy_n_chars st" using n m longest_le [of "length w" w] by simp
  ultimately obtain l' st' where "yy_run (Find_action l) st = yy_run (Do_action l') st'" "token_found L st' B all l'" "shown st' = shown st"
    using find_action_token [OF f c all w(1) m _ _ l] by blast
  moreover have "all \<noteq> []" using w by force
  ultimately show ?thesis by (auto simp: token_run_def)
qed

lemma take_snoc_at:
  assumes "w = take (length w) all" and "length w < length all" and "all ! length w = x"
  shows "w @ [x] = take (Suc (length w)) all" "w @ [x] = take (length (w @ [x])) all"
proof -
  have e: "w @ [x] = take (Suc (length w)) all"
    using take_Suc_conv_app_nth [OF assms(2)] assms(1,3) by simp
  show "w @ [x] = take (Suc (length w)) all" by (rule e)
  show "w @ [x] = take (length (w @ [x])) all" unfolding length_append_singleton by (rule e)
qed

lemma run_state_iff: "run 1 w \<noteq> 78 \<Longrightarrow> is_state (run 1 w)"
  using run_state [of 1 w] by (auto simp: is_state_def)

lemma class_in: "cls b \<in> {1..45}"
  by simp

lemma final_jams:
  assumes "at yy_base (run 1 w) = Some 127" and "run 1 w \<noteq> 78"
  shows "run 1 (w @ [x]) = 78" "admitted w \<noteq> 0"
proof -
  have b: "at yy_accept (run 1 w) \<noteq> Some 0" "\<forall>c \<in> {1..45}. yy_trans (run 1 w) c = Some 78"
    using base_state [OF run_state_iff [OF assms(2)]] assms(1) by auto
  show "run 1 (w @ [x]) = 78" using trans_word [of w x] b(2) class_in [of x] by (metis option.inject)
  show "admitted w \<noteq> 0" using b(1) by (simp add: admitted_run)
qed

lemma token_found_word:
  assumes w: "w = take (length w) all" "w \<noteq> []" and x: "length w < length all \<Longrightarrow> run 1 (w @ [all ! length w]) = 78"
  shows "token_length all = longest (length w) w"
proof (cases "length w < length all")
  case True
  then have "run 1 (take (Suc (length w)) all) = 78" using x take_snoc_at(1) [OF w(1) True refl] by simp
  from token_length_stuck [OF this] show ?thesis using True longest_word [OF w(1) order_refl] by simp
next
  case False
  then have "w = all" using w(1) by simp
  then show ?thesis by (simp add: token_length_def)
qed

text \<open>The same when the word itself is not admitted and nothing after it is.\<close>

lemma token_jam_word:
  assumes w: "w = take (length w) all" "w \<noteq> []" and j: "run 1 w = 78"
  shows "token_length all = longest (length w) w"
proof -
  obtain k where k: "length w = Suc k" using w(2) by (cases w) auto
  then have "run 1 (take (Suc k) all) = 78" using w(1) j by simp
  moreover have "k \<le> length all" using w k by (metis length_take min.cobounded1 Suc_leD)
  ultimately have "token_length all = longest k all" by (rule token_length_stuck)
  moreover have "admitted w = 0" using admitted_jam [OF j, of "[]"] by simp
  then have "longest (length w) w = longest k w" using k by simp
  moreover have "longest k w = longest k all" using k by (intro longest_word [OF w(1)]) simp
  ultimately show ?thesis by simp
qed

lemma text_nth:
  assumes "contents cs n m" and "t + i < n"
  shows "drop t (take n cs) @ r \<noteq> []" "(drop t (take n cs) @ r) ! i = cs ! (t + i)" "i < length (drop t (take n cs) @ r)"
  using assms by (auto simp: contents_def nth_append)

lemma nul_action_word:
  assumes c: "blocks st a = Some cs" "take (length w) (drop t cs) = w"
    and p: "yytext st = Some (a, t)" "yy_start st = 1" and s: "run 1 w \<noteq> 78"
  obtains st' where
    "nul_action l (a, t) (length w) st =
       Done (if run 1 (w @ [CHR 0x00]) = 78
             then Find_action (l\<lparr>yy_cp := (a, t + length w), yy_bp := (a, t), yy_current_state := run 1 w\<rparr>)
             else Match (l\<lparr>yy_cp := (a, t + length (w @ [CHR 0x00])), yy_bp := (a, t), yy_current_state := run 1 (w @ [CHR 0x00])\<rparr>)) st'"
    "noted st' a t (w @ [CHR 0x00])" "same_frame st st'" "blocks st' = blocks st" "yy_n_chars st' = yy_n_chars st"
    "yytext st' = yytext st" "shown st' = shown st"
proof -
  let ?st1 = "st\<lparr>yy_c_buf_p := Some (a, t + length w)\<rparr>"
  obtain st2 where st2: "yy_get_previous_state ?st1 = Done (run 1 w) st2" "last_noted ?st1 st2" "noted st2 a t w"
    using previous_state_word [of ?st1 a cs t w] c p by auto
  obtain st3 where st3: "note_accept (run 1 w) (a, t + length w) st2 = Done () st3" "last_noted st2 st3"
      "noted st3 a t (w @ [CHR 0x00])"
    using note_accept_word [OF st2(3)] by metis
  have n3: "last_noted ?st1 st3" using last_noted_trans [OF st2(2) st3(2)] .
  have p2: "yy_c_buf_p st2 = Some (a, t + length w)" using last_notedD(3) [OF st2(2)] by simp
  have t: "yy_trans (run 1 w) 1 = Some (run 1 (w @ [CHR 0x00]))" using trans_word [of w "CHR 0x00"] by simp
  have z: "run 1 (w @ [CHR 0x00]) \<noteq> 0" using run_state [of 1 "w @ [CHR 0x00]"] by (auto simp: is_state_def)
  have tn: "yy_try_NUL_trans (run 1 w) st2 = Done (if run 1 (w @ [CHR 0x00]) = 78 then 0 else run 1 (w @ [CHR 0x00])) st3"
    using p2 st3(1) t by (simp add: yy_try_NUL_trans_def del: run_simps(3))
  show thesis
  proof (cases "run 1 (w @ [CHR 0x00]) = 78")
    case True
    have "nul_action l (a, t) (length w) st =
        Done (Find_action (l\<lparr>yy_cp := (a, t + length w), yy_bp := (a, t), yy_current_state := run 1 w\<rparr>)) st3"
      using True st2(1) tn by (simp add: nul_action_def Let_def del: run_simps(3))
    with that [of st3] True n3 st3(3) show thesis by (auto simp: last_noted_def same_frame_def shown_def out_of_def simp del: run_simps(3))
  next
    case False
    let ?st4 = "st3\<lparr>yy_c_buf_p := Some (a, t + length w + 1)\<rparr>"
    have "nul_action l (a, t) (length w) st =
        Done (Match (l\<lparr>yy_cp := (a, t + length (w @ [CHR 0x00])), yy_bp := (a, t), yy_current_state := run 1 (w @ [CHR 0x00])\<rparr>)) ?st4"
      using False z st2(1) tn by (simp add: nul_action_def Let_def del: run_simps(3))
    moreover have "noted ?st4 a t (w @ [CHR 0x00])" using st3(3) by (simp add: noted_def)
    ultimately show thesis
      using that [of ?st4] False n3 by (auto simp: last_noted_def same_frame_def shown_def out_of_def simp del: run_simps(3))
  qed
qed

lemma yy_run_Return [simp]: "yy_run (Return r) st = Some (Done r st)"
  by (subst yy_run.simps) simp

lemma yy_run_do: "do_action l st = Done g st' \<Longrightarrow> yy_run (Do_action l) st = yy_run g st'"
  by (subst yy_run.simps) (simp add: yy_step_def)

lemma match_token_char:
  assumes f: "frame L st B b y" and c: "blocks st (yy_ch_buf b) = Some cs" "contents cs (yy_n_chars st) (yy_buf_size b)"
    and all: "drop t (take (yy_n_chars st) cs) @ f_rest y = all" and w: "w = take (length w) all"
    and n: "t + length w < yy_n_chars st" "cs ! (t + length w) \<noteq> CHR 0x00"
    and l: "l = \<lparr>yy_cp = (yy_ch_buf b, t + length w), yy_bp = (yy_ch_buf b, t), yy_current_state = run 1 w, yy_act = k\<rparr>"
    and s: "run 1 w \<noteq> 78" "noted st (yy_ch_buf b) t w"
    and IH: "\<And>st' x. frame L st' B b y \<Longrightarrow> blocks st' = blocks st \<Longrightarrow> yy_n_chars st' = yy_n_chars st \<Longrightarrow>
      w @ [x] = take (length (w @ [x])) all \<Longrightarrow> length w < length all \<Longrightarrow> run 1 (w @ [x]) \<noteq> 78 \<Longrightarrow> noted st' (yy_ch_buf b) t (w @ [x]) \<Longrightarrow>
      token_run L B all (Match \<lparr>yy_cp = (yy_ch_buf b, t + length (w @ [x])), yy_bp = (yy_ch_buf b, t),
        yy_current_state = run 1 (w @ [x]), yy_act = k\<rparr>) st'"
  shows "token_run L B all (Match l) st"
proof -
  let ?x = "cs ! (t + length w)"
  let ?w = "w @ [?x]"
  have i: "t + length w < length cs" using c(2) n(1) by (simp add: contents_def)
  have x: "length w < length all" "all ! length w = ?x" 
    using text_nth(3,2) [OF c(2) n(1), of "f_rest y"] unfolding all by auto
  have w': "?w = take (length ?w) all" using take_snoc_at(2) [OF w x] .
  obtain base where base: "at yy_base (run 1 ?w) = Some base"
    using base_state [OF run_state_iff, of ?w] table_78(1) by metis
  let ?l = "\<lparr>yy_cp = (yy_ch_buf b, t + length ?w), yy_bp = (yy_ch_buf b, t), yy_current_state = run 1 ?w, yy_act = k\<rparr>"
  obtain st' where st': "yy_run (Match l) st = yy_run (if base \<noteq> 127 then Match ?l else Find_action ?l) st'"
      "last_noted st st'" "noted st' (yy_ch_buf b) t ?w"
    using match_char_word [OF c(1) i refl n(2) l s(2) base] unfolding Let_def by metis
  have f': "frame L st' B b y" using f by (simp only: last_notedD(7) [OF st'(2)])
  note d = last_notedD(1,4,6) [OF st'(2)]
  show ?thesis
  proof (cases "base = 127")
    case True
    have tl: "token_length all = longest (length ?w) ?w"
    proof (cases "run 1 ?w = 78")
      case True
      show ?thesis by (rule token_jam_word [OF w' _ True]) simp
    next
      case False
      have b: "at yy_base (run 1 ?w) = Some 127" using base True by simp
      show ?thesis by (rule token_found_word [OF w' _ final_jams(1) [OF b False]]) simp
    qed
    have "token_run L B all (Find_action ?l) st'"
      by (rule find_action_run [OF f' _ _ _ w' _ tl]) (use c all n(1) st'(3) d in \<open>simp_all del: run_simps(3)\<close>)
    then show ?thesis by (rule token_run_step [rotated 2]) (use st'(1) True d in \<open>simp_all del: run_simps(3)\<close>)
  next
    case False
    then have "run 1 ?w \<noteq> 78" using base table_78(1) by auto
    from IH [OF f' d(1,2) w' x(1) this st'(3)]
    show ?thesis by (rule token_run_step [rotated 2]) (use st'(1) False d in \<open>simp_all del: run_simps(3)\<close>)
  qed
qed

lemma take_word:
  assumes "w = take (length w) all" and "drop t (take n cs) @ r = all" and "t + length w \<le> n" "n \<le> length cs"
  shows "take (length w) (drop t cs) = w"
proof -
  have "take (length w) all = take (length w) (drop t (take n cs) @ r)" using assms(2) by simp
  also have "\<dots> = take (length w) (drop t (take n cs))" using assms(3,4) by simp
  also have "\<dots> = take (length w) (drop t cs)" using assms(3) by (simp add: drop_take min_def)
  finally show ?thesis using assms(1) by simp
qed

lemma match_token_NUL:
  assumes f: "frame L st B b y" and c: "blocks st (yy_ch_buf b) = Some cs" "contents cs (yy_n_chars st) (yy_buf_size b)"
    and all: "drop t (take (yy_n_chars st) cs) @ f_rest y = all" and w: "w = take (length w) all"
    and n: "t + length w < yy_n_chars st" "cs ! (t + length w) = CHR 0x00"
    and l: "l = \<lparr>yy_cp = (yy_ch_buf b, t + length w), yy_bp = (yy_ch_buf b, t), yy_current_state = run 1 w, yy_act = k\<rparr>"
    and s: "run 1 w \<noteq> 78"
    and IH: "\<And>st' b' x l'. frame L st' B b' y \<Longrightarrow> yy_ch_buf b' = yy_ch_buf b \<Longrightarrow> blocks st' (yy_ch_buf b) = Some cs \<Longrightarrow>
      contents cs (yy_n_chars st') (yy_buf_size b') \<Longrightarrow> yy_n_chars st' = yy_n_chars st \<Longrightarrow>
      w @ [x] = take (length (w @ [x])) all \<Longrightarrow> length w < length all \<Longrightarrow> run 1 (w @ [x]) \<noteq> 78 \<Longrightarrow> noted st' (yy_ch_buf b) t (w @ [x]) \<Longrightarrow>
      yy_cp l' = (yy_ch_buf b, t + length (w @ [x])) \<Longrightarrow> yy_bp l' = (yy_ch_buf b, t) \<Longrightarrow> yy_current_state l' = run 1 (w @ [x]) \<Longrightarrow>
      token_run L B all (Match l') st'"
  shows "token_run L B all (Match l) st"
proof -
  let ?i = "t + length w" and ?w = "w @ [CHR 0x00]"
  have i: "?i + 1 < length cs" using c(2) n(1) by (simp add: contents_def)
  have x: "length w < length all" "all ! length w = CHR 0x00"
    using text_nth(3,2) [OF c(2) n(1), of "f_rest y"] n(2) unfolding all by auto
  from match_NUL [OF f c(1) i n(2) _ l run_state_iff [OF s]] obtain l1 st1 where r1:
    "yy_run (Match l) st = yy_run (Do_action l1) st1" "frame L st1 B b y"
    "blocks st1 (yy_ch_buf b) = Some (cs[?i + 1 := CHR 0x00])" "yy_hold_char st1 = cs ! (?i + 1)"
    "yytext st1 = Some (yy_ch_buf b, t)" "yy_c_buf_p st1 = Some (yy_ch_buf b, ?i + 1)" "shown st1 = shown st"
    "yy_n_chars st1 = yy_n_chars st" "yy_act l1 = 11" "yy_cp l1 = (yy_ch_buf b, ?i + 1)" by auto
  from end_of_buffer_enter [OF r1(2,3) i _ r1(4,5,6,9,10)] obtain st2 b2 where r2:
    "frame L st2 B b2 y" "yy_ch_buf b2 = yy_ch_buf b" "yy_buf_size b2 = yy_buf_size b"
    "blocks st2 (yy_ch_buf b) = Some cs" "yytext st2 = Some (yy_ch_buf b, t)"
    "yy_n_chars st2 = yy_n_chars st1" "shown st2 = shown st1"
    "do_action l1 st1 =
       (if ?i < yy_n_chars st1 then nul_action l1 (yy_ch_buf b, t) (?i - t)
        else bind_to yy_get_next_buffer (\<lambda>r.
         case r of
           EOB_ACT_END_OF_FILE \<Rightarrow> end_of_file l1
         | EOB_ACT_CONTINUE_SCAN \<Rightarrow> continue_scan l1 (?i - t)
         | EOB_ACT_LAST_MATCH \<Rightarrow> last_match l1)) st2" using le_add1 by metis
  have d2: "do_action l1 st1 = nul_action l1 (yy_ch_buf b, t) (length w) st2"
    unfolding r2(8) using n(1) r1(8) by simp
  have tw: "take (length w) (drop t cs) = w"
    by (rule take_word [OF w all]) (use n(1) c(2) in \<open>simp_all add: contents_def\<close>)
  from nul_action_word [OF r2(4) tw r2(5) frame_size(7) [OF r2(1)] s] obtain st3 where r3:
    "nul_action l1 (yy_ch_buf b, t) (length w) st2 =
       Done (if run 1 ?w = 78
             then Find_action (l1\<lparr>yy_cp := (yy_ch_buf b, ?i), yy_bp := (yy_ch_buf b, t), yy_current_state := run 1 w\<rparr>)
             else Match (l1\<lparr>yy_cp := (yy_ch_buf b, t + length ?w), yy_bp := (yy_ch_buf b, t), yy_current_state := run 1 ?w\<rparr>)) st3"
    "noted st3 (yy_ch_buf b) t ?w" "same_frame st2 st3" "blocks st3 = blocks st2" "yy_n_chars st3 = yy_n_chars st2"
    "yytext st3 = yytext st2" "shown st3 = shown st2" by metis
  have f3: "frame L st3 B b2 y" by (rule frame_same [OF r2(1) r3(3) r3(5)])
  have c3: "blocks st3 (yy_ch_buf b2) = Some cs" "contents cs (yy_n_chars st3) (yy_buf_size b2)"
    using c(2) r2 r3 r1(8) by simp_all
  have n3: "yy_n_chars st3 = yy_n_chars st" "shown st3 = shown st" using r1 r2 r3 by simp_all
  show ?thesis
  proof (cases "run 1 ?w = 78")
    case True
    let ?l = "l1\<lparr>yy_cp := (yy_ch_buf b, ?i), yy_bp := (yy_ch_buf b, t), yy_current_state := run 1 w\<rparr>"
    have w0: "w \<noteq> []" using True first_char_runs [of "CHR 0x00"] by auto
    have tl: "token_length all = longest (length w) w" using True x by (intro token_found_word [OF w w0]) simp
    have nt: "admitted w = 0 \<Longrightarrow> noted st3 (yy_ch_buf b2) t w" using r3(2) r2(2) noted_snoc by simp
    have "token_run L B all (Find_action ?l) st3"
      by (rule find_action_run [OF f3 c3 _ w w0 tl _ _ _ _ nt]) (use all n(1) n3 r2(2) in simp_all)
    then show ?thesis
      by (rule token_run_step [rotated 2]) (use True r1(1) yy_run_do d2 r3(1) n3 in \<open>simp_all del: run_simps(3)\<close>)
  next
    case False
    let ?l = "l1\<lparr>yy_cp := (yy_ch_buf b, t + length ?w), yy_bp := (yy_ch_buf b, t), yy_current_state := run 1 ?w\<rparr>"
    have "token_run L B all (Match ?l) st3"
      by (rule IH [OF f3 r2(2) _ c3(2) n3(1) take_snoc_at(2) [OF w x] x(1) False r3(2)]) (use c3 r2(2) in simp_all)
    then show ?thesis
      by (rule token_run_step [rotated 2]) (use False r1(1) yy_run_do d2 r3(1) n3 in \<open>simp_all del: run_simps(3)\<close>)
  qed
qed

text \<open>The end of the buffer in the middle of the token.\<close>

lemma match_token_refill:
  assumes f: "frame L st B b y" and c: "blocks st (yy_ch_buf b) = Some cs" "contents cs (yy_n_chars st) (yy_buf_size b)"
    and all: "drop t (take (yy_n_chars st) cs) @ f_rest y = all" and w: "w = take (length w) all"
    and n: "t + length w = yy_n_chars st" "length all \<le> L"
    and l: "l = \<lparr>yy_cp = (yy_ch_buf b, t + length w), yy_bp = (yy_ch_buf b, t), yy_current_state = run 1 w, yy_act = k\<rparr>"
    and s: "run 1 w \<noteq> 78"
    and IH: "\<And>st' b' j cs' l'. frame L st' B b' (y\<lparr>f_rest := drop j (f_rest y)\<rparr>) \<Longrightarrow> 0 < j \<Longrightarrow> j \<le> length (f_rest y) \<Longrightarrow>
      blocks st' (yy_ch_buf b') = Some cs' \<Longrightarrow> contents cs' (yy_n_chars st') (yy_buf_size b') \<Longrightarrow>
      drop 0 (take (yy_n_chars st') cs') @ drop j (f_rest y) = all \<Longrightarrow> length w \<le> yy_n_chars st' \<Longrightarrow> noted st' (yy_ch_buf b') 0 w \<Longrightarrow>
      yy_cp l' = (yy_ch_buf b', length w) \<Longrightarrow> yy_bp l' = (yy_ch_buf b', 0) \<Longrightarrow> yy_current_state l' = run 1 w \<Longrightarrow>
      token_run L B all (Match l') st'"
  shows "token_run L B all (Match l) st"
proof -
  let ?n = "yy_n_chars st"
  have i: "?n + 1 < length cs" "cs ! ?n = CHR 0x00" "t \<le> ?n" using c(2) n(1) by (simp_all add: contents_def)
  have tw: "drop t (take ?n cs) = w"
  proof -
    have "take (length w) (drop t cs) = w"
      by (rule take_word [OF w all]) (use n(1) c(2) in \<open>simp_all add: contents_def\<close>)
    moreover have "?n - t = length w" using n(1) by simp
    ultimately show ?thesis by (simp only: drop_take)
  qed
  from match_NUL [OF f c(1) i l [unfolded n(1)] run_state_iff [OF s]] obtain l1 st1 where r1:
    "yy_run (Match l) st = yy_run (Do_action l1) st1" "frame L st1 B b y"
    "blocks st1 (yy_ch_buf b) = Some (cs[?n + 1 := CHR 0x00])" "yy_hold_char st1 = cs ! (?n + 1)"
    "yytext st1 = Some (yy_ch_buf b, t)" "yy_c_buf_p st1 = Some (yy_ch_buf b, ?n + 1)" "shown st1 = shown st"
    "yy_n_chars st1 = ?n" "yy_act l1 = 11" "yy_cp l1 = (yy_ch_buf b, ?n + 1)" by metis
  from end_of_buffer_enter [OF r1(2,3) i(1,3) r1(4,5,6,9,10)] obtain st2 b2 where r2:
    "frame L st2 B b2 y" "yy_buffer_status b2 \<noteq> YY_BUFFER_NEW" "yy_ch_buf b2 = yy_ch_buf b" "yy_buf_size b2 = yy_buf_size b"
    "blocks st2 (yy_ch_buf b) = Some cs" "yytext st2 = Some (yy_ch_buf b, t)" "yy_c_buf_p st2 = Some (yy_ch_buf b, ?n + 1)"
    "yy_n_chars st2 = yy_n_chars st1" "shown st2 = shown st1"
    "do_action l1 st1 =
       (if ?n < yy_n_chars st1 then nul_action l1 (yy_ch_buf b, t) (?n - t)
        else bind_to yy_get_next_buffer (\<lambda>r.
         case r of
           EOB_ACT_END_OF_FILE \<Rightarrow> end_of_file l1
         | EOB_ACT_CONTINUE_SCAN \<Rightarrow> continue_scan l1 (?n - t)
         | EOB_ACT_LAST_MATCH \<Rightarrow> last_match l1)) st2" by metis
  have d2: "do_action l1 st1 = (bind_to yy_get_next_buffer (\<lambda>r.
         case r of
           EOB_ACT_END_OF_FILE \<Rightarrow> end_of_file l1
         | EOB_ACT_CONTINUE_SCAN \<Rightarrow> continue_scan l1 (?n - t)
         | EOB_ACT_LAST_MATCH \<Rightarrow> last_match l1)) st2"
    unfolding r2(10) using r1(8) by simp
  have len: "?n - t = length w" using n(1) by simp
  have c2: "blocks st2 (yy_ch_buf b2) = Some cs" "contents cs (yy_n_chars st2) (yy_buf_size b2)"
    and p2: "yy_c_buf_p st2 = Some (yy_ch_buf b2, yy_n_chars st2 + 1)" "yytext st2 = Some (yy_ch_buf b2, t)"
    and n2: "yy_n_chars st2 = ?n" "shown st2 = shown st"
    using c(2) r1 r2 by simp_all
  have m: "yy_n_chars st2 - t \<le> L" using n n2 all by (auto simp: tw)
  have t2: "t \<le> yy_n_chars st2" using i(3) n2 by simp
  show ?thesis
  proof (cases "f_rest y = []")
    case False
    from get_next_buffer_reads [OF r2(1) c2 p2 t2 m r2(2) False] obtain st3 b3 j where g:
      "yy_get_next_buffer st2 = Done EOB_ACT_CONTINUE_SCAN st3" "0 < j" "refilled L st2 B b2 y w j b3 st3"
      unfolding n2 tw by metis
    from refilled_token [OF g(3)] obtain cs3 where r3:
      "frame L st3 B b3 (y\<lparr>f_rest := drop j (f_rest y)\<rparr>)" "blocks st3 (yy_ch_buf b3) = Some cs3"
      "contents cs3 (yy_n_chars st3) (yy_buf_size b3)" "yy_n_chars st3 = length w + j" "take (length w) cs3 = w"
      "yytext st3 = Some (yy_ch_buf b3, 0)" "shown st3 = shown st2" "j \<le> length (f_rest y)"
      "take (yy_n_chars st3) cs3 @ drop j (f_rest y) = w @ f_rest y" by metis
    let ?st4 = "st3\<lparr>yy_c_buf_p := Some (yy_ch_buf b3, length w)\<rparr>"
    obtain st5 where r5: "yy_get_previous_state ?st4 = Done (run 1 w) st5" "last_noted ?st4 st5" "noted st5 (yy_ch_buf b3) 0 w"
      using previous_state_word [of ?st4 "yy_ch_buf b3" cs3 0 w] r3(2,5,6) frame_size(7) [OF r3(1)] by auto
    let ?l = "l1\<lparr>yy_cp := (yy_ch_buf b3, length w), yy_bp := (yy_ch_buf b3, 0), yy_current_state := run 1 w\<rparr>"
    have d: "do_action l1 st1 = Done (Match ?l) st5"
      unfolding d2 using g(1) r3(6) r5(1) by (simp add: continue_scan_def len)
    note ln = last_notedD [OF r5(2)]
    have f5: "frame L st5 B b3 (y\<lparr>f_rest := drop j (f_rest y)\<rparr>)" unfolding ln(7) using r3(1) by simp
    have "token_run L B all (Match ?l) st5"
      by (rule IH [OF f5 g(2) r3(8)]) (use r3 r5 ln(1,4) all tw in simp_all)
    moreover have "shown st5 = shown st" using ln(6) r3(7) n2 by simp
    ultimately show ?thesis using r1(1) yy_run_do [OF d] by (intro token_run_step [of "Match l" st "Match ?l" st5]) simp_all
  next
    case True
    then have aw: "all = w" using all tw by simp
    show ?thesis
    proof (cases "t < ?n")
      case True
      then have t2': "t < yy_n_chars st2" using n2 by simp
      from get_next_buffer_pending [OF r2(1) c2 p2 t2' m r2(2) \<open>f_rest y = []\<close>] obtain st3 b3 where g:
        "yy_get_next_buffer st2 = Done EOB_ACT_LAST_MATCH st3" "refilled L st2 B b2 y w 0 b3 st3"
        unfolding n2 tw by metis
      from refilled_token [OF g(2)] obtain cs3 where r3:
        "frame L st3 B b3 (y\<lparr>f_rest := drop 0 (f_rest y)\<rparr>)" "blocks st3 (yy_ch_buf b3) = Some cs3"
        "contents cs3 (yy_n_chars st3) (yy_buf_size b3)" "yy_n_chars st3 = length w + 0" "take (length w) cs3 = w"
        "yytext st3 = Some (yy_ch_buf b3, 0)" "shown st3 = shown st2" by metis
      let ?st4 = "st3\<lparr>yy_c_buf_p := Some (yy_ch_buf b3, length w)\<rparr>"
      obtain st5 where r5: "yy_get_previous_state ?st4 = Done (run 1 w) st5" "last_noted ?st4 st5" "noted st5 (yy_ch_buf b3) 0 w"
        using previous_state_word [of ?st4 "yy_ch_buf b3" cs3 0 w] r3(2,5,6) frame_size(7) [OF r3(1)] by auto
      note ln = last_notedD [OF r5(2)]
      let ?l = "l1\<lparr>yy_cp := (yy_ch_buf b3, length w), yy_bp := (yy_ch_buf b3, 0), yy_current_state := run 1 w\<rparr>"
      have d: "do_action l1 st1 = Done (Find_action ?l) st5"
        unfolding d2 using g(1) r3(4,6) r5(1) ln(2) by (simp add: last_match_def frame_current [OF r3(1)])
      have f5: "frame L st5 B b3 (y\<lparr>f_rest := drop 0 (f_rest y)\<rparr>)" unfolding ln(7) using r3(1) by simp
      have w0: "w \<noteq> []" using True n(1) by auto
      have c5: "blocks st5 (yy_ch_buf b3) = Some cs3" "contents cs3 (yy_n_chars st5) (yy_buf_size b3)"
        using r3 ln(1,4) by simp_all
      have "token_run L B all (Find_action ?l) st5"
        by (rule find_action_run [OF f5 c5 _ w w0]) (use r3(4,5) ln(4) r5(3) aw \<open>f_rest y = []\<close> in \<open>simp_all add: token_length_def\<close>)
      moreover have "shown st5 = shown st" using ln(6) r3(7) n2 by simp
      ultimately show ?thesis using r1(1) yy_run_do [OF d] by (intro token_run_step [of "Match l" st "Find_action ?l" st5]) simp_all
    next
      case False
      then have tn: "t = ?n" using n(1) by simp
      have p2': "yytext st2 = Some (yy_ch_buf b2, yy_n_chars st2)" using p2(2) tn n2 by simp
      from get_next_buffer_end [OF r2(1) c2 p2(1) p2' \<open>f_rest y = []\<close>] obtain st3 b3 where g:
        "yy_get_next_buffer st2 = Done EOB_ACT_END_OF_FILE st3" "refilled L st2 B b2 y [] 0 b3 st3" by metis
      from refilled_token [OF g(2)] obtain y3 where r3: "yytext st3 = Some (yy_ch_buf b3, 0)" "shown st3 = shown st2" "yy_start st3 = 1"
        "frame L st3 B b3 y3"
        using frame_size(7) by metis
      let ?st4 = "st3\<lparr>yy_did_buffer_switch_on_eof := False, yy_c_buf_p := Some (yy_ch_buf b3, 0)\<rparr>"
      have d: "do_action l1 st1 = Done (Do_action (l1\<lparr>yy_act := 12\<rparr>)) ?st4"
        unfolding d2 using g(1) r3 by (simp add: end_of_file_def YY_END_OF_BUFFER_def)
      have "do_action (l1\<lparr>yy_act := 12\<rparr>) ?st4 = Done (Return 0) ?st4"
        by (simp add: do_action_def Let_def YY_END_OF_BUFFER_def)
      then have d3: "yy_run (Do_action (l1\<lparr>yy_act := 12\<rparr>)) ?st4 = Some (Done 0 ?st4)" by (simp add: yy_run_do)
      have "frame L ?st4 B b3 y3" using r3(4) by simp
      moreover have e4: "shown ?st4 = shown st" using r3(2) n2 by simp
      moreover have "all = []" using aw tn n(1) by simp
      ultimately show ?thesis unfolding token_run_def r1(1) yy_run_do [OF d] d3
        using e4 by (simp only: if_True simp_thms) blast
    qed
  qed
qed

theorem match_token:
  assumes "frame L st B b y" and "blocks st (yy_ch_buf b) = Some cs" and "contents cs (yy_n_chars st) (yy_buf_size b)"
    and "drop t (take (yy_n_chars st) cs) @ f_rest y = all" and "w = take (length w) all"
    and "t + length w \<le> yy_n_chars st" and "length all \<le> L"
    and "yy_cp l = (yy_ch_buf b, t + length w)" "yy_bp l = (yy_ch_buf b, t)" "yy_current_state l = run 1 w"
    and "run 1 w \<noteq> 78" and "noted st (yy_ch_buf b) t w"
  shows "token_run L B all (Match l) st"
  using assms
proof (induction "(length (f_rest y), length all - length w)" arbitrary: st b y cs t w l
    rule: wf_induct_rule [OF wf_lex_prod [OF wf_less_than wf_less_than]])
  case (1 y w st b cs t l)
  note IH = 1(1) and p = 1(2-)
  have l: "l = \<lparr>yy_cp = (yy_ch_buf b, t + length w), yy_bp = (yy_ch_buf b, t), yy_current_state = run 1 w, yy_act = yy_act l\<rparr>"
    using p(8-10) by (cases l) simp
  have shorter: "((length (f_rest y'), length all - length (w @ [x])), (length (f_rest y), length all - length w)) \<in> less_than <*lex*> less_than"
    if "f_rest y' = f_rest y" "length w < length all" for y' :: yy_file and x using that by simp
  consider "t + length w = yy_n_chars st" | "t + length w < yy_n_chars st" "cs ! (t + length w) = CHR 0x00"
    | "t + length w < yy_n_chars st" "cs ! (t + length w) \<noteq> CHR 0x00" using p(6) by linarith
  then show ?case
  proof cases
    case 1
    show ?thesis
    proof (rule match_token_refill [OF p(1-5) 1 p(7) l p(11)])
      fix st' b' j cs' and l' :: locals
      assume a: "frame L st' B b' (y\<lparr>f_rest := drop j (f_rest y)\<rparr>)" "0 < j" "j \<le> length (f_rest y)"
        "blocks st' (yy_ch_buf b') = Some cs'" "contents cs' (yy_n_chars st') (yy_buf_size b')"
        "drop 0 (take (yy_n_chars st') cs') @ drop j (f_rest y) = all" "length w \<le> yy_n_chars st'"
        "noted st' (yy_ch_buf b') 0 w" "yy_cp l' = (yy_ch_buf b', length w)" "yy_bp l' = (yy_ch_buf b', 0)"
        "yy_current_state l' = run 1 w"
      show "token_run L B all (Match l') st'"
        by (rule IH [OF _ a(1,4,5) _ p(5) _ p(7) _ a(10,11) p(11) a(8)]) (use a in simp_all)
    qed
  next
    case 2
    show ?thesis
    proof (rule match_token_NUL [OF p(1-5) 2 l p(11)])
      fix st' b' x and l' :: locals
      assume a: "frame L st' B b' y" "yy_ch_buf b' = yy_ch_buf b" "blocks st' (yy_ch_buf b) = Some cs"
        "contents cs (yy_n_chars st') (yy_buf_size b')" "yy_n_chars st' = yy_n_chars st"
        "w @ [x] = take (length (w @ [x])) all" "length w < length all" "run 1 (w @ [x]) \<noteq> 78"
        "noted st' (yy_ch_buf b) t (w @ [x])" "yy_cp l' = (yy_ch_buf b, t + length (w @ [x]))"
        "yy_bp l' = (yy_ch_buf b, t)" "yy_current_state l' = run 1 (w @ [x])"
      show "token_run L B all (Match l') st'"
        by (rule IH [OF shorter [OF refl a(7), of x] a(1) _ a(4) _ a(6) _ p(7) _ _ a(12,8)])
          (use a(2,3,5,9-11) p(4) 2(1) in simp_all)
    qed
  next
    case 3
    show ?thesis
    proof (rule match_token_char [OF p(1-5) 3 l p(11,12)])
      fix st' x
      assume a: "frame L st' B b y" "blocks st' = blocks st" "yy_n_chars st' = yy_n_chars st"
        "w @ [x] = take (length (w @ [x])) all" "length w < length all" "run 1 (w @ [x]) \<noteq> 78"
        "noted st' (yy_ch_buf b) t (w @ [x])"
      let ?l = "\<lparr>yy_cp = (yy_ch_buf b, t + length (w @ [x])), yy_bp = (yy_ch_buf b, t),
        yy_current_state = run 1 (w @ [x]), yy_act = yy_act l\<rparr>"
      show "token_run L B all (Match ?l) st'"
        by (rule IH [OF shorter [OF refl a(5), of x] a(1) _ _ _ a(4) _ p(7) _ _ _ a(6,7)])
          (use a(2,3) p(2-4) 3(1) in simp_all)
    qed
  qed
qed

end
