(* ===== verification/ScanComment.thy ===== *)
theory ScanComment
  imports ScanMatch
begin

text \<open>
  Between two tokens: reading single characters with \<open>input\<close>, and the comment rule. At the end of
  the file \<open>input\<close> returns 0 for ever, so an unterminated comment runs over its array.
\<close>

section \<open>Between tokens\<close>

text \<open>
  \<open>d\<close> is the length of the last token as far as it is kept in the buffer, \<open>rest\<close> the text that is still to
  be read. The character at \<open>yy_c_buf_p\<close> is the one that is held.
\<close>

definition between :: "nat \<Rightarrow> scanner \<Rightarrow> addr \<Rightarrow> nat \<Rightarrow> cstring \<Rightarrow> bool" where
  "between L st B d rest \<longleftrightarrow>
     (\<exists>b y cs t z. frame L st B b y \<and> contents cs (yy_n_chars st) (yy_buf_size b) \<and>
        blocks st (yy_ch_buf b) = Some (cs[t + d := z]) \<and> yy_hold_char st = cs ! (t + d) \<and>
        yytext st = Some (yy_ch_buf b, t) \<and> yy_c_buf_p st = Some (yy_ch_buf b, t + d) \<and>
        t + d \<le> yy_n_chars st \<and> drop (t + d) (take (yy_n_chars st) cs) @ f_rest y = rest \<and> d + length rest \<le> L)"

lemma at_action_between:
  assumes "at_action L st B all m" and "m \<le> length all" and "length all \<le> L"
  shows "between L st B m (drop m all)"
proof -
  from assms(1) obtain b y cs t where a: "frame L st B b y" "contents cs (yy_n_chars st) (yy_buf_size b)"
    "blocks st (yy_ch_buf b) = Some (cs[t + m := CHR 0x00])" "yy_hold_char st = cs ! (t + m)"
    "yytext st = Some (yy_ch_buf b, t)" "yy_c_buf_p st = Some (yy_ch_buf b, t + m)"
    "t + m \<le> yy_n_chars st" "drop t (take (yy_n_chars st) cs) @ f_rest y = all"
    unfolding at_action_def by blast
  have "length (drop t (take (yy_n_chars st) cs)) \<ge> m" using a(2,7) by (simp add: contents_def)
  then have "drop (t + m) (take (yy_n_chars st) cs) @ f_rest y = drop m all"
    unfolding a(8) [symmetric] by (simp add: add.commute)
  with a assms show ?thesis unfolding between_def
    by (intro exI [of _ b] exI [of _ y] exI [of _ cs] exI [of _ t] exI [of _ "CHR 0x00"]) simp
qed

lemma between_user: "between L (st\<lparr>usr := u\<rparr>) B d rest = between L st B d rest"
  by (simp add: between_def)

section \<open>input\<close>

lemma take_char_block:
  assumes "blocks st a = Some cs" and "yy_c_buf_p st = Some (a, i)" and "i + 1 < length cs"
  shows "take_char st = Done (of_char (cs ! i))
    (st\<lparr>blocks := (blocks st)(a \<mapsto> cs[i := CHR 0x00]), yy_c_buf_p := Some (a, i + 1), yy_hold_char := cs ! (i + 1)\<rparr>)"
  using assms by (simp add: take_char_def)

text \<open>
  A character is taken from the buffer: the state afterwards, given the block \<open>cs\<close> in which nothing is
  overwritten. The character becomes part of the token, and \<open>yytext\<close> ends with a zero byte.
\<close>

lemma take_char_between:
  assumes f: "frame L st B b y" and c: "blocks st (yy_ch_buf b) = Some cs" "contents cs (yy_n_chars st) (yy_buf_size b)"
    and p: "yytext st = Some (yy_ch_buf b, t)" "yy_c_buf_p st = Some (yy_ch_buf b, t + d)" "t + d < yy_n_chars st"
    and rest: "drop (t + d) (take (yy_n_chars st) cs) @ f_rest y = x # rest" and L: "d + 1 + length rest \<le> L"
  obtains st' where "take_char st = Done (of_char x) st'" "between L st' B (d + 1) rest" "shown st' = shown st"
proof -
  let ?n = "yy_n_chars st" and ?i = "t + d"
  have i: "?i + 1 < length cs" using c(2) p(3) by (simp add: contents_def)
  define st' where "st' = st\<lparr>blocks := (blocks st)(yy_ch_buf b \<mapsto> cs[?i := CHR 0x00]), yy_c_buf_p := Some (yy_ch_buf b, ?i + 1),
    yy_hold_char := cs ! (?i + 1)\<rparr>"
  have dr: "drop ?i (take ?n cs) = cs ! ?i # drop (?i + 1) (take ?n cs)"
    using p(3) i by (subst Cons_nth_drop_Suc [symmetric]) simp_all
  then have x: "cs ! ?i = x" "drop (?i + 1) (take ?n cs) @ f_rest y = rest" using rest by simp_all
  have tc: "take_char st = Done (of_char x) st'"
    using take_char_block [OF c(1) p(2) i] x(1) by (simp add: st'_def)
  let ?cs = "cs[?i := CHR 0x00]"
  have f': "frame L st' B b y" by (rule frame_same [OF f]) (simp_all add: st'_def same_frame_def)
  have c': "contents ?cs ?n (yy_buf_size b)" using c(2) p(3) by (simp add: contents_def)
  have e: "?cs[t + (d + 1) := cs ! (?i + 1)] = ?cs" using i
    by (simp add: list_update_swap [of ?i "Suc ?i"])
  have "between L st' B (d + 1) rest"
    unfolding between_def
    by (rule exI [of _ b], rule exI [of _ y], rule exI [of _ ?cs], rule exI [of _ t], rule exI [of _ "cs ! (?i + 1)"])
      (use f' c' e p x(2) L in \<open>simp add: st'_def drop_update_cancel take_update_swap\<close>)
  with that tc show thesis by (simp add: st'_def)
qed

text \<open>\<open>input\<close> returns the next character of the text.\<close>

lemma between_restore:
  assumes "between L st B d rest"
  obtains b y cs t st' where "restore_hold st = Done () st'" "frame L st' B b y" "contents cs (yy_n_chars st') (yy_buf_size b)"
    "blocks st' (yy_ch_buf b) = Some cs" "yytext st' = Some (yy_ch_buf b, t)" "yy_c_buf_p st' = Some (yy_ch_buf b, t + d)"
    "t + d \<le> yy_n_chars st'" "drop (t + d) (take (yy_n_chars st') cs) @ f_rest y = rest" "d + length rest \<le> L" "shown st' = shown st"
proof -
  from assms obtain b y cs t z where a: "frame L st B b y" "contents cs (yy_n_chars st) (yy_buf_size b)"
    "blocks st (yy_ch_buf b) = Some (cs[t + d := z])" "yy_hold_char st = cs ! (t + d)"
    "yytext st = Some (yy_ch_buf b, t)" "yy_c_buf_p st = Some (yy_ch_buf b, t + d)"
    "t + d \<le> yy_n_chars st" "drop (t + d) (take (yy_n_chars st) cs) @ f_rest y = rest" "d + length rest \<le> L"
    unfolding between_def by blast
  have i: "t + d < length cs" using a(2,7) by (simp add: contents_def)
  let ?st = "st\<lparr>blocks := (blocks st)(yy_ch_buf b \<mapsto> cs)\<rparr>"
  have "restore_hold st = Done () ?st"
    using restore_hold_block [OF a(6,3)] i a(4) by simp
  with that [of ?st b y cs t] a show thesis by simp
qed

lemma input_char:
  assumes bt: "between L st B d (x # rest)" and d: "0 < d"
  obtains st' where "yy_input st = Done (of_char x) st'" "between L st' B (d + 1) rest" "shown st' = shown st"
proof -
  from between_restore [OF bt] obtain b y cs t st1 where r: "restore_hold st = Done () st1" "frame L st1 B b y"
    "contents cs (yy_n_chars st1) (yy_buf_size b)" "blocks st1 (yy_ch_buf b) = Some cs" "yytext st1 = Some (yy_ch_buf b, t)"
    "yy_c_buf_p st1 = Some (yy_ch_buf b, t + d)" "t + d \<le> yy_n_chars st1"
    "drop (t + d) (take (yy_n_chars st1) cs) @ f_rest y = x # rest" "d + length (x # rest) \<le> L" "shown st1 = shown st"
    by metis
  let ?n = "yy_n_chars st1"
  have i: "t + d < length cs" using r(3,7) by (simp add: contents_def)
  have L: "d + 1 + length rest \<le> L" using r(9) by simp
  show thesis
  proof (cases "t + d < ?n")
    case True
    from take_char_between [OF r(2,4,3,5,6) True r(8) L] obtain st' where
      t: "take_char st1 = Done (of_char x) st'" "between L st' B (d + 1) rest" "shown st' = shown st1" by metis
    have "yy_input st = take_char st1"
    proof (cases "cs ! (t + d) = CHR 0x00")
      case z: True
      have "st1\<lparr>blocks := (blocks st1)(yy_ch_buf b \<mapsto> cs[t + d := CHR 0x00])\<rparr> = st1"
      proof -
        have "cs[t + d := CHR 0x00] = cs" using z by (metis list_update_id)
        then have "(blocks st1)(yy_ch_buf b \<mapsto> cs[t + d := CHR 0x00]) = blocks st1" using r(4) by (simp add: fun_upd_idem)
        then show ?thesis by simp
      qed
      then show ?thesis using r(1,4,6) i True z by (simp add: yy_input_def frame_current [OF r(2)])
    next
      case False
      then show ?thesis using r(1,4,6) i by (simp add: yy_input_def)
    qed
    with that t r(10) show thesis by simp
  next
    case False
    then have n: "t + d = ?n" using r(7) by simp
    have z: "cs ! (t + d) = CHR 0x00" using r(3) n by (simp add: contents_def)
    have fr: "f_rest y = x # rest" using r(3,8) n by (simp add: contents_def)
    let ?st2 = "st1\<lparr>yy_c_buf_p := Some (yy_ch_buf b, ?n + 1)\<rparr>"
    have f2: "frame L ?st2 B b y" using r(2) by simp
    have g: "blocks ?st2 (yy_ch_buf b) = Some cs" "contents cs (yy_n_chars ?st2) (yy_buf_size b)"
      "yy_c_buf_p ?st2 = Some (yy_ch_buf b, yy_n_chars ?st2 + 1)" "yytext ?st2 = Some (yy_ch_buf b, t)"
      "t \<le> yy_n_chars ?st2" "yy_n_chars ?st2 - t \<le> L" "f_rest y \<noteq> []"
      using r n fr by simp_all
    have nn: "yy_buffer_status b \<noteq> YY_BUFFER_NEW" using r(2) n d by (auto simp: frame_def)
    from get_next_buffer_reads [OF f2 g(1-6) nn g(7)] obtain st3 b3 j where s3:
      "yy_get_next_buffer ?st2 = Done EOB_ACT_CONTINUE_SCAN st3" "0 < j"
      "refilled L ?st2 B b y (drop t (take (yy_n_chars ?st2) cs)) j b3 st3" by metis
    let ?w = "drop t (take ?n cs)"
    have w: "length ?w = d" using r(3) n by (simp add: contents_def) 
    from refilled_token [OF s3(3)] obtain cs3 where r3':
      "frame L st3 B b3 (y\<lparr>f_rest := drop j (f_rest y)\<rparr>)" "blocks st3 (yy_ch_buf b3) = Some cs3"
      "contents cs3 (yy_n_chars st3) (yy_buf_size b3)" "yy_n_chars st3 = length (drop t (take (yy_n_chars ?st2) cs)) + j"
      "yytext st3 = Some (yy_ch_buf b3, 0)" "shown st3 = shown ?st2" "j \<le> length (f_rest y)"
      "take (yy_n_chars st3) cs3 @ drop j (f_rest y) = drop t (take (yy_n_chars ?st2) cs) @ f_rest y" by metis
    have r3:
      "frame L st3 B b3 (y\<lparr>f_rest := drop j (f_rest y)\<rparr>)" "blocks st3 (yy_ch_buf b3) = Some cs3"
      "contents cs3 (yy_n_chars st3) (yy_buf_size b3)" "yy_n_chars st3 = d + j"
      "yytext st3 = Some (yy_ch_buf b3, 0)" "shown st3 = shown st1" "j \<le> length (f_rest y)"
      "take (yy_n_chars st3) cs3 @ drop j (f_rest y) = ?w @ f_rest y" using r3' w by simp_all
    let ?st4 = "st3\<lparr>yy_c_buf_p := Some (yy_ch_buf b3, d)\<rparr>"
    have "drop d (take (yy_n_chars st3) cs3 @ drop j (f_rest y)) = x # rest" unfolding r3(8) using w fr by simp
    moreover have "d \<le> length (take (yy_n_chars st3) cs3)" using r3(3,4) by (simp add: contents_def)
    ultimately have dr: "drop (0 + d) (take (yy_n_chars ?st4) cs3) @ f_rest (y\<lparr>f_rest := drop j (f_rest y)\<rparr>) = x # rest" by simp
    have f4: "frame L ?st4 B b3 (y\<lparr>f_rest := drop j (f_rest y)\<rparr>)" using r3(1) by simp
    have c4: "blocks ?st4 (yy_ch_buf b3) = Some cs3" "contents cs3 (yy_n_chars ?st4) (yy_buf_size b3)"
      "yytext ?st4 = Some (yy_ch_buf b3, 0)" "yy_c_buf_p ?st4 = Some (yy_ch_buf b3, 0 + d)" "0 + d < yy_n_chars ?st4"
      using r3 s3(2) by simp_all
    from take_char_between [OF f4 c4 dr L] obtain st' where
      t: "take_char ?st4 = Done (of_char x) st'" "between L st' B (d + 1) rest" "shown st' = shown ?st4" by metis
    have "?n - t = d" using n by simp
    then have "yy_input st = take_char ?st4"
      using r(1,4,5,6) i z n s3(1) r3(5)
      by (simp add: yy_input_def input_more_def frame_current [OF r(2)])
    with that t r3(6) r(10) show thesis by simp
  qed
qed

text \<open>At the end of the file \<open>input\<close> returns 0, and does so again.\<close>

lemma input_end:
  assumes bt: "between L st B d []"
  obtains st' where "yy_input st = Done 0 st'" "between L st' B 0 []" "shown st' = shown st"
proof -
  from between_restore [OF bt] obtain b y cs t st1 where r: "restore_hold st = Done () st1" "frame L st1 B b y"
    "contents cs (yy_n_chars st1) (yy_buf_size b)" "blocks st1 (yy_ch_buf b) = Some cs" "yytext st1 = Some (yy_ch_buf b, t)"
    "yy_c_buf_p st1 = Some (yy_ch_buf b, t + d)" "t + d \<le> yy_n_chars st1"
    "drop (t + d) (take (yy_n_chars st1) cs) @ f_rest y = []" "d + length ([] :: cstring) \<le> L" "shown st1 = shown st"
    by metis
  let ?n = "yy_n_chars st1"
  have n: "t + d = ?n" "f_rest y = []" using r(3,7,8) by (auto simp: contents_def)
  have i: "t + d < length cs" using r(3,7) by (simp add: contents_def)
  have z: "cs ! (t + d) = CHR 0x00" using r(3) n by (simp add: contents_def)
  let ?st2 = "st1\<lparr>yy_c_buf_p := Some (yy_ch_buf b, ?n + 1)\<rparr>"
  have f2: "frame L ?st2 B b y" using r(2) by simp
  have g: "blocks ?st2 (yy_ch_buf b) = Some cs" "contents cs (yy_n_chars ?st2) (yy_buf_size b)"
    "yy_c_buf_p ?st2 = Some (yy_ch_buf b, yy_n_chars ?st2 + 1)" "yytext ?st2 = Some (yy_ch_buf b, t)"
    "yy_n_chars ?st2 - t \<le> L"
    using r n by simp_all
  have d': "?n - t = d" using n by simp
  have step: "yy_input st = (bind_to yy_get_next_buffer (\<lambda>r.
     case r of
       EOB_ACT_LAST_MATCH \<Rightarrow> bind_to (look yyin) (\<lambda>f. after (yyrestart f) (give 0))
     | EOB_ACT_END_OF_FILE \<Rightarrow> give 0
     | EOB_ACT_CONTINUE_SCAN \<Rightarrow>
         bind_to text_ptr (\<lambda>t.
         after (change (\<lambda>st. st\<lparr>yy_c_buf_p := Some (move t d)\<rparr>))
         take_char))) ?st2"
    using r(1,4,5,6) i z n d' by (simp add: yy_input_def input_more_def frame_current [OF r(2)])
  have fin: "between L st' B 0 []"
    if "frame L st' B b' y'" "blocks st' (yy_ch_buf b') = Some cs'" "contents cs' 0 (yy_buf_size b')" "yy_n_chars st' = 0"
      "yytext st' = Some (yy_ch_buf b', 0)" "yy_c_buf_p st' = Some (yy_ch_buf b', 0)" "f_rest y' = []" "yy_hold_char st' = CHR 0x00"
    for st' b' and y' :: yy_file and cs'
  proof -
    have "cs'[0 := CHR 0x00] = cs'" using that(3) by (metis contents_def list_update_id)
    with that show ?thesis unfolding between_def
      by (intro exI [of _ b'] exI [of _ y'] exI [of _ cs'] exI [of _ 0] exI [of _ "CHR 0x00"]) (simp add: contents_def)
  qed
  show thesis
  proof (cases "d = 0")
    case True
    have p: "yytext ?st2 = Some (yy_ch_buf b, yy_n_chars ?st2)" using r(5) n True by simp
    from get_next_buffer_end [OF f2 g(1-3) p n(2)] obtain st3 b3 where s3:
      "yy_get_next_buffer ?st2 = Done EOB_ACT_END_OF_FILE st3" "refilled L ?st2 B b y [] 0 b3 st3"
      "yy_c_buf_p st3 = Some (yy_ch_buf b3, 0)" "yy_hold_char st3 = CHR 0x00" by metis
    from refilled_token [OF s3(2)] obtain cs3 where r3:
      "frame L st3 B b3 (y\<lparr>f_rest := drop 0 (f_rest y)\<rparr>)" "blocks st3 (yy_ch_buf b3) = Some cs3"
      "contents cs3 (yy_n_chars st3) (yy_buf_size b3)" "yy_n_chars st3 = length ([] :: cstring) + 0"
      "yytext st3 = Some (yy_ch_buf b3, 0)" "shown st3 = shown ?st2" by metis
    have "between L st3 B 0 []" by (rule fin [OF r3(1,2)]) (use r3 s3 n in simp_all)
    with that step s3(1) r3(6) r(10) show thesis by simp
  next
    case False
    have t: "t < yy_n_chars ?st2" using n False by simp
    have nn: "yy_buffer_status b \<noteq> YY_BUFFER_NEW" using r(2) n False by (auto simp: frame_def)
    from get_next_buffer_pending [OF f2 g(1-4) t g(5) nn n(2)] obtain st3 b3 where s3:
      "yy_get_next_buffer ?st2 = Done EOB_ACT_LAST_MATCH st3"
      "refilled L ?st2 B b y (drop t (take (yy_n_chars ?st2) cs)) 0 b3 st3" by metis
    from refilled_token [OF s3(2)] obtain cs3 where r3:
      "frame L st3 B b3 (y\<lparr>f_rest := drop 0 (f_rest y)\<rparr>)" "blocks st3 (yy_ch_buf b3) = Some cs3"
      "contents cs3 (yy_n_chars st3) (yy_buf_size b3)" "shown st3 = shown ?st2" by metis
    have l3: "length cs3 = yy_buf_size b3 + 2" using r3(3) by (simp add: contents_def)
    from yyrestart_frame [OF r3(1,2) l3] obtain st4 b4 where r4: "yyrestart (yyin st3) st3 = Done () st4"
      "frame L st4 B b4 (y\<lparr>f_rest := drop 0 (f_rest y)\<rparr>)" "yy_ch_buf b4 = yy_ch_buf b3" "yy_buf_size b4 = yy_buf_size b3"
      "yy_n_chars st4 = 0" "blocks st4 (yy_ch_buf b3) = Some (cs3[0 := CHR 0x00, 1 := CHR 0x00])"
      "yy_c_buf_p st4 = Some (yy_ch_buf b3, 0)" "yytext st4 = Some (yy_ch_buf b3, 0)" "shown st4 = shown st3"
      "yy_hold_char st4 = CHR 0x00" by metis
    have "between L st4 B 0 []"
      by (rule fin [OF r4(2), of "cs3[0 := CHR 0x00, 1 := CHR 0x00]"])
        (use r4 r3(3) n in \<open>simp_all add: contents_def nth_list_update\<close>)
    with that step s3(1) r4(1,9) r3(4) r(10) show thesis by simp
  qed
qed

section \<open>The comment rule\<close>

lemma print_between:
  assumes "between L st B d rest"
  obtains st' where "write_file (Some stdout_file) s st = Done () st'" "between L st' B d rest"
    "shown st' = (fst (shown st), snd (shown st) @ s)"
proof -
  from assms obtain b y cs t z where a: "frame L st B b y" "contents cs (yy_n_chars st) (yy_buf_size b)"
    "blocks st (yy_ch_buf b) = Some (cs[t + d := z])" "yy_hold_char st = cs ! (t + d)"
    "yytext st = Some (yy_ch_buf b, t)" "yy_c_buf_p st = Some (yy_ch_buf b, t + d)"
    "t + d \<le> yy_n_chars st" "drop (t + d) (take (yy_n_chars st) cs) @ f_rest y = rest" "d + length rest \<le> L"
    unfolding between_def by blast
  from a(1) obtain o1 where o1: "yy_files st stdout_file = Some o1" by (auto simp: frame_def)
  let ?st = "st\<lparr>yy_files := (yy_files st)(stdout_file \<mapsto> o1\<lparr>f_out := f_out o1 @ s\<rparr>)\<rparr>"
  have f: "frame L ?st B b y" using a(1) by (auto simp: frame_def)
  have "between L ?st B d rest"
    unfolding between_def
    by (rule exI [of _ b], rule exI [of _ y], rule exI [of _ cs], rule exI [of _ t], rule exI [of _ z]) (use a f in simp)
  with that [of ?st] o1 show thesis by (simp add: write_file_def shown_def out_of_def)
qed

definition stored :: "char list \<times> nat \<Rightarrow> cstring \<Rightarrow> char list \<times> nat" where
  "stored a t = (take (snd a) (fst a) @ t @ drop (snd a + length t) (fst a), snd a + length t)"

lemma store_stored:
  assumes "snd a < length (fst a)"
  shows "store a c = Some (stored a [c])"
  using assms by (cases a) (simp add: store_def stored_def upd_conv_take_nth_drop)

lemma stored_Cons:
  assumes "snd a < length (fst a)"
  shows "stored (stored a [c]) t = stored a (c # t)"
  using assms by (cases a) (simp add: stored_def add.commute)

lemma eof_chars: "char_of (0 :: int) = CHR 0x00" "char_EOF = CHR 0xFF"
  by (code_simp)+

lemma comment_loop_end:
  assumes "between L st B d []" and "snd a \<le> length (fst a)"
  shows "comment_loop ph a st = Some Fail"
  using assms
proof (induction "length (fst a) - snd a" arbitrary: a ph st d)
  case 0
  from input_end [OF 0(2)] obtain st' where i: "yy_input st = Done 0 st'" by metis
  have "store a CHR 0x00 = None" using 0(1,3) by (simp add: store_def)
  then show ?case using i by (subst comment_loop.simps) (simp add: eof_chars Let_def)
next
  case (Suc n)
  from input_end [OF Suc(3)] obtain st' where i: "yy_input st = Done 0 st'" "between L st' B 0 []" by metis
  have s: "store a CHR 0x00 = Some (stored a [CHR 0x00])" using Suc(2) by (intro store_stored) simp
  have l: "length (fst (stored a [CHR 0x00])) = length (fst a)" "snd (stored a [CHR 0x00]) = snd a + 1"
    using Suc(2) by (auto simp: stored_def)
  have "comment_loop Eat (stored a [CHR 0x00]) st' = Some Fail"
    using Suc(2,4) l by (intro Suc(1) [OF _ i(2)]) simp_all
  then show ?case using i(1) s by (subst comment_loop.simps) (simp add: eof_chars Let_def)
qed

lemma loop_char:
  assumes "yy_input st = Done (of_char x) st1"
  shows "comment_loop ph a st =
     (if ph = Eat \<and> x = char_EOF then Some (after (write_file (Some stdout_file) ''Error: EOF in comment'') (give a) st1)
      else if length (fst a) \<le> snd a then Some Fail
      else if ph = Eat then
        (if x = CHR ''*'' then comment_loop Stars (stored a [x]) st1
         else comment_loop Eat (stored a [x])
           (if x = CHR 0x0A then st1\<lparr>usr := (usr st1)\<lparr>linenumber := linenumber (usr st1) + 1\<rparr>\<rparr> else st1))
      else if x = CHR ''*'' then comment_loop Stars (stored a [x]) st1
      else if x = CHR ''/'' then Some (Done (stored a [x]) st1)
      else if x = char_EOF then Some (after (write_file (Some stdout_file) ''Error: EOF in comment'') (give (stored a [x])) st1)
      else comment_loop Eat (stored a [x]) st1)"
proof (cases "length (fst a) \<le> snd a")
  case True
  then have "store a x = None" by (simp add: store_def)
  with True assms show ?thesis by (subst comment_loop.simps) (simp add: Let_def)
next
  case False
  then have "store a x = Some (stored a [x])" by (intro store_stored) simp
  with False assms show ?thesis by (subst comment_loop.simps) (simp add: Let_def)
qed

definition add_lines :: "nat \<Rightarrow> bool \<Rightarrow> user_globals \<times> cstring \<Rightarrow> user_globals \<times> cstring" where
  "add_lines n e o1 = ((fst o1)\<lparr>linenumber := linenumber (fst o1) + int n\<rparr>, snd o1 @ (if e then ''Error: EOF in comment'' else []))"

lemma add_lines_simps:
  "add_lines n e (add_lines k False o1) = add_lines (n + k) e o1" "add_lines 0 False o1 = o1"
  by (cases o1; simp add: add_lines_def)+

text \<open>The loops store the text of the comment, if it fits; otherwise they run over the array.\<close>

definition loop_result :: "nat \<Rightarrow> addr \<Rightarrow> char list \<times> nat \<Rightarrow> user_globals \<times> cstring \<Rightarrow> (cstring \<times> cstring \<times> nat \<times> bool) option \<Rightarrow>
    (char list \<times> nat) outcome option \<Rightarrow> bool" where
  "loop_result L B a o1 c r \<longleftrightarrow>
     (case c of
        None \<Rightarrow> r = Some Fail
      | Some (t, rest, n, e) \<Rightarrow>
          if snd a + length t \<le> length (fst a)
          then \<exists>st' d. r = Some (Done (stored a t) st') \<and> between L st' B d rest \<and> shown st' = add_lines n e o1
          else r = Some Fail)"

lemma loop_result_prepend:
  assumes "loop_result L B (stored a [x]) (add_lines k False o1) c r" and "snd a < length (fst a)"
  shows "loop_result L B a o1 (prepend x k c) r"
proof -
  have l: "length (fst (stored a [x])) = length (fst a)" "snd (stored a [x]) = snd a + 1"
    using assms(2) by (auto simp: stored_def)
  show ?thesis
    using assms unfolding loop_result_def prepend_def
    by (auto simp: l add_lines_simps stored_Cons split: option.splits)
qed

lemma loop_result_full:
  assumes "length (fst a) \<le> snd a"
  shows "loop_result L B a o1 (prepend x k c) (Some Fail)"
  using assms by (auto simp: loop_result_def prepend_def split: option.splits)

lemma comment_loop_run:
  assumes "between L st B d cs" and "0 < d" and "snd a \<le> length (fst a)"
  shows "loop_result L B a (shown st) (comment_text ph cs) (comment_loop ph a st)"
  using assms
proof (induction cs arbitrary: ph a st d)
  case Nil
  then show ?case using comment_loop_end by (simp add: loop_result_def)
next
  case (Cons x cs)
  from input_char [OF Cons.prems(1,2)] obtain st1 where i:
    "yy_input st = Done (of_char x) st1" "between L st1 B (d + 1) cs" "shown st1 = shown st" by metis
  note lp = loop_char [OF i(1), of ph a]
  let ?st2 = "if x = CHR 0x0A then st1\<lparr>usr := (usr st1)\<lparr>linenumber := linenumber (usr st1) + 1\<rparr>\<rparr> else st1"
  have b2: "between L ?st2 B (d + 1) cs" "shown ?st2 = add_lines (if x = CHR 0x0A then 1 else 0) False (shown st)"
    using i(2,3) by (auto simp: between_user add_lines_def shown_def out_of_def)
  have l: "snd a < length (fst a) \<Longrightarrow> snd (stored a [x]) \<le> length (fst (stored a [x]))"
    by (auto simp: stored_def)
  note IH = Cons.IH [OF _ _ l]
  obtain st3 where p: "write_file (Some stdout_file) ''Error: EOF in comment'' st1 = Done () st3" "between L st3 B (d + 1) cs"
    "shown st3 = add_lines 0 True (shown st)"
    using print_between [OF i(2), of "''Error: EOF in comment''"] i(3) by (auto simp: add_lines_def)
  have ex: "after (write_file (Some stdout_file) ''Error: EOF in comment'') (give z) st1 = Done z st3" for z :: "char list \<times> nat"
    using p(1) by simp
  have n: "stored a [] = a" by (simp add: stored_def)
  show ?case
  proof (cases "snd a < length (fst a)")
    case False
    then have f: "length (fst a) \<le> snd a" by simp
    show ?thesis
      using f loop_result_full [OF f] p(2,3) Cons.prems(3) unfolding lp ex
      by (cases ph) (auto simp: loop_result_def n prepend_def split: option.splits)
  next
    case True
    have nE: "CHR ''*'' \<noteq> char_EOF" "CHR ''/'' \<noteq> char_EOF" by (simp_all add: eof_chars)
    have eat: "loop_result L B a (shown st) (prepend x (if x = CHR 0x0A then 1 else 0) (comment_text Eat cs))
        (comment_loop Eat (stored a [x]) ?st2)"
      using IH [OF b2(1) _ True] by (intro loop_result_prepend True) (simp add: b2(2))
    have star: "loop_result L B a (shown st) (prepend x 0 (comment_text ph' cs)) (comment_loop ph' (stored a [x]) st1)" for ph'
      using IH [OF i(2) _ True] by (intro loop_result_prepend True) (simp add: add_lines_simps i(3))
    have fin: "loop_result L B a (shown st) (Some ([x], cs, 0, False)) (Some (Done (stored a [x]) st1))"
      using True i(2,3) by (auto simp: loop_result_def add_lines_simps)
    have err: "loop_result L B a (shown st) (Some ([x], cs, 0, True)) (Some (Done (stored a [x]) st3))"
      using True p(2,3) by (auto simp: loop_result_def)
    have err0: "loop_result L B a (shown st) (Some ([], cs, 0, True)) (Some (Done a st3))"
      using True p(2,3) by (auto simp: loop_result_def n)
    show ?thesis
      using True eat star fin err err0 nE unfolding lp ex by (cases ph) auto
  qed
qed

end
