(* ===== verification/ScanRun.thy ===== *)
theory ScanRun
  imports ScanComment
begin

text \<open>
  The scanner implements \<open>scan_text\<close>: the actions of the rules, the loop over the tokens, and
  the whole program.
\<close>

section \<open>Actions\<close>

lemma bind_Fail [simp]: "m st = Fail \<Longrightarrow> bind_to m k st = Fail"
  by (simp add: bind_to_def)

text \<open>The token at an action.\<close>

lemma at_action_token:
  assumes "at_action L st B all m"
  obtains a t bl where "yytext st = Some (a, t)" "yyleng st = m" "blocks st a = Some bl" "t + m < length bl"
    "take m (drop t bl) = take m all" "bl ! (t + m) = CHR 0x00" "yyout st = Some stdout_file"
    "\<exists>o1. yy_files st stdout_file = Some o1"
proof -
  from assms obtain b y cs t where a: "frame L st B b y" "contents cs (yy_n_chars st) (yy_buf_size b)"
    "blocks st (yy_ch_buf b) = Some (cs[t + m := CHR 0x00])" "yytext st = Some (yy_ch_buf b, t)" "yyleng st = m"
    "t + m \<le> yy_n_chars st" "drop t (take (yy_n_chars st) cs) @ f_rest y = all"
    unfolding at_action_def by blast
  have l: "t + m < length cs" using a(2,6) by (simp add: contents_def)
  have "take m all = take m (drop t cs)"
    unfolding a(7) [symmetric] using a(2,6) l by (auto simp: contents_def drop_take)
  moreover have "take m (drop t (cs[t + m := CHR 0x00])) = take m (drop t cs)"
    by (simp add: take_drop)
  moreover have "yyout st = Some stdout_file" "\<exists>o1. yy_files st stdout_file = Some o1" using a(1) by (simp_all add: frame_def)
  ultimately show thesis using that [OF a(4,5,3)] l by simp
qed

lemma token_string:
  assumes "at_action L st B all m" and "CHR 0x00 \<notin> set (take m all)"
  obtains p where "yytext st = Some p" "cstring_at p st = Done (take m all) st"
proof -
  from at_action_token [OF assms(1)] obtain a t bl where a: "yytext st = Some (a, t)" "blocks st a = Some bl"
    "t + m < length bl" "take m (drop t bl) = take m all" "bl ! (t + m) = CHR 0x00" by metis
  have "drop t bl = take m all @ CHR 0x00 # drop (Suc (t + m)) bl"
    using a(3-5) by (metis Cons_nth_drop_Suc add.commute append_take_drop_id drop_drop)
  moreover have "takeWhile (\<lambda>c. c \<noteq> CHR 0x00) (take m all @ CHR 0x00 # z) = take m all" for z
    using assms(2) by (subst takeWhile_append2) auto
  ultimately have "cstring_at (a, t) st = Done (take m all) st" using a(2) by (simp add: cstring_at_def)
  with that a(1) show thesis by blast
qed

text \<open>Only characters of its sets occur in a word of a pattern; an identifier has no zero byte.\<close>

lemma lang_chars: "w \<in> lang mem r \<Longrightarrow> c \<in> set w \<Longrightarrow> \<exists>a \<in> set_rexp r. mem c a"
proof (induction r arbitrary: w)
  case (Star r)
  then obtain ws where "w = concat ws" "set ws \<subseteq> lang mem r" by auto
  with Star.prems(2) obtain v where "v \<in> lang mem r" "c \<in> set v" by auto
  from Star.IH [OF this] show ?case by simp
qed fastforce+

lemma identifier_chars: "admitted w = 8 \<Longrightarrow> CHR 0x00 \<notin> set w"
proof
  assume a: "admitted w = 8" and c: "CHR 0x00 \<in> set w"
  have "w \<in> lang in_charset ID"
    using a by (simp add: admitted_iff rules_def split: if_splits)
  from lang_chars [OF this c] show False by (simp add: ID_def alts.simps)
qed

lemma at_action_user: "at_action L (st\<lparr>usr := u\<rparr>) B all m = at_action L st B all m"
  by (simp add: at_action_def)

lemma id_action_run:
  assumes "at_action L st B all m" and "CHR 0x00 \<notin> set (take m all)"
  shows "case act_on 8 (take m all) (shown st) of
      None \<Rightarrow> id_action st = Fail
    | Some o2 \<Rightarrow> \<exists>st'. id_action st = Done () st' \<and> at_action L st' B all m \<and> shown st' = o2"
proof -
  let ?st = "st\<lparr>usr := (usr st)\<lparr>tokens := tokens (usr st) + 1\<rparr>\<rparr>"
  have "at_action L ?st B all m" using assms(1) by (simp add: at_action_user)
  from token_string [OF this assms(2)] obtain p where
    p: "yytext ?st = Some p" "cstring_at p ?st = Done (take m all) ?st" by metis
  then show ?thesis using assms(1)
    by (auto simp: id_action_def count_token_def act_on_def shown_def out_of_def at_action_user split: option.splits)
qed

lemma ECHO_run:
  assumes "at_action L st B all m"
  shows "ECHO st = write_file (Some stdout_file) (take m all) st"
proof -
  from at_action_token [OF assms] obtain a t bl where a: "yytext st = Some (a, t)" "yyleng st = m" "blocks st a = Some bl"
    "t + m < length bl" "take m (drop t bl) = take m all" "yyout st = Some stdout_file" by metis
  then show ?thesis by (simp add: ECHO_def)
qed

section \<open>The comment rule\<close>

lemma comment_action_run:
  assumes bt: "between L st B d cs" and d: "0 < d"
  shows "case act_comment cs (shown st) of
      None \<Rightarrow> comment_action st = Fail
    | Some (o2, rest) \<Rightarrow> \<exists>st' d. comment_action st = Done () st' \<and> between L st' B d rest \<and> shown st' = o2"
proof -
  let ?u = "(usr st)\<lparr>comments := comments (usr st) + 1, tokens := tokens (usr st) + 1\<rparr>"
  let ?st = "st\<lparr>usr := ?u\<rparr>"
  let ?a = "((replicate MAX_COMMENT_SIZE CHR 0x00)[0 := CHR ''/'', 1 := CHR ''*''], 2)"
  have a: "?a = (''/*'' @ replicate (MAX_COMMENT_SIZE - 2) CHR 0x00, 2)"
    by (simp add: MAX_COMMENT_SIZE_def numeral_eq_Suc)
  have u: "between L ?st B d cs" using bt by (simp add: between_user)
  have "snd ?a \<le> length (fst ?a)" by (simp add: MAX_COMMENT_SIZE_def)
  from comment_loop_run [OF u d this, of Eat]
  have r: "loop_result L B ?a (shown ?st) (comment_text Eat cs) (comment_loop Eat ?a ?st)" .
  have la: "length (fst ?a) = MAX_COMMENT_SIZE" by simp
  have ca: "comment_action st = bind_to (run_loop (comment_loop Eat ?a)) (\<lambda>a.
     bind_to (need (\<lambda>st. array_string (fst a))) (\<lambda>s.
     bind_to (need (\<lambda>st. insert_comment s (tabs (usr st)))) (\<lambda>t.
     user (\<lambda>u. u\<lparr>tabs := t\<rparr>)))) ?st"
    by (simp add: comment_action_def)
  show ?thesis
  proof (cases "comment_text Eat cs")
    case None
    then have "comment_loop Eat ?a ?st = Some Fail" using r by (simp add: loop_result_def)
    then show ?thesis using None unfolding ca by (simp add: act_comment_def bind_to_def run_loop_def shown_def)
  next
    case (Some q)
    obtain t rest n e where q: "q = (t, rest, n, e)" by (cases q) auto
    show ?thesis
    proof (cases "length t + 2 \<le> MAX_COMMENT_SIZE")
      case False
      then have "comment_loop Eat ?a ?st = Some Fail" using r Some q la by (simp add: loop_result_def)
      then show ?thesis using Some q False unfolding ca
        by (simp add: act_comment_def comment_string_def bind_to_def run_loop_def shown_def)
    next
      case True
      then obtain st' d' where s: "comment_loop Eat ?a ?st = Some (Done (stored ?a t) st')" "between L st' B d' rest"
        "shown st' = add_lines n e (shown ?st)" using r Some q la by (auto simp: loop_result_def)
      have st: "fst (stored ?a t) = ''/*'' @ t @ replicate (MAX_COMMENT_SIZE - 2 - length t) CHR 0x00"
        unfolding a by (simp add: stored_def)
      have rl: "run_loop (comment_loop Eat ?a) ?st = Done (stored ?a t) st'" using s(1) by (simp add: run_loop_def)
      have us: "usr st' = ?u\<lparr>linenumber := linenumber (usr st) + int n\<rparr>"
        "out_of st' = out_of st @ (if e then ''Error: EOF in comment'' else [])"
        using s(3) by (auto simp: shown_def add_lines_def out_of_def)
      have sh: "shown (st'\<lparr>usr := v\<rparr>) = (v, out_of st')" for v by (simp add: shown_def out_of_def)
      show ?thesis
        using True Some q s(2) unfolding ca bind_Done(1) [of "run_loop (comment_loop Eat ?a)" ?st, OF rl] st
        by (auto simp: act_comment_def comment_string_def shown_def [of st] bind_to_def us sh between_user split: option.splits)
    qed
  qed
qed

section \<open>The loop over the tokens\<close>

lemma other_action_run:
  assumes at: "at_action L st B all m" and m: "m \<le> length all" "length all \<le> L"
    and r: "yy_act l = admitted (take m all)" "yy_act l \<noteq> 0" "yy_act l \<noteq> 9"
  shows "case act_on (yy_act l) (take m all) (shown st) of
      None \<Rightarrow> do_action l st = Fail
    | Some o2 \<Rightarrow> \<exists>st' d. do_action l st = Done Token st' \<and> between L st' B d (drop m all) \<and> shown st' = o2"
proof -
  note bt = at_action_between [OF at m]
  have range: "1 \<le> yy_act l" "yy_act l \<le> 10" using admitted_range [of "take m all"] r by auto
  consider "yy_act l = 1" | "2 \<le> yy_act l" "yy_act l \<le> 7" | "yy_act l = 8" | "yy_act l = 10" using range r(3) by linarith
  then show ?thesis
  proof cases
    case 1
    then show ?thesis using bt by (auto simp: do_action_def act_on_def shown_def out_of_def between_user)
  next
    case 2
    then show ?thesis using bt by (auto simp: do_action_def act_on_def count_token_def shown_def out_of_def between_user)
  next
    case 3
    then have "CHR 0x00 \<notin> set (take m all)" using r(1) by (intro identifier_chars) simp
    from id_action_run [OF at this]
    have i: "case act_on 8 (take m all) (shown st) of
        None \<Rightarrow> id_action st = Fail
      | Some o2 \<Rightarrow> \<exists>st'. id_action st = Done () st' \<and> at_action L st' B all m \<and> shown st' = o2" .
    have "do_action l st = after id_action (give Token) st" using 3 by (simp add: do_action_def)
    then show ?thesis using i at_action_between [OF _ m] 3
      by (auto simp: after_def split: option.splits) blast+
  next
    case 4
    obtain st' where w: "write_file (Some stdout_file) (take m all) st = Done () st'" "between L st' B m (drop m all)"
      "shown st' = (fst (shown st), snd (shown st) @ take m all)" using print_between [OF bt] by metis
    have "do_action l st = after ECHO (give Token) st" using 4 by (simp add: do_action_def)
    then show ?thesis using 4 w ECHO_run [OF at] by (auto simp: act_on_def split: prod.splits)
  qed
qed

lemma comment_text_shorter: "comment_text ph cs = Some (t, rest, n, e) \<Longrightarrow> length rest < length cs"
proof (induction ph cs arbitrary: t n rule: comment_text.induct)
  case (2 c cs)
  then show ?case by (fastforce simp: prepend_def split: if_splits option.splits)
next
  case (3 c cs)
  then show ?case by (fastforce simp: prepend_def split: if_splits option.splits)
qed simp

lemma token_start_run:
  assumes "between L st B d rest"
  obtains l st' where "yy_run Token st = yy_run (Match l) st'" "shown st' = shown st" "token_run L B rest (Match l) st'"
proof -
  from assms obtain p where p: "yy_c_buf_p st = Some p" unfolding between_def by blast
  from between_restore [OF assms] obtain b y cs t st1 where r: "restore_hold st = Done () st1" "frame L st1 B b y"
    "contents cs (yy_n_chars st1) (yy_buf_size b)" "blocks st1 (yy_ch_buf b) = Some cs" 
    "yy_c_buf_p st1 = Some (yy_ch_buf b, t + d)" "t + d \<le> yy_n_chars st1"
    "drop (t + d) (take (yy_n_chars st1) cs) @ f_rest y = rest" "d + length rest \<le> L" "shown st1 = shown st" by metis
  have "yy_c_buf_p st1 = yy_c_buf_p st" using r(1) p
    by (auto simp: restore_hold_def put_char_def split: option.splits if_splits)
  then have p: "yy_c_buf_p st = Some (yy_ch_buf b, t + d)" using r(5) by simp
  let ?l = "\<lparr>yy_cp = (yy_ch_buf b, t + d), yy_bp = (yy_ch_buf b, t + d), yy_current_state = 1, yy_act = 0\<rparr>"
  have s: "token_start st = Done (Match ?l) st1"
    using p r(1) frame_size(7) [OF r(2)] by (simp add: token_start_def)
  have "token_run L B rest (Match ?l) st1"
    by (rule match_token [where w = "[]", OF r(2,4,3,7)]) (use r in simp_all)
  moreover have "yy_run Token st = yy_run (Match ?l) st1"
    using s by (subst yy_run.simps) (simp add: yy_step_def)
  ultimately show thesis using that r(9) by blast
qed

lemma text_run:
  assumes "between L st B d rest"
  shows "case scan_text rest (shown st) of
      None \<Rightarrow> yy_run Token st = Some Fail
    | Some o2 \<Rightarrow> \<exists>st' b y. yy_run Token st = Some (Done 0 st') \<and> shown st' = o2 \<and> frame L st' B b y"
  using assms
proof (induction "length rest" arbitrary: rest st d rule: less_induct)
  case less
  note IH = less(1) and bt = less(2)
  from token_start_run [OF bt] obtain l st1 where s: "yy_run Token st = yy_run (Match l) st1" "shown st1 = shown st"
    "token_run L B rest (Match l) st1" by metis
  show ?case
  proof (cases "rest = []")
    case True
    then show ?thesis using s by (auto simp: token_run_def scan_text.simps [of "[]"])
  next
    case False
    let ?m = "token_length rest"
    let ?r = "admitted (take ?m rest)"
    from s False obtain l' st2 where d: "yy_run Token st = yy_run (Do_action l') st2" "token_found L st2 B rest l'"
      "shown st2 = shown st" by (auto simp: token_run_def)
    have a: "yy_act l' = ?r" "at_action L st2 B rest ?m" using d(2) by (simp_all add: token_found_def)
    have m: "0 < ?m" "?m \<le> length rest"
      using longest_pos [of "length rest" rest] longest_le [of "length rest" rest] False by (simp_all add: token_length_def)
    have L: "length rest \<le> L" using bt unfolding between_def by auto
    have r: "?r \<noteq> 0" using longest_admitted [of "length rest" rest] m by (simp add: token_length_def)
    have stuck: "yy_run (Do_action l') st2 = Some Fail" if "do_action l' st2 = Fail"
      using that by (subst yy_run.simps) (simp add: yy_step_def)
    show ?thesis
    proof (cases "?r = 9")
      case True
      have dc: "do_action l' st2 = after comment_action (give Token) st2" using a(1) True by (simp add: do_action_def)
      from comment_action_run [OF at_action_between [OF a(2) m(2) L] m(1)]
      have c: "case act_comment (drop ?m rest) (shown st) of
          None \<Rightarrow> comment_action st2 = Fail
        | Some (o2, rest) \<Rightarrow> \<exists>st' d. comment_action st2 = Done () st' \<and> between L st' B d rest \<and> shown st' = o2"
        unfolding d(3) .
      have e: "scan_text rest (shown st) = (case act_comment (drop ?m rest) (shown st) of
          None \<Rightarrow> None | Some (o2, rest') \<Rightarrow> if length rest' < length rest then scan_text rest' o2 else None)"
        using False True by (subst scan_text.simps) (simp add: Let_def)
      show ?thesis
      proof (cases "act_comment (drop ?m rest) (shown st)")
        case None
        then show ?thesis using c d(1) stuck dc unfolding e by (simp add: after_def)
      next
        case (Some q)
        obtain o2 rest' where q: "q = (o2, rest')" by (cases q)
        from c Some q obtain st3 d3 where st3: "comment_action st2 = Done () st3" "between L st3 B d3 rest'" "shown st3 = o2"
          by auto
        have "length rest' < length (drop ?m rest)" using Some q comment_text_shorter
          by (fastforce simp: act_comment_def split: option.splits prod.splits)
        then have sh: "length rest' < length rest" by simp
        have y: "yy_run Token st = yy_run Token st3" unfolding d(1)
          using dc st3(1) by (subst yy_run_do [of l' st2 Token st3]) simp_all
        then show ?thesis using IH [OF sh st3(2)] sh Some q unfolding e y st3(3) by simp
      qed
    next
      case nine: False
      from other_action_run [OF a(2) m(2) L a(1)] nine r a(1)
      have c: "case act_on ?r (take ?m rest) (shown st) of
          None \<Rightarrow> do_action l' st2 = Fail
        | Some o2 \<Rightarrow> \<exists>st' d. do_action l' st2 = Done Token st' \<and> between L st' B d (drop ?m rest) \<and> shown st' = o2"
        unfolding d(3) by simp
      have e: "scan_text rest (shown st) = (case act_on ?r (take ?m rest) (shown st) of
          None \<Rightarrow> None | Some o2 \<Rightarrow> scan_text (drop ?m rest) o2)"
        using False nine m(1) by (subst scan_text.simps) (simp add: Let_def split: option.split)
      show ?thesis
      proof (cases "act_on ?r (take ?m rest) (shown st)")
        case None
        then show ?thesis using c d(1) stuck unfolding e by simp
      next
        case (Some o2)
        from c Some obtain st3 d3 where st3: "do_action l' st2 = Done Token st3" "between L st3 B d3 (drop ?m rest)" "shown st3 = o2"
          by auto
        have sh: "length (drop ?m rest) < length rest" using m by simp
        show ?thesis using IH [OF sh st3(2)] Some unfolding e d(1) yy_run_do [OF st3(1)] st3(3) by simp
      qed
    qed
  qed
qed

section \<open>The first call\<close>

lemma replicate_update: "(replicate n x)[i := x] = replicate n x"
  by (metis length_replicate list_update_beyond list_update_id not_le nth_replicate)

text \<open>The first call of \<open>yylex\<close> makes a buffer for the file.\<close>

lemma initialize_run:
  assumes init: "\<not> yy_init st" "yy_start st = 0" "yyout st = None" "yy_buffer_stack st = None"
    and F: "F = (case yyin st of None \<Rightarrow> stdin_file | Some F \<Rightarrow> F)" "F \<noteq> stdout_file" "yy_files st F = Some y" "f_errors y = []"
    and out: "yy_files st stdout_file = Some o1" and L: "length (f_rest y) \<le> L" "L < 2 ^ 31"
  obtains st' B where "yy_initialize st = Done () st'" "between L st' B 0 (f_rest y)" "shown st' = shown st"
proof -
  let ?a = "yy_brk st" and ?B = "yy_brk st + 1"
  let ?cs = "replicate (YY_BUF_SIZE + 2) CHR 0x00"
  define b where "b = \<lparr>yy_input_file = Some F, yy_ch_buf = ?a, yy_buf_pos = (?a, 0), yy_buf_size = YY_BUF_SIZE, b_n_chars = 0,
      yy_is_our_buffer = True, yy_is_interactive = f_tty y, yy_at_bol = True, yy_bs_lineno = 1,
      yy_bs_column = 0, yy_fill_buffer = True, yy_buffer_status = YY_BUFFER_NEW\<rparr>"
  define st' where "st' = st\<lparr>yy_init := True, yy_start := 1, yyin := Some F, yyout := Some stdout_file,
      yy_buffer_stack := Some [Some ?B], yy_buffer_stack_top := 0, yy_buffer_stack_max := 1,
      blocks := (blocks st)(?a \<mapsto> ?cs), buffers := (buffers st)(?B \<mapsto> b), yy_brk := ?B + 1,
      yy_n_chars := 0, yytext := Some (?a, 0), yy_c_buf_p := Some (?a, 0), yy_hold_char := CHR 0x00\<rparr>"
  have n: "0 < YY_BUF_SIZE" by (simp add: YY_BUF_SIZE_def)
  have F': "(if yyin st = None then Some stdin_file else yyin st) = Some F" using F(1) by (auto split: option.splits)
  have "yy_initialize st = Done () st'"
    using init F F' out n
    by (simp add: yy_initialize_def create_if_none_def current_buffer_def yyensure_buffer_stack_def yy_create_buffer_def
      yyalloc_def new_buffer_def yy_init_buffer_def yy_flush_buffer_def set_buffer_def buffer_at_def set_current_def
      is_terminal_def yy_load_buffer_state_def lvalue_def put_char_def char_at_def replicate_update st'_def b_def
      del: replicate.simps replicate_Suc)
  moreover have f: "frame L st' ?B b y"
    using F out L n by (auto simp: frame_def st'_def b_def)
  then have "between L st' ?B 0 (f_rest y)"
    unfolding between_def
    by (intro exI [of _ b] exI [of _ y] exI [of _ ?cs] exI [of _ 0] exI [of _ "CHR 0x00"])
      (use L n in \<open>simp add: st'_def b_def contents_def replicate_update nth_append del: replicate.simps replicate_Suc\<close>)
  moreover have "shown st' = shown st" by (simp add: st'_def shown_def out_of_def)
  ultimately show thesis using that by blast
qed

end
