(* ===== verification/ScanProps.thy ===== *)
theory ScanProps
  imports ScanRun
begin

text \<open>
  The properties of the scanner: its tables are its patterns, the program implements
  \<open>scan_text\<close>, and what that means for comments and for texts without them.
\<close>

section \<open>The tables\<close>

text \<open>The state that the tables reach from \<open>s\<close>.\<close>

primrec table_run :: "int \<Rightarrow> cstring \<Rightarrow> int option" where
  "table_run s [] = Some s"
| "table_run s (b # w) =
     (case (if b \<noteq> CHR 0x00 then at yy_ec (of_char b) else Some 1) of
        None \<Rightarrow> None
      | Some c \<Rightarrow> (case yy_trans s c of None \<Rightarrow> None | Some s \<Rightarrow> table_run s w))"

lemma table_run_word: "table_run (run 1 v) w = Some (run 1 (v @ w))"
proof (induction w arbitrary: v)
  case (Cons b w)
  have "(if b \<noteq> CHR 0x00 then at yy_ec (of_char b) else Some 1) = Some (cls b)" by (simp add: class_at)
  then show ?case using trans_word [of v b] Cons.IH [of "v @ [b]"] by (simp del: run_simps(3))
qed simp

text \<open>C33:
  The tables implement the patterns.\<close>

theorem tables_match_patterns:
  "\<exists>s. table_run 1 w = Some s \<and> at yy_accept s = Some (first_rule in_charset 1 rules w)"
  using table_run_word [of "[]" w] accept_run [of w] by simp

section \<open>The program\<close>

text \<open>What \<open>main\<close> prints after the text.\<close>

definition report :: "user_globals \<Rightarrow> cstring" where
  "report u = CHR 0x0A # ''number of tokens '' @ fmt_d (tokens u) @ CHR 0x0A # ''number of lines '' @ fmt_d (linenumber u) @
     CHR 0x0A # ''There are '' @ fmt_d (comments u) @ '' comments:'' @ CHR 0x0A # print_comtab (tabs u) @ print_arr_symtab (tabs u)"

definition start_globals :: user_globals where
  "start_globals = \<lparr>linenumber = 0, tokens = 0, comments = 0, tabs = start_tables\<rparr>"

text \<open>The text that is scanned: the file that is named, or the standard input.\<close>

definition main_text :: "(cstring \<rightharpoonup> cstring) \<Rightarrow> cstring list \<Rightarrow> cstring \<Rightarrow> cstring" where
  "main_text fs args std = (case args of [] \<Rightarrow> std | nm # _ \<Rightarrow> (case fs nm of None \<Rightarrow> std | Some s \<Rightarrow> s))"

lemma print_run:
  assumes "yy_files st stdout_file = Some o1"
  shows "print s st = Done () (st\<lparr>yy_files := (yy_files st)(stdout_file \<mapsto> o1\<lparr>f_out := f_out o1 @ s\<rparr>)\<rparr>)"
  using assms by (simp add: print_def write_file_def)

lemma yylex_run:
  assumes init: "\<not> yy_init st" "yy_start st = 0" "yyout st = None" "yy_buffer_stack st = None"
    and F: "F = (case yyin st of None \<Rightarrow> stdin_file | Some F \<Rightarrow> F)" "F \<noteq> stdout_file" "yy_files st F = Some y" "f_errors y = []"
    and out: "yy_files st stdout_file = Some o1" and L: "length (f_rest y) < 2 ^ 31"
  shows "case scan_text (f_rest y) (shown st) of
      None \<Rightarrow> yylex st = Fail
    | Some o2 \<Rightarrow> \<exists>st' L B b y. yylex st = Done 0 st' \<and> shown st' = o2 \<and> frame L st' B b y"
proof -
  from initialize_run [OF init F out order_refl L] obtain st1 B where i:
    "yy_initialize st = Done () st1" "between (length (f_rest y)) st1 B 0 (f_rest y)" "shown st1 = shown st" by metis
  have y: "yylex st = run_loop (yy_run Token) st1" using i(1) by (simp add: yylex_def)
  show ?thesis using text_run [OF i(2)] unfolding y i(3) run_loop_def
    by (auto split: option.splits) blast
qed

lemma frame_out: "frame L st B b y \<Longrightarrow> \<exists>o1. yy_files st stdout_file = Some o1"
  by (simp add: frame_def)

lemma main_run:
  assumes "yy_files st = [stdin_file \<mapsto> y, stdout_file \<mapsto> o1]" and "f_errors y = []" and "f_out o1 = []" and "stdout_file < yy_brk st"
    and "\<not> yy_init st" "yy_start st = 0" "yyout st = None" "yy_buffer_stack st = None" and "usr st = start_globals"
    and "length (main_text fs args (f_rest y)) < 2 ^ 31"
  shows "case scan_text (main_text fs args (f_rest y)) (start_globals, []) of
      None \<Rightarrow> scanner_main fs args st = Fail
    | Some (u, out) \<Rightarrow> \<exists>st'. scanner_main fs args st = Done 0 st' \<and> out_of st' = out @ report u"
proof -
  have tb: "init_comtab (init_arr_symtab start_tables) = start_tables"
    by (simp add: init_comtab_def init_arr_symtab_def start_tables_def)
  then have us: "(usr st)\<lparr>tabs := init_comtab (init_arr_symtab (tabs (usr st)))\<rparr> = start_globals"
    using assms(9) by (simp add: start_globals_def)
  have st0: "st\<lparr>usr := start_globals\<rparr> = st" using assms(9) by simp
  let ?text = "main_text fs args (f_rest y)"
  have "\<exists>F st1 f y1. (if args \<noteq> [] then fopen fs (hd args) else give (Some stdin_file)) st = Done f st1 \<and>
      \<not> yy_init st1 \<and> yy_start st1 = 0 \<and> yyout st1 = None \<and> yy_buffer_stack st1 = None \<and>
      F = (case f of None \<Rightarrow> stdin_file | Some F \<Rightarrow> F) \<and> F \<noteq> stdout_file \<and> yy_files st1 F = Some y1 \<and> f_errors y1 = [] \<and>
      yy_files st1 stdout_file = Some o1 \<and> f_rest y1 = ?text \<and> usr st1 = start_globals"
    using assms(1,2,4-9)
    by (cases args; cases "fs (hd args)") (auto simp: fopen_def main_text_def stdin_file_def stdout_file_def)
  then obtain F st1 f y1 where o: "(if args \<noteq> [] then fopen fs (hd args) else give (Some stdin_file)) st = Done f st1"
    and i: "\<not> yy_init st1" "yy_start st1 = 0" "yyout st1 = None" "yy_buffer_stack st1 = None"
    and F: "F = (case f of None \<Rightarrow> stdin_file | Some F \<Rightarrow> F)" "F \<noteq> stdout_file" "yy_files st1 F = Some y1" "f_errors y1 = []"
    and out: "yy_files st1 stdout_file = Some o1" and t: "f_rest y1 = ?text" and u1: "usr st1 = start_globals" by blast
  let ?st = "st1\<lparr>yyin := f\<rparr>"
  have L: "length (f_rest y1) < 2 ^ 31" using assms(10) t by simp
  have sh: "shown ?st = (start_globals, [])" using out u1 assms(3) by (simp add: shown_def out_of_def)
  have y: "case scan_text ?text (start_globals, []) of
      None \<Rightarrow> yylex ?st = Fail
    | Some o2 \<Rightarrow> \<exists>st' L B b y. yylex ?st = Done 0 st' \<and> shown st' = o2 \<and> frame L st' B b y"
    using yylex_run [of ?st F y1 o1] i F out L by (simp add: t sh)
  show ?thesis
  proof (cases "scan_text ?text (start_globals, [])")
    case None
    then show ?thesis using y us st0 o by (simp add: scanner_main_def)
  next
    case (Some q)
    obtain u w where q: "q = (u, w)" by (cases q)
    from y Some q obtain st' L B b y2 where s: "yylex ?st = Done 0 st'" "shown st' = (u, w)" "frame L st' B b y2" by auto
    from frame_out [OF s(3)] obtain o2 where o2: "yy_files st' stdout_file = Some o2" by blast
    have us': "usr st' = u" "f_out o2 = w" using s(2) o2 by (simp_all add: shown_def out_of_def)
    show ?thesis
      using Some q us st0 o s(1) o2 us'
      by (simp add: scanner_main_def print_run report_def out_of_def)
  qed
qed

lemma main_start_run:
  assumes "f_errors y = []" and "length (main_text fs args (f_rest y)) < 2 ^ 31"
  shows "case scan_text (main_text fs args (f_rest y)) (start_globals, []) of
      None \<Rightarrow> scanner_main fs args (start_scanner y) = Fail
    | Some (u, out) \<Rightarrow> \<exists>st'. scanner_main fs args (start_scanner y) = Done 0 st' \<and> out_of st' = out @ report u"
  by (rule main_run [where ?o1.0 = "\<lparr>f_rest = [], f_tty = False, f_errors = [], f_out = []\<rparr>"])
    (use assms in \<open>simp_all add: start_scanner_def stdin_file_def stdout_file_def start_globals_def\<close>)

text \<open>C1:
  The program scans the text of the file that is named, or else the standard input, whatever the sizes of the reads.\<close>

theorem scanner_main_correct:
  assumes "f_errors y = []" and "length (main_text fs args (f_rest y)) < 2 ^ 31"
  shows "case scan_text (main_text fs args (f_rest y)) (start_globals, []) of
      None \<Rightarrow> scanner_main fs args (start_scanner y) = Fail
    | Some (u, out) \<Rightarrow> \<exists>st'. scanner_main fs args (start_scanner y) = Done 0 st' \<and> out_of st' = out @ report u"
  using assms by (rule main_start_run)

definition a_file :: "cstring \<Rightarrow> yy_file" where
  "a_file s = \<lparr>f_rest = s, f_tty = True, f_errors = [], f_out = []\<rparr>"

lemma a_scan: "map_option (\<lambda>(u, out). out @ report u) (scan_text ''a+b # 1'' (start_globals, [])) =
    Some ('' # '' @ CHR 0x0A # ''number of tokens 4'' @ CHR 0x0A # ''number of lines 0'' @ CHR 0x0A # ''There are 0 comments:'' @
      CHR 0x0A # ''a 1'' @ CHR 0x0A # ''b 1'' @ [CHR 0x0A])"
  by code_simp

theorem scanner_main_correct_witness:
  "\<exists>st'. scanner_main (\<lambda>_. None) [''missing''] (start_scanner (a_file ''a+b # 1'')) = Done 0 st' \<and>
     out_of st' = '' # '' @ CHR 0x0A # ''number of tokens 4'' @ CHR 0x0A # ''number of lines 0'' @ CHR 0x0A # ''There are 0 comments:'' @
      CHR 0x0A # ''a 1'' @ CHR 0x0A # ''b 1'' @ [CHR 0x0A]"
  using scanner_main_correct [of "a_file ''a+b # 1''" "\<lambda>_. None" "[''missing'']"] a_scan
  by (auto simp: a_file_def main_text_def split: option.splits)

section \<open>Comments without an end\<close>

lemma longest_none_above:
  assumes "\<And>k. j < k \<Longrightarrow> k \<le> n \<Longrightarrow> admitted (take k cs) = 0" and "j \<le> n"
  shows "longest n cs = longest j cs"
  using assms
proof (induction n)
  case (Suc n)
  show ?case
  proof (cases "j = Suc n")
    case False
    then have "admitted (take (Suc n) cs) = 0" using Suc.prems by (intro Suc.prems(1)) simp_all
    then show ?thesis using Suc False by simp
  qed simp
qed simp

lemma admitted_comment: "admitted ''/*'' = 9" "admitted (CHR ''/'' # CHR ''*'' # c # w) = 0"
proof -
  have z: "nders in_charset w [Zero, Zero, Zero, Zero, Zero, Zero, Zero, Zero, Zero, Zero] =
      [Zero, Zero, Zero, Zero, Zero, Zero, Zero, Zero, Zero, Zero :: pattern]" for w
    by (induction w) simp_all
  show "admitted ''/*'' = 9" by (simp add: admitted_def pattern_defs)
  show "admitted (CHR ''/'' # CHR ''*'' # c # w) = 0" by (simp add: admitted_def pattern_defs z)
qed

lemma lit_words: "w \<in> lang in_charset (lit cs) \<Longrightarrow> w = cs"
  by (induction cs arbitrary: w rule: lit.induct) fastforce+

lemma comment_word: "admitted w = 9 \<Longrightarrow> w = ''/*''"
proof -
  assume "admitted w = 9"
  then have "w \<in> lang in_charset (lit ''/*'')" by (simp add: admitted_iff rules_def split: if_splits)
  then show ?thesis by (rule lit_words)
qed

lemma token_length_comment: "token_length (''/*'' @ cs) = 2"
proof -
  have "admitted (take k (''/*'' @ cs)) = 0" if k: "2 < k" "k \<le> length (''/*'' @ cs)" for k
  proof -
    from k obtain c ds where "cs = c # ds" by (cases cs) auto
    moreover from k obtain j where "k = Suc (Suc (Suc j))" by (metis add_2_eq_Suc less_iff_Suc_add)
    ultimately show ?thesis by (simp add: admitted_comment)
  qed
  then have "token_length (''/*'' @ cs) = longest 2 (''/*'' @ cs)"
    unfolding token_length_def by (intro longest_none_above) simp_all
  also have "\<dots> = 2" using admitted_comment(1) by (simp add: numeral_2_eq_2)
  finally show ?thesis .
qed

text \<open>How a comment ends: by a byte 255, or by a star and a slash.\<close>

lemma comment_text_ends:
  assumes "comment_text ph t = Some (s, rest, n, e)"
  shows "if e then char_EOF \<in> set (take (length s + 1) t)
    else t = s @ rest \<and> (\<exists>u. (if ph = Eat then s else CHR ''*'' # s) = u @ ''*/'')"
  using assms
proof (induction ph t arbitrary: s n rule: comment_text.induct)
  case (1 ph)
  then show ?case by simp
next
  case (2 c cs)
  consider "c = char_EOF" | "c \<noteq> char_EOF" "c = CHR ''*''" | "c \<noteq> char_EOF" "c \<noteq> CHR ''*''" by blast
  then show ?case
  proof cases
    case 1
    then show ?thesis using 2(3) by simp
  next
    case c: 2
    then obtain s' where s: "comment_text Stars cs = Some (s', rest, n, e)" "s = c # s'"
      using 2(3) by (auto simp: prepend_def split: option.splits)
    from 2(1) [OF c s(1)] show ?thesis using s(2) c by auto
  next
    case c: 3
    then obtain s' n' where s: "comment_text Eat cs = Some (s', rest, n', e)" "s = c # s'"
      using 2(3) by (auto simp: prepend_def split: option.splits)
    from 2(2) [OF c s(1)] show ?thesis using s(2) by (auto intro: exI [of _ "c # _"])
  qed
next
  case (3 c cs)
  consider "c = CHR ''*''" | "c \<noteq> CHR ''*''" "c = CHR ''/''" | "c \<noteq> CHR ''*''" "c \<noteq> CHR ''/''" "c = char_EOF"
    | "c \<noteq> CHR ''*''" "c \<noteq> CHR ''/''" "c \<noteq> char_EOF" by blast
  then show ?case
  proof cases
    case 1
    then obtain s' where s: "comment_text Stars cs = Some (s', rest, n, e)" "s = c # s'"
      using 3(3) by (auto simp: prepend_def split: option.splits)
    from 3(1) [OF 1 s(1)] show ?thesis using s(2) 1 by (auto intro: exI [of _ "CHR ''*'' # _"])
  next
    case 2
    then show ?thesis using 3(3) by (auto intro: exI [of _ "[]"])
  next
    case c: 3
    then show ?thesis using "3.prems" by auto
  next
    case c: 4
    then obtain s' n' where s: "comment_text Eat cs = Some (s', rest, n', e)" "s = c # s'"
      using "3.prems" by (auto simp: prepend_def split: option.splits)
    from "3.IH"(2) [OF c s(1)] show ?thesis using s(2) by (auto intro: exI [of _ "CHR ''*'' # c # _"])
  qed
qed

text \<open>A comment that does not fit: it is not closed within 98 characters, and has no byte 255 that would end it.\<close>

definition too_long :: "cstring \<Rightarrow> bool" where
  "too_long t \<longleftrightarrow> (\<forall>u v. t = u @ ''*/'' @ v \<longrightarrow> 96 < length u) \<and> char_EOF \<notin> set (take 99 t)"

lemma too_long_text:
  assumes "too_long t" and "comment_text Eat t = Some (s, rest, n, e)"
  shows "98 < length s"
proof (cases e)
  case True
  then have "char_EOF \<in> set (take (length s + 1) t)" using comment_text_ends [OF assms(2)] by simp
  then have "\<not> length s + 1 \<le> 99" using assms(1) set_take_subset_set_take [of "length s + 1" 99 t] unfolding too_long_def by blast
  then show ?thesis by simp
next
  case False
  then obtain u where u: "t = s @ rest" "s = u @ ''*/''" using comment_text_ends [OF assms(2)] by auto
  then have "96 < length u" using assms(1) unfolding too_long_def by simp
  then show ?thesis using u(2) by simp
qed

text \<open>The array at the start of the comment rule; its loop comes to an end, by a write behind the array.\<close>

definition comment_array :: "char list \<times> nat" where
  "comment_array = ((replicate MAX_COMMENT_SIZE CHR 0x00)[0 := CHR ''/'', 1 := CHR ''*''], 2)"

lemma too_long_loop:
  assumes "too_long t" and "between L st B d t" and "0 < d"
  shows "comment_loop Eat comment_array st = Some Fail"
proof -
  have "loop_result L B comment_array (shown st) (comment_text Eat t) (comment_loop Eat comment_array st)"
    using comment_loop_run [OF assms(2,3)] by (simp add: comment_array_def MAX_COMMENT_SIZE_def)
  then show ?thesis
    using too_long_text [OF assms(1)]
    by (auto simp: loop_result_def comment_array_def MAX_COMMENT_SIZE_def split: option.splits)
qed

lemma too_long_action:
  assumes "too_long t"
  shows "act_comment t o1 = None"
proof (cases "comment_text Eat t")
  case None
  then show ?thesis by (simp add: act_comment_def split: prod.split)
next
  case (Some q)
  obtain s rest n e where q: "q = (s, rest, n, e)" by (cases q) auto
  then have "comment_string s = None"
    using too_long_text [OF assms] Some by (simp add: comment_string_def MAX_COMMENT_SIZE_def)
  then show ?thesis using Some q by (simp add: act_comment_def split: prod.split)
qed

text \<open>Only a string literal, a comment mark and a single character can contain a slash.\<close>

lemma lang_atoms: "w \<in> lang in_charset r \<Longrightarrow> c \<in> set w \<Longrightarrow> \<exists>a \<in> set_rexp r. in_charset c a"
proof (induction r arbitrary: w)
  case (Star r)
  then show ?case by fastforce
qed fastforce+

lemma admitted_some:
  assumes "admitted w \<noteq> 0"
  shows "\<exists>r \<in> set rules. w \<in> lang in_charset r"
proof -
  have "first_rule mem k rs w \<noteq> 0 \<Longrightarrow> \<exists>r \<in> set rs. w \<in> lang mem r" for mem and rs :: "pattern list" and k
    by (induction rs arbitrary: k) (auto split: if_splits)
  from this [of in_charset 1 rules] show ?thesis using assms by (simp add: admitted_iff)
qed

lemma slash_start:
  assumes "admitted w \<noteq> 0" and "CHR ''/'' \<in> set w"
  shows "hd w \<in> {CHR ''/'', CHR 0x22}"
proof -
  obtain r where r: "r \<in> set rules" "w \<in> lang in_charset r" using admitted_some [OF assms(1)] by blast
  have "\<exists>a \<in> set_rexp r. in_charset CHR ''/'' a" by (rule lang_atoms [OF r(2) assms(2)])
  then have "r \<in> {STRING_LITERAL, lit ''/*'', Atom Any}"
    using r(1) by (auto simp: rules_def pattern_defs)
  then consider "r = STRING_LITERAL" | "r = lit ''/*''" | "r = Atom Any" by blast
  then show ?thesis
  proof cases
    case 1
    then show ?thesis using r(2) by (auto simp: STRING_LITERAL_def)
  next
    case 2
    then show ?thesis using r(2) by auto
  next
    case 3
    then show ?thesis using r(2) assms(2) by auto
  qed
qed

lemma scan_to_comment:
  assumes "too_long t" and "set pre \<inter> {CHR ''/'', CHR 0x22} = {}"
  shows "scan_text (pre @ ''/*'' @ t) o1 = None"
  using assms(2)
proof (induction "length pre" arbitrary: pre o1 rule: less_induct)
  case less
  show ?case
  proof (cases pre)
    case Nil
    then show ?thesis
      using too_long_action [OF assms(1)] token_length_comment [of t] admitted_comment(1)
      by (subst scan_text.simps) (simp add: Let_def)
  next
    case (Cons p ps)
    let ?cs = "pre @ ''/*'' @ t"
    let ?m = "token_length ?cs"
    have h: "hd pre \<notin> {CHR ''/'', CHR 0x22}" using less(2) Cons by auto
    have m: "0 < ?m" "?m \<le> length ?cs"
      using longest_pos [of "length ?cs" ?cs] longest_le [of "length ?cs" ?cs] Cons by (simp_all add: token_length_def)
    have "?m \<le> length pre"
    proof -
      have "longest (length ?cs) ?cs = longest (length pre) ?cs"
      proof (rule longest_none_above)
        fix k assume k: "length pre < k" "k \<le> length ?cs"
        then obtain j where "k = length pre + Suc j" by (metis less_iff_Suc_add add_Suc_right)
        then have "CHR ''/'' \<in> set (take k ?cs)" by simp
        moreover have "hd (take k ?cs) = hd pre" using Cons k by (cases k) auto
        ultimately show "admitted (take k ?cs) = 0" using slash_start [of "take k ?cs"] h by metis
      qed simp
      then show ?thesis using longest_le [of "length pre" ?cs] by (simp add: token_length_def)
    qed
    then have w: "take ?m ?cs = take ?m pre" "drop ?m ?cs = drop ?m pre @ ''/*'' @ t" by simp_all
    have nine: "admitted (take ?m pre) \<noteq> 9"
    proof
      assume "admitted (take ?m pre) = 9"
      then have "take ?m pre = ''/*''" by (rule comment_word)
      then show False using h m Cons by (cases ?m) auto
    qed
    have "scan_text (drop ?m pre @ ''/*'' @ t) o2 = None" for o2
      by (rule less(1)) (use m Cons less(2) in_set_dropD [of _ ?m pre] in auto)
    then show ?thesis
      using nine m w by (subst scan_text.simps) (simp add: Let_def split: option.split)
  qed
qed

text \<open>States of the scanner after a token of two characters, and after one of a single character at the start of the buffer.\<close>

definition held_buffer :: yy_buffer_state where
  "held_buffer = \<lparr>yy_input_file = Some stdin_file, yy_ch_buf = 2, yy_buf_pos = (2, 0), yy_buf_size = 5, b_n_chars = 3,
     yy_is_our_buffer = True, yy_is_interactive = True, yy_at_bol = True, yy_bs_lineno = 1,
     yy_bs_column = 0, yy_fill_buffer = True, yy_buffer_status = YY_BUFFER_NORMAL\<rparr>"

definition held_state :: "nat \<Rightarrow> cstring \<Rightarrow> char \<Rightarrow> scanner" where
  "held_state d s h = (start_scanner (a_file []))\<lparr>yy_init := True, yy_start := 1, yyin := Some stdin_file, yyout := Some stdout_file,
     yy_buffer_stack := Some [Some 3], yy_buffer_stack_top := 0, yy_buffer_stack_max := 1,
     blocks := [2 \<mapsto> s @ replicate 4 CHR 0x00], buffers := [3 \<mapsto> held_buffer],
     yy_n_chars := 3, yytext := Some (2, 0), yy_c_buf_p := Some (2, d), yy_hold_char := h\<rparr>"

lemma held_between:
  "between 10 (held_state 2 (''ab'' @ [CHR 0x00]) CHR ''c'') 3 2 ''c''"
  "between 10 (held_state 1 (''a'' @ [CHR 0x00, CHR ''c'']) CHR ''b'') 3 1 ''bc''"
proof -
  have f: "frame 10 (held_state d s h) 3 held_buffer (a_file [])" for d s h
    by (simp add: frame_def held_state_def held_buffer_def start_scanner_def a_file_def stdin_file_def stdout_file_def YY_BUF_SIZE_def)
  show "between 10 (held_state 2 (''ab'' @ [CHR 0x00]) CHR ''c'') 3 2 ''c''"
    unfolding between_def
    by (rule exI [of _ held_buffer], rule exI [of _ "a_file []"], rule exI [of _ "''abc'' @ replicate 4 CHR 0x00"], rule exI [of _ 0],
        rule exI [of _ "CHR 0x00"])
      (intro conjI, rule f, simp_all add: contents_def held_buffer_def held_state_def a_file_def numeral_eq_Suc)
  show "between 10 (held_state 1 (''a'' @ [CHR 0x00, CHR ''c'']) CHR ''b'') 3 1 ''bc''"
    unfolding between_def
    by (rule exI [of _ held_buffer], rule exI [of _ "a_file []"], rule exI [of _ "''abc'' @ replicate 4 CHR 0x00"], rule exI [of _ 0],
        rule exI [of _ "CHR 0x00"])
      (intro conjI, rule f, simp_all add: contents_def held_buffer_def held_state_def a_file_def numeral_eq_Suc)
qed

text \<open>C34:
  A comment that is never closed, or only after more than 96 characters, and has no byte 255 among its first 99
  characters (which the program takes for the end of the file) makes the program run over the array that holds the
  comment. In every state of the scanner between two tokens, the loop of the comment rule does not run for ever, but
  fails, by a write behind the array; and so the program has no defined behaviour on a text with such a comment, after a beginning
  without slashes and quotation marks.\<close>

theorem long_comment_undefined:
  assumes "f_errors y = []" and "length (main_text fs args (f_rest y)) < 2 ^ 31"
    and "main_text fs args (f_rest y) = pre @ ''/*'' @ t" and "set pre \<inter> {CHR ''/'', CHR 0x22} = {}" and "too_long t"
  shows "scanner_main fs args (start_scanner y) = Fail \<and>
    (\<forall>L st B d. between L st B d t \<and> 0 < d \<longrightarrow> comment_loop Eat comment_array st = Some Fail)"
proof
  show "\<forall>L st B d. between L st B d t \<and> 0 < d \<longrightarrow> comment_loop Eat comment_array st = Some Fail"
    using too_long_loop [OF assms(5)] by blast
  have "scan_text (main_text fs args (f_rest y)) (start_globals, []) = None"
    unfolding assms(3) by (rule scan_to_comment [OF assms(5,4)])
  then show "scanner_main fs args (start_scanner y) = Fail" using main_start_run [OF assms(1,2)] by simp
qed

theorem long_comment_undefined_witness:
  "scanner_main (\<lambda>_. None) [] (start_scanner (a_file ''a /*c'')) = Fail \<and>
   comment_loop Eat comment_array (held_state 2 (''ab'' @ [CHR 0x00]) CHR ''c'') = Some Fail"
proof -
  have t: "main_text (\<lambda>_. None) [] (f_rest (a_file ''a /*c'')) = ''a '' @ ''/*'' @ ''c''" "f_errors (a_file s) = []" for s
    by (simp_all add: a_file_def main_text_def)
  have l: "too_long ''c''" by (auto simp: too_long_def Cons_eq_append_conv eof_chars)
  have "length (main_text (\<lambda>_. None) [] (f_rest (a_file ''a /*c''))) < 2 ^ 31" "set ''a '' \<inter> {CHR ''/'', CHR 0x22} = {}"
    unfolding t by simp_all
  note u = long_comment_undefined [OF t(2) this(1) t(1) this(2) l]
  show ?thesis
  proof
    show "scanner_main (\<lambda>_. None) [] (start_scanner (a_file ''a /*c'')) = Fail" using u by (rule conjunct1)
    show "comment_loop Eat comment_array (held_state 2 (''ab'' @ [CHR 0x00]) CHR ''c'') = Some Fail"
      by (rule conjunct2 [OF u, rule_format, of 10 _ 3 2]) (rule conjI [OF held_between(1)], simp)
  qed
qed

section \<open>Texts without comments\<close>

lemma scan_returns:
  assumes "arr_inv (tabs u) ns" and "card (set ns) + length cs \<le> MAX_ID_NUM" and "CHR ''*'' \<notin> set cs"
  shows "scan_text cs (u, out) \<noteq> None"
  using assms
proof (induction "length cs" arbitrary: cs u out ns rule: less_induct)
  case less
  note IH = less(1) and p = less(2-)
  show ?case
  proof (cases "cs = []")
    case False
    let ?m = "token_length cs"
    let ?w = "take ?m cs"
    have m: "0 < ?m" "?m \<le> length cs"
      using longest_pos [of "length cs" cs] longest_le [of "length cs" cs] False by (simp_all add: token_length_def)
    have "CHR ''*'' \<notin> set ?w" using p(3) by (meson in_set_takeD)
    then have nine: "admitted ?w \<noteq> 9" using comment_word [of ?w] by auto
    have shorter: "length (drop ?m cs) < length cs" using m by simp
    have star: "CHR ''*'' \<notin> set (drop ?m cs)" using p(3) by (meson in_set_dropD)
    have e: "scan_text cs (u, out) = (case act_on (admitted ?w) ?w (u, out) of
        None \<Rightarrow> None | Some o2 \<Rightarrow> scan_text (drop ?m cs) o2)"
      using False nine m(1) by (subst scan_text.simps) (simp add: Let_def split: option.split)
    show ?thesis
    proof (cases "admitted ?w = 8")
      case True
      have len: "length ?w < MAX_ID_SIZE" using p(2) by (simp add: MAX_ID_NUM_def MAX_ID_SIZE_def)
      have "card (set (ns @ [?w])) \<le> card (set ns) + 1" by (simp add: card_insert_if)
      then have c: "card (set (ns @ [?w])) + length (drop ?m cs) \<le> MAX_ID_NUM" using p(2) m by simp
      then have "card (set (ns @ [?w])) \<le> MAX_ID_NUM" by simp
      with enter_id_run [OF p(1) len] obtain t where t: "insert_arr_id ?w (tabs u) = Some t"
        "arr_inv (sort_symtab t) (ns @ [?w])" by auto
      have "scan_text (drop ?m cs) (u\<lparr>tokens := tokens u + 1, tabs := sort_symtab t\<rparr>, out) \<noteq> None"
        by (rule IH [OF shorter _ c star]) (use t(2) in simp)
      then show ?thesis unfolding e using True t(1) by (simp add: act_on_def)
    next
      case False
      then obtain u' out' where a: "act_on (admitted ?w) ?w (u, out) = Some (u', out')" "tabs u' = tabs u"
        unfolding act_on_def by (cases "admitted ?w = 1"; cases "admitted ?w = 10") (simp_all add: False)
      have "scan_text (drop ?m cs) (u', out') \<noteq> None"
        by (rule IH [OF shorter _ _ star, where ns = ns]) (use a(2) p(1,2) in simp_all)
      then show ?thesis unfolding e using a(1) by simp
    qed
  qed (simp add: scan_text.simps [of "[]"])
qed

text \<open>C35:
  The program returns, with 0, on every text of at most 100 bytes without a star, zero bytes and bytes that no
  pattern names included: the match loop, the refills and the backing up always come to an end.\<close>

theorem scanner_main_returns:
  assumes "f_errors y = []" and "length (main_text fs args (f_rest y)) \<le> 100"
    and "CHR ''*'' \<notin> set (main_text fs args (f_rest y))"
  shows "\<exists>st'. scanner_main fs args (start_scanner y) = Done 0 st'"
proof -
  have "arr_inv (tabs start_globals) []"
    by (simp add: arr_inv_def start_globals_def start_tables_def)
  then have "scan_text (main_text fs args (f_rest y)) (start_globals, []) \<noteq> None"
    by (rule scan_returns) (use assms in \<open>simp_all add: MAX_ID_NUM_def\<close>)
  moreover have "length (main_text fs args (f_rest y)) < 2 ^ 31" using assms(2) by simp
  ultimately show ?thesis using main_start_run [OF assms(1), of fs args]
    by (cases "scan_text (main_text fs args (f_rest y)) (start_globals, [])") auto
qed

theorem scanner_main_returns_witness:
  "\<exists>st'. scanner_main [''in'' \<mapsto> ''int a_1;'' @ [CHR 0x22, CHR 0x00, CHR 0xFF]] [''in''] (start_scanner (a_file [])) = Done 0 st'"
  by (rule scanner_main_returns) (simp_all add: a_file_def main_text_def)

section \<open>A character that is put back\<close>

lemma contents_update: "contents cs n m \<Longrightarrow> i < n \<Longrightarrow> contents (cs[i := c]) n m"
  by (simp add: contents_def)

text \<open>The text that is still to be read: from \<open>yy_c_buf_p\<close> to the end of the buffer, with the held character, and the file.\<close>

definition unread :: "scanner \<Rightarrow> addr \<Rightarrow> cstring option" where
  "unread st B =
     (case (buffers st B, yy_c_buf_p st, yyin st) of
        (Some b, Some (a, i), Some F) \<Rightarrow>
          (case (blocks st a, yy_files st F) of
             (Some cs, Some y) \<Rightarrow>
               if a = yy_ch_buf b \<and> i \<le> yy_n_chars st \<and> yy_n_chars st \<le> length cs
               then Some (drop i (take (yy_n_chars st) (cs[i := yy_hold_char st])) @ f_rest y) else None
           | _ \<Rightarrow> None)
      | _ \<Rightarrow> None)"

lemma between_unread:
  assumes "between L st B d rest"
  shows "unread st B = Some rest"
proof -
  from assms obtain b y cs t z where f: "frame L st B b y" "contents cs (yy_n_chars st) (yy_buf_size b)"
    "blocks st (yy_ch_buf b) = Some (cs[t + d := z])" "yy_hold_char st = cs ! (t + d)"
    "yytext st = Some (yy_ch_buf b, t)" "yy_c_buf_p st = Some (yy_ch_buf b, t + d)"
    "t + d \<le> yy_n_chars st" "drop (t + d) (take (yy_n_chars st) cs) @ f_rest y = rest"
    unfolding between_def by blast
  from f(1) obtain F where "yyin st = Some F" "yy_files st F = Some y" "buffers st B = Some b" by (auto simp: frame_def)
  then show ?thesis using f(2-8) by (simp add: unread_def contents_def)
qed

text \<open>The loop that makes room moves the first \<open>n\<close> characters up.\<close>

lemma shift_up_block:
  assumes "blocks st a = Some cs" and "n \<le> dest" and "dest \<le> length cs"
  shows "shift_up a dest n st = Done () (st\<lparr>blocks := (blocks st)(a \<mapsto> take (dest - n) cs @ take n cs @ drop dest cs)\<rparr>)"
  using assms
proof (induction n arbitrary: dest st cs)
  case 0
  then show ?case by (cases st) (simp add: fun_upd_idem)
next
  case (Suc n)
  let ?cs = "cs[dest - 1 := cs ! n]"
  have r: "char_at (a, n) st = Done (cs ! n) st"
    "put_char (a, dest - 1) (cs ! n) st = Done () (st\<lparr>blocks := (blocks st)(a \<mapsto> ?cs)\<rparr>)"
    using Suc.prems by simp_all
  have "drop (dest - 1) ?cs = cs ! n # drop dest cs"
    using Suc.prems by (subst Cons_nth_drop_Suc [symmetric]) (simp_all add: drop_update_cancel)
  moreover have "take (dest - 1 - n) ?cs = take (dest - Suc n) cs" "take n ?cs = take n cs"
    using Suc.prems by simp_all
  moreover have "take (Suc n) cs = take n cs @ [cs ! n]" using Suc.prems by (simp add: take_Suc_conv_app_nth)
  ultimately have "take (dest - 1 - n) ?cs @ take n ?cs @ drop (dest - 1) ?cs =
      take (dest - Suc n) cs @ take (Suc n) cs @ drop dest cs" by simp
  with r Suc.prems show ?case
    by (simp add: Suc.IH [where cs = ?cs] fun_upd_def cong: if_cong)
qed

lemma unput_room:
  assumes bt: "between L st B d rest" and p: "yy_c_buf_p st = Some (a, i)" "2 \<le> i" and q: "yytext st = Some bp" and d: "0 < d"
  shows "\<exists>st1 st2. yyunput c bp st = Done () st1 \<and> unread st1 B = Some (c # rest) \<and>
    yy_input st1 = Done (of_char c) st2 \<and> between L st2 B d rest \<and> shown st2 = shown st"
proof -
  from bt obtain b y cs t z where f: "frame L st B b y" "contents cs (yy_n_chars st) (yy_buf_size b)"
    "blocks st (yy_ch_buf b) = Some (cs[t + d := z])" "yy_hold_char st = cs ! (t + d)"
    "yytext st = Some (yy_ch_buf b, t)" "yy_c_buf_p st = Some (yy_ch_buf b, t + d)"
    "t + d \<le> yy_n_chars st" "drop (t + d) (take (yy_n_chars st) cs) @ f_rest y = rest" "d + length rest \<le> L"
    unfolding between_def by blast
  have e: "a = yy_ch_buf b" "i = t + d" "bp = (yy_ch_buf b, t)" using f p q by simp_all
  have l: "t + d < length cs" using f(2,7) by (simp add: contents_def)
  let ?st0 = "st\<lparr>blocks := (blocks st)(a \<mapsto> cs)\<rparr>"
  let ?cs = "cs[i - 1 := c]"
  let ?st1 = "st\<lparr>blocks := (blocks st)(a \<mapsto> ?cs), yytext := Some bp, yy_hold_char := c, yy_c_buf_p := Some (a, i - 1)\<rparr>"
  have r: "restore_hold st = Done () ?st0" using f l e by (simp add: restore_hold_def put_char_def)
  have f0: "frame L ?st0 B b y" using f(1) by simp
  have u: "yyunput c bp st = Done () ?st1"
    using p l e r d by (simp add: yyunput_def frame_current [OF f0 [unfolded e]] put_back_def)
  have f1: "frame L ?st1 B b y" using f(1) by simp
  let ?st2 = "?st1\<lparr>blocks := (blocks st)(a \<mapsto> ?cs[i - 1 := CHR 0x00]), yy_c_buf_p := Some (a, i), yy_hold_char := cs ! i\<rparr>"
  have r1: "restore_hold ?st1 = Done () ?st1" using l e by (simp add: restore_hold_def put_char_def fun_upd_def cong: if_cong)
  have Suc_i: "Suc (t + d - Suc 0) = t + d" using p(2) e by simp
  have tc: "take_char ?st1 = Done (of_char c) ?st2"
    using p l e Suc_i by (simp add: take_char_def fun_upd_def cong: if_cong)
  have rd: "char_at (a, i - 1) ?st1 = Done c ?st1" using l e by simp
  have z: "put_char (a, i - 1) CHR 0x00 ?st1 = Done () ?st1" if "c = CHR 0x00"
    using that l e by (simp add: fun_upd_def cong: if_cong)
  have n: "i - 1 < yy_n_chars ?st1" using f(7) p e by simp
  have inp: "yy_input ?st1 = Done (of_char c) ?st2"
    using r1 rd tc z n e frame_current(3) [OF f1] by (cases "c = CHR 0x00") (simp_all add: yy_input_def)
  have f2: "frame L ?st2 B b y" using f(1) by simp
  have "cs[i - 1 := CHR 0x00, i := cs ! i] = cs[i := cs ! i, i - 1 := CHR 0x00]" using p(2) by (intro list_update_swap) simp
  then have same: "cs[i - 1 := CHR 0x00, i := cs ! i] = cs[i - 1 := CHR 0x00]" by simp
  have "between L ?st2 B d rest"
    unfolding between_def
    by (rule exI [of _ b], rule exI [of _ y], rule exI [of _ "cs[i - 1 := CHR 0x00]"], rule exI [of _ t], rule exI [of _ "cs ! i"])
      (use f f2 e l p d same in \<open>auto simp: contents_update drop_update_cancel take_update_swap\<close>)
  moreover have "shown ?st2 = shown st" by simp
  moreover have "unread ?st1 B = Some (c # rest)"
  proof -
    obtain F where "yyin st = Some F" "yy_files st F = Some y" "buffers st B = Some b" using f(1) by (auto simp: frame_def)
    moreover have "drop (i - 1) (take (yy_n_chars st) ?cs) = c # drop i (take (yy_n_chars st) cs)"
    proof -
      have lt: "i - 1 < length cs" "i - 1 < yy_n_chars st" using p(2) e l f(7) by linarith+
      then have "i - 1 < length (take (yy_n_chars st) ?cs)" by simp
      have i: "Suc (i - 1) = i" using p(2) by simp
      from Cons_nth_drop_Suc [OF \<open>i - 1 < length (take (yy_n_chars st) ?cs)\<close>] show ?thesis
        unfolding i using p(2) e l f(7) lt by (simp add: take_update_swap drop_update_cancel)
    qed
    ultimately show ?thesis using e f(2,7,8) l by (auto simp: unread_def contents_def)
  qed
  ultimately show ?thesis using u inp by blast
qed

lemma unput_shift:
  assumes bt: "between L st B d rest" and p: "yy_c_buf_p st = Some (a, i)" "i < 2" and q: "yytext st = Some bp" and d: "0 < d"
  shows "\<exists>st1 st2. yyunput c bp st = Done () st1 \<and> unread st1 B = Some (c # rest) \<and>
    yy_input st1 = Done (of_char c) st2 \<and> unread st2 B = Some rest \<and> shown st2 = shown st \<and>
    yy_n_chars st2 = yy_buf_size (the (buffers st2 B))"
proof -
  from bt obtain b y cs t z where f: "frame L st B b y" "contents cs (yy_n_chars st) (yy_buf_size b)"
    "blocks st (yy_ch_buf b) = Some (cs[t + d := z])" "yy_hold_char st = cs ! (t + d)"
    "yytext st = Some (yy_ch_buf b, t)" "yy_c_buf_p st = Some (yy_ch_buf b, t + d)"
    "t + d \<le> yy_n_chars st" "drop (t + d) (take (yy_n_chars st) cs) @ f_rest y = rest" "d + length rest \<le> L"
    unfolding between_def by blast
  have e: "a = yy_ch_buf b" "i = 1" "t = 0" "d = 1" "bp = (yy_ch_buf b, 0)" using f(5,6) p q d by auto
  let ?n = "yy_n_chars st" and ?m = "yy_buf_size b"
  have l: "length cs = ?m + 2" "?n < ?m" "1 \<le> ?n" using f(2,7) e by (simp_all add: contents_def)
  let ?up = "?m - ?n"
  obtain F where F: "yyin st = Some F" "yy_files st F = Some y" "buffers st B = Some b" using f(1) by (auto simp: frame_def)
  define st0 where "st0 = st\<lparr>blocks := (blocks st)(a \<mapsto> cs)\<rparr>"
  have r: "restore_hold st = Done () st0" using f e l by (simp add: restore_hold_def put_char_def st0_def)
  have f0: "frame L st0 B b y" using f(1) by (simp add: st0_def)
  obtain q0 qs where qs: "take (?n + 2) cs = q0 # qs" using l by (cases "take (?n + 2) cs") auto
  let ?P = "take ?up cs"
  have lP: "length ?P = ?up" and lq: "length qs = ?n + 1" using l arg_cong [OF qs, of length] by simp_all
  define st1 where "st1 = st0\<lparr>blocks := (blocks st0)(a \<mapsto> ?P @ q0 # qs)\<rparr>"
  have sh: "shift_up a (?m + 2) (?n + 2) st0 = Done () st1"
    using shift_up_block [of st0 a cs "?n + 2" "?m + 2"] l qs by (simp add: st0_def st1_def)
  have f1: "frame L st1 B b y" using f0 by (simp add: st1_def)
  define st2 where "st2 = st1\<lparr>buffers := (buffers st1)(B \<mapsto> b\<lparr>b_n_chars := ?m\<rparr>), yy_n_chars := ?m\<rparr>"
  define st3 where "st3 = st2\<lparr>blocks := (blocks st2)(a \<mapsto> ?P @ c # qs), yytext := Some (a, ?up),
      yy_hold_char := c, yy_c_buf_p := Some (a, ?up)\<rparr>"
  have b2: "blocks st2 a = Some (?P @ q0 # qs)" by (simp add: st2_def st1_def)
  have "(?P @ q0 # qs)[?up := c] = ?P @ c # qs" using lP by (simp add: list_update_append)
  then have pb: "put_back c (a, 1 + ?up) (a, ?up) st2 = Done () st3"
    using b2 lP by (simp add: put_back_def st3_def)
  have nn: "yy_n_chars st0 = ?n" by (simp add: st0_def)
  have le: "ptr_le (a, 2) (a, 1) st0 = Done False st0" by simp
  have full: "set_lvalue (\<lambda>x. x\<lparr>b_n_chars := yy_buf_size x\<rparr>) st1 = Done () (st1\<lparr>buffers := (buffers st1)(B \<mapsto> b\<lparr>b_n_chars := ?m\<rparr>)\<rparr>)"
    by (rule frame_current(4) [OF f1])
  have cp: "c_buf_p st = Done (a, 1) st" using p(1) e(2) by simp
  have room: "\<not> 1 + ?up < 2" "\<not> ?m < ?n" using l by simp_all
  have mv: "move (a, 1) ?up = (a, 1 + ?up)" "move (a, 0) ?up = (a, ?up)" by simp_all
  have u: "yyunput c bp st = Done () st3"
    using pb
    by (simp only: yyunput_def bind_to_def after_def cp r frame_current(3) [OF f0] e(1) [symmetric] le outcome.case if_False
        basic_steps(2,3) nn Let_def if_not_P [OF room(2)] sh full e(5) fst_conv snd_conv if_not_P [OF room(1)] mv st2_def)
  have un3: "unread st3 B = Some (c # rest)"
  proof -
    have "drop ?up (take ?m (?P @ c # qs)) = c # take (?n - 1) qs"
      using lP l by (simp add: take_Cons')
    moreover have "take (?n - 1) qs = drop 1 (take ?n cs)"
    proof -
      have "take ?n cs = take ?n (take (?n + 2) cs)" by simp
      also have "\<dots> = q0 # take (?n - 1) qs" unfolding qs using l by (simp add: take_Cons')
      finally show ?thesis by simp
    qed
    ultimately show ?thesis using F f(8) e lP lq l
      by (simp add: unread_def st3_def st2_def st1_def st0_def list_update_append)
  qed
  define st4 where "st4 = st3\<lparr>blocks := (blocks st3)(a \<mapsto> ?P @ CHR 0x00 # qs), yy_c_buf_p := Some (a, ?up + 1), yy_hold_char := hd qs\<rparr>"
  have b3: "blocks st3 a = Some (?P @ c # qs)" "yy_c_buf_p st3 = Some (a, ?up)" "yy_hold_char st3 = c" "yy_n_chars st3 = ?m"
    by (simp_all add: st3_def st2_def)
  have r3: "restore_hold st3 = Done () st3"
    using b3 lP by (cases st3) (simp add: restore_hold_def put_char_def list_update_append fun_upd_idem)
  have hq: "(?P @ c # qs) ! Suc ?up = hd qs" using lP lq by (cases qs) (simp_all add: nth_append)
  have tc: "take_char st3 = Done (of_char c) st4"
    using b3 lP lq hq by (simp add: take_char_def st4_def list_update_append nth_append)
  have lv: "lvalue st3 = Done (b\<lparr>b_n_chars := ?m\<rparr>) st3"
    using f1 by (simp add: lvalue_def current_buffer_def buffer_at_def frame_def st3_def st2_def)
  have ch: "char_at (a, ?up) st3 = Done c st3" using b3 lP by (simp add: nth_append)
  have z: "put_char (a, ?up) CHR 0x00 st3 = Done () st3" if "c = CHR 0x00"
    using that b3 lP by (cases st3) (simp add: list_update_append fun_upd_idem)
  have inp: "yy_input st3 = Done (of_char c) st4"
    using r3 ch tc z b3 lv e l by (cases "c = CHR 0x00") (simp_all add: yy_input_def)
  have "unread st4 B = Some rest"
  proof -
    have "(?P @ CHR 0x00 # qs)[Suc ?up := hd qs] = ?P @ CHR 0x00 # qs"
      using lP lq by (cases qs) (simp_all add: list_update_append)
    moreover have "drop (Suc ?up) (take ?m (?P @ CHR 0x00 # qs)) = take (?n - 1) qs"
      using lP l by (simp add: take_Cons')
    moreover have "take (?n - 1) qs @ f_rest y = rest"
    proof -
      have "take ?n cs = take ?n (take (?n + 2) cs)" by simp
      also have "\<dots> = q0 # take (?n - 1) qs" unfolding qs using l by (simp add: take_Cons')
      finally show ?thesis using f(8) e by simp
    qed
    ultimately show ?thesis using F e lP lq l
      by (simp add: unread_def st4_def st3_def st2_def st1_def st0_def)
  qed
  moreover have "shown st4 = shown st" by (simp add: shown_def out_of_def st4_def st3_def st2_def st1_def st0_def)
  moreover have "yy_n_chars st4 = yy_buf_size (the (buffers st4 B))" by (simp add: st4_def st3_def st2_def)
  ultimately show ?thesis using u inp un3 by blast
qed

text \<open>C36:
  After \<open>yyunput\<close> between two tokens, with a last token that is not empty, the text that is still to be read is the character that was put back and the
  text of before; \<open>input\<close> returns that character, and leaves the text of before. If the current position is
  less than two characters into the buffer, \<open>yyunput\<close> first moves everything up to the end of the buffer, which
  is full then; otherwise the scanner is again between two tokens as before.
\<close>

theorem unput_input:
  assumes "between L st B d rest" and "yy_c_buf_p st = Some (a, i)" and "yytext st = Some bp" and "0 < d"
  shows "\<exists>st1 st2. yyunput c bp st = Done () st1 \<and> unread st1 B = Some (c # rest) \<and>
    yy_input st1 = Done (of_char c) st2 \<and> unread st2 B = Some rest \<and> shown st2 = shown st \<and>
    (if 2 \<le> i then between L st2 B d rest else yy_n_chars st2 = yy_buf_size (the (buffers st2 B)))"
proof (cases "2 \<le> i")
  case True
  then show ?thesis using unput_room [OF assms(1,2) True assms(3,4), of c] between_unread by fastforce
next
  case False
  then have "i < 2" by simp
  then show ?thesis using unput_shift [OF assms(1,2) _ assms(3,4), of c] False by fastforce
qed

theorem unput_input_witness:
  "(\<exists>st1 st2. yyunput CHR ''x'' (2, 0) (held_state 2 (''ab'' @ [CHR 0x00]) CHR ''c'') = Done () st1 \<and>
     yy_input st1 = Done (of_char CHR ''x'') st2 \<and> between 10 st2 3 2 ''c'') \<and>
   (\<exists>st1 st2. yyunput CHR ''x'' (2, 0) (held_state 1 (''a'' @ [CHR 0x00, CHR ''c'']) CHR ''b'') = Done () st1 \<and>
     unread st1 3 = Some ''xbc'' \<and> yy_input st1 = Done (of_char CHR ''x'') st2 \<and> unread st2 3 = Some ''bc'')"
proof -
  have "yy_c_buf_p (held_state d s h) = Some (2, d)" "yytext (held_state d s h) = Some (2, 0)" for d s h
    by (simp_all add: held_state_def)
  then show ?thesis
    using unput_input [OF held_between(1), of 2 2 "(2, 0)" "CHR ''x''"]
      unput_input [OF held_between(2), of 2 1 "(2, 0)" "CHR ''x''"] by fastforce
qed

end
