(* ===== verification/UtHash.thy ===== *)
theory UtHash
  imports GhtHash
begin

unbundle bit_operations_syntax

text \<open>
  The hash functions of \<open>uthash.h\<close>, on 32-bit words, and its Bloom filter. A key is the list of its bytes;
  \<open>HASH_TO_BKT\<close> takes the low bits of a hash value.
\<close>

section \<open>Hash functions\<close>

definition HASH_TO_BKT :: "32 word \<Rightarrow> 32 word \<Rightarrow> 32 word" where
  "HASH_TO_BKT hashv num_bkts = hashv AND (num_bkts - 1)"

definition HASH_BER :: "byte list \<Rightarrow> 32 word" where
  "HASH_BER k = fold (\<lambda>b hashv. push_bit 5 hashv + hashv + ucast b) k 0"

definition HASH_SAX :: "byte list \<Rightarrow> 32 word" where
  "HASH_SAX k = fold (\<lambda>b hashv. hashv XOR (push_bit 5 hashv + drop_bit 2 hashv + ucast b)) k 0"

definition HASH_FNV :: "byte list \<Rightarrow> 32 word" where
  "HASH_FNV k = fold (\<lambda>b hashv. (hashv XOR ucast b) * 16777619) k 2166136261"

definition HASH_OAT :: "byte list \<Rightarrow> 32 word" where
  "HASH_OAT k =
     (let hashv = fold (\<lambda>b hashv.
            let hashv = hashv + ucast b;
                hashv = hashv + push_bit 10 hashv
            in hashv XOR drop_bit 6 hashv) k 0;
          hashv = hashv + push_bit 3 hashv;
          hashv = hashv XOR drop_bit 11 hashv
      in hashv + push_bit 15 hashv)"

subsection \<open>Jenkins\<close>

text \<open>Four bytes, the lowest one first; bytes that are not there count as zero.\<close>

definition byte_at :: "byte list \<Rightarrow> nat \<Rightarrow> 32 word" where
  "byte_at k i = (if i < length k then ucast (k ! i) else 0)"

definition word_at :: "byte list \<Rightarrow> nat \<Rightarrow> 32 word" where
  "word_at k i = byte_at k i + push_bit 8 (byte_at k (i + 1)) + push_bit 16 (byte_at k (i + 2)) + push_bit 24 (byte_at k (i + 3))"

definition HASH_JEN_MIX :: "32 word \<times> 32 word \<times> 32 word \<Rightarrow> 32 word \<times> 32 word \<times> 32 word" where
  "HASH_JEN_MIX = (\<lambda>(a, b, c).
     let a = a - b; a = a - c; a = a XOR drop_bit 13 c;
         b = b - c; b = b - a; b = b XOR push_bit 8 a;
         c = c - a; c = c - b; c = c XOR drop_bit 13 b;
         a = a - b; a = a - c; a = a XOR drop_bit 12 c;
         b = b - c; b = b - a; b = b XOR push_bit 16 a;
         c = c - a; c = c - b; c = c XOR drop_bit 5 b;
         a = a - b; a = a - c; a = a XOR drop_bit 3 c;
         b = b - c; b = b - a; b = b XOR push_bit 10 a;
         c = c - a; c = c - b; c = c XOR drop_bit 15 b
     in (a, b, c))"

text \<open>The loop over blocks of twelve bytes; the result has the bytes that are left.\<close>

function jen_blocks :: "byte list \<Rightarrow> 32 word \<times> 32 word \<times> 32 word \<Rightarrow> byte list \<times> 32 word \<times> 32 word \<times> 32 word" where
  "jen_blocks k s =
     (if 12 \<le> length k
      then (case s of (i, j, hashv) \<Rightarrow>
              jen_blocks (drop 12 k) (HASH_JEN_MIX (i + word_at k 0, j + word_at k 4, hashv + word_at k 8)))
      else (k, s))"
  by pat_completeness auto
termination
  by (relation "measure (\<lambda>(k, s). length k)") auto

declare jen_blocks.simps [simp del]

text \<open>The last block: the lowest byte of \<open>hashv\<close> has the length of the key instead.\<close>

definition HASH_JEN :: "byte list \<Rightarrow> 32 word" where
  "HASH_JEN k =
     (case jen_blocks k (0x9e3779b9, 0x9e3779b9, 0xfeedbeef) of (r, i, j, hashv) \<Rightarrow>
        let hashv = hashv + of_nat (length k);
            hashv = hashv + push_bit 24 (byte_at r 10) + push_bit 16 (byte_at r 9) + push_bit 8 (byte_at r 8);
            j = j + word_at r 4;
            i = i + word_at r 0
        in snd (snd (HASH_JEN_MIX (i, j, hashv))))"

subsection \<open>Hsieh\<close>

definition get16bits :: "byte list \<Rightarrow> nat \<Rightarrow> 32 word" where
  "get16bits k i = push_bit 8 (byte_at k (i + 1)) + byte_at k i"

function sfh_blocks :: "byte list \<Rightarrow> 32 word \<Rightarrow> byte list \<times> 32 word" where
  "sfh_blocks k hashv =
     (if 4 \<le> length k
      then
        let hashv = hashv + get16bits k 0;
            tmp = push_bit 11 (get16bits k 2) XOR hashv;
            hashv = push_bit 16 hashv XOR tmp
        in sfh_blocks (drop 4 k) (hashv + drop_bit 11 hashv)
      else (k, hashv))"
  by pat_completeness auto
termination
  by (relation "measure (\<lambda>(k, s). length k)") auto

declare sfh_blocks.simps [simp del]

definition HASH_SFH :: "byte list \<Rightarrow> 32 word" where
  "HASH_SFH k =
     (case sfh_blocks k 0xcafebabe of (r, hashv) \<Rightarrow>
        let hashv =
             (if length r = 3 then
                let hashv = hashv + get16bits r 0;
                    hashv = hashv XOR push_bit 16 hashv;
                    hashv = hashv XOR push_bit 18 (byte_at r 2)
                in hashv + drop_bit 11 hashv
              else if length r = 2 then
                let hashv = hashv + get16bits r 0;
                    hashv = hashv XOR push_bit 11 hashv
                in hashv + drop_bit 17 hashv
              else if length r = 1 then
                let hashv = hashv + byte_at r 0;
                    hashv = hashv XOR push_bit 10 hashv
                in hashv + drop_bit 1 hashv
              else hashv);
            hashv = hashv XOR push_bit 3 hashv;
            hashv = hashv + drop_bit 5 hashv;
            hashv = hashv XOR push_bit 4 hashv;
            hashv = hashv + drop_bit 17 hashv;
            hashv = hashv XOR push_bit 25 hashv
        in hashv + drop_bit 6 hashv)"

subsection \<open>Murmur\<close>

definition MUR_ROTL32 :: "32 word \<Rightarrow> nat \<Rightarrow> 32 word" where
  "MUR_ROTL32 x r = push_bit r x OR drop_bit (32 - r) x"

definition MUR_FMIX :: "32 word \<Rightarrow> 32 word" where
  "MUR_FMIX h =
     (let h = h XOR drop_bit 16 h;
          h = h * 0x85ebca6b;
          h = h XOR drop_bit 13 h;
          h = h * 0xc2b2ae35
      in h XOR drop_bit 16 h)"

definition mur_k1 :: "32 word \<Rightarrow> 32 word" where
  "mur_k1 k1 = MUR_ROTL32 (k1 * 0xcc9e2d51) 15 * 0x1b873593"

function mur_blocks :: "byte list \<Rightarrow> 32 word \<Rightarrow> byte list \<times> 32 word" where
  "mur_blocks k h1 =
     (if 4 \<le> length k
      then mur_blocks (drop 4 k) (MUR_ROTL32 (h1 XOR mur_k1 (word_at k 0)) 13 * 5 + 0xe6546b64)
      else (k, h1))"
  by pat_completeness auto
termination
  by (relation "measure (\<lambda>(k, s). length k)") auto

declare mur_blocks.simps [simp del]

definition HASH_MUR :: "byte list \<Rightarrow> 32 word" where
  "HASH_MUR k =
     (case mur_blocks k 0xf88D5353 of (r, h1) \<Rightarrow>
        let k1 = push_bit 16 (byte_at r 2) XOR push_bit 8 (byte_at r 1) XOR byte_at r 0;
            h1 = (if r = [] then h1 else h1 XOR mur_k1 k1)
        in MUR_FMIX (h1 XOR of_nat (length k)))"

section \<open>The Bloom filter\<close>

text \<open>A bit vector of \<open>2 ^ nbits\<close> bits, in bytes; it is there when \<open>HASH_BLOOM\<close> is defined.\<close>

definition bloom_bytes :: "nat \<Rightarrow> nat" where
  "bloom_bytes nbits = 2 ^ nbits div 8 + (if 2 ^ nbits mod 8 \<noteq> (0::nat) then 1 else 0)"

definition HASH_BLOOM_MAKE :: "nat \<Rightarrow> byte list" where
  "HASH_BLOOM_MAKE nbits = replicate (bloom_bytes nbits) 0"

definition bloom_index :: "nat \<Rightarrow> 32 word \<Rightarrow> nat" where
  "bloom_index nbits hashv = unat (hashv AND (2 ^ nbits - 1))"

definition HASH_BLOOM_ADD :: "nat \<Rightarrow> byte list \<Rightarrow> 32 word \<Rightarrow> byte list option" where
  "HASH_BLOOM_ADD nbits bv hashv =
     (let i = bloom_index nbits hashv
      in if i div 8 < length bv then Some (bv[i div 8 := bv ! (i div 8) OR push_bit (i mod 8) 1]) else None)"

definition HASH_BLOOM_TEST :: "nat \<Rightarrow> byte list \<Rightarrow> 32 word \<Rightarrow> bool option" where
  "HASH_BLOOM_TEST nbits bv hashv =
     (let i = bloom_index nbits hashv
      in if i div 8 < length bv then Some (bv ! (i div 8) AND push_bit (i mod 8) 1 \<noteq> 0) else None)"

section \<open>Facts\<close>

text \<open>The Bernstein hash is a polynomial in 33.\<close>

lemma HASH_BER_polynomial: "HASH_BER k = (\<Sum>i < length k. ucast (k ! i) * 33 ^ (length k - 1 - i))"
proof -
  have "fold (\<lambda>b hashv. push_bit 5 hashv + hashv + ucast b) k h =
      h * 33 ^ length k + (\<Sum>i < length k. ucast (k ! i) * 33 ^ (length k - 1 - i))" for h :: "32 word"
  proof (induction k arbitrary: h)
    case (Cons b k)
    have h: "push_bit 5 h + h = h * 33" by (simp add: push_bit_eq_mult algebra_simps)
    have s: "(\<Sum>i < length (b # k). ucast ((b # k) ! i) * 33 ^ (length (b # k) - 1 - i)) =
        (ucast b * 33 ^ length k + (\<Sum>i < length k. ucast (k ! i) * 33 ^ (length k - 1 - i)) :: 32 word)"
      unfolding length_Cons sum.lessThan_Suc_shift by simp
    show ?case unfolding fold_Cons o_apply Cons.IH s h by (simp add: algebra_simps)
  qed simp
  from this [of 0] show ?thesis by (simp add: HASH_BER_def)
qed

text \<open>The function of Jenkins that adds one byte at a time is the one of libghthash, for every key.\<close>

lemma HASH_OAT_ght: "HASH_OAT k = ght_one_at_a_time_hash \<lparr>i_size = length k, p_key = k\<rparr>"
  by (simp add: HASH_OAT_def ght_one_at_a_time_hash_def key_bytes_def one_at_a_time_step_def [abs_def])

end
