(* ===== verification/UtTable.thy ===== *)
theory UtTable
  imports UtHash
begin

unbundle bit_operations_syntax

text \<open>
  The hash table of the macros in \<open>uthash.h\<close>. An element is an object of the client that has a hash handle
  inside, \<open>hh\<close> bytes from its start (the parameter \<open>hh\<close> of the macros names that member); \<open>prev\<close>, \<open>next\<close> and
  the head are addresses of elements, \<open>hh_prev\<close>, \<open>hh_next\<close>, \<open>hh_head\<close> and \<open>tail\<close> are addresses of handles. The
  client owns the elements, the macros allocate the tables. A step runs, or the program exits because
  \<open>malloc\<close> refused a block (with its size), or it exits with the message of a failed \<open>HASH_FSCK\<close>, or its behaviour is
  undefined. \<open>HASH_BLOOM\<close>, \<open>HASH_DEBUG\<close> and \<open>HASH_EMIT_KEYS\<close> are
  not defined; the hash function is a parameter, as in \<open>HASH_FUNCTION\<close>.
\<close>

section \<open>Data\<close>

record UT_hash_bucket =
  hh_head :: ptr
  bkt_count :: "32 word"
  expand_mult :: "32 word"

record UT_hash_table =
  buckets :: "UT_hash_bucket list"
  num_buckets :: "32 word"
  log2_num_buckets :: "32 word"
  num_items :: "32 word"
  tail_hh :: ptr
  hho :: nat
  ideal_chain_maxlen :: "32 word"
  nonideal_items :: "32 word"
  ineff_expands :: "32 word"
  noexpand :: "32 word"
  signature :: "32 word"

record UT_hash_handle =
  hh_tbl :: ptr
  prev :: ptr
  next_elt :: ptr
  hh_prev :: ptr
  hh_next :: ptr
  hh_key :: "byte list"
  keylen :: "32 word"
  hashv :: "32 word"

definition HASH_INITIAL_NUM_BUCKETS :: nat where "HASH_INITIAL_NUM_BUCKETS = 32"

definition HASH_INITIAL_NUM_BUCKETS_LOG2 :: nat where "HASH_INITIAL_NUM_BUCKETS_LOG2 = 5"

definition HASH_BKT_CAPACITY_THRESH :: "32 word" where "HASH_BKT_CAPACITY_THRESH = 10"

definition HASH_SIGNATURE :: "32 word" where "HASH_SIGNATURE = 0xa0111fe1"

text \<open>Sizes of the structures with 64-bit pointers.\<close>

definition sizeof_bucket :: nat where "sizeof_bucket = 16"

definition sizeof_table :: nat where "sizeof_table = 64"

definition sizeof_handle :: nat where "sizeof_handle = 56"

text \<open>The handles, the tables, the next address of a table, and the sizes for which \<open>malloc\<close> has memory.\<close>

record ut_heap =
  hhs :: "addr \<rightharpoonup> UT_hash_handle"
  tabs :: "addr \<rightharpoonup> UT_hash_table"
  ut_brk :: addr
  can_alloc :: "nat \<Rightarrow> bool"

section \<open>Steps\<close>

datatype 'a ut_result = Runs 'a ut_heap | Refused nat | Oops | Undefined

type_synonym 'a ut = "ut_heap \<Rightarrow> 'a ut_result"

definition ret :: "'a \<Rightarrow> 'a ut" where "ret x = (\<lambda>st. Runs x st)"

definition bnd :: "'a ut \<Rightarrow> ('a \<Rightarrow> 'b ut) \<Rightarrow> 'b ut" where
  "bnd m k = (\<lambda>st. case m st of Runs x st' \<Rightarrow> k x st' | Refused n \<Rightarrow> Refused n | Oops \<Rightarrow> Oops | Undefined \<Rightarrow> Undefined)"

definition seq :: "unit ut \<Rightarrow> 'b ut \<Rightarrow> 'b ut" where "seq m k = bnd m (\<lambda>_. k)"

definition bad :: "'a ut" where "bad = (\<lambda>st. Undefined)"

text \<open>A loop that never ends has no defined result.\<close>

definition loop_of :: "(ut_heap \<Rightarrow> 'a ut_result option) \<Rightarrow> 'a ut" where
  "loop_of f = (\<lambda>st. case f st of None \<Rightarrow> Undefined | Some r \<Rightarrow> r)"

definition defined_ptr :: "ptr \<Rightarrow> addr ut" where
  "defined_ptr p = (case p of None \<Rightarrow> bad | Some a \<Rightarrow> ret a)"

definition hh_at :: "addr \<Rightarrow> UT_hash_handle ut" where
  "hh_at a = (\<lambda>st. case hhs st a of None \<Rightarrow> Undefined | Some h \<Rightarrow> Runs h st)"

definition set_hh :: "addr \<Rightarrow> (UT_hash_handle \<Rightarrow> UT_hash_handle) \<Rightarrow> unit ut" where
  "set_hh a f = (\<lambda>st. case hhs st a of None \<Rightarrow> Undefined | Some h \<Rightarrow> Runs () (st\<lparr>hhs := (hhs st)(a \<mapsto> f h)\<rparr>))"

text \<open>An assignment through a pointer that was tested for \<open>NULL\<close>.\<close>

definition set_hh_if :: "ptr \<Rightarrow> (UT_hash_handle \<Rightarrow> UT_hash_handle) \<Rightarrow> unit ut" where
  "set_hh_if p f = (case p of None \<Rightarrow> ret () | Some a \<Rightarrow> set_hh a f)"

definition tbl_at :: "addr \<Rightarrow> UT_hash_table ut" where
  "tbl_at t = (\<lambda>st. case tabs st t of None \<Rightarrow> Undefined | Some T \<Rightarrow> Runs T st)"

definition set_tbl :: "addr \<Rightarrow> (UT_hash_table \<Rightarrow> UT_hash_table) \<Rightarrow> unit ut" where
  "set_tbl t f = (\<lambda>st. case tabs st t of None \<Rightarrow> Undefined | Some T \<Rightarrow> Runs () (st\<lparr>tabs := (tabs st)(t \<mapsto> f T)\<rparr>))"

definition bkt_at :: "addr \<Rightarrow> nat \<Rightarrow> UT_hash_bucket ut" where
  "bkt_at t i = bnd (tbl_at t) (\<lambda>T. if i < length (buckets T) then ret (buckets T ! i) else bad)"

definition set_bkt :: "addr \<Rightarrow> nat \<Rightarrow> (UT_hash_bucket \<Rightarrow> UT_hash_bucket) \<Rightarrow> unit ut" where
  "set_bkt t i f = bnd (bkt_at t i) (\<lambda>b. set_tbl t (\<lambda>T. T\<lparr>buckets := (buckets T)[i := f b]\<rparr>))"

text \<open>\<open>uthash_malloc\<close> with the test of its result, which ends in \<open>uthash_fatal\<close>.\<close>

definition ut_malloc :: "nat \<Rightarrow> unit ut" where
  "ut_malloc n = (\<lambda>st. if can_alloc st n then Runs () st else Refused n)"

definition new_table :: "UT_hash_table \<Rightarrow> addr ut" where
  "new_table T = (\<lambda>st. Runs (ut_brk st) (st\<lparr>tabs := (tabs st)(ut_brk st \<mapsto> T), ut_brk := ut_brk st + 1\<rparr>))"

definition free_table :: "addr \<Rightarrow> unit ut" where
  "free_table t = bnd (tbl_at t) (\<lambda>_ st. Runs () (st\<lparr>tabs := free_at t (tabs st)\<rparr>))"

definition ELMT_FROM_HH :: "UT_hash_table \<Rightarrow> addr \<Rightarrow> addr" where
  "ELMT_FROM_HH T hhp = hhp - hho T"

text \<open>The table of a head that is not \<open>NULL\<close>.\<close>

definition head_tbl :: "nat \<Rightarrow> addr \<Rightarrow> addr ut" where
  "head_tbl hh head = bnd (hh_at (head + hh)) (\<lambda>h. defined_ptr (hh_tbl h))"

section \<open>Making a table\<close>

definition zero_bucket :: UT_hash_bucket where
  "zero_bucket = \<lparr>hh_head = None, bkt_count = 0, expand_mult = 0\<rparr>"

definition zero_table :: UT_hash_table where
  "zero_table = \<lparr>buckets = [], num_buckets = 0, log2_num_buckets = 0, num_items = 0, tail_hh = None, hho = 0,
     ideal_chain_maxlen = 0, nonideal_items = 0, ineff_expands = 0, noexpand = 0, signature = 0\<rparr>"

definition HASH_MAKE_TABLE :: "nat \<Rightarrow> addr \<Rightarrow> unit ut" where
  "HASH_MAKE_TABLE hh head =
     seq (ut_malloc sizeof_table)
    (bnd (new_table zero_table) (\<lambda>t.
     seq (set_hh (head + hh) (\<lambda>h. h\<lparr>hh_tbl := Some t\<rparr>))
    (seq (set_tbl t (\<lambda>T. T\<lparr>tail_hh := Some (head + hh),
            num_buckets := of_nat HASH_INITIAL_NUM_BUCKETS,
            log2_num_buckets := of_nat HASH_INITIAL_NUM_BUCKETS_LOG2,
            hho := head + hh - head\<rparr>))
    (seq (ut_malloc (HASH_INITIAL_NUM_BUCKETS * sizeof_bucket))
    (set_tbl t (\<lambda>T. T\<lparr>buckets := replicate HASH_INITIAL_NUM_BUCKETS zero_bucket, signature := HASH_SIGNATURE\<rparr>))))))"

section \<open>Growing\<close>

text \<open>The state of the loops of \<open>HASH_EXPAND_BUCKETS\<close>: the new buckets and \<open>nonideal_items\<close>.\<close>

type_synonym expansion = "UT_hash_bucket list \<times> 32 word"

definition move_hh :: "UT_hash_table \<Rightarrow> expansion \<Rightarrow> addr \<Rightarrow> expansion ut" where
  "move_hh T e thh =
     bnd (hh_at thh) (\<lambda>h.
     let bkt = unat (HASH_TO_BKT (hashv h) (num_buckets T * 2)); news = fst e
     in if length news \<le> bkt then bad
        else
          let newbkt = news ! bkt; n = bkt_count newbkt + 1; ideal = ideal_chain_maxlen T
          in if n > ideal \<and> ideal = 0 then bad
             else
               seq (set_hh thh (\<lambda>h. h\<lparr>hh_prev := None, hh_next := hh_head newbkt\<rparr>))
              (seq (set_hh_if (hh_head newbkt) (\<lambda>h. h\<lparr>hh_prev := Some thh\<rparr>))
              (ret (news[bkt := newbkt\<lparr>hh_head := Some thh, bkt_count := n,
                          expand_mult := (if n > ideal then n div ideal else expand_mult newbkt)\<rparr>],
                    snd e + (if n > ideal then 1 else 0)))))"

partial_function (option) move_chain :: "UT_hash_table \<Rightarrow> ptr \<Rightarrow> expansion \<Rightarrow> ut_heap \<Rightarrow> expansion ut_result option" where
  "move_chain T thh e st =
     (case thh of
        None \<Rightarrow> Some (Runs e st)
      | Some a \<Rightarrow>
          (case hhs st a of
             None \<Rightarrow> Some Undefined
           | Some h \<Rightarrow>
               (case move_hh T e a st of
                  Runs e st \<Rightarrow> move_chain T (hh_next h) e st
                | Refused n \<Rightarrow> Some (Refused n)
                | Oops \<Rightarrow> Some Oops
                | Undefined \<Rightarrow> Some Undefined)))"

declare move_chain.simps [code]

text \<open>The loop over the old buckets.\<close>

primrec move_buckets :: "UT_hash_table \<Rightarrow> UT_hash_bucket list \<Rightarrow> expansion \<Rightarrow> expansion ut" where
  "move_buckets T [] e = ret e"
| "move_buckets T (b # bs) e = bnd (loop_of (move_chain T (hh_head b) e)) (move_buckets T bs)"

definition HASH_EXPAND_BUCKETS :: "addr \<Rightarrow> unit ut" where
  "HASH_EXPAND_BUCKETS t =
     bnd (tbl_at t) (\<lambda>T.
     let n = 2 * unat (num_buckets T)
     in seq (ut_malloc (n * sizeof_bucket))
       (if 32 \<le> unat (log2_num_buckets T + 1) \<or> length (buckets T) < unat (num_buckets T) then bad
        else
          let T = T\<lparr>ideal_chain_maxlen := drop_bit (unat (log2_num_buckets T + 1)) (num_items T) +
                 (if num_items T AND (num_buckets T * 2 - 1) \<noteq> 0 then 1 else 0)\<rparr>
          in bnd (move_buckets T (take (unat (num_buckets T)) (buckets T)) (replicate n zero_bucket, 0)) (\<lambda>(news, nonideal).
             let ineff = (if nonideal > drop_bit 1 (num_items T) then ineff_expands T + 1 else 0)
             in set_tbl t (\<lambda>_. T\<lparr>nonideal_items := nonideal, num_buckets := num_buckets T * 2,
                  log2_num_buckets := log2_num_buckets T + 1, buckets := news, ineff_expands := ineff,
                  noexpand := (if ineff > 1 then 1 else noexpand T)\<rparr>))))"

section \<open>Adding, finding, deleting\<close>

definition HASH_ADD_TO_BKT :: "addr \<Rightarrow> nat \<Rightarrow> addr \<Rightarrow> unit ut" where
  "HASH_ADD_TO_BKT t i addhh =
     seq (set_bkt t i (\<lambda>b. b\<lparr>bkt_count := bkt_count b + 1\<rparr>))
    (bnd (bkt_at t i) (\<lambda>b.
     seq (set_hh addhh (\<lambda>h. h\<lparr>hh_next := hh_head b, hh_prev := None\<rparr>))
    (seq (set_hh_if (hh_head b) (\<lambda>h. h\<lparr>hh_prev := Some addhh\<rparr>))
    (seq (set_bkt t i (\<lambda>b. b\<lparr>hh_head := Some addhh\<rparr>))
    (if bkt_count b \<ge> (expand_mult b + 1) * HASH_BKT_CAPACITY_THRESH then
       bnd (hh_at addhh) (\<lambda>h.
       bnd (defined_ptr (hh_tbl h)) (\<lambda>t.
       bnd (tbl_at t) (\<lambda>T.
       if noexpand T \<noteq> 1 then HASH_EXPAND_BUCKETS t else ret ())))
     else ret ())))))"

text \<open>The result is the new head.\<close>

definition HASH_ADD_KEYPTR :: "(byte list \<Rightarrow> 32 word) \<Rightarrow> nat \<Rightarrow> ptr \<Rightarrow> byte list \<Rightarrow> addr \<Rightarrow> ptr ut" where
  "HASH_ADD_KEYPTR fcn hh head k add =
     seq (set_hh (add + hh) (\<lambda>h. h\<lparr>next_elt := None, hh_key := k, keylen := of_nat (length k)\<rparr>))
    (bnd (case head of
            None \<Rightarrow>
              seq (set_hh (add + hh) (\<lambda>h. h\<lparr>prev := None\<rparr>))
             (seq (HASH_MAKE_TABLE hh add)
             (ret add))
          | Some hd_e \<Rightarrow>
              bnd (head_tbl hh hd_e) (\<lambda>t.
              bnd (tbl_at t) (\<lambda>T.
              bnd (defined_ptr (tail_hh T)) (\<lambda>tl_hh.
              seq (set_hh tl_hh (\<lambda>h. h\<lparr>next_elt := Some add\<rparr>))
             (seq (set_hh (add + hh) (\<lambda>h. h\<lparr>prev := Some (ELMT_FROM_HH T tl_hh)\<rparr>))
             (seq (set_tbl t (\<lambda>T. T\<lparr>tail_hh := Some (add + hh)\<rparr>))
             (ret hd_e))))))) (\<lambda>hd_e.
     bnd (head_tbl hh hd_e) (\<lambda>t.
     seq (set_tbl t (\<lambda>T. T\<lparr>num_items := num_items T + 1\<rparr>))
    (seq (set_hh (add + hh) (\<lambda>h. h\<lparr>hh_tbl := Some t, hashv := fcn k\<rparr>))
    (bnd (tbl_at t) (\<lambda>T.
     seq (HASH_ADD_TO_BKT t (unat (HASH_TO_BKT (fcn k) (num_buckets T))) (add + hh))
    (ret (Some hd_e))))))))"

text \<open>The loop over the items of a bucket; \<open>out\<close> is an element.\<close>

partial_function (option) find_loop :: "UT_hash_table \<Rightarrow> nat \<Rightarrow> byte list \<Rightarrow> ptr \<Rightarrow> ut_heap \<Rightarrow> ptr ut_result option" where
  "find_loop T hh k out st =
     (case out of
        None \<Rightarrow> Some (Runs None st)
      | Some e \<Rightarrow>
          (case hhs st (e + hh) of
             None \<Rightarrow> Some Undefined
           | Some h \<Rightarrow>
               if keylen h = of_nat (length k) \<and> take (length k) (hh_key h) = k then Some (Runs (Some e) st)
               else find_loop T hh k (map_option (ELMT_FROM_HH T) (hh_next h)) st))"

declare find_loop.simps [code]

definition HASH_FIND_IN_BKT :: "addr \<Rightarrow> nat \<Rightarrow> nat \<Rightarrow> byte list \<Rightarrow> ptr ut" where
  "HASH_FIND_IN_BKT t hh i k =
     bnd (tbl_at t) (\<lambda>T.
     bnd (bkt_at t i) (\<lambda>b.
     loop_of (find_loop T hh k (map_option (ELMT_FROM_HH T) (hh_head b)))))"

definition HASH_FIND :: "(byte list \<Rightarrow> 32 word) \<Rightarrow> nat \<Rightarrow> ptr \<Rightarrow> byte list \<Rightarrow> ptr ut" where
  "HASH_FIND fcn hh head k =
     (case head of
        None \<Rightarrow> ret None
      | Some hd_e \<Rightarrow>
          bnd (head_tbl hh hd_e) (\<lambda>t.
          bnd (tbl_at t) (\<lambda>T.
          HASH_FIND_IN_BKT t hh (unat (HASH_TO_BKT (fcn k) (num_buckets T))) k)))"

definition HASH_DEL_IN_BKT :: "addr \<Rightarrow> nat \<Rightarrow> addr \<Rightarrow> unit ut" where
  "HASH_DEL_IN_BKT t i hh_del =
     seq (set_bkt t i (\<lambda>b. b\<lparr>bkt_count := bkt_count b - 1\<rparr>))
    (bnd (hh_at hh_del) (\<lambda>d.
     seq (set_bkt t i (\<lambda>b. if hh_head b = Some hh_del then b\<lparr>hh_head := hh_next d\<rparr> else b))
    (seq (set_hh_if (hh_prev d) (\<lambda>h. h\<lparr>hh_next := hh_next d\<rparr>))
    (bnd (hh_at hh_del) (\<lambda>d.
     set_hh_if (hh_next d) (\<lambda>h. h\<lparr>hh_prev := hh_prev d\<rparr>))))))"

definition HASH_DELETE :: "nat \<Rightarrow> ptr \<Rightarrow> addr \<Rightarrow> ptr ut" where
  "HASH_DELETE hh head del =
     bnd (hh_at (del + hh)) (\<lambda>d.
     bnd (bnd (defined_ptr head) (head_tbl hh)) (\<lambda>t.
     bnd (tbl_at t) (\<lambda>T.
     if prev d = None \<and> next_elt d = None then seq (free_table t) (ret None)
     else
       bnd (defined_ptr (tail_hh T)) (\<lambda>tl_hh.
       seq (if del = ELMT_FROM_HH T tl_hh
            then bnd (defined_ptr (prev d)) (\<lambda>p. set_tbl t (\<lambda>T. T\<lparr>tail_hh := Some (p + hho T)\<rparr>))
            else ret ())
      (bnd (case prev d of
              Some p \<Rightarrow> seq (set_hh (p + hho T) (\<lambda>h. h\<lparr>next_elt := next_elt d\<rparr>)) (ret head)
            | None \<Rightarrow> ret (next_elt d)) (\<lambda>head.
       bnd (hh_at (del + hh)) (\<lambda>d.
       bnd (bnd (defined_ptr head) (head_tbl hh)) (\<lambda>t.
       bnd (tbl_at t) (\<lambda>T.
       seq (set_hh_if (map_option (\<lambda>e. e + hho T) (next_elt d)) (\<lambda>h. h\<lparr>prev := prev d\<rparr>))
      (seq (HASH_DEL_IN_BKT t (unat (HASH_TO_BKT (hashv d) (num_buckets T))) (del + hh))
      (seq (set_tbl t (\<lambda>T. T\<lparr>num_items := num_items T - 1\<rparr>))
      (ret head))))))))))))"

text \<open>The result is the new head and the element that was replaced.\<close>

definition HASH_REPLACE :: "(byte list \<Rightarrow> 32 word) \<Rightarrow> nat \<Rightarrow> ptr \<Rightarrow> byte list \<Rightarrow> addr \<Rightarrow> (ptr \<times> ptr) ut" where
  "HASH_REPLACE fcn hh head k add =
     bnd (HASH_FIND fcn hh head k) (\<lambda>replaced.
     bnd (case replaced of None \<Rightarrow> ret head | Some e \<Rightarrow> HASH_DELETE hh head e) (\<lambda>head.
     bnd (HASH_ADD_KEYPTR fcn hh head k add) (\<lambda>head.
     ret (head, replaced))))"

definition HASH_CLEAR :: "nat \<Rightarrow> ptr \<Rightarrow> ptr ut" where
  "HASH_CLEAR hh head =
     (case head of
        None \<Rightarrow> ret None
      | Some hd_e \<Rightarrow> bnd (head_tbl hh hd_e) (\<lambda>t. seq (free_table t) (ret None)))"

definition HASH_CNT :: "nat \<Rightarrow> ptr \<Rightarrow> (32 word) ut" where
  "HASH_CNT hh head =
     (case head of
        None \<Rightarrow> ret 0
      | Some hd_e \<Rightarrow> bnd (head_tbl hh hd_e) (\<lambda>t. bnd (tbl_at t) (\<lambda>T. ret (num_items T))))"

text \<open>\<open>HASH_OVERHEAD\<close>, in 64-bit arithmetic.\<close>

definition HASH_OVERHEAD :: "nat \<Rightarrow> ptr \<Rightarrow> (64 word) ut" where
  "HASH_OVERHEAD hh head =
     (case head of
        None \<Rightarrow> ret 0
      | Some hd_e \<Rightarrow> bnd (head_tbl hh hd_e) (\<lambda>t. bnd (tbl_at t) (\<lambda>T.
          ret (ucast (num_items T) * of_nat sizeof_handle + ucast (num_buckets T) * of_nat sizeof_bucket + of_nat sizeof_table))))"

text \<open>The elements that \<open>HASH_ITER\<close> visits when its body does not change the table.\<close>

partial_function (option) iter_loop :: "nat \<Rightarrow> ptr \<Rightarrow> addr list \<Rightarrow> ut_heap \<Rightarrow> addr list ut_result option" where
  "iter_loop hh el seen st =
     (case el of
        None \<Rightarrow> Some (Runs seen st)
      | Some e \<Rightarrow>
          (case hhs st (e + hh) of
             None \<Rightarrow> Some Undefined
           | Some h \<Rightarrow> iter_loop hh (next_elt h) (seen @ [e]) st))"

declare iter_loop.simps [code]

definition HASH_ITER :: "nat \<Rightarrow> ptr \<Rightarrow> addr list ut" where
  "HASH_ITER hh head = loop_of (iter_loop hh head [])"

end
