(* ===== verification/UtInv.thy ===== *)
theory UtInv
  imports UtTable DoublyLinked
begin

unbundle bit_operations_syntax

text \<open>
  The invariant of the tables of \<open>uthash.h\<close>: the elements are on one doubly linked list in the order in
  which they were added, their handles on the lists of the buckets of their hash values.
\<close>

section \<open>Steps\<close>

lemma step_simps [simp]:
  "ret x st = Runs x st" "bad st = Undefined"
  "m st = Runs x st' \<Longrightarrow> bnd m k st = k x st'"
  "m st = Refused n \<Longrightarrow> bnd m k st = Refused n"
  "m' st = Runs () st' \<Longrightarrow> seq m' k' st = k' st'"
  "m' st = Refused n \<Longrightarrow> seq m' k' st = Refused n"
  "defined_ptr (Some a) = ret a"
  "set_hh_if None f = ret ()" "set_hh_if (Some a) f = set_hh a f"
  by (simp_all add: ret_def bad_def bnd_def seq_def defined_ptr_def set_hh_if_def)

lemma at_simps [simp]:
  "hhs st a = Some h \<Longrightarrow> hh_at a st = Runs h st"
  "tabs st t = Some T \<Longrightarrow> tbl_at t st = Runs T st"
  "tabs st t = Some T \<Longrightarrow> set_tbl t f st = Runs () (st\<lparr>tabs := (tabs st)(t \<mapsto> f T)\<rparr>)"
  "tabs st t = Some T \<Longrightarrow> i < length (buckets T) \<Longrightarrow> bkt_at t i st = Runs (buckets T ! i) st"
  "tabs st t = Some T \<Longrightarrow> i < length (buckets T) \<Longrightarrow>
     set_bkt t i g st = Runs () (st\<lparr>tabs := (tabs st)(t \<mapsto> T\<lparr>buckets := (buckets T)[i := g (buckets T ! i)]\<rparr>)\<rparr>)"
  by (simp_all add: hh_at_def tbl_at_def set_tbl_def bkt_at_def set_bkt_def bnd_def)

section \<open>Fields\<close>

text \<open>The links of the buckets, the links of the elements, and what a handle says besides.\<close>

definition nxs :: "ut_heap \<Rightarrow> link" where "nxs st = (\<lambda>a. map_option hh_next (hhs st a))"

definition pvs :: "ut_heap \<Rightarrow> link" where "pvs st = (\<lambda>a. map_option hh_prev (hhs st a))"

definition app_nxs :: "nat \<Rightarrow> ut_heap \<Rightarrow> link" where "app_nxs hh st = (\<lambda>e. map_option next_elt (hhs st (e + hh)))"

definition app_pvs :: "nat \<Rightarrow> ut_heap \<Rightarrow> link" where "app_pvs hh st = (\<lambda>e. map_option prev (hhs st (e + hh)))"

definition infos :: "ut_heap \<Rightarrow> addr \<rightharpoonup> ptr \<times> byte list \<times> 32 word \<times> 32 word" where
  "infos st = (\<lambda>a. map_option (\<lambda>h. (hh_tbl h, hh_key h, keylen h, hashv h)) (hhs st a))"

lemmas field_defs = nxs_def pvs_def app_nxs_def app_pvs_def infos_def

text \<open>An assignment through a pointer.\<close>

definition upd :: "ptr \<Rightarrow> (UT_hash_handle \<Rightarrow> UT_hash_handle) \<Rightarrow> ut_heap \<Rightarrow> ut_heap" where
  "upd p f st = st\<lparr>hhs := (\<lambda>b. if p = Some b then map_option f (hhs st b) else hhs st b)\<rparr>"

definition live :: "ptr \<Rightarrow> ut_heap \<Rightarrow> bool" where
  "live p st \<longleftrightarrow> (\<forall>a. p = Some a \<longrightarrow> hhs st a \<noteq> None)"

lemma live_simps [simp]: "live None st" "live q (upd p f st) = live q st" "live q (st\<lparr>tabs := ts\<rparr>) = live q st"
  by (auto simp: live_def upd_def split: if_splits)

lemma upd_rest [simp]:
  "upd None f st = st" "tabs (upd p f st) = tabs st" "ut_brk (upd p f st) = ut_brk st" "can_alloc (upd p f st) = can_alloc st"
  "hhs (upd p f st) a = (if p = Some a then map_option f (hhs st a) else hhs st a)"
  by (simp_all add: upd_def)

lemma set_hh_upd [simp]: "live (Some a) st \<Longrightarrow> set_hh a f st = Runs () (upd (Some a) f st)"
  by (auto simp: set_hh_def upd_def live_def fun_eq_iff split: option.split)

lemma set_hh_if_upd [simp]: "live p st \<Longrightarrow> set_hh_if p f st = Runs () (upd p f st)"
  by (cases p) simp_all

lemma tabs_fields [simp]:
  "nxs (st\<lparr>tabs := ts\<rparr>) = nxs st" "pvs (st\<lparr>tabs := ts\<rparr>) = pvs st" "app_nxs hh (st\<lparr>tabs := ts\<rparr>) = app_nxs hh st"
  "app_pvs hh (st\<lparr>tabs := ts\<rparr>) = app_pvs hh st" "infos (st\<lparr>tabs := ts\<rparr>) = infos st"
  "nxs (st\<lparr>ut_brk := n\<rparr>) = nxs st" "pvs (st\<lparr>ut_brk := n\<rparr>) = pvs st" "app_nxs hh (st\<lparr>ut_brk := n\<rparr>) = app_nxs hh st"
  "app_pvs hh (st\<lparr>ut_brk := n\<rparr>) = app_pvs hh st" "infos (st\<lparr>ut_brk := n\<rparr>) = infos st"
  "upd p f (st\<lparr>tabs := ts\<rparr>) = (upd p f st)\<lparr>tabs := ts\<rparr>"
  by (simp_all add: field_defs upd_def cong: if_cong)

text \<open>The functions that do not change a field.\<close>

lemma upd_other:
  "(\<And>h. hh_next (f h) = hh_next h) \<Longrightarrow> nxs (upd p f st) = nxs st"
  "(\<And>h. hh_prev (f h) = hh_prev h) \<Longrightarrow> pvs (upd p f st) = pvs st"
  "(\<And>h. next_elt (f h) = next_elt h) \<Longrightarrow> app_nxs hh (upd p f st) = app_nxs hh st"
  "(\<And>h. prev (f h) = prev h) \<Longrightarrow> app_pvs hh (upd p f st) = app_pvs hh st"
  "(\<And>h. (hh_tbl (f h), hh_key (f h), keylen (f h), hashv (f h)) = (hh_tbl h, hh_key h, keylen h, hashv h)) \<Longrightarrow> infos (upd p f st) = infos st"
  by (auto simp: field_defs fun_eq_iff option.map_comp o_def intro!: option.map_cong0)

lemma upd_link:
  "(\<And>h. hh_next (f h) = v) \<Longrightarrow> live p st \<Longrightarrow> nxs (upd p f st) = relink p v (nxs st)"
  "(\<And>h. hh_prev (f h) = v) \<Longrightarrow> live p st \<Longrightarrow> pvs (upd p f st) = relink p v (pvs st)"
  by (auto simp: field_defs fun_eq_iff live_def option.map_comp o_def relink_def split: option.split)

lemma upd_app_link:
  "(\<And>h. next_elt (f h) = v) \<Longrightarrow> live (map_option (\<lambda>e. e + hh) p) st \<Longrightarrow>
     app_nxs hh (upd (map_option (\<lambda>e. e + hh) p) f st) = relink p v (app_nxs hh st)"
  "(\<And>h. prev (f h) = v) \<Longrightarrow> live (map_option (\<lambda>e. e + hh) p) st \<Longrightarrow>
     app_pvs hh (upd (map_option (\<lambda>e. e + hh) p) f st) = relink p v (app_pvs hh st)"
  by (auto simp: field_defs fun_eq_iff live_def option.map_comp o_def relink_def split: option.split)

lemmas upd_app_elt = upd_app_link [where p = "Some e" for e, simplified]

section \<open>The invariant\<close>

text \<open>The bucket of a handle among \<open>n\<close> buckets.\<close>

definition bkt_of :: "nat \<Rightarrow> ut_heap \<Rightarrow> addr \<Rightarrow> nat" where
  "bkt_of n st a = (case infos st a of None \<Rightarrow> 0 | Some (_, _, _, hv) \<Rightarrow> unat (HASH_TO_BKT hv (of_nat n)))"

text \<open>The lists \<open>cs\<close> of handles on the buckets \<open>bs\<close>; \<open>A\<close> are all of them.\<close>

definition chains_ok :: "ut_heap \<Rightarrow> UT_hash_bucket list \<Rightarrow> addr set \<Rightarrow> addr list list \<Rightarrow> bool" where
  "chains_ok st bs A cs \<longleftrightarrow>
     length cs = length bs \<and>
     (\<forall>i < length bs. (\<exists>z. dlist (nxs st) (pvs st) (hh_head (bs ! i)) (cs ! i) z) \<and> distinct (cs ! i) \<and>
        bkt_count (bs ! i) = of_nat (length (cs ! i)) \<and> set (cs ! i) = {a \<in> A. bkt_of (length bs) st a = i})"

definition size_ok :: "UT_hash_table \<Rightarrow> bool" where
  "size_ok T \<longleftrightarrow> (\<exists>k \<le> 30. length (buckets T) = 2 ^ k \<and> num_buckets T = of_nat (2 ^ k) \<and> log2_num_buckets T = of_nat k)"

definition info_ok :: "(byte list \<Rightarrow> 32 word) \<Rightarrow> addr \<Rightarrow> (ptr \<times> byte list \<times> 32 word \<times> 32 word) option \<Rightarrow> bool" where
  "info_ok fcn t i \<longleftrightarrow> (\<exists>k. i = Some (Some t, k, of_nat (length k), fcn k) \<and> length k < 2 ^ 32)"

text \<open>A table \<open>T\<close> at \<open>t\<close> with the elements \<open>es\<close>, in the order of the list.\<close>

definition tbl_inv :: "(byte list \<Rightarrow> 32 word) \<Rightarrow> nat \<Rightarrow> ut_heap \<Rightarrow> addr \<Rightarrow> UT_hash_table \<Rightarrow> addr list \<Rightarrow> addr list list \<Rightarrow> bool" where
  "tbl_inv fcn hh st t T es cs \<longleftrightarrow>
     tabs st t = Some T \<and> size_ok T \<and> hho T = hh \<and> es \<noteq> [] \<and> distinct es \<and> length es < 2 ^ 32 \<and>
     tail_hh T = Some (last es + hh) \<and> num_items T = of_nat (length es) \<and>
     dlist (app_nxs hh st) (app_pvs hh st) (Some (hd es)) es (Some (last es)) \<and>
     chains_ok st (buckets T) ((\<lambda>e. e + hh) ` set es) cs \<and>
     (\<forall>e \<in> set es. info_ok fcn t (infos st (e + hh)))"

definition key_of :: "nat \<Rightarrow> ut_heap \<Rightarrow> addr \<Rightarrow> byte list" where
  "key_of hh st e = (case infos st (e + hh) of None \<Rightarrow> [] | Some (_, k, _) \<Rightarrow> k)"

text \<open>The heads that stand for a list of elements.\<close>

definition head_of :: "addr list \<Rightarrow> ptr" where
  "head_of es = (case es of [] \<Rightarrow> None | e # _ \<Rightarrow> Some e)"

text \<open>A table for the elements if there are any, with at most \<open>B\<close> buckets.\<close>

definition ut_inv :: "(byte list \<Rightarrow> 32 word) \<Rightarrow> nat \<Rightarrow> nat \<Rightarrow> ut_heap \<Rightarrow> addr list \<Rightarrow> bool" where
  "ut_inv fcn hh B st es \<longleftrightarrow> 32 \<le> B \<and> (es \<noteq> [] \<longrightarrow> (\<exists>t T cs. tbl_inv fcn hh st t T es cs \<and> length (buckets T) \<le> B))"

lemma tbl_invD:
  assumes "tbl_inv fcn hh st t T es cs"
  shows "tabs st t = Some T" "size_ok T" "hho T = hh" "es \<noteq> []" "distinct es" "length es < 2 ^ 32"
    "tail_hh T = Some (last es + hh)" "num_items T = of_nat (length es)"
    "dlist (app_nxs hh st) (app_pvs hh st) (Some (hd es)) es (Some (last es))"
    "chains_ok st (buckets T) ((\<lambda>e. e + hh) ` set es) cs"
    "e \<in> set es \<Longrightarrow> info_ok fcn t (infos st (e + hh))"
  using assms unfolding tbl_inv_def by blast+

lemma chains_okD:
  assumes "chains_ok st bs A cs" and "i < length bs"
  shows "\<exists>z. dlist (nxs st) (pvs st) (hh_head (bs ! i)) (cs ! i) z" "distinct (cs ! i)"
    "bkt_count (bs ! i) = of_nat (length (cs ! i))" "set (cs ! i) = {a \<in> A. bkt_of (length bs) st a = i}" "i < length cs"
  using assms unfolding chains_ok_def by auto

lemma item_hh:
  assumes "tbl_inv fcn hh st t T es cs" and "e \<in> set es"
  obtains h where "hhs st (e + hh) = Some h" "hh_tbl h = Some t" "keylen h = of_nat (length (hh_key h))" "hashv h = fcn (hh_key h)"
    "length (hh_key h) < 2 ^ 32" "key_of hh st e = hh_key h"
  using tbl_invD(11) [OF assms] that by (auto simp: info_ok_def infos_def key_of_def)

lemma head_tbl_run [simp]:
  assumes "tbl_inv fcn hh st t T es cs" and "e \<in> set es"
  shows "head_tbl hh e st = Runs t st"
  using item_hh [OF assms] by (metis head_tbl_def at_simps(1) step_simps(1,3,7))

lemma size_okD:
  assumes "size_ok T"
  obtains k where "k \<le> 30" "length (buckets T) = 2 ^ k" "num_buckets T = 2 ^ k" "unat (num_buckets T) = 2 ^ k"
    "unat (log2_num_buckets T) = k"
proof -
  from assms obtain k where k: "k \<le> 30" "length (buckets T) = 2 ^ k" "num_buckets T = of_nat (2 ^ k)" "log2_num_buckets T = of_nat k"
    by (auto simp: size_ok_def)
  have "(2::nat) ^ k \<le> 2 ^ 30" using k(1) by (intro power_increasing) simp_all
  then have "(2::nat) ^ k < 2 ^ 32" by simp
  then have "unat (num_buckets T) = 2 ^ k" unfolding k(3) unat_of_nat by (simp add: take_bit_nat_eq_self)
  moreover have "unat (log2_num_buckets T) = k" unfolding k(4) using k(1) by (simp add: unat_of_nat take_bit_nat_eq_self)
  ultimately show thesis using that k by simp
qed

lemma to_bkt_less:
  assumes "k \<le> 31"
  shows "unat (HASH_TO_BKT hv (2 ^ k)) < 2 ^ k"
proof -
  have "HASH_TO_BKT hv (2 ^ k) = take_bit k hv" by (simp add: HASH_TO_BKT_def take_bit_eq_mask mask_eq_exp_minus_1)
  then show ?thesis by (simp add: unsigned_take_bit_eq)
qed

end
