(* ===== verification/UtFind.thy ===== *)
theory UtFind
  imports UtInv
begin

unbundle bit_operations_syntax

text \<open>\<open>HASH_FIND\<close> finds the element with a key.\<close>

section \<open>Buckets\<close>

lemma bkt_of_item:
  assumes "tbl_inv fcn hh st t T es cs" and "e \<in> set es"
  shows "bkt_of (length (buckets T)) st (e + hh) = unat (HASH_TO_BKT (fcn (key_of hh st e)) (num_buckets T))"
proof -
  obtain k where k: "length (buckets T) = 2 ^ k" "num_buckets T = 2 ^ k" using size_okD [OF tbl_invD(2) [OF assms(1)]] by metis
  obtain i where i: "infos st (e + hh) = Some (Some t, i, of_nat (length i), fcn i)"
    using tbl_invD(11) [OF assms] by (auto simp: info_ok_def)
  show ?thesis by (simp add: bkt_of_def key_of_def i k)
qed

lemma bkt_less:
  assumes "tbl_inv fcn hh st t T es cs"
  shows "unat (HASH_TO_BKT hv (num_buckets T)) < length (buckets T)"
proof -
  obtain k where k: "k \<le> 30" "length (buckets T) = 2 ^ k" "num_buckets T = 2 ^ k" using size_okD [OF tbl_invD(2) [OF assms(1)]] by metis
  then show ?thesis using to_bkt_less [of k hv] by simp
qed

text \<open>The elements of a bucket.\<close>

lemma bucket_elements:
  assumes i: "tbl_inv fcn hh st t T es cs" and b: "b = unat (HASH_TO_BKT (fcn k) (num_buckets T))"
  shows "b < length (buckets T)" "\<exists>z. dlist (nxs st) (pvs st) (hh_head (buckets T ! b)) (cs ! b) z"
    "a \<in> set (cs ! b) \<Longrightarrow> \<exists>e \<in> set es. a = e + hh"
    "e \<in> set es \<Longrightarrow> key_of hh st e = k \<Longrightarrow> e + hh \<in> set (cs ! b)"
proof -
  show l: "b < length (buckets T)" unfolding b by (rule bkt_less [OF i])
  note c = chains_okD [OF tbl_invD(10) [OF i] l]
  show "\<exists>z. dlist (nxs st) (pvs st) (hh_head (buckets T ! b)) (cs ! b) z" by (rule c(1))
  show "a \<in> set (cs ! b) \<Longrightarrow> \<exists>e \<in> set es. a = e + hh" unfolding c(4) by auto
  show "e \<in> set es \<Longrightarrow> key_of hh st e = k \<Longrightarrow> e + hh \<in> set (cs ! b)"
    unfolding c(4) using bkt_of_item [OF i, of e] b by auto
qed

section \<open>The search\<close>

lemma same_key:
  assumes "length k < 2 ^ 32" and "length k' < 2 ^ 32"
  shows "(of_nat (length k') :: 32 word) = of_nat (length k) \<and> take (length k) k' = k \<longleftrightarrow> k' = k"
proof
  assume a: "(of_nat (length k') :: 32 word) = of_nat (length k) \<and> take (length k) k' = k"
  then have "length k' = length k" using assms by (simp add: word_of_nat_eq_iff take_bit_nat_eq_self)
  with a show "k' = k" by simp
qed simp

lemma find_loop_run:
  assumes "tbl_inv fcn hh st t T es cs" and "length k < 2 ^ 32"
    and "dseg (nxs st) (pvs st) q p c z None" and "\<forall>a \<in> set c. \<exists>e \<in> set es. a = e + hh"
  shows "find_loop T hh k (map_option (ELMT_FROM_HH T) p) st =
    Some (Runs (find (\<lambda>e. key_of hh st e = k) (map (\<lambda>a. a - hh) c)) st)"
  using assms(3,4)
proof (induction c arbitrary: p q)
  case Nil
  then show ?case by (subst find_loop.simps) simp
next
  case (Cons a c)
  obtain e where e: "e \<in> set es" "a = e + hh" using Cons.prems(2) by auto
  obtain h where h: "hhs st (e + hh) = Some h" "keylen h = of_nat (length (hh_key h))" "length (hh_key h) < 2 ^ 32"
    "key_of hh st e = hh_key h" using item_hh [OF assms(1) e(1)] by metis
  have p: "p = Some a" "nxs st a = Some (hh_next h)" using Cons.prems(1) h(1) e(2) by (auto simp: nxs_def)
  have n: "dseg (nxs st) (pvs st) (Some a) (hh_next h) c z None" using Cons.prems(1) p(2) by simp
  have el: "ELMT_FROM_HH T = (\<lambda>a. a - hh)" using tbl_invD(3) [OF assms(1)] by (simp add: ELMT_FROM_HH_def fun_eq_iff)
  have sk: "keylen h = of_nat (length k) \<and> take (length k) (hh_key h) = k \<longleftrightarrow> hh_key h = k"
    unfolding h(2) by (rule same_key [OF assms(2) h(3)])
  show ?case
    using Cons.IH [OF n] Cons.prems(2) h(1,4) p(1) e(2) sk
    by (subst find_loop.simps) (simp add: el)
qed

lemma find_only:
  assumes "inj_on f (set xs)" and "x \<in> set xs" and "f x = k"
  shows "find (\<lambda>e. f e = k) xs = Some x"
  using assms by (induction xs) (auto simp: inj_on_def)

lemma find_absent: "(\<And>x. x \<in> set xs \<Longrightarrow> f x \<noteq> k) \<Longrightarrow> find (\<lambda>e. f e = k) xs = None"
  by (induction xs) auto

theorem HASH_FIND_run:
  assumes i: "tbl_inv fcn hh st t T es cs" and e0: "e0 \<in> set es" and k: "length k < 2 ^ 32"
    and inj: "inj_on (key_of hh st) (set es)"
  shows "HASH_FIND fcn hh (Some e0) k st = Runs (find (\<lambda>e. key_of hh st e = k) es) st"
proof -
  let ?b = "unat (HASH_TO_BKT (fcn k) (num_buckets T))"
  note b = bucket_elements [OF i refl [of ?b]]
  from b(2) obtain z where z: "dlist (nxs st) (pvs st) (hh_head (buckets T ! ?b)) (cs ! ?b) z" by blast
  have "find_loop T hh k (map_option (ELMT_FROM_HH T) (hh_head (buckets T ! ?b))) st =
      Some (Runs (find (\<lambda>e. key_of hh st e = k) (map (\<lambda>a. a - hh) (cs ! ?b))) st)"
    using b(3) by (intro find_loop_run [OF i k z]) blast
  moreover have "find (\<lambda>e. key_of hh st e = k) (map (\<lambda>a. a - hh) (cs ! ?b)) = find (\<lambda>e. key_of hh st e = k) es"
  proof -
    have sub: "set (map (\<lambda>a. a - hh) (cs ! ?b)) \<subseteq> set es" using b(3) by fastforce
    show ?thesis
    proof (cases "\<exists>x \<in> set es. key_of hh st x = k")
      case True
      then obtain x where x: "x \<in> set es" "key_of hh st x = k" by blast
      then have "x \<in> set (map (\<lambda>a. a - hh) (cs ! ?b))" using b(4) by (force simp: image_iff)
      with x find_only [OF inj_on_subset [OF inj sub]] find_only [OF inj] show ?thesis by simp
    next
      case False
      have "find (\<lambda>e. key_of hh st e = k) (map (\<lambda>a. a - hh) (cs ! ?b)) = None"
        by (rule find_absent) (use False sub in blast)
      moreover have "find (\<lambda>e. key_of hh st e = k) es = None" by (rule find_absent) (use False in blast)
      ultimately show ?thesis by simp
    qed
  qed
  ultimately show ?thesis
    using b(1) tbl_invD(1) [OF i] by (simp add: HASH_FIND_def head_tbl_run [OF i e0] HASH_FIND_IN_BKT_def loop_of_def)
qed

end
