(* ===== verification/UtExpand.thy ===== *)
theory UtExpand
  imports UtFind
begin

unbundle bit_operations_syntax

text \<open>
  A handle is pushed on its bucket; doubling the buckets keeps every handle, on the bucket of its hash value.
\<close>

section \<open>Pushing a handle\<close>

text \<open>What stays when only the links of the buckets change.\<close>

definition same_items :: "ut_heap \<Rightarrow> ut_heap \<Rightarrow> bool" where
  "same_items st st' \<longleftrightarrow>
     infos st' = infos st \<and> (\<forall>hh. app_nxs hh st' = app_nxs hh st \<and> app_pvs hh st' = app_pvs hh st) \<and>
     dom (hhs st') = dom (hhs st) \<and> ut_brk st' = ut_brk st \<and> can_alloc st' = can_alloc st"

lemma same_items_refl [simp]: "same_items st st"
  by (simp add: same_items_def)

lemma same_items_trans: "same_items st st1 \<Longrightarrow> same_items st1 st2 \<Longrightarrow> same_items st st2"
  by (simp add: same_items_def)

definition pushed :: "ptr \<Rightarrow> addr \<Rightarrow> ut_heap \<Rightarrow> ut_heap" where
  "pushed p a st = upd p (\<lambda>h. h\<lparr>hh_prev := Some a\<rparr>) (upd (Some a) (\<lambda>h. h\<lparr>hh_prev := None, hh_next := p\<rparr>) st)"

lemma dom_upd [simp]: "dom (hhs (upd p f st)) = dom (hhs st)"
  by (auto simp: dom_def)

lemma pushed_same: "same_items st (pushed p a st)" "tabs (pushed p a st) = tabs st"
  by (simp_all add: same_items_def pushed_def upd_other)

lemma pushed_links:
  assumes "live (Some a) st" and "live p st"
  shows "nxs (pushed p a st) = (nxs st)(a \<mapsto> p)" "pvs (pushed p a st) = relink p (Some a) ((pvs st)(a \<mapsto> None))"
  using assms by (simp_all add: pushed_def upd_other upd_link [where v = p] upd_link [where v = "Some a"] upd_link [where v = None])

lemma bkt_of_same: "infos st' = infos st \<Longrightarrow> bkt_of n st' a = bkt_of n st a"
  by (simp add: bkt_of_def)

lemma dlist_member_live: "dlist (nxs st) (pvs st) p xs z \<Longrightarrow> a \<in> set xs \<Longrightarrow> live (Some a) st"
  using dseg_live [of "nxs st" "pvs st" None p xs z None a] by (auto simp: live_def nxs_def)

lemma dlist_head_live: "dlist (nxs st) (pvs st) p xs z \<Longrightarrow> live p st"
  using dlist_first [of "nxs st" "pvs st" p xs z] dlist_member_live [of st p xs z] by (cases xs) auto

lemma chains_push:
  assumes c: "chains_ok st bs A cs" and a: "a \<notin> A" "live (Some a) st" and b: "b = bkt_of (length bs) st a" "b < length bs"
    and bk: "hh_head bk = Some a" "bkt_count bk = bkt_count (bs ! b) + 1"
  shows "chains_ok (pushed (hh_head (bs ! b)) a st) (bs[b := bk]) (insert a A) (cs[b := a # cs ! b])"
proof -
  let ?p = "hh_head (bs ! b)"
  let ?st = "pushed ?p a st"
  note d = chains_okD [OF c]
  from d(1) [OF b(2)] obtain z where z: "dlist (nxs st) (pvs st) ?p (cs ! b) z" by blast
  have l: "live ?p st" by (rule dlist_head_live [OF z])
  note links = pushed_links [OF a(2) l]
  have p: "?p = (case cs ! b of [] \<Rightarrow> None | x # _ \<Rightarrow> Some x)" by (rule dlist_first [OF z])
  have inf: "infos ?st = infos st" using pushed_same(1) by (simp add: same_items_def)
  have len: "length cs = length bs" using c by (simp add: chains_ok_def)
  have out: "a \<notin> set (cs ! i)" if "i < length bs" for i using d(4) [OF that] a(1) by simp
  have other: "x \<notin> set (cs ! i)" if "i < length bs" "i \<noteq> b" "?p = Some x" for i x
    using d(4) [OF that(1)] d(4) [OF b(2)] that(2,3) p by (cases "cs ! b") auto
  show ?thesis
    unfolding chains_ok_def length_list_update
  proof (intro conjI allI impI)
    show "length cs = length bs" by (rule len)
    fix i assume i: "i < length bs"
    show "\<exists>z. dlist (nxs ?st) (pvs ?st) (hh_head (bs[b := bk] ! i)) (cs[b := a # cs ! b] ! i) z"
    proof (cases "i = b")
      case True
      have "dlist ((nxs st)(a \<mapsto> ?p)) ((pvs st)(a \<mapsto> None)) ?p (cs ! b) z" using z out [OF b(2)] by simp
      from dlist_push [OF this, of a] have "\<exists>z. dlist (nxs ?st) (pvs ?st) (Some a) (a # cs ! b) z"
        unfolding links using d(2) [OF b(2)] out [OF b(2)] by auto
      then show ?thesis using True i len bk(1) by simp
    next
      case False
      from d(1) [OF i] obtain w where w: "dlist (nxs st) (pvs st) (hh_head (bs ! i)) (cs ! i) w" by blast
      have "dlist (nxs ?st) (pvs ?st) (hh_head (bs ! i)) (cs ! i) w"
        unfolding links using w out [OF i] other [OF i False] by (cases "?p") simp_all
      then show ?thesis using False i len by auto
    qed
    show "distinct (cs[b := a # cs ! b] ! i)" using d(2) [OF i] out [OF b(2)] i len by (cases "i = b") simp_all
    show "bkt_count (bs[b := bk] ! i) = of_nat (length (cs[b := a # cs ! b] ! i))"
      using d(3) [OF i] bk(2) i len by (cases "i = b") simp_all
    show "set (cs[b := a # cs ! b] ! i) = {x \<in> insert a A. bkt_of (length bs) ?st x = i}"
      using d(4) [OF i] b i len unfolding bkt_of_same [OF inf] by (cases "i = b") auto
  qed
qed

section \<open>Moving the handles\<close>

lemma ideal_pos:
  assumes "N \<noteq> 0" and "k \<le> 30"
  shows "(drop_bit (k + 1) N + (if N AND (2 ^ k * 2 - 1) \<noteq> 0 then 1 else 0) :: 32 word) \<noteq> 0"
proof -
  have m: "N AND (2 ^ k * 2 - 1) = take_bit (k + 1) N"
    by (simp add: take_bit_eq_mask mask_eq_exp_minus_1 mult.commute)
  have d: "N = push_bit (k + 1) (drop_bit (k + 1) N) + take_bit (k + 1) N"
    by (rule bits_ident [symmetric])
  show ?thesis
  proof (cases "take_bit (k + 1) N = 0")
    case True
    then have "drop_bit (k + 1) N \<noteq> 0" using assms(1) d by auto
    then show ?thesis unfolding m using True by simp
  next
    case False
    have "unat (drop_bit (k + 1) N) = unat N div 2 ^ (k + 1)" by (simp only: unat_drop_bit_eq drop_bit_eq_div [of "k + 1" "unat N"])
    also have "\<dots> \<le> unat N div 2" by (rule div_le_mono2) simp_all
    finally have "unat (drop_bit (k + 1) N) < 2 ^ 31" using unsigned_less [of N, where ?'a = nat] by simp
    then have "unat (drop_bit (k + 1) N + 1) = unat (drop_bit (k + 1) N) + 1" by (simp add: unat_word_ariths)
    then have "unat (drop_bit (k + 1) N + 1) \<noteq> unat (0 :: 32 word)" by simp
    then have "drop_bit (k + 1) N + 1 \<noteq> 0" by metis
    then show ?thesis unfolding m using False by simp
  qed
qed

lemma move_hh_run:
  assumes c: "chains_ok st news A cs" and n: "length news = 2 ^ (k + 1)" "k \<le> 30" "num_buckets T = 2 ^ k"
    and a: "a \<notin> A" "hhs st a = Some h" and i: "ideal_chain_maxlen T \<noteq> 0"
  shows "\<exists>news' non' cs' p. move_hh T (news, non) a st = Runs (news', non') (pushed p a st) \<and>
    chains_ok (pushed p a st) news' (insert a A) cs' \<and> length news' = length news \<and>
    (\<forall>x. x \<noteq> a \<longrightarrow> nxs (pushed p a st) x = nxs st x)"
proof -
  let ?b = "unat (HASH_TO_BKT (hashv h) (num_buckets T * 2))"
  have b: "?b = bkt_of (length news) st a" using n a(2) by (simp add: bkt_of_def infos_def mult.commute)
  have l: "?b < length news" using to_bkt_less [of "k + 1" "hashv h"] n by (simp add: mult.commute)
  from chains_okD(1) [OF c l] obtain z where z: "dlist (nxs st) (pvs st) (hh_head (news ! ?b)) (cs ! ?b) z" by blast
  have la: "live (Some a) st" "live (hh_head (news ! ?b)) st" using a(2) dlist_head_live [OF z] by (simp_all add: live_def)
  let ?bk = "(news ! ?b)\<lparr>hh_head := Some a, bkt_count := bkt_count (news ! ?b) + 1,
    expand_mult := (if bkt_count (news ! ?b) + 1 > ideal_chain_maxlen T then (bkt_count (news ! ?b) + 1) div ideal_chain_maxlen T
      else expand_mult (news ! ?b))\<rparr>"
  have "chains_ok (pushed (hh_head (news ! ?b)) a st) (news[?b := ?bk]) (insert a A) (cs[?b := a # cs ! ?b])"
    by (rule chains_push [OF c a(1) la(1) b l]) simp_all
  moreover have "\<exists>non'. move_hh T (news, non) a st = Runs (news[?b := ?bk], non') (pushed (hh_head (news ! ?b)) a st)"
    using a(2) l i la by (simp add: move_hh_def Let_def pushed_def)
  moreover have "\<forall>x. x \<noteq> a \<longrightarrow> nxs (pushed (hh_head (news ! ?b)) a st) x = nxs st x"
    using pushed_links(1) [OF la] by simp
  ultimately show ?thesis by (metis length_list_update)
qed

text \<open>The old chain is only read through its \<open>hh_next\<close> links.\<close>

fun sseg :: "link \<Rightarrow> ptr \<Rightarrow> addr list \<Rightarrow> bool" where
  "sseg nx p [] \<longleftrightarrow> p = None"
| "sseg nx p (a # as) \<longleftrightarrow> p = Some a \<and> (\<exists>p'. nx a = Some p' \<and> sseg nx p' as)"

lemma dseg_sseg: "dseg nx pv q p xs l None \<Longrightarrow> sseg nx p xs"
  by (induction xs arbitrary: q p) auto

lemma sseg_cong: "(\<And>a. a \<in> set xs \<Longrightarrow> nx' a = nx a) \<Longrightarrow> sseg nx' p xs = sseg nx p xs"
  by (induction xs arbitrary: p) auto

lemma move_chain_run:
  assumes "chains_ok st news A cs" and "length news = 2 ^ (k + 1)" "k \<le> 30" "num_buckets T = 2 ^ k"
    and "sseg (nxs st) p xs" "distinct xs" "set xs \<inter> A = {}" and "ideal_chain_maxlen T \<noteq> 0"
  shows "\<exists>news' non' cs' st'. move_chain T p (news, non) st = Some (Runs (news', non') st') \<and>
    chains_ok st' news' (set xs \<union> A) cs' \<and> length news' = length news \<and> same_items st st' \<and> tabs st' = tabs st \<and>
    (\<forall>x. x \<notin> set xs \<longrightarrow> nxs st' x = nxs st x)"
  using assms(1,2,5-7)
proof (induction xs arbitrary: p st news A cs non)
  case Nil
  then have p: "p = None" by simp
  have "move_chain T p (news, non) st = Some (Runs (news, non) st)" unfolding p by (subst move_chain.simps) simp
  with Nil.prems(1) show ?case by (intro exI [of _ news] exI [of _ non] exI [of _ cs] exI [of _ st]) simp
next
  case (Cons a xs)
  obtain h where h: "hhs st a = Some h" "p = Some a" "sseg (nxs st) (hh_next h) xs"
    using Cons.prems(3) by (auto simp: nxs_def)
  have a: "a \<notin> A" using Cons.prems(5) by auto
  from move_hh_run [OF Cons.prems(1,2) assms(3,4) a h(1) assms(8), of non] obtain news1 non1 cs1 p1 where
    m: "move_hh T (news, non) a st = Runs (news1, non1) (pushed p1 a st)" "chains_ok (pushed p1 a st) news1 (insert a A) cs1"
      "length news1 = length news" "\<forall>x. x \<noteq> a \<longrightarrow> nxs (pushed p1 a st) x = nxs st x" by blast
  have s: "sseg (nxs (pushed p1 a st)) (hh_next h) xs"
    using h(3) m(4) Cons.prems(4) by (subst sseg_cong [of xs _ "nxs st"]) auto
  have n: "length news1 = 2 ^ (k + 1)" "distinct xs" "set xs \<inter> insert a A = {}"
    using m(3) Cons.prems(2,4,5) by auto
  from Cons.IH [OF m(2) n(1) s n(2,3), of non1] obtain news' non' cs' st' where
    r: "move_chain T (hh_next h) (news1, non1) (pushed p1 a st) = Some (Runs (news', non') st')"
      "chains_ok st' news' (set xs \<union> insert a A) cs'" "length news' = length news1" "same_items (pushed p1 a st) st'"
      "tabs st' = tabs (pushed p1 a st)" "\<forall>x. x \<notin> set xs \<longrightarrow> nxs st' x = nxs (pushed p1 a st) x" by blast
  have "move_chain T p (news, non) st = Some (Runs (news', non') st')"
    using h(1,2) m(1) r(1) by (subst move_chain.simps) simp
  moreover have "same_items st st'" using pushed_same(1) r(4) by (rule same_items_trans)
  moreover have "tabs st' = tabs st" using r(5) pushed_same(2) by simp
  moreover have "chains_ok st' news' (set (a # xs) \<union> A) cs'" using r(2) by simp
  moreover have "length news' = length news" using r(3) m(3) by simp
  moreover have "\<forall>x. x \<notin> set (a # xs) \<longrightarrow> nxs st' x = nxs st x" using r(6) m(4) by simp
  ultimately show ?case by blast
qed

lemma move_buckets_run:
  assumes "chains_ok st news A cs" and "length news = 2 ^ (k + 1)" "k \<le> 30" "num_buckets T = 2 ^ k"
    and "list_all2 (\<lambda>b xs. sseg (nxs st) (hh_head b) xs) bs xss" "distinct (concat xss)" "set (concat xss) \<inter> A = {}"
    and "ideal_chain_maxlen T \<noteq> 0"
  shows "\<exists>news' non' cs' st'. move_buckets T bs (news, non) st = Runs (news', non') st' \<and>
    chains_ok st' news' (set (concat xss) \<union> A) cs' \<and> length news' = length news \<and> same_items st st' \<and> tabs st' = tabs st"
  using assms(1,2,5-7)
proof (induction bs arbitrary: xss st news A cs non)
  case Nil
  then show ?case by (intro exI [of _ news] exI [of _ non] exI [of _ cs] exI [of _ st]) simp
next
  case (Cons b bs)
  from Cons.prems(3) obtain xs yss where x: "xss = xs # yss" "sseg (nxs st) (hh_head b) xs"
    "list_all2 (\<lambda>b xs. sseg (nxs st) (hh_head b) xs) bs yss" by (auto simp: list_all2_Cons1)
  have d: "distinct xs" "set xs \<inter> A = {}" "distinct (concat yss)" "set xs \<inter> set (concat yss) = {}" "set (concat yss) \<inter> A = {}"
    using Cons.prems(4,5) unfolding x(1) by auto
  from move_chain_run [OF Cons.prems(1,2) assms(3,4) x(2) d(1,2) assms(8), of non] obtain news1 non1 cs1 st1 where
    m: "move_chain T (hh_head b) (news, non) st = Some (Runs (news1, non1) st1)" "chains_ok st1 news1 (set xs \<union> A) cs1"
      "length news1 = length news" "same_items st st1" "tabs st1 = tabs st" "\<forall>a. a \<notin> set xs \<longrightarrow> nxs st1 a = nxs st a" by blast
  have "list_all2 (\<lambda>b xs. sseg (nxs st1) (hh_head b) xs) bs yss"
    using x(3)
  proof (rule list.rel_mono_strong)
    fix b' ys assume "ys \<in> set yss" "sseg (nxs st) (hh_head b') ys"
    moreover from this d(4) have "nxs st1 a = nxs st a" if "a \<in> set ys" for a using m(6) that by auto
    ultimately show "sseg (nxs st1) (hh_head b') ys" using sseg_cong [of ys "nxs st1" "nxs st"] by blast
  qed
  moreover have "length news1 = 2 ^ (k + 1)" "set (concat yss) \<inter> (set xs \<union> A) = {}" using m(3) Cons.prems(2) d(4,5) by auto
  ultimately obtain news' non' cs' st' where r: "move_buckets T bs (news1, non1) st1 = Runs (news', non') st'"
    "chains_ok st' news' (set (concat yss) \<union> (set xs \<union> A)) cs'" "length news' = length news1" "same_items st1 st'" "tabs st' = tabs st1"
    using Cons.IH [OF m(2), of yss non1] d(3) by blast
  have "chains_ok st' news' (set (concat xss) \<union> A) cs'" using r(2) unfolding x(1) by (simp add: Un_ac)
  moreover have "move_buckets T (b # bs) (news, non) st = Runs (news', non') st'" using m(1) r(1) by (simp add: loop_of_def)
  ultimately show ?case using r(3,5) m(3,5) same_items_trans [OF m(4) r(4)] by auto
qed

lemma bkt_of_less:
  assumes "n = 2 ^ k" and "k \<le> 31"
  shows "bkt_of n st a < n"
  using to_bkt_less [OF assms(2)] assms(1) by (auto simp: bkt_of_def split: option.splits)

text \<open>All the handles, bucket by bucket.\<close>

lemma chains_concat:
  assumes c: "chains_ok st bs A cs" and n: "length bs = 2 ^ k" "k \<le> 31"
  shows "set (concat cs) = A" "distinct (concat cs)" "list_all2 (\<lambda>b xs. sseg (nxs st) (hh_head b) xs) bs cs"
proof -
  note d = chains_okD [OF c]
  have len: "length cs = length bs" using c by (simp add: chains_ok_def)
  show "set (concat cs) = A"
  proof
    show "set (concat cs) \<subseteq> A" using d(4) len by (fastforce simp: in_set_conv_nth)
    show "A \<subseteq> set (concat cs)"
    proof
      fix a assume a: "a \<in> A"
      have l: "bkt_of (length bs) st a < length bs" by (rule bkt_of_less [OF n])
      then have "a \<in> set (cs ! bkt_of (length bs) st a)" using d(4) a by simp
      then show "a \<in> set (concat cs)" using l len by (auto intro: nth_mem)
    qed
  qed
  show "distinct (concat cs)"
    by (rule distinct_concat_nth) (use d(2,4) len in auto)
  show "list_all2 (\<lambda>b xs. sseg (nxs st) (hh_head b) xs) bs cs"
    using d(1) len by (force simp: list_all2_conv_all_nth intro: dseg_sseg)
qed

lemma chains_empty: "chains_ok st (replicate n zero_bucket) {} (replicate n [])"
  by (simp add: chains_ok_def zero_bucket_def)

section \<open>Doubling the buckets\<close>

definition limited :: "ut_heap \<Rightarrow> bool" where
  "limited st \<longleftrightarrow> (\<forall>n. can_alloc st n \<longrightarrow> n < 2 ^ 35)"

text \<open>The program exits because memory was refused, for a block of at most \<open>n\<close> bytes.\<close>

definition refused :: "(nat \<Rightarrow> bool) \<Rightarrow> nat \<Rightarrow> 'a ut_result \<Rightarrow> bool" where
  "refused mem n r \<longleftrightarrow> (\<exists>m \<le> n. r = Refused m \<and> \<not> mem m)"

lemma refused_simps [simp]: "\<not> refused mem n (Runs x st)" "refused mem n (Refused m) \<longleftrightarrow> m \<le> n \<and> \<not> mem m"
  by (auto simp: refused_def)

lemma refused_mono: "refused mem m r \<Longrightarrow> m \<le> n \<Longrightarrow> refused mem n r"
  by (auto simp: refused_def intro: order_trans)

text \<open>The program exits at the refused block.\<close>

lemma refused_bnd [intro]: "refused mem n (m st) \<Longrightarrow> refused mem n (bnd m k st)" "refused mem n (m' st) \<Longrightarrow> refused mem n (seq m' k' st)"
  by (auto simp: refused_def)

theorem HASH_EXPAND_BUCKETS_run:
  assumes T: "tabs st t = Some T" "size_ok T" "num_items T \<noteq> 0" and c: "chains_ok st (buckets T) A cs" and lim: "limited st"
  shows "refused (can_alloc st) (32 * length (buckets T)) (HASH_EXPAND_BUCKETS t st) \<or>
    (\<exists>st' T' cs'. HASH_EXPAND_BUCKETS t st = Runs () st' \<and> tabs st' = (tabs st)(t \<mapsto> T') \<and> size_ok T' \<and>
       chains_ok st' (buckets T') A cs' \<and> same_items st st' \<and> hho T' = hho T \<and> tail_hh T' = tail_hh T \<and> num_items T' = num_items T \<and>
       length (buckets T') = 2 * length (buckets T))"
proof -
  obtain k where k: "k \<le> 30" "length (buckets T) = 2 ^ k" "num_buckets T = 2 ^ k" "unat (num_buckets T) = 2 ^ k"
    "unat (log2_num_buckets T) = k" using size_okD [OF T(2)] by metis
  have log: "log2_num_buckets T = of_nat k" using k(5) by (simp flip: k(5))
  have lk: "unat (log2_num_buckets T + 1) = k + 1" 
  proof -
    have "log2_num_buckets T + 1 = of_nat (k + 1)" by (simp add: log)
    then show ?thesis using k(1) by (simp only: unat_of_nat) (simp add: take_bit_nat_eq_self)
  qed
  let ?n = "2 * unat (num_buckets T)"
  show ?thesis
  proof (cases "can_alloc st (?n * sizeof_bucket)")
    case False
    then have "HASH_EXPAND_BUCKETS t st = Refused (?n * sizeof_bucket)" using T(1) by (simp add: HASH_EXPAND_BUCKETS_def ut_malloc_def Let_def)
    then have "refused (can_alloc st) (32 * length (buckets T)) (HASH_EXPAND_BUCKETS t st)"
      using False k(2,4) by (simp add: sizeof_bucket_def mult.commute)
    then show ?thesis by (rule disjI1)
  next
    case True
    have "2 ^ (k + 5) < (2 :: nat) ^ 35" using True lim k(4) by (auto simp: limited_def sizeof_bucket_def power_add)
    then have k30: "k + 1 \<le> 30" by (simp only: power_strict_increasing_iff)
    let ?T = "T\<lparr>ideal_chain_maxlen := drop_bit (unat (log2_num_buckets T + 1)) (num_items T) +
      (if num_items T AND (num_buckets T * 2 - 1) \<noteq> 0 then 1 else 0)\<rparr>"
    have ideal: "ideal_chain_maxlen ?T \<noteq> 0" using ideal_pos [OF T(3) k(1)] unfolding lk k(3) by simp
    have n: "length (replicate ?n zero_bucket) = 2 ^ (k + 1)" using k(4) by simp
    note all = chains_concat [OF c k(2)]
    have "\<exists>news' non' cs' st'. move_buckets ?T (buckets T) (replicate ?n zero_bucket, 0) st = Runs (news', non') st' \<and>
      chains_ok st' news' (set (concat cs) \<union> {}) cs' \<and> length news' = length (replicate ?n zero_bucket) \<and> same_items st st' \<and> tabs st' = tabs st"
      by (rule move_buckets_run [OF chains_empty n k(1) _ all(3,2) _ ideal]) (use k in simp_all)
    then obtain news' non' cs' st' where m: "move_buckets ?T (buckets T) (replicate ?n zero_bucket, 0) st = Runs (news', non') st'"
      "chains_ok st' news' A cs'" "length news' = 2 ^ (k + 1)" "same_items st st'" "tabs st' = tabs st"
      using all(1) k n by auto
    let ?ineff = "if non' > drop_bit 1 (num_items T) then ineff_expands T + 1 else 0"
    let ?T' = "?T\<lparr>nonideal_items := non', num_buckets := num_buckets T * 2, log2_num_buckets := log2_num_buckets T + 1,
      buckets := news', ineff_expands := ?ineff, noexpand := (if ?ineff > 1 then 1 else noexpand T)\<rparr>"
    have r: "HASH_EXPAND_BUCKETS t st = Runs () (st'\<lparr>tabs := (tabs st)(t \<mapsto> ?T')\<rparr>)"
      using T(1) True k m(1,5) lk by (simp add: HASH_EXPAND_BUCKETS_def ut_malloc_def Let_def)
    have "size_ok ?T'"
      unfolding size_ok_def using k30 m(3) k(3) log
      by (intro exI [of _ "k + 1"]) (simp add: mult.commute)
    moreover have "chains_ok (st'\<lparr>tabs := (tabs st)(t \<mapsto> ?T')\<rparr>) (buckets ?T') A cs'"
      using m(2) by (simp add: chains_ok_def bkt_of_def)
    moreover have "same_items st (st'\<lparr>tabs := (tabs st)(t \<mapsto> ?T')\<rparr>)" using m(4) by (simp add: same_items_def)
    moreover have "length (buckets ?T') = 2 * length (buckets T)" using m(3) k(2) by simp
    ultimately show ?thesis using r
      by (intro disjI2 exI [of _ "st'\<lparr>tabs := (tabs st)(t \<mapsto> ?T')\<rparr>"] exI [of _ ?T'] exI [of _ cs']) simp
  qed
qed

end
