(* ===== verification/UtAdd.thy ===== *)
theory UtAdd
  imports UtExpand
begin

unbundle bit_operations_syntax

text \<open>\<open>HASH_ADD_KEYPTR\<close> puts an element at the end of the list and its handle on its bucket.\<close>

section \<open>Adding to a bucket\<close>

lemma chains_cong:
  assumes "nxs st' = nxs st" "pvs st' = pvs st" and "\<And>a. a \<in> A \<Longrightarrow> infos st' a = infos st a"
  shows "chains_ok st' bs A cs = chains_ok st bs A cs"
proof -
  have "{a \<in> A. bkt_of n st' a = i} = {a \<in> A. bkt_of n st a = i}" for n i
    using assms(3) by (auto simp: bkt_of_def)
  then show ?thesis using assms(1,2) by (simp add: chains_ok_def)
qed

lemma chains_tabs [simp]: "chains_ok (st\<lparr>tabs := ts\<rparr>) bs A cs = chains_ok st bs A cs"
  by (rule chains_cong) simp_all

lemma same_items_tabs [simp]: "same_items (st\<lparr>tabs := ts\<rparr>) st' = same_items st st'" "same_items st (st'\<lparr>tabs := ts\<rparr>) = same_items st st'"
  by (simp_all add: same_items_def)

lemma limited_same: "same_items st st' \<Longrightarrow> limited st' = limited st"
  by (simp add: same_items_def limited_def)

text \<open>A table that differs from another one only in its buckets.\<close>

definition regrown :: "UT_hash_table \<Rightarrow> UT_hash_table \<Rightarrow> bool" where
  "regrown T T' \<longleftrightarrow> hho T' = hho T \<and> tail_hh T' = tail_hh T \<and> num_items T' = num_items T \<and>
     length (buckets T') \<le> 2 * length (buckets T)"

lemma memory_same: "same_items st st' \<Longrightarrow> can_alloc st' = can_alloc st"
  by (simp add: same_items_def)

lemma link_order: "(h :: UT_hash_handle)\<lparr>hh_next := p, hh_prev := q\<rparr> = h\<lparr>hh_prev := q, hh_next := p\<rparr>"
  by (cases h) simp

lemma HASH_ADD_TO_BKT_run:
  assumes T: "tabs st t = Some T" "size_ok T" "num_items T \<noteq> 0" and c: "chains_ok st (buckets T) A cs" and lim: "limited st"
    and a: "a \<notin> A" "hhs st a = Some h" "hh_tbl h = Some t" and b: "b = bkt_of (length (buckets T)) st a"
  shows "refused (can_alloc st) (32 * length (buckets T)) (HASH_ADD_TO_BKT t b a st) \<or>
    (\<exists>st' T' cs'. HASH_ADD_TO_BKT t b a st = Runs () st' \<and> tabs st' = (tabs st)(t \<mapsto> T') \<and> size_ok T' \<and>
       chains_ok st' (buckets T') (insert a A) cs' \<and> same_items st st' \<and> regrown T T')"
proof -
  obtain k where k: "k \<le> 30" "length (buckets T) = 2 ^ k" using size_okD [OF T(2)] by metis
  have l: "b < length (buckets T)" unfolding b by (rule bkt_of_less [OF k(2)]) (use k in simp)
  let ?b = "buckets T ! b"
  from chains_okD(1) [OF c l] obtain z where z: "dlist (nxs st) (pvs st) (hh_head ?b) (cs ! b) z" by blast
  have la: "live (Some a) st" "live (hh_head ?b) st" using a(2) dlist_head_live [OF z] by (simp_all add: live_def)
  let ?bk = "?b\<lparr>bkt_count := bkt_count ?b + 1, hh_head := Some a\<rparr>"
  let ?T = "T\<lparr>buckets := (buckets T)[b := ?bk]\<rparr>"
  let ?st = "pushed (hh_head ?b) a st"
  let ?st' = "?st\<lparr>tabs := (tabs st)(t \<mapsto> ?T)\<rparr>"
  have c': "chains_ok ?st (buckets ?T) (insert a A) (cs[b := a # cs ! b])"
    using chains_push [OF c a(1) la(1) b l, of ?bk] by simp
  have p: "upd (hh_head ?b) (\<lambda>h. h\<lparr>hh_prev := Some a\<rparr>) (upd (Some a) (\<lambda>h. h\<lparr>hh_next := hh_head ?b, hh_prev := None\<rparr>) st) = ?st"
    by (simp add: pushed_def link_order)
  have ha: "\<exists>h'. hhs ?st a = Some h' \<and> hh_tbl h' = Some t" using a(2,3) by (auto simp: pushed_def)
  then obtain h' where h': "hhs ?st a = Some h'" "hh_tbl h' = Some t" by blast
  have tb: "tabs ?st = tabs st" by (rule pushed_same)
  have r: "HASH_ADD_TO_BKT t b a st =
      (if bkt_count ?b + 1 \<ge> (expand_mult ?b + 1) * HASH_BKT_CAPACITY_THRESH \<and> noexpand T \<noteq> 1 then HASH_EXPAND_BUCKETS t ?st' else Runs () ?st')"
    using T(1) l la p h' tb by (simp add: HASH_ADD_TO_BKT_def)
  have s: "size_ok ?T" using T(2) by (simp add: size_ok_def)
  have same: "same_items st ?st'" using pushed_same(1) by simp
  show ?thesis
  proof (cases "bkt_count ?b + 1 \<ge> (expand_mult ?b + 1) * HASH_BKT_CAPACITY_THRESH \<and> noexpand T \<noteq> 1")
    case True
    have "limited ?st'" using limited_same [OF same] lim by simp
    from HASH_EXPAND_BUCKETS_run [of ?st' t ?T "insert a A", OF _ s _ _ this] T(3) c' have
      "refused (can_alloc ?st') (32 * length (buckets T)) (HASH_EXPAND_BUCKETS t ?st') \<or>
       (\<exists>st'' T' cs'. HASH_EXPAND_BUCKETS t ?st' = Runs () st'' \<and> tabs st'' = (tabs ?st')(t \<mapsto> T') \<and> size_ok T' \<and>
         chains_ok st'' (buckets T') (insert a A) cs' \<and> same_items ?st' st'' \<and> hho T' = hho T \<and> tail_hh T' = tail_hh T \<and> num_items T' = num_items T \<and>
         length (buckets T') = 2 * length (buckets T))"
      by simp
    then show ?thesis
    proof (elim disjE exE conjE)
      fix st'' T' cs'
      assume e: "HASH_EXPAND_BUCKETS t ?st' = Runs () st''" "tabs st'' = (tabs ?st')(t \<mapsto> T')" "size_ok T'"
        "chains_ok st'' (buckets T') (insert a A) cs'" "same_items ?st' st''" "hho T' = hho T" "tail_hh T' = tail_hh T"
        "num_items T' = num_items T" "length (buckets T') = 2 * length (buckets T)"
      show ?thesis unfolding r using True e same_items_trans [OF same e(5)]
        by (intro disjI2 exI [of _ st''] exI [of _ T'] exI [of _ cs']) (simp add: regrown_def)
    qed (use True r memory_same [OF same] in simp)
  next
    case False
    have "tabs ?st' = (tabs st)(t \<mapsto> ?T)" by simp
    moreover have "chains_ok ?st' (buckets ?T) (insert a A) (cs[b := a # cs ! b])" using c' by simp
    moreover have "regrown T ?T" by (simp add: regrown_def)
    ultimately show ?thesis unfolding r using False s same by (simp only: if_False) blast
  qed
qed

section \<open>Adding an element\<close>

lemma head_tbl_info: "infos st (e + hh) = Some (Some t, i) \<Longrightarrow> head_tbl hh e st = Runs t st"
  by (auto simp: infos_def head_tbl_def)

lemma hh_info: "infos st a = Some (Some t, i) \<Longrightarrow> \<exists>h. hhs st a = Some h \<and> hh_tbl h = Some t"
  by (auto simp: infos_def)

text \<open>What the assignments before the buckets do to the fields.\<close>

definition entered :: "(byte list \<Rightarrow> 32 word) \<Rightarrow> nat \<Rightarrow> byte list \<Rightarrow> addr \<Rightarrow> addr \<Rightarrow> addr list \<Rightarrow> ut_heap \<Rightarrow> ut_heap \<Rightarrow> bool" where
  "entered fcn hh k add t es st st' \<longleftrightarrow>
     nxs st' = nxs st \<and> pvs st' = pvs st \<and>
     app_nxs hh st' = (if es = [] then (app_nxs hh st)(add \<mapsto> None) else (app_nxs hh st)(add \<mapsto> None, last es \<mapsto> Some add)) \<and>
     app_pvs hh st' = (app_pvs hh st)(add \<mapsto> (if es = [] then None else Some (last es))) \<and>
     infos st' = (infos st)(add + hh \<mapsto> (Some t, k, of_nat (length k), fcn k)) \<and>
     dom (hhs st') = dom (hhs st) \<and> can_alloc st' = can_alloc st"

lemma fresh_handle:
  assumes "tbl_inv fcn hh st t T es cs" and "add \<notin> set es"
  shows "add + hh \<notin> (\<lambda>e. e + hh) ` set es"
  using assms by auto

text \<open>A table that has all elements but the last one on its buckets.\<close>

lemma add_to_bkt_inv:
  assumes en: "entered fcn hh k add t es st0 st" and T: "tabs st t = Some T" "size_ok T" "hho T = hh" "tail_hh T = Some (add + hh)"
    "num_items T = of_nat (length es + 1)" and len: "length es + 1 < 2 ^ 32" "length k < 2 ^ 32"
    and d: "dlist (app_nxs hh st) (app_pvs hh st) (Some (hd (es @ [add]))) (es @ [add]) (Some add)" "distinct (es @ [add])"
    and c: "chains_ok st0 (buckets T) ((\<lambda>e. e + hh) ` set es) cs" and i: "\<forall>e \<in> set es. info_ok fcn t (infos st0 (e + hh))"
    and lim: "limited st"
  shows "refused (can_alloc st) (32 * length (buckets T)) (seq (HASH_ADD_TO_BKT t (unat (HASH_TO_BKT (fcn k) (num_buckets T))) (add + hh)) (ret p) st) \<or>
    (\<exists>st' T' cs'. seq (HASH_ADD_TO_BKT t (unat (HASH_TO_BKT (fcn k) (num_buckets T))) (add + hh)) (ret p) st = Runs p st' \<and>
       tbl_inv fcn hh st' t T' (es @ [add]) cs' \<and> length (buckets T') \<le> 2 * length (buckets T) \<and> entered fcn hh k add t es st0 st \<and> same_items st st')"
proof -
  note e = en [unfolded entered_def]
  let ?A = "(\<lambda>e. e + hh) ` set es"
  have out: "add + hh \<notin> ?A" using d(2) by auto
  have info: "infos st (add + hh) = Some (Some t, k, of_nat (length k), fcn k)" using e by simp
  from hh_info [OF info] obtain h where h: "hhs st (add + hh) = Some h" "hh_tbl h = Some t" by blast
  obtain n where n: "n \<le> 30" "length (buckets T) = 2 ^ n" "num_buckets T = 2 ^ n" using size_okD [OF T(2)] by metis
  have b: "unat (HASH_TO_BKT (fcn k) (num_buckets T)) = bkt_of (length (buckets T)) st (add + hh)"
    by (simp add: bkt_of_def info n)
  have "unat (num_items T) = length es + 1" unfolding T(5) using len(1) by (subst unat_of_nat) (simp add: take_bit_nat_eq_self del: of_nat_add)
  then have nz: "num_items T \<noteq> 0" by auto
  have c': "chains_ok st (buckets T) ?A cs" using c e out by (subst chains_cong [where st = st0]) auto
  from HASH_ADD_TO_BKT_run [OF T(1,2) nz c' lim out h b]
  show ?thesis
  proof (elim disjE exE conjE)
    fix st' T' cs'
    assume r: "HASH_ADD_TO_BKT t (unat (HASH_TO_BKT (fcn k) (num_buckets T))) (add + hh) st = Runs () st'"
      "tabs st' = (tabs st)(t \<mapsto> T')" "size_ok T'" "chains_ok st' (buckets T') (insert (add + hh) ?A) cs'" "same_items st st'" "regrown T T'"
    have s: "app_nxs hh st' = app_nxs hh st" "app_pvs hh st' = app_pvs hh st" "infos st' = infos st"
      using r(5) by (simp_all add: same_items_def)
    have "info_ok fcn t (infos st' (x + hh))" if "x \<in> set (es @ [add])" for x
    proof (cases "x = add")
      case True
      then show ?thesis using info len(2) s by (simp add: info_ok_def)
    next
      case False
      then show ?thesis using that i s e by simp
    qed
    then have "tbl_inv fcn hh st' t T' (es @ [add]) cs'"
      unfolding tbl_inv_def using r(2-4,6) T(3-5) len(1) d s by (simp add: regrown_def)
    with r(1,5,6) en show ?thesis by (auto simp: regrown_def)
  qed (intro disjI1 refused_bnd)
qed


text \<open>The step before the buckets.\<close>

lemma brk_simps [simp]: "live q (st\<lparr>ut_brk := n\<rparr>) = live q st" "upd p f (st\<lparr>ut_brk := n\<rparr>) = (upd p f st)\<lparr>ut_brk := n\<rparr>"
  "(s\<lparr>ut_brk := n, tabs := ts\<rparr> :: ut_heap) = s\<lparr>tabs := ts, ut_brk := n\<rparr>"
  by (simp add: live_def, cases st, simp add: upd_def cong: if_cong, cases s, simp)

lemma ut_malloc_run [simp]: "can_alloc st n \<Longrightarrow> ut_malloc n st = Runs () st" "\<not> can_alloc st n \<Longrightarrow> ut_malloc n st = Refused n"
  by (simp_all add: ut_malloc_def)

definition made_table :: "nat \<Rightarrow> addr \<Rightarrow> UT_hash_table" where
  "made_table hh a = zero_table\<lparr>tail_hh := Some a, num_buckets := 32, log2_num_buckets := 5, hho := hh,
     buckets := replicate 32 zero_bucket, signature := HASH_SIGNATURE\<rparr>"

lemma HASH_MAKE_TABLE_run:
  assumes "live (Some (e + hh)) st"
  shows "refused (can_alloc st) 512 (HASH_MAKE_TABLE hh e st) \<or>
    HASH_MAKE_TABLE hh e st = Runs () ((upd (Some (e + hh)) (\<lambda>h. h\<lparr>hh_tbl := Some (ut_brk st)\<rparr>) st)
      \<lparr>tabs := (tabs st)(ut_brk st \<mapsto> made_table hh (e + hh)), ut_brk := ut_brk st + 1\<rparr>)"
  by (cases "can_alloc st sizeof_table"; cases "can_alloc st (32 * sizeof_bucket)")
    (use assms in \<open>simp_all add: HASH_MAKE_TABLE_def new_table_def made_table_def HASH_INITIAL_NUM_BUCKETS_def HASH_INITIAL_NUM_BUCKETS_LOG2_def
      sizeof_table_def sizeof_bucket_def\<close>)

lemma entered_intro:
  assumes "hhs st (add + hh) = Some h"
    and "hhs st' = (hhs st)(add + hh \<mapsto> h\<lparr>next_elt := None, hh_key := k, keylen := of_nat (length k), prev := None,
            hh_tbl := Some t, hashv := fcn k\<rparr>)"
    and "can_alloc st' = can_alloc st"
  shows "entered fcn hh k add t [] st st'"
proof -
  have "dom (hhs st') = dom (hhs st)" using assms(1,2) by (simp add: insert_absorb domI)
  then show ?thesis using assms by (auto simp: entered_def field_defs fun_eq_iff)
qed

lemma HASH_ADD_KEYPTR_first:
  assumes h: "hhs st (add + hh) = Some h" and len: "length k < 2 ^ 32" and lim: "limited st"
  shows "refused (can_alloc st) 1024 (HASH_ADD_KEYPTR fcn hh None k add st) \<or>
    (\<exists>st' st1 T cs. HASH_ADD_KEYPTR fcn hh None k add st = Runs (Some add) st' \<and> tbl_inv fcn hh st' (ut_brk st) T [add] cs \<and> length (buckets T) \<le> 64 \<and>
       entered fcn hh k add (ut_brk st) [] st st1 \<and> same_items st1 st')"
proof -
  have l: "live (Some (add + hh)) st" using h by (simp add: live_def)
  let ?f = "\<lambda>h. h\<lparr>next_elt := None, hh_key := k, keylen := of_nat (length k)\<rparr>"
  let ?s1 = "upd (Some (add + hh)) (\<lambda>h. h\<lparr>prev := None\<rparr>) (upd (Some (add + hh)) ?f st)"
  let ?t = "ut_brk st"
  let ?s2 = "(upd (Some (add + hh)) (\<lambda>h. h\<lparr>hh_tbl := Some ?t\<rparr>) ?s1)\<lparr>tabs := (tabs st)(?t \<mapsto> made_table hh (add + hh)), ut_brk := ?t + 1\<rparr>"
  let ?s3 = "(upd (Some (add + hh)) (\<lambda>h. h\<lparr>hh_tbl := Some ?t, hashv := fcn k\<rparr>) ?s2)\<lparr>tabs := (tabs st)(?t \<mapsto> (made_table hh (add + hh))\<lparr>num_items := 1\<rparr>)\<rparr>"
  let ?T = "(made_table hh (add + hh))\<lparr>num_items := 1\<rparr>"
  have en: "entered fcn hh k add ?t [] st ?s3" using h by (intro entered_intro) (auto simp: fun_eq_iff)
  from HASH_MAKE_TABLE_run [of add hh ?s1] consider n where "HASH_MAKE_TABLE hh add ?s1 = Refused n" "n \<le> 512" "\<not> can_alloc st n" | "HASH_MAKE_TABLE hh add ?s1 = Runs () ?s2" using l by (fastforce simp: refused_def)
  then show ?thesis
  proof cases
    case 2
    have ht: "head_tbl hh add ?s2 = Runs ?t ?s2" by (simp add: head_tbl_def hh_at_def h bnd_def)
    have r: "HASH_ADD_KEYPTR fcn hh None k add st =
        seq (HASH_ADD_TO_BKT ?t (unat (HASH_TO_BKT (fcn k) (num_buckets ?T))) (add + hh)) (ret (Some add)) ?s3"
      using l 2 ht by (simp add: HASH_ADD_KEYPTR_def made_table_def zero_table_def)
    have sz: "size_ok ?T" by (auto simp: size_ok_def made_table_def intro: exI [of _ 5])
    have lm: "limited ?s3" using lim by (simp add: limited_def)
    have c: "chains_ok st (buckets ?T) ((\<lambda>e. e + hh) ` set []) (replicate 32 [])"
      using chains_empty [of st 32] by (simp add: made_table_def)
    have d: "dlist (app_nxs hh ?s3) (app_pvs hh ?s3) (Some (hd ([] @ [add]))) ([] @ [add]) (Some add)"
      using en by (simp add: entered_def)
    have T: "tabs ?s3 ?t = Some ?T" "hho ?T = hh" "tail_hh ?T = Some (add + hh)" "num_items ?T = of_nat (length ([] :: addr list) + 1)"
      by (simp_all add: made_table_def)
    have "length ([] :: addr list) + 1 < 2 ^ 32" "distinct ([] @ [add])" "\<forall>e \<in> set []. info_ok fcn ?t (infos st (e + hh))" by simp_all
    note finish = add_to_bkt_inv [OF en T(1) sz T(2-4) this(1) len d this(2) c this(3) lm, of "Some add"]
    have "can_alloc ?s3 = can_alloc st" "length (buckets ?T) = 32" "32 * (32 :: nat) = 1024" "2 * (32 :: nat) = 64" "[] @ [add] = [add]"
      by (simp_all add: made_table_def)
    from finish [unfolded this] show ?thesis unfolding r by blast
  qed (use l in \<open>simp add: HASH_ADD_KEYPTR_def\<close>)
qed


lemma entered_last_intro:
  assumes "hhs st (add + hh) = Some h" "hhs st (last es + hh) = Some hl" "last es \<noteq> add" "es \<noteq> []"
    and "hhs st' = (hhs st)(add + hh \<mapsto> h\<lparr>next_elt := None, hh_key := k, keylen := of_nat (length k), prev := Some (last es),
            hh_tbl := Some t, hashv := fcn k\<rparr>, last es + hh \<mapsto> hl\<lparr>next_elt := Some add\<rparr>)"
    and "can_alloc st' = can_alloc st"
  shows "entered fcn hh k add t es st st'"
proof -
  have "dom (hhs st') = dom (hhs st)" using assms(1,2,5) by (simp add: insert_absorb domI)
  then show ?thesis using assms by (auto simp: entered_def field_defs fun_eq_iff)
qed

lemma HASH_ADD_KEYPTR_more:
  assumes i: "tbl_inv fcn hh st t T es cs" and h: "hhs st (add + hh) = Some h" and new: "add \<notin> set es" and "length es + 1 < 2 ^ 32"
    and len: "length k < 2 ^ 32" and lim: "limited st"
  shows "refused (can_alloc st) (32 * length (buckets T)) (HASH_ADD_KEYPTR fcn hh (Some (hd es)) k add st) \<or>
    (\<exists>st' st1 T' cs'. HASH_ADD_KEYPTR fcn hh (Some (hd es)) k add st = Runs (Some (hd es)) st' \<and> tbl_inv fcn hh st' t T' (es @ [add]) cs' \<and>
       length (buckets T') \<le> 2 * length (buckets T) \<and> entered fcn hh k add t es st st1 \<and> same_items st1 st')"
proof -
  note iD = tbl_invD [OF i]
  have m: "hd es \<in> set es" "last es \<in> set es" and ne: "es \<noteq> []" "last es \<noteq> add" "hd es \<noteq> add" using iD(4) new by auto
  from item_hh [OF i m(1)] obtain hf where hf: "hhs st (hd es + hh) = Some hf" "hh_tbl hf = Some t" by metis
  from item_hh [OF i m(2)] obtain hl where hl: "hhs st (last es + hh) = Some hl" "hh_tbl hl = Some t" by metis
  have l: "live (Some (add + hh)) st" "live (Some (last es + hh)) st" using h hl by (simp_all add: live_def)
  let ?f = "\<lambda>h. h\<lparr>next_elt := None, hh_key := k, keylen := of_nat (length k)\<rparr>"
  let ?s1 = "upd (Some (add + hh)) ?f st"
  let ?s2 = "upd (Some (add + hh)) (\<lambda>h. h\<lparr>prev := Some (last es)\<rparr>) (upd (Some (last es + hh)) (\<lambda>h. h\<lparr>next_elt := Some add\<rparr>) ?s1)"
  let ?T = "T\<lparr>tail_hh := Some (add + hh), num_items := num_items T + 1\<rparr>"
  let ?s3 = "(upd (Some (add + hh)) (\<lambda>h. h\<lparr>hh_tbl := Some t, hashv := fcn k\<rparr>) ?s2)\<lparr>tabs := (tabs st)(t \<mapsto> ?T)\<rparr>"
  have en: "entered fcn hh k add t es st ?s3" using h hl ne by (intro entered_last_intro) (auto simp: fun_eq_iff)
  have ht: "head_tbl hh (hd es) ?s1 = Runs t ?s1" "head_tbl hh (hd es) (?s2\<lparr>tabs := ts\<rparr>) = Runs t (?s2\<lparr>tabs := ts\<rparr>)" for ts
    using hf ne by (simp_all add: head_tbl_def hh_at_def bnd_def defined_ptr_def split: option.split)
  have r: "HASH_ADD_KEYPTR fcn hh (Some (hd es)) k add st =
      seq (HASH_ADD_TO_BKT t (unat (HASH_TO_BKT (fcn k) (num_buckets ?T))) (add + hh)) (ret (Some (hd es))) ?s3"
    using l ht iD(1,3,7) by (simp add: HASH_ADD_KEYPTR_def ELMT_FROM_HH_def)
  have sz: "size_ok ?T" using iD(2) by (simp add: size_ok_def)
  have lm: "limited ?s3" using lim by (simp add: limited_def)
  have d: "dlist (app_nxs hh ?s3) (app_pvs hh ?s3) (Some (hd (es @ [add]))) (es @ [add]) (Some add)"
  proof -
    have "dlist (relink (Some (last es)) (Some add) ((app_nxs hh st)(add \<mapsto> None))) ((app_pvs hh st)(add \<mapsto> Some (last es)))
        (if es = [] then Some add else Some (hd es)) (es @ [add]) (Some add)"
      using iD(5,9) new by (intro dlist_append) simp_all
    then show ?thesis using en ne iD(4) by (simp add: entered_def)
  qed
  have T: "tabs ?s3 t = Some ?T" "hho ?T = hh" "tail_hh ?T = Some (add + hh)" "num_items ?T = of_nat (length es + 1)"
    using iD by simp_all
  have c: "chains_ok st (buckets ?T) ((\<lambda>e. e + hh) ` set es) cs" using iD(10) by simp
  have ii: "\<forall>e \<in> set es. info_ok fcn t (infos st (e + hh))" using iD(11) by blast
  have "distinct (es @ [add])" using iD(5) new by simp
  note finish = add_to_bkt_inv [OF en T(1) sz T(2-4) assms(4) len d this c ii lm, of "Some (hd es)"]
  have "can_alloc ?s3 = can_alloc st" "buckets ?T = buckets T" by simp_all
  from finish [unfolded this] show ?thesis
    unfolding r by blast
qed

section \<open>The list of elements\<close>

lemma entered_key: "entered fcn hh k add t es st st' \<Longrightarrow> key_of hh st' = (key_of hh st)(add := k)"
  by (simp add: entered_def key_of_def fun_eq_iff)

lemma same_key_of: "same_items st st' \<Longrightarrow> key_of hh st' = key_of hh st"
  by (simp add: same_items_def key_of_def fun_eq_iff)

theorem HASH_ADD_KEYPTR_run:
  assumes i: "ut_inv fcn hh B st es" and h: "hhs st (add + hh) \<noteq> None" and new: "add \<notin> set es" and n: "length es + 1 < 2 ^ 32"
    and len: "length k < 2 ^ 32" and lim: "limited st"
  shows "refused (can_alloc st) (32 * B) (HASH_ADD_KEYPTR fcn hh (head_of es) k add st) \<or>
    (\<exists>st'. HASH_ADD_KEYPTR fcn hh (head_of es) k add st = Runs (head_of (es @ [add])) st' \<and> ut_inv fcn hh (2 * B) st' (es @ [add]) \<and>
       key_of hh st' = (key_of hh st)(add := k) \<and> dom (hhs st') = dom (hhs st) \<and> can_alloc st' = can_alloc st)"
proof -
  obtain h where h: "hhs st (add + hh) = Some h" using h by blast
  have B: "32 \<le> B" using i by (simp add: ut_inv_def)
  have "refused (can_alloc st) (32 * B) (HASH_ADD_KEYPTR fcn hh (head_of es) k add st) \<or>
    (\<exists>st' st1 t T cs. HASH_ADD_KEYPTR fcn hh (head_of es) k add st = Runs (head_of (es @ [add])) st' \<and> tbl_inv fcn hh st' t T (es @ [add]) cs \<and>
       length (buckets T) \<le> 2 * B \<and> entered fcn hh k add t es st st1 \<and> same_items st1 st')"
  proof (cases es)
    case Nil
    have "refused (can_alloc st) 1024 r \<Longrightarrow> refused (can_alloc st) (32 * B) r" for r :: "ptr ut_result" by (erule refused_mono) (use B in simp)
    moreover have "n \<le> 64 \<Longrightarrow> n \<le> 2 * B" for n using B by simp
    ultimately show ?thesis using HASH_ADD_KEYPTR_first [OF h len lim, of fcn] Nil by (simp add: head_of_def) blast
  next
    case (Cons a as)
    with i obtain t T cs where t: "tbl_inv fcn hh st t T es cs" "length (buckets T) \<le> B" by (auto simp: ut_inv_def)
    have "refused (can_alloc st) (32 * length (buckets T)) r \<Longrightarrow> refused (can_alloc st) (32 * B) r" for r :: "ptr ut_result"
      by (erule refused_mono) (use t(2) in simp)
    moreover have "n \<le> 2 * length (buckets T) \<Longrightarrow> n \<le> 2 * B" for n using t(2) by simp
    moreover have "head_of es = Some (hd es)" "head_of (es @ [add]) = Some (hd es)" using Cons by (simp_all add: head_of_def)
    ultimately show ?thesis using HASH_ADD_KEYPTR_more [OF t(1) h new n len lim] by (simp only:) blast
  qed
  then show ?thesis
  proof (elim disjE exE conjE)
    fix st' st1 t T cs
    assume r: "HASH_ADD_KEYPTR fcn hh (head_of es) k add st = Runs (head_of (es @ [add])) st'" "tbl_inv fcn hh st' t T (es @ [add]) cs"
      "length (buckets T) \<le> 2 * B" "entered fcn hh k add t es st st1" "same_items st1 st'"
    have "ut_inv fcn hh (2 * B) st' (es @ [add])" using r(2,3) B by (auto simp: ut_inv_def)
    moreover have "key_of hh st' = (key_of hh st)(add := k)" using entered_key [OF r(4)] same_key_of [OF r(5)] by simp
    moreover have "dom (hhs st') = dom (hhs st) \<and> can_alloc st' = can_alloc st"
      using r(4,5) by (simp add: entered_def same_items_def)
    ultimately show ?thesis using r(1) by blast
  qed simp
qed

end
