(* ===== verification/UtDelete.thy ===== *)
theory UtDelete
  imports UtAdd
begin

unbundle bit_operations_syntax

text \<open>\<open>HASH_DELETE\<close> takes an element out of the list and its handle out of its bucket.\<close>

section \<open>Deleting from a bucket\<close>

text \<open>A handle between \<open>q\<close> and \<open>r\<close> is unlinked.\<close>

lemma chains_drop:
  assumes c: "chains_ok st bs A cs" and b: "b < length bs" and cb: "cs ! b = ys @ a # zs" and q: "pvs st a = Some q" and r: "nxs st a = Some r"
    and bk: "hh_head bk = (if hh_head (bs ! b) = Some a then r else hh_head (bs ! b))" "bkt_count bk = bkt_count (bs ! b) - 1"
    and st': "nxs st' = relink q r (nxs st)" "pvs st' = relink r q (pvs st)" "infos st' = infos st"
  shows "chains_ok st' (bs[b := bk]) (A - {a}) (cs[b := ys @ zs])"
proof -
  note d = chains_okD [OF c]
  from d(1) [OF b] cb obtain z where z: "dlist (nxs st) (pvs st) (hh_head (bs ! b)) (ys @ a # zs) z" by auto
  have f: "q = (if ys = [] then None else Some (last ys))" "r = (case zs of [] \<Rightarrow> None | z # _ \<Rightarrow> Some z)"
    using dlist_at(5) [OF z q] dlist_at(6) [OF z r] .
  have dist: "distinct (ys @ a # zs)" using d(2) [OF b] cb by simp
  have len: "length cs = length bs" using c by (simp add: chains_ok_def)
  have ab: "bkt_of (length bs) st a = b" using d(4) [OF b] cb by auto
  have hd: "hh_head bk = (if q = None then r else hh_head (bs ! b))"
    using dlist_first [OF z] dist unfolding bk(1) f(1) by (cases ys) auto
  have other: "x \<notin> set (cs ! i)" if "i < length bs" "i \<noteq> b" "q = Some x \<or> r = Some x" for i x
    using d(4) [OF that(1)] d(4) [OF b] that(2,3) f cb by (auto split: if_splits list.splits dest: last_in_set)
  show ?thesis
    unfolding chains_ok_def length_list_update
  proof (intro conjI allI impI)
    show "length cs = length bs" by (rule len)
    fix i assume i: "i < length bs"
    show "\<exists>z. dlist (nxs st') (pvs st') (hh_head (bs[b := bk] ! i)) (cs[b := ys @ zs] ! i) z"
    proof (cases "i = b")
      case True
      then show ?thesis using dlist_remove [OF z dist q r] i len unfolding st' by (auto simp: hd)
    next
      case False
      from d(1) [OF i] obtain w where w: "dlist (nxs st) (pvs st) (hh_head (bs ! i)) (cs ! i) w" by blast
      have "dlist (nxs st') (pvs st') (hh_head (bs ! i)) (cs ! i) w"
        unfolding st' using w other [OF i False] by (cases q; cases r) simp_all
      then show ?thesis using False i len by auto
    qed
    show "distinct (cs[b := ys @ zs] ! i)" using d(2) [OF i] dist i len by (cases "i = b") simp_all
    show "bkt_count (bs[b := bk] ! i) = of_nat (length (cs[b := ys @ zs] ! i))"
      using d(3) [OF i] bk(2) cb i len by (cases "i = b") simp_all
    show "set (cs[b := ys @ zs] ! i) = {x \<in> A - {a}. bkt_of (length bs) st' x = i}"
      using d(4) [OF i] cb dist b i len ab unfolding bkt_of_same [OF st'(3)]
      by (cases "i = b") auto
  qed
qed

lemma HASH_DEL_IN_BKT_run:
  assumes T: "tabs st t = Some T" and c: "chains_ok st (buckets T) A cs" and a: "a \<in> A" 
    and b: "b = bkt_of (length (buckets T)) st a" "b < length (buckets T)"
  shows "\<exists>st' T' cs'. HASH_DEL_IN_BKT t b a st = Runs () st' \<and> tabs st' = (tabs st)(t \<mapsto> T') \<and>
     (\<exists>bk. T' = T\<lparr>buckets := (buckets T)[b := bk]\<rparr>) \<and> chains_ok st' (buckets T') (A - {a}) cs' \<and> same_items st st'"
proof -
  note d = chains_okD [OF c b(2)]
  have "a \<in> set (cs ! b)" using d(4) a b(1) by simp
  then obtain ys zs where cb: "cs ! b = ys @ a # zs" by (auto dest: split_list)
  from d(1) cb obtain z where z: "dlist (nxs st) (pvs st) (hh_head (buckets T ! b)) (ys @ a # zs) z" by auto
  have dist: "distinct (ys @ a # zs)" using d(2) cb by simp
  from dlist_at(1,2) [OF z] obtain h where h: "hhs st a = Some h" by (auto simp: pvs_def)
  have q: "pvs st a = Some (hh_prev h)" and r: "nxs st a = Some (hh_next h)" using h by (simp_all add: pvs_def nxs_def)
  have f: "hh_prev h = (if ys = [] then None else Some (last ys))" "hh_next h = (case zs of [] \<Rightarrow> None | z # _ \<Rightarrow> Some z)"
    using dlist_at(5) [OF z q] dlist_at(6) [OF z r] .
  have ne: "hh_prev h \<noteq> Some a" using f(1) dist by (auto split: if_splits dest: last_in_set)
  have mem: "live (Some x) st" if "x \<in> set (ys @ a # zs)" for x by (rule dlist_member_live [OF z that])
  have lv: "live (hh_prev h) st" "live (hh_next h) st" unfolding f using mem by (auto split: list.split simp del: live_def)
  let ?b = "buckets T ! b"
  let ?bk = "if hh_head ?b = Some a then ?b\<lparr>bkt_count := bkt_count ?b - 1, hh_head := hh_next h\<rparr> else ?b\<lparr>bkt_count := bkt_count ?b - 1\<rparr>"
  let ?T = "T\<lparr>buckets := (buckets T)[b := ?bk]\<rparr>"
  let ?st = "upd (hh_next h) (\<lambda>h'. h'\<lparr>hh_prev := hh_prev h\<rparr>) (upd (hh_prev h) (\<lambda>h'. h'\<lparr>hh_next := hh_next h\<rparr>) st)"
  let ?st' = "?st\<lparr>tabs := (tabs st)(t \<mapsto> ?T)\<rparr>"
  have "HASH_DEL_IN_BKT t b a st = Runs () ?st'"
    using T b(2) h lv ne by (simp add: HASH_DEL_IN_BKT_def)
  moreover have "chains_ok ?st (buckets ?T) (A - {a}) (cs[b := ys @ zs])"
    using chains_drop [OF c b(2) cb q r, of ?bk ?st] lv by (simp add: upd_other upd_link [where v = "hh_next h"] upd_link [where v = "hh_prev h"])
  moreover have "same_items st ?st'" by (simp add: same_items_def upd_other)
  moreover have "tabs ?st' = (tabs st)(t \<mapsto> ?T)" by simp
  ultimately show ?thesis using chains_tabs by blast
qed


section \<open>Deleting an element\<close>

lemma dlist_app_live: "dlist (app_nxs hh st) (app_pvs hh st) p xs z \<Longrightarrow> x \<in> set xs \<Longrightarrow> live (Some (x + hh)) st"
  using dseg_live [of "app_nxs hh st" "app_pvs hh st" None p xs z None x] by (auto simp: live_def app_nxs_def)

text \<open>The assignments before the bucket: the list without the element, all else as before.\<close>

lemma unlinked:
  assumes i: "tbl_inv fcn hh st t T (ys @ e # zs) cs" and q: "app_pvs hh st e = Some q" and r: "app_nxs hh st e = Some r"
    and st': "st' = upd (map_option (\<lambda>e. e + hh) r) (\<lambda>h. h\<lparr>prev := q\<rparr>) (upd (map_option (\<lambda>e. e + hh) q) (\<lambda>h. h\<lparr>next_elt := r\<rparr>) st)"
  shows "q = (if ys = [] then None else Some (last ys))" "r = (case zs of [] \<Rightarrow> None | z # _ \<Rightarrow> Some z)"
    "live (map_option (\<lambda>e. e + hh) q) st" "live (map_option (\<lambda>e. e + hh) r) st"
    "dlist (app_nxs hh st') (app_pvs hh st') (head_of (ys @ zs)) (ys @ zs) (if r = None then q else Some (last (ys @ e # zs)))"
    "infos st' = infos st" "nxs st' = nxs st" "pvs st' = pvs st" "dom (hhs st') = dom (hhs st)"
proof -
  note d = tbl_invD(9) [OF i]
  show f: "q = (if ys = [] then None else Some (last ys))" "r = (case zs of [] \<Rightarrow> None | z # _ \<Rightarrow> Some z)"
    using dlist_at(5) [OF d q] dlist_at(6) [OF d r] .
  show l: "live (map_option (\<lambda>e. e + hh) q) st" "live (map_option (\<lambda>e. e + hh) r) st"
    unfolding f using dlist_app_live [OF d] by (auto split: list.split)
  have "head_of (ys @ zs) = (if q = None then r else Some (hd (ys @ e # zs)))" unfolding f by (cases ys; cases zs) (simp_all add: head_of_def)
  then show "dlist (app_nxs hh st') (app_pvs hh st') (head_of (ys @ zs)) (ys @ zs) (if r = None then q else Some (last (ys @ e # zs)))"
    using dlist_remove [OF d tbl_invD(5) [OF i] q r] l
    unfolding st' by (simp add: upd_other upd_app_link [where v = r] upd_app_link [where v = q])
  show "infos st' = infos st" "nxs st' = nxs st" "pvs st' = pvs st" "dom (hhs st') = dom (hhs st)"
    unfolding st' by (simp_all add: upd_other)
qed


lemma head_of_simps [simp]: "head_of [] = None" "head_of (x # xs) = Some x" "ys \<noteq> [] \<Longrightarrow> head_of (ys @ xs) = head_of ys"
  by (auto simp: head_of_def neq_Nil_conv)

lemma HASH_DELETE_steps:
  assumes h: "hhs st (e + hh) = Some h" "\<not> (prev h = None \<and> next_elt h = None)" and x0: "head_tbl hh x0 st = Runs t st"
    and T: "tabs st t = Some T" "hho T = hh" "tail_hh T = Some (l + hh)" and p: "e = l \<longrightarrow> prev h = Some p"
    and live: "live (map_option (\<lambda>e. e + hh) (prev h)) st" "live (map_option (\<lambda>e. e + hh) (next_elt h)) st"
    and s1: "s1 = upd (map_option (\<lambda>e. e + hh) (prev h)) (\<lambda>h'. h'\<lparr>next_elt := next_elt h\<rparr>) st"
    and he: "\<And>ts. hh_at (e + hh) (s1\<lparr>tabs := ts\<rparr>) = Runs h (s1\<lparr>tabs := ts\<rparr>)"
    and x: "(if prev h = None then next_elt h else Some x0) = Some x" "\<And>ts. head_tbl hh x (s1\<lparr>tabs := ts\<rparr>) = Runs t (s1\<lparr>tabs := ts\<rparr>)"
    and T1: "T1 = (if e = l then T\<lparr>tail_hh := Some (p + hh)\<rparr> else T)"
  shows "HASH_DELETE hh (Some x0) e st =
    seq (HASH_DEL_IN_BKT t (unat (HASH_TO_BKT (hashv h) (num_buckets T))) (e + hh))
      (seq (set_tbl t (\<lambda>T. T\<lparr>num_items := num_items T - 1\<rparr>)) (ret (Some x)))
      ((upd (map_option (\<lambda>e. e + hh) (next_elt h)) (\<lambda>h'. h'\<lparr>prev := prev h\<rparr>) s1)\<lparr>tabs := (tabs st)(t \<mapsto> T1)\<rparr>)"
proof -
  have nn: "(prev h = None \<and> next_elt h = None) = False" using h(2) by blast
  let ?K = "\<lambda>head. bnd (hh_at (e + hh)) (\<lambda>d.
       bnd (bnd (defined_ptr head) (head_tbl hh)) (\<lambda>t.
       bnd (tbl_at t) (\<lambda>T.
       seq (set_hh_if (map_option (\<lambda>e. e + hho T) (next_elt d)) (\<lambda>h. h\<lparr>prev := prev d\<rparr>))
      (seq (HASH_DEL_IN_BKT t (unat (HASH_TO_BKT (hashv d) (num_buckets T))) (e + hh))
      (seq (set_tbl t (\<lambda>T. T\<lparr>num_items := num_items T - 1\<rparr>))
      (ret head))))))"
  let ?ts = "(tabs st)(t \<mapsto> T1)"
  have tail: "(if e = ELMT_FROM_HH T (l + hh) then bnd (defined_ptr (prev h)) (\<lambda>p. set_tbl t (\<lambda>T. T\<lparr>tail_hh := Some (p + hho T)\<rparr>)) else ret ()) st
      = Runs () (st\<lparr>tabs := ?ts\<rparr>)"
    using T p by (auto simp: ELMT_FROM_HH_def T1 fun_upd_idem)
  have head: "(case prev h of Some p \<Rightarrow> seq (set_hh (p + hho T) (\<lambda>h'. h'\<lparr>next_elt := next_elt h\<rparr>)) (ret (Some x0)) | None \<Rightarrow> ret (next_elt h)) (st\<lparr>tabs := ?ts\<rparr>)
      = Runs (Some x) (s1\<lparr>tabs := ?ts\<rparr>)"
    using live(1) x(1) T(2) by (cases "prev h") (simp_all add: s1)
  have K: "?K (Some x) (s1\<lparr>tabs := ?ts\<rparr>) = seq (HASH_DEL_IN_BKT t (unat (HASH_TO_BKT (hashv h) (num_buckets T))) (e + hh))
      (seq (set_tbl t (\<lambda>T. T\<lparr>num_items := num_items T - 1\<rparr>)) (ret (Some x)))
      ((upd (map_option (\<lambda>e. e + hh) (next_elt h)) (\<lambda>h'. h'\<lparr>prev := prev h\<rparr>) s1)\<lparr>tabs := (tabs st)(t \<mapsto> T1)\<rparr>)"
    using he [of ?ts] x(2) [of ?ts] T(2) live(2) by (simp add: T1 s1)
  let ?A = "if e = ELMT_FROM_HH T (l + hh) then bnd (defined_ptr (prev h)) (\<lambda>p. set_tbl t (\<lambda>T. T\<lparr>tail_hh := Some (p + hho T)\<rparr>)) else ret ()"
  let ?B = "case prev h of Some p \<Rightarrow> seq (set_hh (p + hho T) (\<lambda>h'. h'\<lparr>next_elt := next_elt h\<rparr>)) (ret (Some x0)) | None \<Rightarrow> ret (next_elt h)"
  have "HASH_DELETE hh (Some x0) e st = seq ?A (bnd ?B ?K) st" using h(1) T(1,3) x0 by (simp add: HASH_DELETE_def nn)
  also have "\<dots> = bnd ?B ?K (st\<lparr>tabs := ?ts\<rparr>)" by (rule step_simps(5)) (rule tail)
  also have "\<dots> = ?K (Some x) (s1\<lparr>tabs := ?ts\<rparr>)" by (rule step_simps(3)) (rule head)
  also note K
  finally show ?thesis .
qed

lemma HASH_DELETE_more:
  assumes i: "tbl_inv fcn hh st t T (ys @ e # zs) cs" and more: "ys @ zs \<noteq> []"
  shows "\<exists>st' T' cs'. HASH_DELETE hh (head_of (ys @ e # zs)) e st = Runs (head_of (ys @ zs)) st' \<and> tbl_inv fcn hh st' t T' (ys @ zs) cs' \<and>
    length (buckets T') = length (buckets T) \<and> infos st' = infos st \<and> dom (hhs st') = dom (hhs st) \<and> can_alloc st' = can_alloc st"
proof -
  note iD = tbl_invD [OF i]
  have dist: "distinct (ys @ e # zs)" by (rule iD(5))
  have me: "e \<in> set (ys @ e # zs)" by simp
  from item_hh [OF i me] obtain h where h: "hhs st (e + hh) = Some h" "hh_tbl h = Some t" "hashv h = fcn (key_of hh st e)" by metis
  have q: "app_pvs hh st e = Some (prev h)" and r: "app_nxs hh st e = Some (next_elt h)" using h by (simp_all add: app_pvs_def app_nxs_def)
  let ?q = "map_option (\<lambda>e. e + hh) (prev h)" and ?r = "map_option (\<lambda>e. e + hh) (next_elt h)"
  let ?s1 = "upd ?q (\<lambda>h'. h'\<lparr>next_elt := next_elt h\<rparr>) st"
  let ?s2 = "upd ?r (\<lambda>h'. h'\<lparr>prev := prev h\<rparr>) ?s1"
  note u = unlinked [OF i q r refl]
  let ?T = "if zs = [] then T\<lparr>tail_hh := Some (last ys + hh)\<rparr> else T"
  let ?ts = "(tabs st)(t \<mapsto> ?T)"
  obtain x where x: "head_of (ys @ zs) = Some x" "x \<in> set (ys @ zs)" using more by (cases "ys @ zs") (auto simp: head_of_def)
  have mx: "x \<in> set (ys @ e # zs)" using x(2) by auto
  from item_hh [OF i mx] obtain hx where hx: "hhs st (x + hh) = Some hx" "hh_tbl hx = Some t" by metis
  have ht: "head_tbl hh x (?s1\<lparr>tabs := ts\<rparr>) = Runs t (?s1\<lparr>tabs := ts\<rparr>)" for ts
    using hx by (simp add: head_tbl_def hh_at_def bnd_def defined_ptr_def)
  have he: "hh_at (e + hh) (?s1\<lparr>tabs := ts\<rparr>) = Runs h (?s1\<lparr>tabs := ts\<rparr>)" for ts
    using h(1) u(1) dist by (auto simp: hh_at_def dest: last_in_set)
  have st: "head_tbl hh (hd (ys @ e # zs)) st = Runs t st" by (rule head_tbl_run [OF i]) (rule hd_in_set, simp)
  have ho: "head_of (ys @ e # zs) = Some (hd (ys @ e # zs))" by (cases ys) simp_all
  have nn: "\<not> (prev h = None \<and> next_elt h = None)" using more u(1,2) by (auto split: list.splits)
  have tl: "e = last (ys @ e # zs) \<longleftrightarrow> zs = []" using dist by (auto simp: last_append dest: last_in_set)
  have p: "e = last (ys @ e # zs) \<longrightarrow> prev h = Some (last ys)" unfolding tl using more u(1) by simp
  have hx1: "(if prev h = None then next_elt h else Some (hd (ys @ e # zs))) = Some x"
    using x(1) u(1,2) by (cases ys; cases zs) simp_all
  have steps: "HASH_DELETE hh (Some (hd (ys @ e # zs))) e st =
      seq (HASH_DEL_IN_BKT t (unat (HASH_TO_BKT (hashv h) (num_buckets T))) (e + hh))
        (seq (set_tbl t (\<lambda>T. T\<lparr>num_items := num_items T - 1\<rparr>)) (ret (Some x))) (?s2\<lparr>tabs := ?ts\<rparr>)"
    using HASH_DELETE_steps [OF h(1) nn st iD(1,3,7) p u(3,4) refl he hx1 ht refl] by (simp only: tl)
  let ?b = "unat (HASH_TO_BKT (hashv h) (num_buckets T))"
  let ?s3 = "?s2\<lparr>tabs := ?ts\<rparr>"
  have bT: "buckets ?T = buckets T" by simp
  have b: "?b = bkt_of (length (buckets ?T)) ?s3 (e + hh)" "?b < length (buckets ?T)"
    using bkt_of_item [OF i me] bkt_less [OF i] h(3) u(6) by (simp_all add: bkt_of_def bT)
  have c: "chains_ok ?s3 (buckets ?T) ((\<lambda>e. e + hh) ` set (ys @ e # zs)) cs"
    using iD(10) u(6-8) chains_cong [of ?s2 st "(\<lambda>e. e + hh) ` set (ys @ e # zs)"] by (simp add: bT)
  have T3: "tabs ?s3 t = Some ?T" by simp
  have A: "(\<lambda>e. e + hh) ` set (ys @ e # zs) - {e + hh} = (\<lambda>e. e + hh) ` set (ys @ zs)" using dist by auto
  from HASH_DEL_IN_BKT_run [OF T3 c _ b] obtain s4 T4 cs4 bk where s4:
    "HASH_DEL_IN_BKT t ?b (e + hh) ?s3 = Runs () s4" "tabs s4 = (tabs ?s3)(t \<mapsto> T4)" "T4 = ?T\<lparr>buckets := (buckets ?T)[?b := bk]\<rparr>"
    "chains_ok s4 (buckets T4) ((\<lambda>e. e + hh) ` set (ys @ zs)) cs4" "same_items ?s3 s4"
    unfolding A by auto
  let ?T5 = "T4\<lparr>num_items := num_items T4 - 1\<rparr>"
  let ?s5 = "s4\<lparr>tabs := (tabs s4)(t \<mapsto> ?T5)\<rparr>"
  have run: "HASH_DELETE hh (head_of (ys @ e # zs)) e st = Runs (head_of (ys @ zs)) ?s5"
    unfolding ho x(1) steps using s4(1,2) by simp
  have same: "infos ?s5 = infos st" "app_nxs hh ?s5 = app_nxs hh ?s2" "app_pvs hh ?s5 = app_pvs hh ?s2" "dom (hhs ?s5) = dom (hhs st)" "can_alloc ?s5 = can_alloc st"
    using s4(5) u(6,9) by (simp_all add: same_items_def)
  have ok: "size_ok ?T5" "hho ?T5 = hh" "tail_hh ?T5 = Some (last (ys @ zs) + hh)" "num_items ?T5 = of_nat (length (ys @ zs))"
    using iD(2,3,7,8) more unfolding s4(3) by (auto simp: size_ok_def)
  have "hd (ys @ zs) = x" using x(1) more by (cases "ys @ zs") simp_all
  moreover have "(if next_elt h = None then prev h else Some (last (ys @ e # zs))) = Some (last (ys @ zs))"
    using u(1,2) more by (cases zs) auto
  ultimately have d: "dlist (app_nxs hh ?s5) (app_pvs hh ?s5) (Some (hd (ys @ zs))) (ys @ zs) (Some (last (ys @ zs)))"
    using u(5) x(1) unfolding same by simp
  have ii: "\<forall>y \<in> set (ys @ zs). info_ok fcn t (infos ?s5 (y + hh))" unfolding same using iD(11) by auto
  have "tbl_inv fcn hh ?s5 t ?T5 (ys @ zs) cs4"
    unfolding tbl_inv_def using ok d ii s4(2,4) more dist iD(6) by simp
  moreover have "length (buckets ?T5) = length (buckets T)" unfolding s4(3) by simp
  ultimately show ?thesis using run same by blast
qed


lemma free_table_run [simp]: "tabs st t = Some T \<Longrightarrow> free_table t st = Runs () (st\<lparr>tabs := free_at t (tabs st)\<rparr>)"
  by (simp add: free_table_def)

theorem HASH_DELETE_run:
  assumes i: "ut_inv fcn hh B st es" and e: "e \<in> set es"
  shows "\<exists>st'. HASH_DELETE hh (head_of es) e st = Runs (head_of (remove1 e es)) st' \<and> ut_inv fcn hh B st' (remove1 e es) \<and>
    key_of hh st' = key_of hh st \<and> dom (hhs st') = dom (hhs st) \<and> can_alloc st' = can_alloc st"
proof -
  obtain t T cs where t: "tbl_inv fcn hh st t T es cs" "length (buckets T) \<le> B" using i e by (auto simp: ut_inv_def)
  obtain ys zs where es: "es = ys @ e # zs" using e by (auto dest: split_list)
  have r: "remove1 e es = ys @ zs" using tbl_invD(5) [OF t(1)] unfolding es by (simp add: remove1_append)
  have key: "key_of hh st' = key_of hh st" if "infos st' = infos st" for st' using that by (simp add: key_of_def fun_eq_iff)
  show ?thesis
  proof (cases "ys @ zs = []")
    case True
    then have one: "es = [e]" using es by simp
    from item_hh [OF t(1) e] obtain h where h: "hhs st (e + hh) = Some h" "hh_tbl h = Some t" by metis
    have "app_nxs hh st e = Some (next_elt h)" "app_pvs hh st e = Some (prev h)" using h(1) by (simp_all add: app_nxs_def app_pvs_def)
    then have "prev h = None" "next_elt h = None" using tbl_invD(9) [OF t(1)] unfolding one by simp_all
    moreover have "head_of es = Some e" by (simp add: one)
    ultimately have "HASH_DELETE hh (head_of es) e st = Runs None (st\<lparr>tabs := free_at t (tabs st)\<rparr>)"
      by (simp only: HASH_DELETE_def step_simps at_simps h(1) tbl_invD(1) [OF t(1)] head_tbl_run [OF t(1) e] free_table_run simp_thms if_True)
    with key [of "st\<lparr>tabs := free_at t (tabs st)\<rparr>"] show ?thesis
      unfolding r True by (intro exI [of _ "st\<lparr>tabs := free_at t (tabs st)\<rparr>"]) (use i in \<open>simp add: ut_inv_def\<close>)
  next
    case False
    from HASH_DELETE_more [OF t(1) [unfolded es] False] obtain st' T' cs' where d:
      "HASH_DELETE hh (head_of es) e st = Runs (head_of (ys @ zs)) st'" "tbl_inv fcn hh st' t T' (ys @ zs) cs'"
      "length (buckets T') = length (buckets T)" "infos st' = infos st" "dom (hhs st') = dom (hhs st)" "can_alloc st' = can_alloc st"
      unfolding es by blast
    have "32 \<le> B" "length (buckets T') \<le> B" using i t(2) d(3) by (simp_all add: ut_inv_def)
    then have "ut_inv fcn hh B st' (ys @ zs)" unfolding ut_inv_def using d(2) by blast
    then show ?thesis unfolding r using d key by blast
  qed
qed

end
