(* ===== verification/UtMerge.thy ===== *)
theory UtMerge
  imports Prelude
begin

text \<open>
  Merging the runs of a list, as \<open>HASH_SRT\<close> does it: a comparison \<open>cmp\<close> like that of C, which agrees with a key,
  and runs of \<open>n\<close> elements that are sorted by the key.
\<close>

fun merge_by :: "('a \<Rightarrow> 'a \<Rightarrow> int) \<Rightarrow> 'a list \<Rightarrow> 'a list \<Rightarrow> 'a list" where
  "merge_by cmp [] ys = ys"
| "merge_by cmp (x # xs) [] = x # xs"
| "merge_by cmp (x # xs) (y # ys) =
     (if cmp x y \<le> 0 then x # merge_by cmp xs (y # ys) else y # merge_by cmp (x # xs) ys)"

lemma merge_by_Nil [simp]: "merge_by cmp xs [] = xs"
  by (cases xs) simp_all

lemma mset_merge_by [simp]: "mset (merge_by cmp xs ys) = mset xs + mset ys"
  by (induction cmp xs ys rule: merge_by.induct) simp_all

lemma set_merge_by [simp]: "set (merge_by cmp xs ys) = set xs \<union> set ys"
  by (induction cmp xs ys rule: merge_by.induct) auto

lemma length_merge_by [simp]: "length (merge_by cmp xs ys) = length xs + length ys"
  by (induction cmp xs ys rule: merge_by.induct) simp_all

text \<open>A comparison that agrees with a key.\<close>

definition compares :: "('a \<Rightarrow> 'a \<Rightarrow> int) \<Rightarrow> ('a \<Rightarrow> 'b :: linorder) \<Rightarrow> 'a set \<Rightarrow> bool" where
  "compares cmp f A \<longleftrightarrow> (\<forall>a \<in> A. \<forall>b \<in> A. cmp a b \<le> 0 \<longleftrightarrow> f a \<le> f b)"

lemma comparesD: "compares cmp f A \<Longrightarrow> a \<in> A \<Longrightarrow> b \<in> A \<Longrightarrow> cmp a b \<le> 0 \<longleftrightarrow> f a \<le> f b"
  by (simp add: compares_def)

lemma compares_subset: "compares cmp f A \<Longrightarrow> B \<subseteq> A \<Longrightarrow> compares cmp f B"
  by (auto simp: compares_def)

lemma sorted_merge_by:
  assumes "compares cmp f (set xs \<union> set ys)" and "sorted (map f xs)" and "sorted (map f ys)"
  shows "sorted (map f (merge_by cmp xs ys))"
  using assms
proof (induction cmp xs ys rule: merge_by.induct)
  case (3 cmp x xs y ys)
  have c: "cmp x y \<le> 0 \<longleftrightarrow> f x \<le> f y" using "3.prems"(1) by (rule comparesD) simp_all
  have s: "compares cmp f (set xs \<union> set (y # ys))" "compares cmp f (set (x # xs) \<union> set ys)"
    by (rule compares_subset [OF "3.prems"(1)], auto)+
  show ?case
  proof (cases "cmp x y \<le> 0")
    case True
    then show ?thesis using "3.IH"(1) "3.prems" c s by auto
  next
    case False
    then show ?thesis using "3.IH"(2) "3.prems" c s by auto
  qed
qed simp_all

lemma filter_merge_by:
  assumes "compares cmp f (set xs \<union> set ys)" and "sorted (map f xs)" and "sorted (map f ys)"
  shows "filter (\<lambda>x. f x = k) (merge_by cmp xs ys) = filter (\<lambda>x. f x = k) xs @ filter (\<lambda>x. f x = k) ys"
  using assms
proof (induction cmp xs ys rule: merge_by.induct)
  case (3 cmp x xs y ys)
  have c: "cmp x y \<le> 0 \<longleftrightarrow> f x \<le> f y" using "3.prems"(1) by (rule comparesD) simp_all
  have s: "compares cmp f (set xs \<union> set (y # ys))" "compares cmp f (set (x # xs) \<union> set ys)"
    by (rule compares_subset [OF "3.prems"(1)], auto)+
  show ?case
  proof (cases "cmp x y \<le> 0")
    case True
    then show ?thesis using "3.IH"(1) [OF True s(1)] "3.prems" by simp
  next
    case False
    have "filter (\<lambda>z. f z = f y) (x # xs) = []" using False c "3.prems"(2) by (auto simp: filter_empty_conv)
    then show ?thesis using False "3.IH"(2) [OF False s(2)] "3.prems" by (cases "f y = k") auto
  qed
qed simp_all

lemma merge_by_sort_key:
  assumes "compares cmp f (set xs \<union> set ys)"
  shows "merge_by cmp (sort_key f xs) (sort_key f ys) = sort_key f (xs @ ys)"
proof -
  have "filter (\<lambda>x. f k = f x) (merge_by cmp (sort_key f xs) (sort_key f ys)) = filter (\<lambda>x. f k = f x) (xs @ ys)" for k
    using filter_merge_by [of cmp f "sort_key f xs" "sort_key f ys" "f k"] assms
    by (simp add: eq_commute [of "f k"] sort_key_stable)
  with assms show ?thesis
    by (intro properties_for_sort_key [symmetric]) (simp_all add: sorted_merge_by)
qed

section \<open>Runs\<close>

fun runs_by :: "nat \<Rightarrow> ('a \<Rightarrow> 'b :: linorder) \<Rightarrow> 'a list \<Rightarrow> 'a list" where
  "runs_by n f xs = (if n = 0 \<or> xs = [] then xs else sort_key f (take n xs) @ runs_by n f (drop n xs))"

fun merge_runs :: "('a \<Rightarrow> 'a \<Rightarrow> int) \<Rightarrow> nat \<Rightarrow> 'a list \<Rightarrow> 'a list" where
  "merge_runs cmp n xs =
     (if n = 0 \<or> xs = [] then xs
      else merge_by cmp (take n xs) (take n (drop n xs)) @ merge_runs cmp n (drop n (drop n xs)))"

declare runs_by.simps [simp del] merge_runs.simps [simp del]

lemma runs_by_Nil [simp]: "runs_by n f [] = []" "merge_runs cmp n [] = []"
  by (simp_all add: runs_by.simps merge_runs.simps)

lemma mset_runs_by [simp]: "mset (runs_by n f xs) = mset xs"
proof (induction n f xs rule: runs_by.induct)
  case (1 n f xs)
  moreover have "mset (take n xs) + mset (drop n xs) = mset xs" by (metis append_take_drop_id mset_append)
  ultimately show ?case by (subst runs_by.simps) simp
qed

lemma set_runs_by [simp]: "set (runs_by n f xs) = set xs"
  using mset_runs_by by (metis set_mset_mset)

lemma length_runs_by [simp]: "length (runs_by n f xs) = length xs"
  using mset_runs_by by (metis size_mset)

lemma runs_by_one [simp]: "runs_by (Suc 0) f xs = xs"
proof (induction xs)
  case (Cons x xs)
  then show ?case by (subst runs_by.simps) simp
qed simp

lemma runs_by_all:
  assumes "length xs \<le> n" and "n \<noteq> 0"
  shows "runs_by n f xs = sort_key f xs"
  using assms by (subst runs_by.simps) simp

lemma runs_by_split:
  assumes "n \<noteq> 0"
  shows "take n (runs_by n f xs) = sort_key f (take n xs)" "drop n (runs_by n f xs) = runs_by n f (drop n xs)"
proof -
  have e: "runs_by n f xs = sort_key f (take n xs) @ runs_by n f (drop n xs)" using assms by (subst runs_by.simps) simp
  show "take n (runs_by n f xs) = sort_key f (take n xs)" "drop n (runs_by n f xs) = runs_by n f (drop n xs)"
    unfolding e by (cases "n \<le> length xs"; simp)+
qed

text \<open>A pass makes the runs twice as long.\<close>

lemma merge_runs_by:
  assumes "compares cmp f (set xs)" and "n \<noteq> 0"
  shows "merge_runs cmp n (runs_by n f xs) = runs_by (2 * n) f xs"
  using assms
proof (induction "length xs" arbitrary: xs rule: less_induct)
  case less
  show ?case
  proof (cases "xs = []")
    case False
    let ?zs = "drop n (drop n xs)"
    have sub: "set (take n xs) \<subseteq> set xs" "set (take n (drop n xs)) \<subseteq> set xs" "set ?zs \<subseteq> set xs"
      by (meson set_take_subset set_drop_subset order_trans)+
    have len: "length ?zs < length xs" using False less.prems(2) by auto
    have ne: "runs_by n f xs \<noteq> []" using False by (metis length_runs_by length_0_conv)
    have "merge_runs cmp n (runs_by n f xs) =
        merge_by cmp (sort_key f (take n xs)) (sort_key f (take n (drop n xs))) @ merge_runs cmp n (runs_by n f ?zs)"
      using ne less.prems(2) by (subst merge_runs.simps) (simp add: runs_by_split)
    also have "\<dots> = sort_key f (take n xs @ take n (drop n xs)) @ runs_by (2 * n) f ?zs"
      using less.hyps [OF len] less.prems merge_by_sort_key [of cmp f "take n xs" "take n (drop n xs)"]
        compares_subset [OF less.prems(1)] sub by simp
    also have "\<dots> = runs_by (2 * n) f xs"
      using False less.prems(2) by (subst (2) runs_by.simps) (simp add: take_add [symmetric] mult_2 add.commute)
    finally show ?thesis .
  qed simp
qed

end
