(* ===== verification/UtSort.thy ===== *)
theory UtSort
  imports UtDelete UtMerge
begin

unbundle bit_operations_syntax

text \<open>
  \<open>HASH_SRT\<close> sorts the list of elements with a merge sort from the bottom: every pass merges neighbouring runs of
  \<open>insize\<close> elements in place. The comparison of the client is a parameter.
\<close>

section \<open>The macro\<close>

definition next_hh :: "UT_hash_table \<Rightarrow> addr \<Rightarrow> ptr ut" where
  "next_hh T a = bnd (hh_at a) (\<lambda>h. ret (map_option (\<lambda>e. e + hho T) (next_elt h)))"

text \<open>The loop that finds the end of the first run; \<open>n\<close> rounds are left.\<close>

primrec srt_skip :: "UT_hash_table \<Rightarrow> nat \<Rightarrow> ptr \<Rightarrow> 32 word \<Rightarrow> (ptr \<times> 32 word) ut" where
  "srt_skip T 0 q psize = ret (q, psize)"
| "srt_skip T (Suc n) q psize =
     bnd (defined_ptr q) (\<lambda>a.
     bnd (next_hh T a) (\<lambda>q.
     if q = None then ret (q, psize + 1) else srt_skip T n q (psize + 1)))"

text \<open>The next element \<open>e\<close> of the merge, with the state \<open>(p, q, psize, qsize)\<close> behind it.\<close>

definition srt_take :: "UT_hash_table \<Rightarrow> (addr \<Rightarrow> addr \<Rightarrow> int) \<Rightarrow> ptr \<Rightarrow> ptr \<Rightarrow> 32 word \<Rightarrow> 32 word \<Rightarrow>
    (ptr \<times> ptr \<times> ptr \<times> 32 word \<times> 32 word) ut" where
  "srt_take T cmp p q psize qsize =
     (let from_q = bnd (defined_ptr q) (\<lambda>b. bnd (next_hh T b) (\<lambda>q'. ret (q, p, q', psize, qsize - 1)));
          from_p = bnd (case p of None \<Rightarrow> ret None | Some a \<Rightarrow> next_hh T a) (\<lambda>p'. ret (p, p', q, psize - 1, qsize))
      in if psize = 0 then from_q
         else if qsize = 0 \<or> q = None then from_p
         else bnd (defined_ptr p) (\<lambda>a. bnd (defined_ptr q) (\<lambda>b.
              if cmp (ELMT_FROM_HH T a) (ELMT_FROM_HH T b) \<le> 0 then from_p else from_q)))"

text \<open>The element goes behind the last one; the result is the new list and its last element.\<close>

definition srt_link :: "UT_hash_table \<Rightarrow> ptr \<Rightarrow> ptr \<Rightarrow> ptr \<Rightarrow> (ptr \<times> ptr) ut" where
  "srt_link T e lst tail =
     seq (set_hh_if tail (\<lambda>h. h\<lparr>next_elt := map_option (ELMT_FROM_HH T) e\<rparr>))
    (seq (set_hh_if e (\<lambda>h. h\<lparr>prev := map_option (ELMT_FROM_HH T) tail\<rparr>))
    (ret (if tail = None then e else lst, e)))"

definition srt_step :: "UT_hash_table \<Rightarrow> (addr \<Rightarrow> addr \<Rightarrow> int) \<Rightarrow> ptr \<Rightarrow> ptr \<Rightarrow> 32 word \<Rightarrow> 32 word \<Rightarrow> ptr \<Rightarrow> ptr \<Rightarrow>
    (ptr \<times> ptr \<times> 32 word \<times> 32 word \<times> ptr \<times> ptr) ut" where
  "srt_step T cmp p q psize qsize lst tail =
     bnd (srt_take T cmp p q psize qsize) (\<lambda>(e, p, q, psize, qsize).
     bnd (srt_link T e lst tail) (\<lambda>(lst, tail).
     ret (p, q, psize, qsize, lst, tail)))"

text \<open>The merge of two runs, from the test of the loop on.\<close>

partial_function (option) srt_merge :: "UT_hash_table \<Rightarrow> (addr \<Rightarrow> addr \<Rightarrow> int) \<Rightarrow> ptr \<Rightarrow> ptr \<Rightarrow> 32 word \<Rightarrow> 32 word \<Rightarrow> ptr \<Rightarrow> ptr \<Rightarrow>
    ut_heap \<Rightarrow> (ptr \<times> ptr \<times> ptr) ut_result option" where
  "srt_merge T cmp p q psize qsize lst tail st =
     (if psize > 0 \<or> (qsize > 0 \<and> q \<noteq> None) then
        (case srt_step T cmp p q psize qsize lst tail st of
           Runs r st \<Rightarrow> (case r of (p, q, psize, qsize, lst, tail) \<Rightarrow> srt_merge T cmp p q psize qsize lst tail st)
         | Refused n \<Rightarrow> Some (Refused n)
         | Oops \<Rightarrow> Some Oops
         | Undefined \<Rightarrow> Some Undefined)
      else Some (Runs (q, lst, tail) st))"

declare srt_merge.simps [code]

text \<open>Two runs: the end of the first, then the merge.\<close>

definition srt_runs :: "UT_hash_table \<Rightarrow> (addr \<Rightarrow> addr \<Rightarrow> int) \<Rightarrow> 32 word \<Rightarrow> ptr \<Rightarrow> ptr \<Rightarrow> ptr \<Rightarrow> (ptr \<times> ptr \<times> ptr) ut" where
  "srt_runs T cmp insize p lst tail =
     bnd (srt_skip T (unat insize) p 0) (\<lambda>(q, psize). loop_of (srt_merge T cmp p q psize insize lst tail))"

partial_function (option) srt_pass :: "UT_hash_table \<Rightarrow> (addr \<Rightarrow> addr \<Rightarrow> int) \<Rightarrow> 32 word \<Rightarrow> ptr \<Rightarrow> ptr \<Rightarrow> ptr \<Rightarrow> 32 word \<Rightarrow>
    ut_heap \<Rightarrow> (ptr \<times> ptr \<times> 32 word) ut_result option" where
  "srt_pass T cmp insize p lst tail nmerges st =
     (case p of
        None \<Rightarrow> Some (Runs (lst, tail, nmerges) st)
      | Some _ \<Rightarrow>
          (case srt_runs T cmp insize p lst tail st of
             Runs r st \<Rightarrow> (case r of (q, lst, tail) \<Rightarrow> srt_pass T cmp insize q lst tail (nmerges + 1) st)
           | Refused n \<Rightarrow> Some (Refused n)
           | Oops \<Rightarrow> Some Oops
           | Undefined \<Rightarrow> Some Undefined))"

declare srt_pass.simps [code]

text \<open>A pass over the list \<open>lst\<close>, which ends it with \<open>NULL\<close>.\<close>

definition srt_round :: "UT_hash_table \<Rightarrow> (addr \<Rightarrow> addr \<Rightarrow> int) \<Rightarrow> 32 word \<Rightarrow> ptr \<Rightarrow> (ptr \<times> ptr \<times> 32 word) ut" where
  "srt_round T cmp insize lst =
     bnd (loop_of (srt_pass T cmp insize lst None None 0)) (\<lambda>(lst, tail, nmerges).
     seq (set_hh_if tail (\<lambda>h. h\<lparr>next_elt := None\<rparr>))
    (ret (lst, tail, nmerges)))"

partial_function (option) srt_loop :: "addr \<Rightarrow> UT_hash_table \<Rightarrow> (addr \<Rightarrow> addr \<Rightarrow> int) \<Rightarrow> 32 word \<Rightarrow> ptr \<Rightarrow> ut_heap \<Rightarrow> ptr ut_result option" where
  "srt_loop t T cmp insize lst st =
     (case srt_round T cmp insize lst st of
        Runs r st \<Rightarrow>
          (case r of (lst, tail, nmerges) \<Rightarrow>
             if nmerges \<le> 1 then
               Some (seq (set_tbl t (\<lambda>T. T\<lparr>tail_hh := tail\<rparr>)) (bnd (defined_ptr lst) (\<lambda>a. ret (Some (ELMT_FROM_HH T a)))) st)
             else srt_loop t T cmp (insize * 2) lst st)
      | Refused n \<Rightarrow> Some (Refused n)
      | Oops \<Rightarrow> Some Oops
      | Undefined \<Rightarrow> Some Undefined)"

declare srt_loop.simps [code]

text \<open>The result is the new head.\<close>

definition HASH_SRT :: "nat \<Rightarrow> ptr \<Rightarrow> (addr \<Rightarrow> addr \<Rightarrow> int) \<Rightarrow> ptr ut" where
  "HASH_SRT hh head cmp =
     (case head of
        None \<Rightarrow> ret None
      | Some e \<Rightarrow>
          bnd (head_tbl hh e) (\<lambda>t.
          bnd (tbl_at t) (\<lambda>T.
          loop_of (srt_loop t T cmp 1 (Some (e + hh))))))"


section \<open>Chains\<close>

text \<open>The links run from \<open>p\<close> through \<open>xs\<close> to \<open>r\<close>.\<close>

fun cseg :: "link \<Rightarrow> ptr \<Rightarrow> addr list \<Rightarrow> ptr \<Rightarrow> bool" where
  "cseg nx p [] r \<longleftrightarrow> p = r"
| "cseg nx p (a # as) r \<longleftrightarrow> p = Some a \<and> (\<exists>p'. nx a = Some p' \<and> cseg nx p' as r)"

lemma cseg_head: "cseg nx p xs None \<Longrightarrow> p = head_of xs"
  by (cases xs) simp_all

lemma cseg_append: "cseg nx p (xs @ ys) r \<longleftrightarrow> (\<exists>q. cseg nx p xs q \<and> cseg nx q ys r)"
  by (induction xs arbitrary: p) auto

lemma cseg_cong: "(\<And>a. a \<in> set xs \<Longrightarrow> nx' a = nx a) \<Longrightarrow> cseg nx' p xs r = cseg nx p xs r"
  by (induction xs arbitrary: p) auto

lemma dseg_cseg: "dseg nx pv q p xs l r \<Longrightarrow> cseg nx p xs r"
  by (induction xs arbitrary: q p) auto

abbreviation hp :: "nat \<Rightarrow> ptr \<Rightarrow> ptr" where "hp hh p \<equiv> map_option (\<lambda>e. e + hh) p"

lemma next_hh_run:
  assumes "app_nxs hh st a = Some q" and "hho T = hh"
  shows "next_hh T (a + hh) st = Runs (hp hh q) st"
  using assms by (auto simp: next_hh_def app_nxs_def)

lemma srt_skip_run:
  assumes "cseg (app_nxs hh st) p xs None" and "xs \<noteq> []" and "hho T = hh"
  shows "srt_skip T n (hp hh p) psize st = Runs (hp hh (head_of (drop n xs)), psize + of_nat (min n (length xs))) st"
  using assms(1,2)
proof (induction n arbitrary: p xs psize)
  case 0
  then show ?case using cseg_head by simp
next
  case (Suc n)
  then obtain a as where xs: "xs = a # as" by (cases xs) simp_all
  then obtain p' where p': "p = Some a" "app_nxs hh st a = Some p'" "cseg (app_nxs hh st) p' as None" using Suc.prems(1) by auto
  note n = next_hh_run [OF p'(2) assms(3)]
  show ?case
  proof (cases as)
    case Nil
    then show ?thesis using n p' xs by simp
  next
    case (Cons b bs)
    then have "p' = Some b" "as \<noteq> []" using p'(3) by auto
    then show ?thesis using Suc.IH [OF p'(3), of "psize + 1"] n p'(1) xs by (simp add: add.assoc)
  qed
qed

section \<open>A step of a merge\<close>

text \<open>What is left of two runs, with \<open>rest\<close> behind the second one.\<close>

definition runs_at :: "nat \<Rightarrow> ut_heap \<Rightarrow> addr list \<Rightarrow> addr list \<Rightarrow> addr list \<Rightarrow> ptr \<Rightarrow> ptr \<Rightarrow> 32 word \<Rightarrow> 32 word \<Rightarrow> bool" where
  "runs_at hh st ps qs rest p q psize qsize \<longleftrightarrow>
     (\<exists>r. cseg (app_nxs hh st) p ps r) \<and> cseg (app_nxs hh st) q (qs @ rest) None \<and>
     unat psize = length ps \<and> length qs \<le> unat qsize \<and> (unat qsize = length qs \<or> rest = [])"

lemma runs_at_cong:
  assumes "\<And>x. x \<in> set (ps @ qs @ rest) \<Longrightarrow> app_nxs hh st' x = app_nxs hh st x"
  shows "runs_at hh st' ps qs rest p q psize qsize = runs_at hh st ps qs rest p q psize qsize"
proof -
  have "cseg (app_nxs hh st') p ps = cseg (app_nxs hh st) p ps" "cseg (app_nxs hh st') q (qs @ rest) = cseg (app_nxs hh st) q (qs @ rest)"
    by (rule ext, rule cseg_cong, use assms in simp)+
  then show ?thesis by (simp add: runs_at_def)
qed

lemma unat_pred: "unat (w :: 32 word) = Suc n \<Longrightarrow> unat (w - 1) = n"
  by (subst unat_minus_one) auto

lemma srt_take_run:
  assumes r: "runs_at hh st ps qs rest p q psize qsize" and ne: "ps \<noteq> [] \<or> qs \<noteq> []" and T: "hho T = hh"
  shows "\<exists>a ps' qs' p' q' psize' qsize'. srt_take T cmp (hp hh p) (hp hh q) psize qsize st = Runs (Some (a + hh), hp hh p', hp hh q', psize', qsize') st \<and>
    merge_by cmp ps qs = a # merge_by cmp ps' qs' \<and> (ps = a # ps' \<and> qs' = qs \<or> ps' = ps \<and> qs = a # qs') \<and>
    runs_at hh st ps' qs' rest p' q' psize' qsize'"
proof -
  have from_p: ?thesis if ps: "ps = a # ps'" and m: "merge_by cmp ps qs = a # merge_by cmp ps' qs"
    and s: "srt_take T cmp (hp hh p) (hp hh q) psize qsize st =
      bnd (case hp hh p of None \<Rightarrow> ret None | Some a \<Rightarrow> next_hh T a) (\<lambda>p'. ret (hp hh p, p', hp hh q, psize - 1, qsize)) st" for a ps'
  proof -
    from r ps obtain p' where p': "p = Some a" "app_nxs hh st a = Some p'" "\<exists>r. cseg (app_nxs hh st) p' ps' r" by (auto simp: runs_at_def)
    have "runs_at hh st ps' qs rest p' q (psize - 1) qsize" using r ps p'(3) unat_pred by (simp add: runs_at_def)
    moreover have "srt_take T cmp (hp hh p) (hp hh q) psize qsize st = Runs (Some (a + hh), hp hh p', hp hh q, psize - 1, qsize) st"
      unfolding s using p'(1) next_hh_run [OF p'(2) T] by simp
    ultimately show ?thesis using ps m by blast
  qed
  have from_q: ?thesis if qs: "qs = b # qs'" and m: "merge_by cmp ps qs = b # merge_by cmp ps qs'"
    and s: "srt_take T cmp (hp hh p) (hp hh q) psize qsize st =
      bnd (defined_ptr (hp hh q)) (\<lambda>b. bnd (next_hh T b) (\<lambda>q'. ret (hp hh q, hp hh p, q', psize, qsize - 1))) st" for b qs'
  proof -
    from r qs obtain q' where q': "q = Some b" "app_nxs hh st b = Some q'" "cseg (app_nxs hh st) q' (qs' @ rest) None" by (auto simp: runs_at_def)
    from r qs obtain n where "unat qsize = Suc n" by (cases "unat qsize") (auto simp: runs_at_def)
    then have "runs_at hh st ps qs' rest p q' psize (qsize - 1)" using r qs q'(3) unat_pred [of qsize n] by (auto simp: runs_at_def)
    moreover have "srt_take T cmp (hp hh p) (hp hh q) psize qsize st = Runs (Some (b + hh), hp hh p, hp hh q', psize, qsize - 1) st"
      unfolding s using q'(1) next_hh_run [OF q'(2) T] by simp
    ultimately show ?thesis using qs m by blast
  qed
  have size: "psize = 0 \<longleftrightarrow> ps = []" "qsize = 0 \<or> hp hh q = None \<longleftrightarrow> qs = []"
    using r by (auto simp: runs_at_def unat_eq_0 dest!: cseg_head) (cases qs; auto)+
  show ?thesis
  proof (cases ps)
    case Nil
    then show ?thesis using ne size from_q by (cases qs) (simp_all add: srt_take_def)
  next
    case (Cons a ps')
    show ?thesis
    proof (cases qs)
      case Nil
      then show ?thesis using Cons size from_p by (simp add: srt_take_def)
    next
      case (Cons b qs')
      have pq: "p = Some a" "q = Some b" using r \<open>ps = a # ps'\<close> Cons by (auto simp: runs_at_def)
      show ?thesis
      proof (cases "cmp a b \<le> 0")
        case True
        show ?thesis by (rule from_p [OF \<open>ps = a # ps'\<close>]) (use True \<open>ps = a # ps'\<close> Cons size pq T in \<open>simp_all add: srt_take_def ELMT_FROM_HH_def\<close>)
      next
        case False
        show ?thesis by (rule from_q [OF Cons]) (use False \<open>ps = a # ps'\<close> Cons size pq T in \<open>simp_all add: srt_take_def ELMT_FROM_HH_def\<close>)
      qed
    qed
  qed
qed


section \<open>A merge\<close>

text \<open>What stays when only the links of the elements change, and those only in \<open>A\<close>.\<close>

definition relinked :: "nat \<Rightarrow> addr set \<Rightarrow> ut_heap \<Rightarrow> ut_heap \<Rightarrow> bool" where
  "relinked hh A st st' \<longleftrightarrow>
     nxs st' = nxs st \<and> pvs st' = pvs st \<and> infos st' = infos st \<and> dom (hhs st') = dom (hhs st) \<and> tabs st' = tabs st \<and>
     ut_brk st' = ut_brk st \<and> can_alloc st' = can_alloc st \<and> (\<forall>x. x \<notin> A \<longrightarrow> app_nxs hh st' x = app_nxs hh st x)"

lemma relinked_refl [simp]: "relinked hh A st st"
  by (simp add: relinked_def)

lemma relinked_trans: "relinked hh A st st1 \<Longrightarrow> relinked hh B st1 st2 \<Longrightarrow> A \<subseteq> C \<Longrightarrow> B \<subseteq> C \<Longrightarrow> relinked hh C st st2"
  by (simp add: relinked_def) (metis subsetD)

lemma relinked_mono: "relinked hh A st st' \<Longrightarrow> A \<subseteq> B \<Longrightarrow> relinked hh B st st'"
  by (auto simp: relinked_def)

text \<open>The elements that are sorted so far: the last one has the link of before.\<close>

definition out_at :: "nat \<Rightarrow> ut_heap \<Rightarrow> addr list \<Rightarrow> ptr \<Rightarrow> ptr \<Rightarrow> bool" where
  "out_at hh st out l m \<longleftrightarrow> distinct out \<and> l = head_of out \<and> (\<exists>r. dseg (app_nxs hh st) (app_pvs hh st) None (if out = [] then r else l) out m r)"

lemma dseg_push_back:
  assumes d: "dseg nx pv None (if out = [] then r else head_of out) out m r" and dist: "distinct out" "a \<notin> set out" and q: "nx a = Some q"
  shows "dseg (relink m (Some a) nx) (pv(a \<mapsto> m)) None (head_of (out @ [a])) (out @ [a]) (Some a) q"
proof (cases "out = []")
  case True
  then show ?thesis using d q by simp
next
  case False
  have m: "m = Some (last out)" using d False by (cases out rule: rev_cases) (auto simp: dseg_snoc)
  have "dseg (relink m (Some a) nx) pv None (head_of out) out m (Some a)" using dseg_end [OF d dist(1), of "Some a"] False by simp
  moreover have "relink m (Some a) nx a = Some q" using q dist(2) False by (auto simp: m)
  ultimately show ?thesis using dist(2) False by (simp add: dseg_snoc)
qed

lemma srt_link_run:
  assumes o: "out_at hh st out l m" and a: "a \<notin> set out" "live (Some (a + hh)) st" and T: "hho T = hh"
  shows "\<exists>st'. srt_link T (Some (a + hh)) (hp hh l) (hp hh m) st = Runs (hp hh (head_of (out @ [a])), Some (a + hh)) st' \<and>
    out_at hh st' (out @ [a]) (head_of (out @ [a])) (Some a) \<and> relinked hh (set out) st st'"
proof -
  from o obtain r where d: "dseg (app_nxs hh st) (app_pvs hh st) None (if out = [] then r else l) out m r" and dist: "distinct out"
    and l: "l = head_of out" by (auto simp: out_at_def)
  have m: "m = (if out = [] then None else Some (last out))" using d by (cases out rule: rev_cases) (auto simp: dseg_snoc)
  have lm: "live (hp hh m) st" using dseg_live [OF d, of "last out"] by (auto simp: m live_def app_nxs_def)
  let ?st = "upd (Some (a + hh)) (\<lambda>h. h\<lparr>prev := m\<rparr>) (upd (hp hh m) (\<lambda>h. h\<lparr>next_elt := Some a\<rparr>) st)"
  have nx: "app_nxs hh ?st = relink m (Some a) (app_nxs hh st)" using lm
    by (simp add: upd_other upd_app_link [where v = "Some a"])
  have pv: "app_pvs hh ?st = (app_pvs hh st)(a \<mapsto> m)" using a(2) by (simp add: upd_other upd_app_elt [where v = m])
  have "hp hh m = None \<longleftrightarrow> out = []" by (simp add: m)
  moreover have "map_option (ELMT_FROM_HH T) (hp hh m) = m" by (cases m) (simp_all add: ELMT_FROM_HH_def T)
  ultimately have run: "srt_link T (Some (a + hh)) (hp hh l) (hp hh m) st = Runs (hp hh (head_of (out @ [a])), Some (a + hh)) ?st"
    using lm a(2) l by (simp add: srt_link_def ELMT_FROM_HH_def T)
  obtain q where q: "app_nxs hh st a = Some q" using a(2) by (auto simp: live_def app_nxs_def)
  have "dseg (app_nxs hh ?st) (app_pvs hh ?st) None (head_of (out @ [a])) (out @ [a]) (Some a) q"
    unfolding nx pv by (rule dseg_push_back [OF d [unfolded l] dist a(1) q])
  then have "out_at hh ?st (out @ [a]) (head_of (out @ [a])) (Some a)" using dist a(1) by (auto simp: out_at_def)
  moreover have "relinked hh (set out) st ?st"
    unfolding relinked_def nx by (simp add: upd_other m)
  ultimately show ?thesis using run by blast
qed


lemma srt_merge_run:
  assumes "out_at hh st out l m" and "runs_at hh st ps qs rest p q psize qsize" and "distinct (out @ ps @ qs @ rest)"
    and "\<forall>a \<in> set (ps @ qs). live (Some (a + hh)) st" and T: "hho T = hh"
  shows "\<exists>st' l' m'. srt_merge T cmp (hp hh p) (hp hh q) psize qsize (hp hh l) (hp hh m) st =
      Some (Runs (hp hh (head_of rest), hp hh l', hp hh m') st') \<and>
    out_at hh st' (out @ merge_by cmp ps qs) l' m' \<and> cseg (app_nxs hh st') (head_of rest) rest None \<and>
    relinked hh (set (out @ ps @ qs)) st st'"
  using assms(1-4)
proof (induction "length ps + length qs" arbitrary: st out l m ps qs p q psize qsize rule: less_induct)
  case less
  note r = less.prems(2)
  have size: "psize = 0 \<longleftrightarrow> ps = []" "qsize = 0 \<or> hp hh q = None \<longleftrightarrow> qs = []"
    using r by (auto simp: runs_at_def unat_eq_0 dest!: cseg_head) (cases qs; auto)+
  show ?case
  proof (cases "ps = [] \<and> qs = []")
    case True
    then have q: "cseg (app_nxs hh st) q rest None" using r by (simp add: runs_at_def)
    then have "q = head_of rest" by (rule cseg_head)
    then have "srt_merge T cmp (hp hh p) (hp hh q) psize qsize (hp hh l) (hp hh m) st = Some (Runs (hp hh (head_of rest), hp hh l, hp hh m) st)"
      using True size by (subst srt_merge.simps) auto
    then show ?thesis using True less.prems(1) q \<open>q = head_of rest\<close> by fastforce
  next
    case False
    then have "ps \<noteq> [] \<or> qs \<noteq> []" by blast
    from srt_take_run [OF r this T, of cmp] obtain a ps' qs' p' q' psize' qsize' where t:
      "srt_take T cmp (hp hh p) (hp hh q) psize qsize st = Runs (Some (a + hh), hp hh p', hp hh q', psize', qsize') st"
      "merge_by cmp ps qs = a # merge_by cmp ps' qs'" "ps = a # ps' \<and> qs' = qs \<or> ps' = ps \<and> qs = a # qs'"
      "runs_at hh st ps' qs' rest p' q' psize' qsize'" by blast
    have a: "a \<notin> set out" "live (Some (a + hh)) st" using t(3) less.prems(3,4) by auto
    from srt_link_run [OF less.prems(1) a T] obtain st1 where l:
      "srt_link T (Some (a + hh)) (hp hh l) (hp hh m) st = Runs (hp hh (head_of (out @ [a])), Some (a + hh)) st1"
      "out_at hh st1 (out @ [a]) (head_of (out @ [a])) (Some a)" "relinked hh (set out) st st1" by blast
    have step: "srt_step T cmp (hp hh p) (hp hh q) psize qsize (hp hh l) (hp hh m) st =
        Runs (hp hh p', hp hh q', psize', qsize', hp hh (head_of (out @ [a])), hp hh (Some a)) st1"
      using t(1) l(1) by (simp add: srt_step_def)
    have same: "app_nxs hh st1 x = app_nxs hh st x" if "x \<in> set (ps' @ qs' @ rest)" for x
    proof -
      have "x \<notin> set out" using that t(3) less.prems(3) by auto
      then show ?thesis using l(3) by (simp add: relinked_def)
    qed
    have "runs_at hh st1 ps' qs' rest p' q' psize' qsize'" using t(4) runs_at_cong [OF same] by simp
    moreover have "\<forall>a \<in> set (ps' @ qs'). live (Some (a + hh)) st1"
      using t(3) less.prems(4) l(3) by (auto simp: relinked_def live_def dom_def)
    moreover have "distinct ((out @ [a]) @ ps' @ qs' @ rest)" "length ps' + length qs' < length ps + length qs"
      using t(3) less.prems(3) by auto
    ultimately obtain st' l' m' where ih:
      "srt_merge T cmp (hp hh p') (hp hh q') psize' qsize' (hp hh (head_of (out @ [a]))) (hp hh (Some a)) st1 =
        Some (Runs (hp hh (head_of rest), hp hh l', hp hh m') st')"
      "out_at hh st' ((out @ [a]) @ merge_by cmp ps' qs') l' m'" "cseg (app_nxs hh st') (head_of rest) rest None"
      "relinked hh (set ((out @ [a]) @ ps' @ qs')) st1 st'"
      using less.hyps l(2) by blast
    have "relinked hh (set (out @ ps @ qs)) st st'"
      by (rule relinked_trans [OF l(3) ih(4)]) (use t(3) in auto)
    moreover have "psize > 0 \<or> (qsize > 0 \<and> hp hh q \<noteq> None)" using False size by (auto simp: word_gt_0)
    ultimately show ?thesis using step ih(1-3) t(2) by (subst srt_merge.simps) auto
  qed
qed


section \<open>A pass\<close>

lemma relinked_live: "relinked hh A st st' \<Longrightarrow> live p st' = live p st"
  by (auto simp: relinked_def live_def dom_def)

lemma srt_runs_run:
  assumes o: "out_at hh st out l m" and c: "cseg (app_nxs hh st) p xs None" and ne: "xs \<noteq> []" and n: "n = unat insize"
    and dist: "distinct (out @ xs)" and len: "length xs < 2 ^ 32" and live: "\<forall>a \<in> set xs. live (Some (a + hh)) st" and T: "hho T = hh"
  shows "\<exists>st' l' m'. srt_runs T cmp insize (hp hh p) (hp hh l) (hp hh m) st = Runs (hp hh (head_of (drop n (drop n xs))), hp hh l', hp hh m') st' \<and>
    out_at hh st' (out @ merge_by cmp (take n xs) (take n (drop n xs))) l' m' \<and>
    cseg (app_nxs hh st') (head_of (drop n (drop n xs))) (drop n (drop n xs)) None \<and> relinked hh (set (out @ xs)) st st'"
proof -
  let ?ps = "take n xs" and ?qs = "take n (drop n xs)" and ?rest = "drop n (drop n xs)"
  let ?psize = "of_nat (min n (length xs)) :: 32 word"
  have xs: "xs = ?ps @ ?qs @ ?rest" by (simp only: append_take_drop_id)
  have "min n (length xs) < 2 ^ 32" using len by simp
  then have u: "unat ?psize = length ?ps" by (subst unat_of_nat) (simp add: take_bit_nat_eq_self min.commute)
  from c xs obtain r where r: "cseg (app_nxs hh st) p ?ps r" "cseg (app_nxs hh st) r (?qs @ ?rest) None" by (metis cseg_append)
  have "r = head_of (drop n xs)" using cseg_head [OF r(2)] by (simp only: append_take_drop_id)
  then have ra: "runs_at hh st ?ps ?qs ?rest p (head_of (drop n xs)) ?psize insize"
    using r u n by (auto simp: runs_at_def)
  have "distinct (out @ ?ps @ ?qs @ ?rest)" using dist by (simp only: append_take_drop_id)
  moreover have "\<forall>a \<in> set (?ps @ ?qs). live (Some (a + hh)) st" using live by (auto dest: in_set_takeD in_set_dropD)
  ultimately obtain st' l' m' where m:
    "srt_merge T cmp (hp hh p) (hp hh (head_of (drop n xs))) ?psize insize (hp hh l) (hp hh m) st = Some (Runs (hp hh (head_of ?rest), hp hh l', hp hh m') st')"
    "out_at hh st' (out @ merge_by cmp ?ps ?qs) l' m'" "cseg (app_nxs hh st') (head_of ?rest) ?rest None" "relinked hh (set (out @ ?ps @ ?qs)) st st'"
    using srt_merge_run [OF o ra _ _ T, of cmp] by blast
  have "srt_runs T cmp insize (hp hh p) (hp hh l) (hp hh m) st = Runs (hp hh (head_of ?rest), hp hh l', hp hh m') st'"
    using srt_skip_run [OF c ne T, of n 0] m(1) n by (simp add: srt_runs_def loop_of_def)
  moreover have "relinked hh (set (out @ xs)) st st'"
    by (rule relinked_mono [OF m(4)]) (auto dest: in_set_takeD in_set_dropD)
  ultimately show ?thesis using m(2,3) by blast
qed

lemma srt_pass_run:
  assumes "out_at hh st out l m" and "cseg (app_nxs hh st) p xs None" and "distinct (out @ xs)" and "length xs < 2 ^ 32"
    and "\<forall>a \<in> set xs. live (Some (a + hh)) st" and n: "n = unat insize" "n \<noteq> 0" and T: "hho T = hh"
  shows "\<exists>st' l' m' k. srt_pass T cmp insize (hp hh p) (hp hh l) (hp hh m) c st = Some (Runs (hp hh l', hp hh m', c + of_nat k) st') \<and>
    k \<le> length xs \<and> (k = 0 \<longleftrightarrow> xs = []) \<and> (k \<le> 1 \<longleftrightarrow> length xs \<le> 2 * n) \<and>
    out_at hh st' (out @ merge_runs cmp n xs) l' m' \<and> relinked hh (set (out @ xs)) st st'"
  using assms(1-5)
proof (induction "length xs" arbitrary: st out l m p xs c rule: less_induct)
  case less
  show ?case
  proof (cases "xs = []")
    case True
    then have "p = None" using less.prems(2) by simp
    then have "srt_pass T cmp insize (hp hh p) (hp hh l) (hp hh m) c st = Some (Runs (hp hh l, hp hh m, c + of_nat 0) st)"
      by (subst srt_pass.simps) simp
    then show ?thesis using True less.prems(1) by fastforce
  next
    case False
    let ?rest = "drop n (drop n xs)" and ?out = "out @ merge_by cmp (take n xs) (take n (drop n xs))"
    from srt_runs_run [OF less.prems(1,2) False n(1) less.prems(3-5) T, of cmp] obtain st1 l1 m1 where r:
      "srt_runs T cmp insize (hp hh p) (hp hh l) (hp hh m) st = Runs (hp hh (head_of ?rest), hp hh l1, hp hh m1) st1"
      "out_at hh st1 ?out l1 m1" "cseg (app_nxs hh st1) (head_of ?rest) ?rest None" "relinked hh (set (out @ xs)) st st1" by blast
    have len: "length ?rest < length xs" "length ?rest < 2 ^ 32" using False n(2) less.prems(4) by auto
    have parts: "mset (take n xs @ take n (drop n xs) @ ?rest) = mset xs" by (simp only: append_take_drop_id)
    have "mset (?out @ ?rest) = mset (out @ xs)" by (simp add: parts [symmetric])
    then have d: "distinct (?out @ ?rest)" "set (?out @ ?rest) = set (out @ xs)"
      using less.prems(3) by (metis mset_eq_imp_distinct_iff, metis mset_eq_setD)
    have lv: "\<forall>a \<in> set ?rest. live (Some (a + hh)) st1"
      using less.prems(5) relinked_live [OF r(4)] by (auto dest: in_set_dropD)
    from less.hyps [OF len(1) r(2,3) d(1) len(2) lv, of "c + 1"] obtain st' l' m' k where k:
      "srt_pass T cmp insize (hp hh (head_of ?rest)) (hp hh l1) (hp hh m1) (c + 1) st1 = Some (Runs (hp hh l', hp hh m', c + 1 + of_nat k) st')"
      "k \<le> length ?rest" "k = 0 \<longleftrightarrow> ?rest = []" "out_at hh st' (?out @ merge_runs cmp n ?rest) l' m'" "relinked hh (set (?out @ ?rest)) st1 st'" by blast
    obtain a where p: "p = Some a" using False less.prems(2) by (cases xs) auto
    have "srt_pass T cmp insize (hp hh p) (hp hh l) (hp hh m) c st = Some (Runs (hp hh l', hp hh m', c + of_nat (Suc k)) st')"
      using p r(1) k(1) by (subst srt_pass.simps) (simp add: add.commute add.left_commute)
    moreover have "Suc k \<le> length xs" "Suc k \<le> 1 \<longleftrightarrow> length xs \<le> 2 * n" using k(2,3) len(1) by auto
    moreover have "out_at hh st' (out @ merge_runs cmp n xs) l' m'"
      using k(4) False n(2) by (subst merge_runs.simps) simp
    moreover have "relinked hh (set (out @ xs)) st st'" by (rule relinked_trans [OF r(4) k(5)]) (use d(2) in blast)+
    ultimately show ?thesis using False by blast
  qed
qed


section \<open>The sorted list\<close>

lemma mset_merge_runs [simp]: "mset (merge_runs cmp n xs) = mset xs"
proof (induction cmp n xs rule: merge_runs.induct)
  case (1 cmp n xs)
  moreover have "mset (take n xs) + (mset (take n (drop n xs)) + mset (drop n (drop n xs))) = mset xs"
    by (metis append_take_drop_id mset_append)
  ultimately show ?case by (subst merge_runs.simps) (simp add: add.assoc)
qed

lemma srt_round_run:
  assumes c: "cseg (app_nxs hh st) (head_of xs) xs None" and "distinct xs" "length xs < 2 ^ 32" and lv: "\<forall>a \<in> set xs. live (Some (a + hh)) st"
    and n: "n = unat insize" "n \<noteq> 0" and T: "hho T = hh" and ne: "xs \<noteq> []"
  shows "\<exists>st' nm. srt_round T cmp insize (hp hh (head_of xs)) st = Runs (hp hh (head_of (merge_runs cmp n xs)), Some (last (merge_runs cmp n xs) + hh), nm) st' \<and>
    (nm \<le> 1 \<longleftrightarrow> length xs \<le> 2 * n) \<and>
    dlist (app_nxs hh st') (app_pvs hh st') (head_of (merge_runs cmp n xs)) (merge_runs cmp n xs) (Some (last (merge_runs cmp n xs))) \<and>
    relinked hh (set xs) st st'"
proof -
  let ?ys = "merge_runs cmp n xs"
  have "out_at hh st [] None None" by (simp add: out_at_def)
  from srt_pass_run [OF this c _ assms(3) lv n T, of cmp 0] assms(2) obtain st1 l m k where p:
    "srt_pass T cmp insize (hp hh (head_of xs)) (hp hh None) (hp hh None) 0 st = Some (Runs (hp hh l, hp hh m, 0 + of_nat k) st1)"
    "k \<le> length xs" "k \<le> 1 \<longleftrightarrow> length xs \<le> 2 * n" "out_at hh st1 ?ys l m" "relinked hh (set xs) st st1" by auto
  have ne': "?ys \<noteq> []" using ne by (metis mset_merge_runs mset_zero_iff)
  have set': "set ?ys = set xs" by (metis mset_merge_runs set_mset_mset)
  from p(4) ne' obtain r where d: "dseg (app_nxs hh st1) (app_pvs hh st1) None l ?ys m r" and dist: "distinct ?ys" and l: "l = head_of ?ys"
    by (auto simp: out_at_def)
  have m: "m = Some (last ?ys)" using d ne' by (cases ?ys rule: rev_cases) (auto simp: dseg_snoc)
  have lm: "live (Some (last ?ys + hh)) st1" using lv relinked_live [OF p(5)] set' ne' by (metis last_in_set)
  let ?st = "upd (Some (last ?ys + hh)) (\<lambda>h. h\<lparr>next_elt := None\<rparr>) st1"
  have run: "srt_round T cmp insize (hp hh (head_of xs)) st = Runs (hp hh (head_of ?ys), Some (last ?ys + hh), of_nat k) ?st"
    using p(1) lm by (simp add: srt_round_def loop_of_def l m)
  have "k < 2 ^ 32" using p(2) assms(3) by simp
  then have "unat (of_nat k :: 32 word) = k" by (subst unat_of_nat) (simp add: take_bit_nat_eq_self)
  then have nm: "(of_nat k :: 32 word) \<le> 1 \<longleftrightarrow> length xs \<le> 2 * n" using p(3) by (simp add: word_le_nat_alt)
  have nx: "app_nxs hh ?st = relink m None (app_nxs hh st1)" using lm by (simp add: upd_app_elt [where v = None] m)
  have pv: "app_pvs hh ?st = app_pvs hh st1" by (simp add: upd_other)
  have "dlist (app_nxs hh ?st) (app_pvs hh ?st) (head_of ?ys) ?ys (Some (last ?ys))"
    unfolding nx pv using dseg_end [OF d dist, of None] ne' by (simp add: l m)
  moreover have "relinked hh (set xs) st ?st"
  proof (rule relinked_trans [OF p(5)])
    show "relinked hh (set xs) st1 ?st" unfolding relinked_def nx using ne' set' by (auto simp: upd_other m)
  qed simp_all
  ultimately show ?thesis using run nm by blast
qed


lemma runs_by_empty: "runs_by n f xs = [] \<longleftrightarrow> xs = []" "sort_key f xs = [] \<longleftrightarrow> xs = []"
  by (metis length_0_conv length_runs_by, metis length_0_conv length_sort)

lemma srt_loop_run:
  assumes "cseg (app_nxs hh st) (head_of (runs_by n f es)) (runs_by n f es) None" and d: "distinct es" "length es < 2 ^ 32"
    and "\<forall>a \<in> set es. live (Some (a + hh)) st" and "n = unat insize" "n \<noteq> 0" and T: "hho T = hh" "tabs st t = Some T"
    and ne: "es \<noteq> []" and cmp: "compares cmp f (set es)"
  shows "\<exists>st1. srt_loop t T cmp insize (hp hh (head_of (runs_by n f es))) st =
      Some (Runs (head_of (sort_key f es)) (st1\<lparr>tabs := (tabs st)(t \<mapsto> T\<lparr>tail_hh := Some (last (sort_key f es) + hh)\<rparr>)\<rparr>)) \<and>
    relinked hh (set es) st st1 \<and> dlist (app_nxs hh st1) (app_pvs hh st1) (head_of (sort_key f es)) (sort_key f es) (Some (last (sort_key f es)))"
  using assms(1,4-6,8)
proof (induction "length es - n" arbitrary: st n insize rule: less_induct)
  case less
  let ?xs = "runs_by n f es" and ?ys = "runs_by (2 * n) f es"
  have x: "distinct ?xs" "length ?xs < 2 ^ 32" "\<forall>a \<in> set ?xs. live (Some (a + hh)) st" "?xs \<noteq> []"
    using d less.prems(2) ne by (simp_all add: mset_eq_imp_distinct_iff [OF mset_runs_by [of n f es]] runs_by_empty)
  from srt_round_run [OF less.prems(1) x(1-3) less.prems(3,4) T(1) x(4), of cmp, unfolded merge_runs_by [OF cmp less.prems(4)]]
  obtain st1 nm where r: "srt_round T cmp insize (hp hh (head_of ?xs)) st = Runs (hp hh (head_of ?ys), Some (last ?ys + hh), nm) st1"
    "nm \<le> 1 \<longleftrightarrow> length es \<le> 2 * n" "dlist (app_nxs hh st1) (app_pvs hh st1) (head_of ?ys) ?ys (Some (last ?ys))" "relinked hh (set es) st st1"
    by auto
  have tab: "tabs st1 = tabs st" using r(4) by (simp add: relinked_def)
  show ?case
  proof (cases "length es \<le> 2 * n")
    case True
    then have y: "?ys = sort_key f es" using less.prems(4) by (simp add: runs_by_all)
    then obtain a where a: "head_of ?ys = Some a" using ne runs_by_empty(2) [of f es] by (cases "sort_key f es") simp_all
    have "srt_loop t T cmp insize (hp hh (head_of ?xs)) st =
        Some (Runs (head_of ?ys) (st1\<lparr>tabs := (tabs st)(t \<mapsto> T\<lparr>tail_hh := Some (last ?ys + hh)\<rparr>)\<rparr>))"
      using r(1,2) True a tab less.prems(5) T(1) by (subst srt_loop.simps) (simp add: ELMT_FROM_HH_def)
    then show ?thesis using r(3,4) unfolding y by blast
  next
    case False
    have "unat (insize * 2) = 2 * n" using False d(2) less.prems(3) by (simp add: unat_mult_lem [THEN iffD1] unat_word_ariths)
    then have n2: "2 * n = unat (insize * 2)" "2 * n \<noteq> 0" "length es - 2 * n < length es - n" using False less.prems(4) by simp_all
    have lv: "\<forall>a \<in> set es. live (Some (a + hh)) st1" using less.prems(2) relinked_live [OF r(4)] by simp
    have "tabs st1 t = Some T" using less.prems(5) tab by simp
    from less.hyps [OF n2(3) dseg_cseg [OF r(3)] lv n2(1,2) this] obtain st2 where s:
      "srt_loop t T cmp (insize * 2) (hp hh (head_of ?ys)) st1 =
        Some (Runs (head_of (sort_key f es)) (st2\<lparr>tabs := (tabs st)(t \<mapsto> T\<lparr>tail_hh := Some (last (sort_key f es) + hh)\<rparr>)\<rparr>))"
      "relinked hh (set es) st1 st2" "dlist (app_nxs hh st2) (app_pvs hh st2) (head_of (sort_key f es)) (sort_key f es) (Some (last (sort_key f es)))"
      unfolding tab by blast
    have "srt_loop t T cmp insize (hp hh (head_of ?xs)) st =
        Some (Runs (head_of (sort_key f es)) (st2\<lparr>tabs := (tabs st)(t \<mapsto> T\<lparr>tail_hh := Some (last (sort_key f es) + hh)\<rparr>)\<rparr>))"
      using r(1,2) False s(1) by (subst srt_loop.simps) simp
    then show ?thesis using s(3) relinked_trans [OF r(4) s(2)] by blast
  qed
qed

theorem HASH_SRT_run:
  assumes i: "ut_inv fcn hh B st es" and cmp: "compares cmp f (set es)"
  shows "\<exists>st'. HASH_SRT hh (head_of es) cmp st = Runs (head_of (sort_key f es)) st' \<and> ut_inv fcn hh B st' (sort_key f es) \<and>
    key_of hh st' = key_of hh st \<and> dom (hhs st') = dom (hhs st) \<and> can_alloc st' = can_alloc st"
proof (cases "es = []")
  case True
  then show ?thesis using i by (simp add: HASH_SRT_def)
next
  case False
  then obtain t T cs where t: "tbl_inv fcn hh st t T es cs" and B: "length (buckets T) \<le> B" using i by (auto simp: ut_inv_def)
  note D = tbl_invD [OF t]
  let ?ys = "sort_key f es"
  have hd: "head_of es = Some (hd es)" using False by (cases es) simp_all
  have lv: "\<forall>a \<in> set es. live (Some (a + hh)) st" using dlist_app_live [OF D(9)] by blast
  have c: "cseg (app_nxs hh st) (head_of (runs_by 1 f es)) (runs_by 1 f es) None" using dseg_cseg [OF D(9)] by (simp add: hd)
  have one: "1 = unat (1 :: 32 word)" "(1 :: nat) \<noteq> 0" by simp_all
  from srt_loop_run [OF c D(5,6) lv one D(3,1) False cmp] obtain st1 where r:
    "srt_loop t T cmp 1 (hp hh (head_of es)) st = Some (Runs (head_of ?ys) (st1\<lparr>tabs := (tabs st)(t \<mapsto> T\<lparr>tail_hh := Some (last ?ys + hh)\<rparr>)\<rparr>))"
    "relinked hh (set es) st st1" "dlist (app_nxs hh st1) (app_pvs hh st1) (head_of ?ys) ?ys (Some (last ?ys))" by auto
  let ?T = "T\<lparr>tail_hh := Some (last ?ys + hh)\<rparr>"
  let ?st = "st1\<lparr>tabs := (tabs st)(t \<mapsto> ?T)\<rparr>"
  note same = r(2) [unfolded relinked_def]
  have run: "HASH_SRT hh (head_of es) cmp st = Runs (head_of ?ys) ?st"
    using r(1) D(1) head_tbl_run [OF t, of "hd es"] False by (simp add: HASH_SRT_def hd loop_of_def)
  have ne: "?ys \<noteq> []" using False by (simp add: runs_by_empty)
  then have hd': "head_of ?ys = Some (hd ?ys)" by (cases ?ys) simp_all
  have "chains_ok ?st (buckets T) ((\<lambda>e. e + hh) ` set es) cs" using D(10) same chains_cong [of st1 st "(\<lambda>e. e + hh) ` set es"] by simp
  then have "tbl_inv fcn hh ?st t ?T ?ys cs"
    unfolding tbl_inv_def using D r(3) same ne hd' by (simp add: size_ok_def)
  moreover have "32 \<le> B" "length (buckets ?T) \<le> B" using B i by (simp_all add: ut_inv_def)
  ultimately have "ut_inv fcn hh B ?st ?ys" unfolding ut_inv_def by blast
  moreover have "key_of hh ?st = key_of hh st" using same by (simp add: key_of_def fun_eq_iff)
  ultimately show ?thesis using run same by (intro exI [of _ ?st]) simp
qed

end
