(* ===== verification/UtCheck.thy ===== *)
theory UtCheck
  imports UtDelete
begin

unbundle bit_operations_syntax

text \<open>
  \<open>HASH_FSCK\<close>, the check that the macros run after every change when \<open>HASH_DEBUG\<close> is defined. A failed check
  (\<open>HASH_OOPS\<close>) exits the program.
\<close>

section \<open>The macro\<close>

definition check :: "bool \<Rightarrow> unit ut" where
  "check b = (\<lambda>st. if b then Runs () st else Oops)"

text \<open>The items of a bucket are counted and their \<open>hh_prev\<close> compared.\<close>

partial_function (option) fsck_chain :: "ptr \<Rightarrow> ptr \<Rightarrow> 32 word \<Rightarrow> ut_heap \<Rightarrow> (32 word) ut_result option" where
  "fsck_chain thh before n st =
     (case thh of
        None \<Rightarrow> Some (Runs n st)
      | Some a \<Rightarrow>
          (case hhs st a of
             None \<Rightarrow> Some Undefined
           | Some h \<Rightarrow>
               if before \<noteq> hh_prev h then Some Oops
               else fsck_chain (hh_next h) (Some a) (n + 1) st))"

declare fsck_chain.simps [code]

primrec fsck_buckets :: "UT_hash_bucket list \<Rightarrow> 32 word \<Rightarrow> (32 word) ut" where
  "fsck_buckets [] n = ret n"
| "fsck_buckets (b # bs) n =
     bnd (loop_of (fsck_chain (hh_head b) None 0)) (\<lambda>m.
     seq (check (bkt_count b = m))
    (fsck_buckets bs (n + m)))"

text \<open>The elements in the order of the list.\<close>

partial_function (option) fsck_list :: "UT_hash_table \<Rightarrow> ptr \<Rightarrow> ptr \<Rightarrow> 32 word \<Rightarrow> ut_heap \<Rightarrow> (32 word) ut_result option" where
  "fsck_list T thh before n st =
     (case thh of
        None \<Rightarrow> Some (Runs n st)
      | Some a \<Rightarrow>
          (case hhs st a of
             None \<Rightarrow> Some Undefined
           | Some h \<Rightarrow>
               if before \<noteq> prev h then Some Oops
               else fsck_list T (map_option (\<lambda>e. e + hho T) (next_elt h)) (Some (ELMT_FROM_HH T a)) (n + 1) st))"

declare fsck_list.simps [code]

definition HASH_FSCK :: "nat \<Rightarrow> ptr \<Rightarrow> unit ut" where
  "HASH_FSCK hh head =
     (case head of
        None \<Rightarrow> ret ()
      | Some e \<Rightarrow>
          bnd (head_tbl hh e) (\<lambda>t.
          bnd (tbl_at t) (\<lambda>T.
          if length (buckets T) < unat (num_buckets T) then bad
          else
            bnd (fsck_buckets (take (unat (num_buckets T)) (buckets T)) 0) (\<lambda>n.
            seq (check (n = num_items T))
           (bnd (loop_of (fsck_list T (Some (e + hh)) None 0)) (\<lambda>n.
            check (n = num_items T)))))))"

section \<open>The invariant passes the check\<close>

lemma check_run [simp]: "b \<Longrightarrow> check b st = Runs () st"
  by (simp add: check_def)

lemma fsck_chain_run:
  assumes "dseg (nxs st) (pvs st) q p xs z None"
  shows "fsck_chain p q n st = Some (Runs (n + of_nat (length xs)) st)"
  using assms
proof (induction xs arbitrary: p q n)
  case Nil
  then show ?case by (subst fsck_chain.simps) simp
next
  case (Cons a as)
  then obtain h where h: "p = Some a" "hhs st a = Some h" "hh_prev h = q" "dseg (nxs st) (pvs st) (Some a) (hh_next h) as z None"
    by (auto simp: nxs_def pvs_def)
  then show ?case using Cons.IH [OF h(4), of "n + 1"] by (subst fsck_chain.simps) (simp add: add.assoc)
qed

lemma fsck_buckets_run:
  assumes "length cs = length bs"
    and "\<And>i. i < length bs \<Longrightarrow> (\<exists>z. dlist (nxs st) (pvs st) (hh_head (bs ! i)) (cs ! i) z) \<and> bkt_count (bs ! i) = of_nat (length (cs ! i))"
  shows "fsck_buckets bs n st = Runs (n + of_nat (length (concat cs))) st"
  using assms
proof (induction bs arbitrary: cs n)
  case (Cons b bs)
  then obtain c cs' where cs: "cs = c # cs'" by (cases cs) auto
  obtain z where z: "dlist (nxs st) (pvs st) (hh_head b) c z" and b: "bkt_count b = of_nat (length c)"
    using Cons.prems(2) [of 0] cs by auto
  have "(\<exists>z. dlist (nxs st) (pvs st) (hh_head (bs ! i)) (cs' ! i) z) \<and> bkt_count (bs ! i) = of_nat (length (cs' ! i))" if "i < length bs" for i
    using Cons.prems(2) [of "Suc i"] that cs by simp
  from Cons.IH [OF _ this, of "n + of_nat (length c)"] show ?case
    using Cons.prems(1) cs b fsck_chain_run [OF z, of 0] by (simp add: loop_of_def add.assoc)
qed simp

lemma fsck_list_run:
  assumes "dseg (app_nxs hh st) (app_pvs hh st) q p xs z None" and T: "hho T = hh"
  shows "fsck_list T (map_option (\<lambda>e. e + hh) p) q n st = Some (Runs (n + of_nat (length xs)) st)"
  using assms(1)
proof (induction xs arbitrary: p q n)
  case Nil
  then show ?case by (subst fsck_list.simps) simp
next
  case (Cons a as)
  then obtain h where h: "p = Some a" "hhs st (a + hh) = Some h" "prev h = q" "dseg (app_nxs hh st) (app_pvs hh st) (Some a) (next_elt h) as z None"
    by (auto simp: app_nxs_def app_pvs_def)
  then show ?case using Cons.IH [OF h(4), of "n + 1"] T by (subst fsck_list.simps) (simp add: add.assoc ELMT_FROM_HH_def)
qed

theorem HASH_FSCK_run:
  assumes i: "ut_inv fcn hh B st es"
  shows "HASH_FSCK hh (head_of es) st = Runs () st"
proof (cases "es = []")
  case False
  then obtain t T cs where t: "tbl_inv fcn hh st t T es cs" using i by (auto simp: ut_inv_def)
  note D = tbl_invD [OF t]
  obtain k where k: "k \<le> 30" "length (buckets T) = 2 ^ k" "unat (num_buckets T) = 2 ^ k" using size_okD [OF D(2)] by metis
  have hd: "head_of es = Some (hd es)" using False by (cases es) simp_all
  have "k \<le> 31" using k(1) by simp
  from chains_concat(1,2) [OF D(10) k(2) this] have "length (concat cs) = card ((\<lambda>e. e + hh) ` set es)" by (metis distinct_card)
  also have "\<dots> = length es" using D(5) by (subst card_image) (simp_all add: inj_on_def distinct_card)
  finally have "length (concat cs) = length es" .
  then have "fsck_buckets (buckets T) 0 st = Runs (num_items T) st"
    using fsck_buckets_run [of cs "buckets T" st 0] D(8) D(10) by (simp add: chains_ok_def)
  moreover have "fsck_list T (Some (hd es + hh)) None 0 st = Some (Runs (num_items T) st)"
    using fsck_list_run [OF D(9,3), of 0] D(8) by simp
  ultimately show ?thesis
    using D(1) head_tbl_run [OF t, of "hd es"] False k by (simp add: HASH_FSCK_def hd loop_of_def)
qed (simp add: HASH_FSCK_def)


section \<open>Counting, visiting, clearing, replacing\<close>

lemma HASH_CNT_run:
  assumes i: "ut_inv fcn hh B st es"
  shows "HASH_CNT hh (head_of es) st = Runs (of_nat (length es)) st"
proof (cases "es = []")
  case False
  then obtain t T cs where t: "tbl_inv fcn hh st t T es cs" using i by (auto simp: ut_inv_def)
  have hd: "head_of es = Some (hd es)" using False by (cases es) simp_all
  show ?thesis using tbl_invD(1,8) [OF t] head_tbl_run [OF t, of "hd es"] False by (simp add: HASH_CNT_def hd)
qed (simp add: HASH_CNT_def)

lemma iter_loop_run:
  assumes "dseg (app_nxs hh st) (app_pvs hh st) q p xs z None"
  shows "iter_loop hh p seen st = Some (Runs (seen @ xs) st)"
  using assms
proof (induction xs arbitrary: p q seen)
  case Nil
  then show ?case by (subst iter_loop.simps) simp
next
  case (Cons a as)
  then obtain h where h: "p = Some a" "hhs st (a + hh) = Some h" "dseg (app_nxs hh st) (app_pvs hh st) (Some a) (next_elt h) as z None"
    by (auto simp: app_nxs_def)
  then show ?case using Cons.IH [OF h(3)] by (subst iter_loop.simps) simp
qed

lemma HASH_ITER_run:
  assumes i: "ut_inv fcn hh B st es"
  shows "HASH_ITER hh (head_of es) st = Runs es st"
proof (cases "es = []")
  case True
  then show ?thesis by (subst HASH_ITER_def) (simp add: loop_of_def iter_loop.simps)
next
  case False
  then obtain t T cs where t: "tbl_inv fcn hh st t T es cs" using i by (auto simp: ut_inv_def)
  have hd: "head_of es = Some (hd es)" using False by (cases es) simp_all
  show ?thesis using iter_loop_run [OF tbl_invD(9) [OF t], of "[]"] by (simp add: HASH_ITER_def hd loop_of_def)
qed

lemma HASH_CLEAR_run:
  assumes i: "ut_inv fcn hh B st es"
  shows "\<exists>st'. HASH_CLEAR hh (head_of es) st = Runs None st' \<and> hhs st' = hhs st \<and> can_alloc st' = can_alloc st"
proof (cases "es = []")
  case False
  then obtain t T cs where t: "tbl_inv fcn hh st t T es cs" using i by (auto simp: ut_inv_def)
  have hd: "head_of es = Some (hd es)" using False by (cases es) simp_all
  show ?thesis using tbl_invD(1) [OF t] head_tbl_run [OF t, of "hd es"] False by (simp add: HASH_CLEAR_def hd)
qed (simp add: HASH_CLEAR_def)

text \<open>The search for a key, whether there is a table or not.\<close>

lemma HASH_FIND_inv:
  assumes i: "ut_inv fcn hh B st es" and k: "length k < 2 ^ 32" and inj: "inj_on (key_of hh st) (set es)"
  shows "HASH_FIND fcn hh (head_of es) k st = Runs (find (\<lambda>e. key_of hh st e = k) es) st"
proof (cases "es = []")
  case False
  then obtain t T cs where t: "tbl_inv fcn hh st t T es cs" using i by (auto simp: ut_inv_def)
  have hd: "head_of es = Some (hd es)" using False by (cases es) simp_all
  show ?thesis using HASH_FIND_run [OF t _ k inj, of "hd es"] False by (simp add: hd)
qed (simp add: HASH_FIND_def)

end
