(* ===== verification/UtSpec.thy ===== *)
theory UtSpec
  imports UtSort UtCheck
begin

unbundle bit_operations_syntax

text \<open>
  The contract of the macros of \<open>uthash.h\<close>: a table is the list of its elements with their keys, in the order in
  which they were added or sorted.
\<close>

section \<open>Operations\<close>

text \<open>\<open>USort cmp f\<close> sorts with \<open>cmp\<close>; \<open>f\<close> is a key with which \<open>cmp\<close> agrees.\<close>

datatype ut_op =
    UAdd "byte list" addr
  | UReplace "byte list" addr
  | UFind "byte list"
  | UDel addr
  | USort "addr \<Rightarrow> addr \<Rightarrow> int" "addr \<Rightarrow> int"
  | UCount
  | UIter
  | UClear
  | UCheck

datatype ut_answer = UDone | UElt ptr | UNumber "32 word" | UElts "addr list"

text \<open>What the macros do; the state is the head.\<close>

fun ut_step :: "(byte list \<Rightarrow> 32 word) \<Rightarrow> nat \<Rightarrow> ut_op \<Rightarrow> ptr \<Rightarrow> (ptr \<times> ut_answer) ut" where
  "ut_step fcn hh (UAdd k e) head = bnd (HASH_ADD_KEYPTR fcn hh head k e) (\<lambda>head. ret (head, UDone))"
| "ut_step fcn hh (UReplace k e) head = bnd (HASH_REPLACE fcn hh head k e) (\<lambda>(head, replaced). ret (head, UElt replaced))"
| "ut_step fcn hh (UFind k) head = bnd (HASH_FIND fcn hh head k) (\<lambda>out. ret (head, UElt out))"
| "ut_step fcn hh (UDel e) head = bnd (HASH_DELETE hh head e) (\<lambda>head. ret (head, UDone))"
| "ut_step fcn hh (USort cmp f) head = bnd (HASH_SRT hh head cmp) (\<lambda>head. ret (head, UDone))"
| "ut_step fcn hh UCount head = bnd (HASH_CNT hh head) (\<lambda>n. ret (head, UNumber n))"
| "ut_step fcn hh UIter head = bnd (HASH_ITER hh head) (\<lambda>es. ret (head, UElts es))"
| "ut_step fcn hh UClear head = bnd (HASH_CLEAR hh head) (\<lambda>head. ret (head, UDone))"
| "ut_step fcn hh UCheck head = bnd (HASH_FSCK hh head) (\<lambda>_. ret (head, UDone))"

fun ut_run :: "(byte list \<Rightarrow> 32 word) \<Rightarrow> nat \<Rightarrow> ut_op list \<Rightarrow> ptr \<Rightarrow> (ptr \<times> ut_answer list) ut" where
  "ut_run fcn hh [] head = ret (head, [])"
| "ut_run fcn hh (op # ops) head =
     bnd (ut_step fcn hh op head) (\<lambda>(head, a). bnd (ut_run fcn hh ops head) (\<lambda>(head, as). ret (head, a # as)))"

section \<open>The specification\<close>

type_synonym ut_list = "(byte list \<times> addr) list"

fun ut_spec_step :: "ut_op \<Rightarrow> ut_list \<Rightarrow> ut_list \<times> ut_answer" where
  "ut_spec_step (UAdd k e) al = (al @ [(k, e)], UDone)"
| "ut_spec_step (UReplace k e) al = (filter (\<lambda>x. fst x \<noteq> k) al @ [(k, e)], UElt (map_of al k))"
| "ut_spec_step (UFind k) al = (al, UElt (map_of al k))"
| "ut_spec_step (UDel e) al = (filter (\<lambda>x. snd x \<noteq> e) al, UDone)"
| "ut_spec_step (USort cmp f) al = (sort_key (\<lambda>x. f (snd x)) al, UDone)"
| "ut_spec_step UCount al = (al, UNumber (of_nat (length al)))"
| "ut_spec_step UIter al = (al, UElts (map snd al))"
| "ut_spec_step UClear al = ([], UDone)"
| "ut_spec_step UCheck al = (al, UDone)"

fun ut_spec_run :: "ut_op list \<Rightarrow> ut_list \<Rightarrow> ut_list \<times> ut_answer list" where
  "ut_spec_run [] al = (al, [])"
| "ut_spec_run (op # ops) al = (let (al, a) = ut_spec_step op al; (al, as) = ut_spec_run ops al in (al, a # as))"

text \<open>
  The obligations of the client, for elements \<open>E\<close> that have a handle: an element and a key is added only once,
  and only elements of the table are deleted.
\<close>

fun ut_pre :: "addr set \<Rightarrow> ut_op \<Rightarrow> ut_list \<Rightarrow> bool" where
  "ut_pre E (UAdd k e) al \<longleftrightarrow> e \<in> E \<and> e \<notin> snd ` set al \<and> k \<notin> fst ` set al \<and> length k < 2 ^ 32 \<and> length al + 1 < 2 ^ 32"
| "ut_pre E (UReplace k e) al \<longleftrightarrow>
     e \<in> E \<and> (e \<in> snd ` set al \<longrightarrow> map_of al k = Some e) \<and> length k < 2 ^ 32 \<and> length al + 1 < 2 ^ 32"
| "ut_pre E (UFind k) al \<longleftrightarrow> length k < 2 ^ 32"
| "ut_pre E (UDel e) al \<longleftrightarrow> e \<in> snd ` set al"
| "ut_pre E (USort cmp f) al \<longleftrightarrow> compares cmp f (snd ` set al)"
| "ut_pre E _ al \<longleftrightarrow> True"

fun ut_legal :: "addr set \<Rightarrow> ut_op list \<Rightarrow> ut_list \<Rightarrow> bool" where
  "ut_legal E [] al \<longleftrightarrow> True"
| "ut_legal E (op # ops) al \<longleftrightarrow> ut_pre E op al \<and> ut_legal E ops (fst (ut_spec_step op al))"

text \<open>The buckets that a table can have after an operation: an addition doubles them at most.\<close>

fun grown :: "ut_op \<Rightarrow> nat \<Rightarrow> nat" where
  "grown (UAdd k e) B = 2 * B"
| "grown (UReplace k e) B = 2 * B"
| "grown _ B = B"

section \<open>The refinement relation\<close>

definition ut_rel :: "(byte list \<Rightarrow> 32 word) \<Rightarrow> nat \<Rightarrow> addr set \<Rightarrow> (nat \<Rightarrow> bool) \<Rightarrow> nat \<Rightarrow> ut_list \<Rightarrow> ptr \<Rightarrow> ut_heap \<Rightarrow> bool" where
  "ut_rel fcn hh E mem B al head st \<longleftrightarrow>
     ut_inv fcn hh B st (map snd al) \<and> head = head_of (map snd al) \<and> map (key_of hh st) (map snd al) = map fst al \<and>
     distinct (map fst al) \<and> distinct (map snd al) \<and> (\<forall>e \<in> E. hhs st (e + hh) \<noteq> None) \<and> can_alloc st = mem"

lemma ut_relD:
  assumes "ut_rel fcn hh E mem B al head st"
  shows "ut_inv fcn hh B st (map snd al)" "head = head_of (map snd al)" "map (key_of hh st) (map snd al) = map fst al"
    "distinct (map fst al)" "distinct (map snd al)" "e \<in> E \<Longrightarrow> hhs st (e + hh) \<noteq> None" "can_alloc st = mem"
    "x \<in> set al \<Longrightarrow> key_of hh st (snd x) = fst x" "inj_on (key_of hh st) (set (map snd al))"
proof -
  show k: "map (key_of hh st) (map snd al) = map fst al" and d: "distinct (map fst al)" using assms by (simp_all add: ut_rel_def)
  show "ut_inv fcn hh B st (map snd al)" "head = head_of (map snd al)" "distinct (map snd al)" "e \<in> E \<Longrightarrow> hhs st (e + hh) \<noteq> None"
    "can_alloc st = mem" using assms by (simp_all add: ut_rel_def)
  show "x \<in> set al \<Longrightarrow> key_of hh st (snd x) = fst x" using k by (simp add: map_eq_conv)
  show "inj_on (key_of hh st) (set (map snd al))" using k d by (metis distinct_map)
qed

text \<open>A list that keeps some of the elements, in any order.\<close>

lemma ut_rel_keep:
  assumes r: "ut_rel fcn hh E mem B al head st" and i: "ut_inv fcn hh B st' (map snd al')" and s: "set al' \<subseteq> set al"
    and d: "distinct (map fst al')" "distinct (map snd al')" and same: "key_of hh st' = key_of hh st" "dom (hhs st') = dom (hhs st)" "can_alloc st' = can_alloc st"
  shows "ut_rel fcn hh E mem B al' (head_of (map snd al')) st'"
proof -
  have "map (key_of hh st') (map snd al') = map fst al'" using ut_relD(8) [OF r] s same(1) by (auto simp: map_eq_conv)
  moreover have "\<forall>e \<in> E. hhs st' (e + hh) \<noteq> None" using ut_relD(6) [OF r] same(2) by (metis domIff)
  ultimately show ?thesis using i d same(3) ut_relD(7) [OF r] by (simp add: ut_rel_def)
qed


section \<open>Lists\<close>

lemma find_elt_map_of: "map f (map snd al) = map fst al \<Longrightarrow> find (\<lambda>e. f e = k) (map snd al) = map_of al k"
  by (induction al) auto

lemma remove1_snd: "distinct (map snd al) \<Longrightarrow> remove1 e (map snd al) = map snd (filter (\<lambda>x. snd x \<noteq> e) al)"
proof (induction al)
  case (Cons x al)
  then have "snd x \<notin> snd ` set al" by simp
  then have "filter (\<lambda>y. snd y \<noteq> snd x) al = al" by (intro filter_True ballI) (metis image_eqI)
  then show ?case using Cons by auto
qed simp

lemma distinct_map_sort [simp]: "distinct (map g (sort_key f xs)) = distinct (map g xs)"
  by (simp flip: mset_eq_imp_distinct_iff [of "map g (sort_key f xs)" "map g xs", simplified])

lemma filter_key: "distinct (map fst al) \<Longrightarrow> distinct (map snd al) \<Longrightarrow> map_of al k = Some e \<Longrightarrow>
    filter (\<lambda>x. snd x \<noteq> e) al = filter (\<lambda>x. fst x \<noteq> k) al"
proof -
  assume d: "distinct (map fst al)" "distinct (map snd al)" and m: "map_of al k = Some e"
  have "(k, e) \<in> set al" using m by (rule map_of_SomeD)
  then have "snd x = e \<longleftrightarrow> fst x = k" if "x \<in> set al" for x
    using that d by (metis eq_key_imp_eq_value fst_conv snd_conv prod.collapse inj_onD distinct_map)
  then show ?thesis by (intro filter_cong) auto
qed

section \<open>An addition\<close>

lemma add_refines:
  assumes r: "ut_rel fcn hh E mem B al head st" and lim: "\<forall>n. mem n \<longrightarrow> n < 2 ^ 35"
    and pre: "e \<in> E" "e \<notin> snd ` set al" "k \<notin> fst ` set al" "length k < 2 ^ 32" "length al + 1 < 2 ^ 32"
  shows "refused mem (32 * B) (HASH_ADD_KEYPTR fcn hh head k e st) \<or>
    (\<exists>head' st'. HASH_ADD_KEYPTR fcn hh head k e st = Runs head' st' \<and> ut_rel fcn hh E mem (2 * B) (al @ [(k, e)]) head' st')"
proof -
  note D = ut_relD [OF r]
  have l: "limited st" using lim D(7) by (simp add: limited_def)
  have n: "e \<notin> set (map snd al)" "length (map snd al) + 1 < 2 ^ 32" using pre by simp_all
  from HASH_ADD_KEYPTR_run [OF D(1) D(6) [OF pre(1)] n pre(4) l, unfolded D(7)] show ?thesis
  proof (elim disjE exE conjE)
    fix st'
    assume s: "HASH_ADD_KEYPTR fcn hh (head_of (map snd al)) k e st = Runs (head_of (map snd al @ [e])) st'"
      "ut_inv fcn hh (2 * B) st' (map snd al @ [e])" "key_of hh st' = (key_of hh st)(e := k)" "dom (hhs st') = dom (hhs st)" "can_alloc st' = mem"
    have "map (key_of hh st') (map snd al) = map (key_of hh st) (map snd al)" unfolding s(3) using n(1) by (auto simp: map_eq_conv)
    then have "map (key_of hh st') (map snd (al @ [(k, e)])) = map fst (al @ [(k, e)])" using D(3) s(3) by simp
    moreover have "\<forall>x \<in> E. hhs st' (x + hh) \<noteq> None" using D(6) s(4) by (metis domIff)
    ultimately have "ut_rel fcn hh E mem (2 * B) (al @ [(k, e)]) (head_of (map snd al @ [e])) st'"
      unfolding ut_rel_def using s(2,5) D(4,5,7) pre(2,3) by simp
    then show ?thesis using s(1) D(2) by blast
  qed (use D(2) in simp)
qed


section \<open>The other operations\<close>

lemma find_refines:
  assumes r: "ut_rel fcn hh E mem B al head st" and k: "length k < 2 ^ 32"
  shows "HASH_FIND fcn hh head k st = Runs (map_of al k) st"
  using HASH_FIND_inv [OF ut_relD(1) [OF r] k ut_relD(9) [OF r]] find_elt_map_of [OF ut_relD(3) [OF r]] ut_relD(2) [OF r] by simp

lemma delete_refines:
  assumes r: "ut_rel fcn hh E mem B al head st" and e: "e \<in> snd ` set al"
  shows "\<exists>head' st'. HASH_DELETE hh head e st = Runs head' st' \<and> ut_rel fcn hh E mem B (filter (\<lambda>x. snd x \<noteq> e) al) head' st'"
proof -
  note D = ut_relD [OF r]
  have "e \<in> set (map snd al)" using e by simp
  from HASH_DELETE_run [OF D(1) this, unfolded remove1_snd [OF D(5)]] obtain st' where s:
    "HASH_DELETE hh (head_of (map snd al)) e st = Runs (head_of (map snd (filter (\<lambda>x. snd x \<noteq> e) al))) st'"
    "ut_inv fcn hh B st' (map snd (filter (\<lambda>x. snd x \<noteq> e) al))" "key_of hh st' = key_of hh st" "dom (hhs st') = dom (hhs st)" "can_alloc st' = can_alloc st"
    by blast
  have "ut_rel fcn hh E mem B (filter (\<lambda>x. snd x \<noteq> e) al) (head_of (map snd (filter (\<lambda>x. snd x \<noteq> e) al))) st'"
    by (rule ut_rel_keep [OF r s(2) _ _ _ s(3-5)]) (use D(4,5) in \<open>auto simp: distinct_map_filter\<close>)
  then show ?thesis using s(1) D(2) by blast
qed

lemma sort_refines:
  assumes r: "ut_rel fcn hh E mem B al head st" and cmp: "compares cmp f (snd ` set al)"
  shows "\<exists>head' st'. HASH_SRT hh head cmp st = Runs head' st' \<and> ut_rel fcn hh E mem B (sort_key (\<lambda>x. f (snd x)) al) head' st'"
proof -
  note D = ut_relD [OF r]
  have "compares cmp f (set (map snd al))" using cmp by simp
  from HASH_SRT_run [OF D(1) this, unfolded sort_key_map] obtain st' where s:
    "HASH_SRT hh (head_of (map snd al)) cmp st = Runs (head_of (map snd (sort_key (\<lambda>x. f (snd x)) al))) st'"
    "ut_inv fcn hh B st' (map snd (sort_key (\<lambda>x. f (snd x)) al))" "key_of hh st' = key_of hh st" "dom (hhs st') = dom (hhs st)" "can_alloc st' = can_alloc st"
    by blast
  have "ut_rel fcn hh E mem B (sort_key (\<lambda>x. f (snd x)) al) (head_of (map snd (sort_key (\<lambda>x. f (snd x)) al))) st'"
    by (rule ut_rel_keep [OF r s(2) _ _ _ s(3-5)]) (use D(4,5) in simp_all)
  then show ?thesis using s(1) D(2) by blast
qed

lemma clear_refines:
  assumes r: "ut_rel fcn hh E mem B al head st"
  shows "\<exists>st'. HASH_CLEAR hh head st = Runs None st' \<and> ut_rel fcn hh E mem B [] None st'"
proof -
  note D = ut_relD [OF r]
  from HASH_CLEAR_run [OF D(1)] obtain st' where s: "HASH_CLEAR hh head st = Runs None st'" "hhs st' = hhs st" "can_alloc st' = can_alloc st"
    using D(2) by auto
  have "32 \<le> B" using D(1) by (simp add: ut_inv_def)
  then have "ut_rel fcn hh E mem B [] None st'" using D(6,7) s(2,3) by (simp add: ut_rel_def ut_inv_def)
  then show ?thesis using s(1) by blast
qed

lemma replace_refines:
  assumes r: "ut_rel fcn hh E mem B al head st" and lim: "\<forall>n. mem n \<longrightarrow> n < 2 ^ 35" and pre: "ut_pre E (UReplace k e) al"
  shows "refused mem (32 * B) (HASH_REPLACE fcn hh head k e st) \<or>
    (\<exists>head' st'. HASH_REPLACE fcn hh head k e st = Runs (head', map_of al k) st' \<and>
       ut_rel fcn hh E mem (2 * B) (filter (\<lambda>x. fst x \<noteq> k) al @ [(k, e)]) head' st')"
proof -
  note D = ut_relD [OF r]
  let ?al = "filter (\<lambda>x. fst x \<noteq> k) al"
  have f: "HASH_FIND fcn hh head k st = Runs (map_of al k) st" using find_refines [OF r] pre by simp
  have "\<exists>head1 st1. (case map_of al k of None \<Rightarrow> ret head | Some e \<Rightarrow> HASH_DELETE hh head e) st = Runs head1 st1 \<and> ut_rel fcn hh E mem B ?al head1 st1"
  proof (cases "map_of al k")
    case None
    then have "?al = al" by (force simp: filter_id_conv map_of_eq_None_iff)
    then show ?thesis using r None by simp
  next
    case (Some e')
    then have "e' \<in> snd ` set al" by (force dest: map_of_SomeD)
    from delete_refines [OF r this] show ?thesis using Some filter_key [OF D(4,5) Some] by simp
  qed
  then obtain head1 st1 where d: "(case map_of al k of None \<Rightarrow> ret head | Some e \<Rightarrow> HASH_DELETE hh head e) st = Runs head1 st1"
    "ut_rel fcn hh E mem B ?al head1 st1" by blast
  have fresh: "e \<notin> snd ` set ?al"
  proof
    assume "e \<in> snd ` set ?al"
    then obtain k' where k': "(k', e) \<in> set al" "k' \<noteq> k" by auto
    then have "(k, e) \<in> set al" using pre by (force dest: map_of_SomeD)
    then show False using k' D(5) by (metis distinct_map inj_onD prod.inject snd_conv)
  qed
  have "k \<notin> fst ` set ?al" by auto
  moreover have "length ?al + 1 < 2 ^ 32" using pre le_less_trans [OF length_filter_le [of "\<lambda>x. fst x \<noteq> k" al]] by simp
  ultimately have a: "refused mem (32 * B) (HASH_ADD_KEYPTR fcn hh head1 k e st1) \<or>
      (\<exists>head' st'. HASH_ADD_KEYPTR fcn hh head1 k e st1 = Runs head' st' \<and> ut_rel fcn hh E mem (2 * B) (?al @ [(k, e)]) head' st')"
    using add_refines [OF d(2) lim _ fresh] pre by simp
  have "HASH_REPLACE fcn hh head k e st = bnd (HASH_ADD_KEYPTR fcn hh head1 k e) (\<lambda>head. ret (head, map_of al k)) st1"
    using f d(1) by (simp add: HASH_REPLACE_def)
  then show ?thesis using a by auto
qed

section \<open>The refinement\<close>

lemma step_refines:
  assumes r: "ut_rel fcn hh E mem B al head st" and lim: "\<forall>n. mem n \<longrightarrow> n < 2 ^ 35" and pre: "ut_pre E op al"
  shows "refused mem (16 * grown op B) (ut_step fcn hh op head st) \<or>
    (\<exists>head' st'. ut_step fcn hh op head st = Runs (head', snd (ut_spec_step op al)) st' \<and>
       ut_rel fcn hh E mem (grown op B) (fst (ut_spec_step op al)) head' st')"
proof (cases op)
  case (UAdd k e)
  then show ?thesis using add_refines [OF r lim, of e k] pre by auto
next
  case (UReplace k e)
  then show ?thesis using replace_refines [OF r lim, of k e] pre by auto
next
  case (UFind k)
  then show ?thesis using find_refines [OF r, of k] pre r by simp
next
  case (UDel e)
  then show ?thesis using delete_refines [OF r, of e] pre by auto
next
  case (USort cmp f)
  then show ?thesis using sort_refines [OF r, of cmp f] pre by auto
next
  case UCount
  then show ?thesis using HASH_CNT_run [OF ut_relD(1) [OF r]] ut_relD(2) [OF r] r by simp
next
  case UIter
  then show ?thesis using HASH_ITER_run [OF ut_relD(1) [OF r]] ut_relD(2) [OF r] r by simp
next
  case UClear
  then show ?thesis using clear_refines [OF r] by auto
next
  case UCheck
  then show ?thesis using HASH_FSCK_run [OF ut_relD(1) [OF r]] ut_relD(2) [OF r] r by simp
qed


lemma grown_mono: "B \<le> grown op B"
  by (cases op) simp_all

lemma grown_fold_mono: "B \<le> fold grown ops B"
  by (induction ops arbitrary: B) (auto intro: order_trans grown_mono)

lemma run_refines:
  assumes "ut_rel fcn hh E mem B al head st" and lim: "\<forall>n. mem n \<longrightarrow> n < 2 ^ 35" and "ut_legal E ops al"
  shows "refused mem (16 * fold grown ops B) (ut_run fcn hh ops head st) \<or>
    (\<exists>head' st'. ut_run fcn hh ops head st = Runs (head', snd (ut_spec_run ops al)) st' \<and>
       ut_rel fcn hh E mem (fold grown ops B) (fst (ut_spec_run ops al)) head' st')"
  using assms(1,3)
proof (induction ops arbitrary: B al head st)
  case (Cons op ops)
  let ?al = "fst (ut_spec_step op al)"
  have e: "fst (ut_spec_run (op # ops) al) = fst (ut_spec_run ops ?al)" "snd (ut_spec_run (op # ops) al) = snd (ut_spec_step op al) # snd (ut_spec_run ops ?al)"
    by (simp_all add: case_prod_beta Let_def)
  have "ut_pre E op al" using Cons.prems(2) by simp
  from step_refines [OF Cons.prems(1) lim this] show ?case
  proof (elim disjE exE conjE)
    assume "refused mem (16 * grown op B) (ut_step fcn hh op head st)"
    then have "refused mem (16 * fold grown ops (grown op B)) (ut_step fcn hh op head st)"
      by (rule refused_mono) (use grown_fold_mono [of "grown op B" ops] in simp)
    then show ?thesis by (auto intro: refused_bnd)
  next
    fix head1 st1
    assume s: "ut_step fcn hh op head st = Runs (head1, snd (ut_spec_step op al)) st1" "ut_rel fcn hh E mem (grown op B) ?al head1 st1"
    have "ut_legal E ops ?al" using Cons.prems(2) by simp
    from Cons.IH [OF s(2) this] show ?thesis unfolding e using s(1) by auto
  qed
qed simp

end
