(* ===== verification/UtSelect.thy ===== *)
theory UtSelect
  imports UtSpec
begin

unbundle bit_operations_syntax

text \<open>
  \<open>HASH_SELECT\<close> puts the elements of a table that meet a condition on a second table, through a second handle,
  \<open>d\<close> bytes from the start of an element. The state of its loops is the head of the second table and the last
  element that was selected.
\<close>

definition select_item :: "nat \<Rightarrow> UT_hash_table \<Rightarrow> (addr \<Rightarrow> bool) \<Rightarrow> ptr \<times> ptr \<Rightarrow> addr \<Rightarrow> (ptr \<times> ptr) ut" where
  "select_item d T cond dl src_hh =
     (let elt = ELMT_FROM_HH T src_hh; (dst, last_elt) = dl
      in if \<not> cond elt then ret dl
         else
           bnd (hh_at src_hh) (\<lambda>s.
           seq (set_hh (elt + d) (\<lambda>h. h\<lparr>hh_key := hh_key s, keylen := keylen s, hashv := hashv s, prev := last_elt, next_elt := None\<rparr>))
          (seq (set_hh_if (map_option (\<lambda>e. e + d) last_elt) (\<lambda>h. h\<lparr>next_elt := Some elt\<rparr>))
          (bnd (case dst of
                  None \<Rightarrow> seq (HASH_MAKE_TABLE d elt) (ret elt)
                | Some e \<Rightarrow> bnd (head_tbl d e) (\<lambda>t. seq (set_hh (elt + d) (\<lambda>h. h\<lparr>hh_tbl := Some t\<rparr>)) (ret e))) (\<lambda>head.
           bnd (hh_at (elt + d)) (\<lambda>h.
           bnd (defined_ptr (hh_tbl h)) (\<lambda>t.
           bnd (tbl_at t) (\<lambda>D.
           seq (HASH_ADD_TO_BKT t (unat (HASH_TO_BKT (hashv h) (num_buckets D))) (elt + d))
          (bnd (head_tbl d head) (\<lambda>t.
           seq (set_tbl t (\<lambda>T. T\<lparr>num_items := num_items T + 1\<rparr>))
          (ret (Some head, Some elt))))))))))))"

partial_function (option) select_chain :: "nat \<Rightarrow> UT_hash_table \<Rightarrow> (addr \<Rightarrow> bool) \<Rightarrow> ptr \<times> ptr \<Rightarrow> ptr \<Rightarrow> ut_heap \<Rightarrow> (ptr \<times> ptr) ut_result option" where
  "select_chain d T cond dl src_hh st =
     (case src_hh of
        None \<Rightarrow> Some (Runs dl st)
      | Some a \<Rightarrow>
          (case bnd (select_item d T cond dl a) (\<lambda>dl. bnd (hh_at a) (\<lambda>h. ret (dl, hh_next h))) st of
             Runs r st \<Rightarrow> select_chain d T cond (fst r) (snd r) st
           | Refused n \<Rightarrow> Some (Refused n)
           | Oops \<Rightarrow> Some Oops
           | Undefined \<Rightarrow> Some Undefined))"

declare select_chain.simps [code]

text \<open>The buckets of the first table from \<open>i\<close> on; \<open>t\<close> is its address.\<close>

partial_function (option) select_buckets :: "nat \<Rightarrow> addr \<Rightarrow> (addr \<Rightarrow> bool) \<Rightarrow> 32 word \<Rightarrow> ptr \<times> ptr \<Rightarrow> ut_heap \<Rightarrow> (ptr \<times> ptr) ut_result option" where
  "select_buckets d t cond i dl st =
     (case tabs st t of
        None \<Rightarrow> Some Undefined
      | Some T \<Rightarrow>
          if \<not> i < num_buckets T then Some (Runs dl st)
          else
            (case bnd (bkt_at t (unat i)) (\<lambda>b. loop_of (select_chain d T cond dl (hh_head b))) st of
               Runs dl st \<Rightarrow> select_buckets d t cond (i + 1) dl st
             | Refused n \<Rightarrow> Some (Refused n)
             | Oops \<Rightarrow> Some Oops
             | Undefined \<Rightarrow> Some Undefined))"

declare select_buckets.simps [code]

text \<open>The result is the new head of the second table.\<close>

definition HASH_SELECT :: "nat \<Rightarrow> ptr \<Rightarrow> nat \<Rightarrow> ptr \<Rightarrow> (addr \<Rightarrow> bool) \<Rightarrow> ptr ut" where
  "HASH_SELECT d dst hh src cond =
     (case src of
        None \<Rightarrow> ret dst
      | Some e \<Rightarrow> bnd (head_tbl hh e) (\<lambda>t. bnd (loop_of (select_buckets d t cond 0 (dst, None))) (\<lambda>dl. ret (fst dl))))"

section \<open>What a step that ran has done\<close>

lemma runs_iff:
  "bnd m k st = Runs x st' \<longleftrightarrow> (\<exists>y st1. m st = Runs y st1 \<and> k y st1 = Runs x st')"
  "seq m' k' st = Runs x st' \<longleftrightarrow> (\<exists>st1. m' st = Runs () st1 \<and> k' st1 = Runs x st')"
  "ret y st = Runs x st' \<longleftrightarrow> x = y \<and> st' = st" "bad st \<noteq> Runs x st'"
  "defined_ptr p st = Runs a st' \<longleftrightarrow> p = Some a \<and> st' = st"
  "hh_at a st = Runs h st' \<longleftrightarrow> hhs st a = Some h \<and> st' = st"
  "tbl_at t st = Runs T st' \<longleftrightarrow> tabs st t = Some T \<and> st' = st"
  by (auto simp: bnd_def seq_def ret_def bad_def defined_ptr_def hh_at_def tbl_at_def split: ut_result.splits option.splits)

lemma set_iff:
  "set_hh a f st = Runs u st' \<longleftrightarrow> (\<exists>h. hhs st a = Some h \<and> st' = st\<lparr>hhs := (hhs st)(a \<mapsto> f h)\<rparr>)"
  "set_tbl t g st = Runs u st' \<longleftrightarrow> (\<exists>T. tabs st t = Some T \<and> st' = st\<lparr>tabs := (tabs st)(t \<mapsto> g T)\<rparr>)"
  "ut_malloc n st = Runs u st' \<longleftrightarrow> can_alloc st n \<and> st' = st"
  "new_table T st = Runs t st' \<longleftrightarrow> t = ut_brk st \<and> st' = st\<lparr>tabs := (tabs st)(ut_brk st \<mapsto> T), ut_brk := ut_brk st + 1\<rparr>"
  "head_tbl hh e st = Runs t st' \<longleftrightarrow> (\<exists>h. hhs st (e + hh) = Some h \<and> hh_tbl h = Some t) \<and> st' = st"
  by (auto simp: set_hh_def set_tbl_def ut_malloc_def new_table_def head_tbl_def runs_iff split: option.splits)

text \<open>The work on the buckets changes no link of the list of elements, no pointer to a table, and of a table only the buckets.\<close>

definition list_part :: "ut_heap \<Rightarrow> (addr \<rightharpoonup> ptr \<times> ptr \<times> ptr) \<times> (addr \<rightharpoonup> ptr \<times> nat \<times> 32 word)" where
  "list_part st = ((\<lambda>a. map_option (\<lambda>h. (prev h, next_elt h, hh_tbl h)) (hhs st a)),
     (\<lambda>t. map_option (\<lambda>T. (tail_hh T, hho T, num_items T)) (tabs st t)))"

definition keeps_list :: "'a ut \<Rightarrow> bool" where
  "keeps_list m \<longleftrightarrow> (\<forall>st x st'. m st = Runs x st' \<longrightarrow> list_part st' = list_part st)"

lemma keeps_listD: "keeps_list m \<Longrightarrow> m st = Runs x st' \<Longrightarrow> list_part st' = list_part st"
  by (simp add: keeps_list_def)

lemma list_part_at:
  assumes "list_part st' = list_part st"
  shows "hhs st a = Some h \<Longrightarrow> \<exists>h'. hhs st' a = Some h' \<and> prev h' = prev h \<and> next_elt h' = next_elt h \<and> hh_tbl h' = hh_tbl h"
    "tabs st t = Some T \<Longrightarrow> \<exists>T'. tabs st' t = Some T' \<and> tail_hh T' = tail_hh T \<and> hho T' = hho T \<and> num_items T' = num_items T"
proof -
  from assms have e: "map_option (\<lambda>h. (prev h, next_elt h, hh_tbl h)) (hhs st' a) = map_option (\<lambda>h. (prev h, next_elt h, hh_tbl h)) (hhs st a)"
    "map_option (\<lambda>T. (tail_hh T, hho T, num_items T)) (tabs st' t) = map_option (\<lambda>T. (tail_hh T, hho T, num_items T)) (tabs st t)"
    by (auto simp: list_part_def fun_eq_iff)
  show "hhs st a = Some h \<Longrightarrow> \<exists>h'. hhs st' a = Some h' \<and> prev h' = prev h \<and> next_elt h' = next_elt h \<and> hh_tbl h' = hh_tbl h"
    using e(1) by (cases "hhs st' a") simp_all
  show "tabs st t = Some T \<Longrightarrow> \<exists>T'. tabs st' t = Some T' \<and> tail_hh T' = tail_hh T \<and> hho T' = hho T \<and> num_items T' = num_items T"
    using e(2) by (cases "tabs st' t") simp_all
qed

named_theorems list_frame \<open>steps that keep the list\<close>

lemma keeps_bnd [list_frame]: "keeps_list m \<Longrightarrow> (\<And>x. keeps_list (k x)) \<Longrightarrow> keeps_list (bnd m k)"
  by (fastforce simp: keeps_list_def runs_iff)

lemma keeps_seq [list_frame]: "keeps_list m \<Longrightarrow> keeps_list k \<Longrightarrow> keeps_list (seq m k)"
  by (fastforce simp: keeps_list_def runs_iff)

lemma keeps_read [list_frame]: "keeps_list (ret x)" "keeps_list bad" "keeps_list (defined_ptr p)" "keeps_list (hh_at a)" "keeps_list (tbl_at t)"
  "keeps_list (ut_malloc n)"
  by (simp_all add: keeps_list_def runs_iff set_iff)

lemma keeps_if [list_frame]: "(b \<Longrightarrow> keeps_list m) \<Longrightarrow> (\<not> b \<Longrightarrow> keeps_list m') \<Longrightarrow> keeps_list (if b then m else m')"
  by simp

lemma keeps_set_hh [list_frame]:
  assumes "\<And>h. prev (f h) = prev h" "\<And>h. next_elt (f h) = next_elt h" "\<And>h. hh_tbl (f h) = hh_tbl h"
  shows "keeps_list (set_hh a f)" "keeps_list (set_hh_if p f)"
proof -
  show "keeps_list (set_hh a f)" for a using assms by (auto simp: keeps_list_def set_iff list_part_def fun_eq_iff)
  then show "keeps_list (set_hh_if p f)" by (cases p) (simp_all add: list_frame)
qed

lemma keeps_set_tbl [list_frame]:
  assumes "\<And>T. tail_hh (f T) = tail_hh T" "\<And>T. hho (f T) = hho T" "\<And>T. num_items (f T) = num_items T"
  shows "keeps_list (set_tbl t f)"
  using assms by (auto simp: keeps_list_def set_iff list_part_def fun_eq_iff)

lemma keeps_bkt [list_frame]: "keeps_list (bkt_at t i)" "keeps_list (set_bkt t i f)"
  by (auto simp: bkt_at_def set_bkt_def intro!: list_frame)

lemma keeps_move_hh [list_frame]: "keeps_list (move_hh T e a)"
  unfolding move_hh_def Let_def by (intro list_frame) simp_all

lemma move_chain_keeps:
  assumes "move_chain T p e st = Some (Runs e' st')"
  shows "list_part st' = list_part st"
proof -
  have "r = Runs e' st' \<longrightarrow> list_part st' = list_part st" if "move_chain T p e st = Some r" for r
  proof (rule move_chain.raw_induct [where P = "\<lambda>T p e st r. r = Runs e' st' \<longrightarrow> list_part st' = list_part st", OF _ that])
    fix rec T p e st r
    assume IH: "\<And>T p e st r. rec T p e st = Some r \<Longrightarrow> r = Runs e' st' \<longrightarrow> list_part st' = list_part st"
      and r: "(case p of None \<Rightarrow> Some (Runs e st) | Some a \<Rightarrow> (case hhs st a of None \<Rightarrow> Some Undefined
        | Some h \<Rightarrow> (case move_hh T e a st of Runs e st \<Rightarrow> rec T (hh_next h) e st | Refused n \<Rightarrow> Some (Refused n)
           | Oops \<Rightarrow> Some Oops | Undefined \<Rightarrow> Some Undefined))) = Some r"
    show "r = Runs e' st' \<longrightarrow> list_part st' = list_part st"
    proof (cases "\<exists>a h e1 s. p = Some a \<and> hhs st a = Some h \<and> move_hh T e a st = Runs e1 s")
      case True
      then obtain a h e1 s where m: "p = Some a" "hhs st a = Some h" "move_hh T e a st = Runs e1 s" by blast
      then have "rec T (hh_next h) e1 s = Some r" using r by simp
      from IH [OF this] keeps_listD [OF keeps_move_hh m(3)] show ?thesis by simp
    qed (use r in \<open>auto split: option.splits ut_result.splits\<close>)
  qed
  then show ?thesis using assms by simp
qed

lemma keeps_move_chain [list_frame]: "keeps_list (loop_of (move_chain T p e))"
  by (auto simp: keeps_list_def loop_of_def move_chain_keeps split: option.splits)

lemma keeps_move_buckets [list_frame]: "keeps_list (move_buckets T bs e)"
  by (induction bs arbitrary: e) (auto intro!: list_frame)

lemma keeps_expand [list_frame]: "keeps_list (HASH_EXPAND_BUCKETS t)"
proof -
  have "list_part st' = list_part st" if "HASH_EXPAND_BUCKETS t st = Runs u st'" for st u st'
  proof -
    from that obtain T news n st1 where T: "tabs st t = Some T" and m: "\<exists>T bs e. move_buckets T bs e st = Runs (news, n) st1"
      and s: "\<exists>T'. st' = st1\<lparr>tabs := (tabs st1)(t \<mapsto> T')\<rparr> \<and> tail_hh T' = tail_hh T \<and> hho T' = hho T \<and> num_items T' = num_items T"
      by (auto simp: HASH_EXPAND_BUCKETS_def Let_def runs_iff set_iff split: if_splits prod.splits) (fastforce)+
    from m have l: "list_part st1 = list_part st" using keeps_listD [OF keeps_move_buckets] by blast
    from list_part_at(2) [OF l T] obtain T1 where "tabs st1 t = Some T1" "tail_hh T1 = tail_hh T" "hho T1 = hho T" "num_items T1 = num_items T" by blast
    with s have "list_part st' = list_part st1" by (auto simp: list_part_def fun_eq_iff)
    then show ?thesis using l by simp
  qed
  then show ?thesis by (simp add: keeps_list_def)
qed

lemma keeps_add_to_bkt [list_frame]: "keeps_list (HASH_ADD_TO_BKT t i a)"
  unfolding HASH_ADD_TO_BKT_def by (intro list_frame) simp_all

section \<open>The tail of a selection\<close>

text \<open>The table at \<open>t\<close> of the element \<open>f\<close> has \<open>tail\<close> at \<open>f\<close>.\<close>

definition tail_first :: "nat \<Rightarrow> addr \<Rightarrow> addr \<Rightarrow> ut_heap \<Rightarrow> bool" where
  "tail_first d f t st \<longleftrightarrow> (\<exists>h. hhs st (f + d) = Some h \<and> hh_tbl h = Some t) \<and>
     (\<exists>T. tabs st t = Some T \<and> tail_hh T = Some (f + d) \<and> hho T = d)"

definition selecting :: "nat \<Rightarrow> ptr \<times> ptr \<Rightarrow> ut_heap \<Rightarrow> bool" where
  "selecting d dl st \<longleftrightarrow> (\<forall>f. fst dl = Some f \<longrightarrow> (\<exists>t. tail_first d f t st))"

lemma tail_first_keep:
  assumes "tail_first d f t st" and "list_part st' = list_part st"
  shows "tail_first d f t st'"
  using assms(1) list_part_at [OF assms(2)] unfolding tail_first_def by metis

lemma tail_first_set:
  assumes "tail_first d f t st"
  shows "set_hh a g st = Runs u st' \<Longrightarrow> (\<And>h. hh_tbl (g h) = hh_tbl h) \<Longrightarrow> tail_first d f t st'"
    "set_hh_if p g st = Runs u st' \<Longrightarrow> (\<And>h. hh_tbl (g h) = hh_tbl h) \<Longrightarrow> tail_first d f t st'"
    "set_hh a (\<lambda>h. h\<lparr>hh_tbl := Some t\<rparr>) st = Runs u st' \<Longrightarrow> tail_first d f t st'"
    "set_tbl t' k st = Runs u st' \<Longrightarrow> (\<And>T. tail_hh (k T) = tail_hh T \<and> hho (k T) = hho T) \<Longrightarrow> tail_first d f t st'"
proof -
  show s: "set_hh a g st = Runs u st' \<Longrightarrow> (\<And>h. hh_tbl (g h) = hh_tbl h) \<Longrightarrow> tail_first d f t st'" for a
    using assms by (auto simp: tail_first_def set_iff)
  show "set_hh_if p g st = Runs u st' \<Longrightarrow> (\<And>h. hh_tbl (g h) = hh_tbl h) \<Longrightarrow> tail_first d f t st'"
    using assms s by (cases p) (auto simp: runs_iff)
  show "set_hh a (\<lambda>h. h\<lparr>hh_tbl := Some t\<rparr>) st = Runs u st' \<Longrightarrow> tail_first d f t st'"
    using assms by (auto simp: tail_first_def set_iff)
  show "set_tbl t' k st = Runs u st' \<Longrightarrow> (\<And>T. tail_hh (k T) = tail_hh T \<and> hho (k T) = hho T) \<Longrightarrow> tail_first d f t st'"
    using assms by (auto simp: tail_first_def set_iff)
qed

lemma made_table_tail:
  assumes "HASH_MAKE_TABLE d e st = Runs u st'"
  shows "tail_first d e (ut_brk st) st'"
  using assms by (auto simp: HASH_MAKE_TABLE_def runs_iff set_iff tail_first_def)

lemma select_item_tail:
  assumes "select_item d T cond dl a st = Runs dl' st'" and "selecting d dl st"
  shows "selecting d dl' st' \<and> (fst dl \<noteq> None \<longrightarrow> fst dl' = fst dl)"
proof (cases "cond (ELMT_FROM_HH T a)")
  case False
  then show ?thesis using assms by (cases dl) (auto simp: select_item_def runs_iff Let_def)
next
  case True
  let ?e = "ELMT_FROM_HH T a"
  obtain dst l where dl: "dl = (dst, l)" by (cases dl)
  from assms(1) True obtain st1 st2 st3 f t st4 t' and s h :: UT_hash_handle and D :: UT_hash_table where
    s: "set_hh (?e + d) (\<lambda>h. h\<lparr>hh_key := hh_key s, keylen := keylen s, hashv := hashv s, prev := l, next_elt := None\<rparr>) st = Runs () st1"
      "set_hh_if (map_option (\<lambda>e. e + d) l) (\<lambda>h. h\<lparr>next_elt := Some ?e\<rparr>) st1 = Runs () st2"
    and h: "(case dst of None \<Rightarrow> seq (HASH_MAKE_TABLE d ?e) (ret ?e)
        | Some e \<Rightarrow> bnd (head_tbl d e) (\<lambda>t. seq (set_hh (?e + d) (\<lambda>h. h\<lparr>hh_tbl := Some t\<rparr>)) (ret e))) st2 = Runs f st3"
    and r: "HASH_ADD_TO_BKT t (unat (HASH_TO_BKT (hashv h) (num_buckets D))) (?e + d) st3 = Runs () st4"
      "set_tbl t' (\<lambda>T. T\<lparr>num_items := num_items T + 1\<rparr>) st4 = Runs () st'" "dl' = (Some f, Some ?e)"
    unfolding dl select_item_def by (simp add: Let_def runs_iff set_iff(5) eq_commute [of _ dl']) (elim exE conjE, rule that, assumption+)
  have "(\<exists>t. tail_first d f t st3) \<and> (dst \<noteq> None \<longrightarrow> f = the dst)"
  proof (cases dst)
    case None
    then show ?thesis using h made_table_tail by (fastforce simp: runs_iff)
  next
    case (Some g)
    then obtain t where "tail_first d g t st" using assms(2) dl by (auto simp: selecting_def)
    then have g: "tail_first d g t st2" using tail_first_set(1) [OF _ s(1)] tail_first_set(2) [OF _ s(2)] by simp
    then have "head_tbl d g st2 = Runs t st2" by (auto simp: tail_first_def set_iff(5))
    then have "f = g" "set_hh (?e + d) (\<lambda>h. h\<lparr>hh_tbl := Some t\<rparr>) st2 = Runs () st3" using h Some by (auto simp: runs_iff)
    then show ?thesis using tail_first_set(3) [OF g] Some by auto
  qed
  then obtain t where t: "tail_first d f t st3" and f: "dst \<noteq> None \<longrightarrow> f = the dst" by blast
  have "tail_first d f t st4" using tail_first_keep [OF t] r(1) keeps_listD [OF keeps_add_to_bkt] by blast
  then have "tail_first d f t st'" using tail_first_set(4) [OF _ r(2)] by simp
  then show ?thesis using f r(3) dl by (auto simp: selecting_def)
qed

lemma select_chain_tail:
  assumes "select_chain d T cond dl p st = Some (Runs dl' st')" and "selecting d dl st"
  shows "selecting d dl' st'"
proof -
  have "selecting d dl st \<longrightarrow> r = Runs dl' st' \<longrightarrow> selecting d dl' st'" if "select_chain d T cond dl p st = Some r" for r
  proof (rule select_chain.raw_induct [where P = "\<lambda>d T cond dl p st r. selecting d dl st \<longrightarrow> r = Runs dl' st' \<longrightarrow> selecting d dl' st'", OF _ that])
    fix rec d T cond dl p st r
    assume IH: "\<And>d T cond dl p st r. rec d T cond dl p st = Some r \<Longrightarrow> selecting d dl st \<longrightarrow> r = Runs dl' st' \<longrightarrow> selecting d dl' st'"
      and r: "(case p of None \<Rightarrow> Some (Runs dl st) | Some a \<Rightarrow>
          (case bnd (select_item d T cond dl a) (\<lambda>dl. bnd (hh_at a) (\<lambda>h. ret (dl, hh_next h))) st of
             Runs r st \<Rightarrow> rec d T cond (fst r) (snd r) st | Refused n \<Rightarrow> Some (Refused n) | Oops \<Rightarrow> Some Oops | Undefined \<Rightarrow> Some Undefined)) = Some r"
    show "selecting d dl st \<longrightarrow> r = Runs dl' st' \<longrightarrow> selecting d dl' st'"
    proof (cases p)
      case (Some a)
      show ?thesis
      proof (cases "bnd (select_item d T cond dl a) (\<lambda>dl. bnd (hh_at a) (\<lambda>h. ret (dl, hh_next h))) st")
        case (Runs y s)
        then have "selecting d dl st \<longrightarrow> selecting d (fst y) s" using select_item_tail by (fastforce simp: runs_iff)
        then show ?thesis using IH [of d T cond "fst y" "snd y" s r] r Some Runs by simp
      qed (use r Some in auto)
    qed (use r in auto)
  qed
  then show ?thesis using assms by simp
qed

lemma select_buckets_tail:
  assumes "select_buckets d t cond i dl st = Some (Runs dl' st')" and "selecting d dl st"
  shows "selecting d dl' st'"
proof -
  have "selecting d dl st \<longrightarrow> r = Runs dl' st' \<longrightarrow> selecting d dl' st'" if "select_buckets d t cond i dl st = Some r" for r
  proof (rule select_buckets.raw_induct [where P = "\<lambda>d t cond i dl st r. selecting d dl st \<longrightarrow> r = Runs dl' st' \<longrightarrow> selecting d dl' st'", OF _ that])
    fix rec d t cond i dl st r
    assume IH: "\<And>d t cond i dl st r. rec d t cond i dl st = Some r \<Longrightarrow> selecting d dl st \<longrightarrow> r = Runs dl' st' \<longrightarrow> selecting d dl' st'"
      and r: "(case tabs st t of None \<Rightarrow> Some Undefined | Some T \<Rightarrow>
          if \<not> i < num_buckets T then Some (Runs dl st)
          else (case bnd (bkt_at t (unat i)) (\<lambda>b. loop_of (select_chain d T cond dl (hh_head b))) st of
             Runs dl st \<Rightarrow> rec d t cond (i + 1) dl st | Refused n \<Rightarrow> Some (Refused n) | Oops \<Rightarrow> Some Oops | Undefined \<Rightarrow> Some Undefined)) = Some r"
    show "selecting d dl st \<longrightarrow> r = Runs dl' st' \<longrightarrow> selecting d dl' st'"
    proof (cases "\<exists>T. tabs st t = Some T \<and> i < num_buckets T")
      case True
      then obtain T where T: "tabs st t = Some T" "i < num_buckets T" by blast
      show ?thesis
      proof (cases "bnd (bkt_at t (unat i)) (\<lambda>b. loop_of (select_chain d T cond dl (hh_head b))) st")
        case (Runs y s)
        then have "selecting d dl st \<longrightarrow> selecting d y s" using T select_chain_tail
          by (fastforce simp: runs_iff bkt_at_def loop_of_def split: if_splits option.splits)
        then show ?thesis using IH [of d t cond "i + 1" y s r] r T Runs by simp
      qed (use r T in auto)
    qed (use r in \<open>auto split: option.splits\<close>)
  qed
  then show ?thesis using assms by simp
qed

lemma HASH_SELECT_tail:
  assumes "HASH_SELECT d None hh src cond st = Runs (Some f) st'"
  shows "\<exists>t. tail_first d f t st'"
  using assms select_buckets_tail [where dl = "(None, None)"]
  by (fastforce simp: HASH_SELECT_def runs_iff loop_of_def set_iff selecting_def split: option.splits)

section \<open>Adding to a selection\<close>

text \<open>The list of a selection and one more element, and what the check says of it.\<close>

definition cut_off :: "nat \<Rightarrow> addr \<Rightarrow> addr \<Rightarrow> addr \<Rightarrow> 32 word \<Rightarrow> ut_heap \<Rightarrow> bool" where
  "cut_off d f x t n st \<longleftrightarrow>
     (\<exists>h. hhs st (f + d) = Some h \<and> hh_tbl h = Some t \<and> next_elt h = Some x) \<and>
     (\<exists>h. hhs st (x + d) = Some h \<and> next_elt h = None \<and> prev h = Some f) \<and>
     (\<exists>T. tabs st t = Some T \<and> hho T = d \<and> num_items T = n)"

lemma cut_off_keep:
  assumes "cut_off d f x t n st" and "list_part st' = list_part st"
  shows "cut_off d f x t n st'"
  using assms(1) list_part_at [OF assms(2)] unfolding cut_off_def by metis

lemma add_cuts_off:
  assumes t: "tail_first d f t st" and T: "tabs st t = Some T" and r: "HASH_ADD_KEYPTR fcn d (Some f) k x st = Runs head st'" and x: "x \<noteq> f"
  shows "head = Some f \<and> cut_off d f x t (num_items T + 1) st'"
proof -
  from t obtain h where h: "hhs st (f + d) = Some h" "hh_tbl h = Some t" and T': "tail_hh T = Some (f + d)" "hho T = d"
    using T by (auto simp: tail_first_def)
  let ?s = "\<lambda>ha. st\<lparr>tabs := (tabs st)(t \<mapsto> T\<lparr>tail_hh := Some (x + d), num_items := num_items T + 1\<rparr>),
    hhs := (hhs st)(f + d \<mapsto> h\<lparr>next_elt := Some x\<rparr>, x + d \<mapsto> ha\<lparr>next_elt := None, hh_key := k, keylen := of_nat (length k),
      prev := Some f, hh_tbl := Some t, hashv := fcn k\<rparr>)\<rparr>"
  from r obtain ha where a: "HASH_ADD_TO_BKT t (unat (HASH_TO_BKT (fcn k) (num_buckets T))) (x + d) (?s ha) = Runs () st'" "head = Some f"
    using h T T' x by (auto simp: HASH_ADD_KEYPTR_def runs_iff set_iff ELMT_FROM_HH_def)
  have "cut_off d f x t (num_items T + 1) (?s ha)" using h T' x by (simp add: cut_off_def)
  with a show ?thesis using cut_off_keep keeps_listD [OF keeps_add_to_bkt] by blast
qed

lemma cut_off_iter:
  assumes "cut_off d f x t n st"
  shows "HASH_ITER d (Some f) st = Runs [f, x] st" "HASH_CNT d (Some f) st = Runs n st"
  using assms by (auto simp: cut_off_def HASH_ITER_def loop_of_def iter_loop.simps HASH_CNT_def head_tbl_def)

lemma fsck_chain_reads:
  assumes "fsck_chain p q n st = Some (Runs m st')"
  shows "st' = st"
proof -
  have "r = Runs m st' \<longrightarrow> st' = st" if "fsck_chain p q n st = Some r" for r
  proof (rule fsck_chain.raw_induct [where P = "\<lambda>p q n st r. r = Runs m st' \<longrightarrow> st' = st", OF _ that])
    fix rec p q n st r
    assume IH: "\<And>p q n st r. rec p q n st = Some r \<Longrightarrow> r = Runs m st' \<longrightarrow> st' = st"
      and r: "(case p of None \<Rightarrow> Some (Runs n st) | Some a \<Rightarrow> (case hhs st a of None \<Rightarrow> Some Undefined
        | Some h \<Rightarrow> if q \<noteq> hh_prev h then Some Oops else rec (hh_next h) (Some a) (n + 1) st)) = Some r"
    show "r = Runs m st' \<longrightarrow> st' = st" using r IH by (fastforce split: option.splits if_splits)
  qed
  then show ?thesis using assms by simp
qed

lemma fsck_buckets_reads: "fsck_buckets bs n st = Runs m st' \<Longrightarrow> st' = st"
proof (induction bs arbitrary: n)
  case (Cons b bs)
  then show ?case using fsck_chain_reads by (fastforce simp: runs_iff loop_of_def check_def split: option.splits if_splits)
qed (simp add: runs_iff)

lemma cut_off_fsck:
  assumes c: "cut_off d f x t n st" and r: "HASH_FSCK d (Some f) st = Runs u st'"
  shows "n = 2"
proof -
  from c obtain h hx T where h: "hhs st (f + d) = Some h" "hh_tbl h = Some t" "next_elt h = Some x"
    "hhs st (x + d) = Some hx" "next_elt hx = None" "prev hx = Some f" and T: "tabs st t = Some T" "hho T = d" "num_items T = n"
    by (auto simp: cut_off_def)
  have "fsck_list T (Some (f + d)) None 0 st = Some (if prev h = None then Runs 2 st else Oops)"
    using h T by (simp add: fsck_list.simps ELMT_FROM_HH_def)
  moreover have "\<exists>m s. fsck_buckets (take (unat (num_buckets T)) (buckets T)) 0 st = Runs m s \<and>
      bnd (loop_of (fsck_list T (Some (f + d)) None 0)) (\<lambda>n. check (n = num_items T)) s = Runs u st'"
    using r h T by (auto simp: HASH_FSCK_def runs_iff set_iff check_def split: if_splits)
  ultimately show ?thesis using fsck_buckets_reads T(3)
    by (fastforce simp: runs_iff loop_of_def check_def split: if_splits)
qed

text \<open>C39: \<open>HASH_SELECT\<close> leaves \<open>tail\<close> of the table that it makes at the first element \<open>f\<close> that it selected. Whatever
  the condition and however many elements were selected, when an element \<open>x\<close> is added to the selection the list is
  just \<open>f\<close>, \<open>x\<close>: all other selected elements have left it, although they are still counted, so the check \<open>HASH_FSCK\<close> does
  not pass unless \<open>f\<close> was the only one.\<close>

theorem select_breaks_list:
  assumes "HASH_SELECT d None hh src cond st = Runs (Some f) st1" and "HASH_CNT d (Some f) st1 = Runs n st1"
    and "HASH_ADD_KEYPTR fcn d (Some f) k x st1 = Runs head st2" and "x \<noteq> f"
  shows "head = Some f \<and> HASH_ITER d (Some f) st2 = Runs [f, x] st2 \<and> HASH_CNT d (Some f) st2 = Runs (n + 1) st2 \<and>
    (n \<noteq> 1 \<longrightarrow> (\<forall>st3. HASH_FSCK d (Some f) st2 \<noteq> Runs () st3))"
proof -
  from HASH_SELECT_tail [OF assms(1)] obtain t where t: "tail_first d f t st1" by blast
  then obtain T where T: "tabs st1 t = Some T" "num_items T = n"
    using assms(2) by (auto simp: tail_first_def HASH_CNT_def runs_iff set_iff)
  from add_cuts_off [OF t T(1) assms(3,4)] have c: "head = Some f" "cut_off d f x t (n + 1) st2" using T(2) by simp_all
  have "n = 1" if "HASH_FSCK d (Some f) st2 = Runs () st3" for st3
    using cut_off_fsck [OF c(2) that] by (metis add_right_imp_eq one_add_one)
  then show ?thesis using c(1) cut_off_iter [OF c(2)] by blast
qed

text \<open>Elements 0, 2 and 4, each with a handle at offset 0 and one at offset 1.\<close>

definition blank :: UT_hash_handle where
  "blank = \<lparr>hh_tbl = None, prev = None, next_elt = None, hh_prev = None, hh_next = None, hh_key = [], keylen = 0, hashv = 0\<rparr>"

definition two_handles :: ut_heap where
  "two_handles = \<lparr>hhs = (\<lambda>a. if a < 6 then Some blank else None), tabs = (\<lambda>_. None), ut_brk = 6, can_alloc = (\<lambda>_. True)\<rparr>"

definition first_byte :: "byte list \<Rightarrow> 32 word" where
  "first_byte k = (case k of [] \<Rightarrow> 0 | b # _ \<Rightarrow> ucast b)"

text \<open>Two elements are selected from one table into another one, and a third is added to the second table.\<close>

definition two_added :: "ptr ut" where
  "two_added = bnd (HASH_ADD_KEYPTR first_byte 0 None [1] 0) (\<lambda>src. HASH_ADD_KEYPTR first_byte 0 src [2] 2)"

definition selected_and_added :: "(ptr \<times> ptr \<times> addr list \<times> 32 word \<times> ptr \<times> ptr) ut" where
  "selected_and_added =
     bnd two_added (\<lambda>src.
     bnd (HASH_SELECT 1 None 0 src (\<lambda>_. True)) (\<lambda>dst.
     bnd (HASH_ITER 1 dst) (\<lambda>es.
     bnd (HASH_CNT 1 dst) (\<lambda>n.
     bnd (HASH_ADD_KEYPTR first_byte 1 dst [3] 4) (\<lambda>dst'.
     bnd (HASH_FIND first_byte 1 dst' [2]) (\<lambda>e.
     ret (src, dst, es, n, dst', e)))))))"

lemma reads_same:
  "HASH_CNT d p st = Runs n st' \<Longrightarrow> st' = st"
  by (auto simp: HASH_CNT_def runs_iff set_iff split: option.splits)

lemma iter_loop_reads:
  assumes "iter_loop hh p seen st = Some (Runs es st')"
  shows "st' = st"
proof -
  have "r = Runs es st' \<longrightarrow> st' = st" if "iter_loop hh p seen st = Some r" for r
  proof (rule iter_loop.raw_induct [where P = "\<lambda>hh p seen st r. r = Runs es st' \<longrightarrow> st' = st", OF _ that])
    fix rec hh p seen st r
    assume IH: "\<And>hh p seen st r. rec hh p seen st = Some r \<Longrightarrow> r = Runs es st' \<longrightarrow> st' = st"
      and r: "(case p of None \<Rightarrow> Some (Runs seen st) | Some e \<Rightarrow> (case hhs st (e + hh) of None \<Rightarrow> Some Undefined
        | Some h \<Rightarrow> rec hh (next_elt h) (seen @ [e]) st)) = Some r"
    show "r = Runs es st' \<longrightarrow> st' = st" using r IH by (fastforce split: option.splits)
  qed
  then show ?thesis using assms by simp
qed

lemma HASH_ITER_reads: "HASH_ITER hh p st = Runs es st' \<Longrightarrow> st' = st"
  using iter_loop_reads by (fastforce simp: HASH_ITER_def loop_of_def split: option.splits)

lemma selected_and_added_run:
  "case selected_and_added two_handles of Runs r _ \<Rightarrow> r = (Some 0, Some 0, [0, 2], 2, Some 0, Some 2) | _ \<Rightarrow> False"
  by code_simp

theorem select_breaks_list_witness:
  "\<exists>st st1 st2. HASH_SELECT 1 None 0 (Some 0) (\<lambda>_. True) st = Runs (Some 0) st1 \<and> HASH_ITER 1 (Some 0) st1 = Runs [0, 2] st1 \<and>
    HASH_CNT 1 (Some 0) st1 = Runs 2 st1 \<and> HASH_ADD_KEYPTR first_byte 1 (Some 0) [3] 4 st1 = Runs (Some 0) st2 \<and>
    HASH_ITER 1 (Some 0) st2 = Runs [0, 4] st2 \<and> HASH_CNT 1 (Some 0) st2 = Runs 3 st2 \<and>
    (\<forall>st3. HASH_FSCK 1 (Some 0) st2 \<noteq> Runs () st3)"
proof -
  from selected_and_added_run obtain st' where
    "selected_and_added two_handles = Runs (Some 0, Some 0, [0, 2], 2, Some 0, Some 2) st'" by (auto split: ut_result.splits)
  then obtain st st1 st1' st1'' st2 where r: "HASH_SELECT 1 None 0 (Some 0) (\<lambda>_. True) st = Runs (Some 0) st1"
    "HASH_ITER 1 (Some 0) st1 = Runs [0, 2] st1'" "HASH_CNT 1 (Some 0) st1' = Runs 2 st1''"
    "HASH_ADD_KEYPTR first_byte 1 (Some 0) [3] 4 st1'' = Runs (Some 0) st2"
    by (auto simp: selected_and_added_def runs_iff)
  note s = HASH_ITER_reads [OF r(2)] reads_same [OF r(3)]
  from select_breaks_list [OF r(1) r(3) [unfolded s] r(4) [unfolded s]] show ?thesis using r s by auto
qed

end
