(* ===== verification/UtProps.thy ===== *)
theory UtProps
  imports UtSelect
begin

unbundle bit_operations_syntax

text \<open>The properties of the macros of \<open>uthash.h\<close>.\<close>

section \<open>Refinement\<close>

lemma ut_rel_start:
  "\<forall>e \<in> E. hhs st (e + hh) \<noteq> None \<Longrightarrow> ut_rel fcn hh E (can_alloc st) 32 [] None st"
  by (simp add: ut_rel_def ut_inv_def)

text \<open>C7: The macros keep a list of elements with their keys. Any sequence of additions, replacements, searches,
  deletions, sorts, counts, iterations, clearings and integrity checks, which the client may make (\<open>ut_legal\<close>: its
  elements have handles, an element and a key are added once, only elements of the table are deleted, no
  \<open>HASH_SELECT\<close>), gives the answers of the list and ends with the head of its first element, for every hash function
  and every \<open>malloc\<close> that refuses blocks of \<open>2^35\<close> bytes and more. The only other end is the exit at a block that
  \<open>malloc\<close> refused, of no more than \<open>16\<close> bytes for each bucket that the additions can have made; no integrity check
  fails and nothing is undefined.\<close>

theorem uthash_refines_list:
  assumes "\<forall>e \<in> E. hhs st (e + hh) \<noteq> None" and "\<forall>n. can_alloc st n \<longrightarrow> n < 2 ^ 35" and "ut_legal E ops []"
  shows "(\<exists>m \<le> 16 * fold grown ops 32. ut_run fcn hh ops None st = Refused m \<and> \<not> can_alloc st m) \<or>
    (\<exists>st'. ut_run fcn hh ops None st = Runs (head_of (map snd (fst (ut_spec_run ops []))), snd (ut_spec_run ops [])) st')"
  using run_refines [OF ut_rel_start [OF assms(1)] assms(2,3), of fcn] ut_relD(2)
  unfolding refused_def by blast

text \<open>Three elements with a handle at their start, and enough memory.\<close>

definition three_elements :: ut_heap where
  "three_elements = \<lparr>hhs = (\<lambda>a. if a < 3 then Some blank else None), tabs = (\<lambda>_. None), ut_brk = 3, can_alloc = (\<lambda>n. n < 2 ^ 35)\<rparr>"

definition some_ops :: "ut_op list" where
  "some_ops = [UAdd [7] 0, UAdd [5] 1, UReplace [7] 2, UFind [7], USort (\<lambda>a b. int b - int a) (\<lambda>a. - int a), UIter, UCheck, UDel 1, UCount]"

lemma some_ops_legal: "ut_legal {0, 1, 2} some_ops []"
  by (simp add: some_ops_def compares_def)

lemma some_ops_run: "ut_spec_run some_ops [] =
    ([([7], 2)], [UDone, UDone, UElt (Some 0), UElt (Some 2), UDone, UElts [2, 1], UDone, UDone, UNumber 1])"
  by (simp add: some_ops_def)

theorem uthash_refines_list_witness:
  "\<exists>st'. ut_run first_byte 0 some_ops None three_elements =
    Runs (Some 2, [UDone, UDone, UElt (Some 0), UElt (Some 2), UDone, UElts [2, 1], UDone, UDone, UNumber 1]) st'"
proof -
  have m: "can_alloc three_elements m" if "m \<le> 16 * fold grown some_ops 32" for m
    using that by (simp add: some_ops_def three_elements_def)
  have "(\<exists>m \<le> 16 * fold grown some_ops 32. ut_run first_byte 0 some_ops None three_elements = Refused m \<and> \<not> can_alloc three_elements m) \<or>
      (\<exists>st'. ut_run first_byte 0 some_ops None three_elements = Runs (head_of (map snd (fst (ut_spec_run some_ops []))), snd (ut_spec_run some_ops [])) st')"
    by (rule uthash_refines_list [OF _ _ some_ops_legal]) (simp_all add: three_elements_def)
  then show ?thesis using m unfolding some_ops_run by auto
qed

section \<open>The invariant\<close>

text \<open>C38: After any sequence of operations that the client may make (\<open>ut_legal\<close>: the elements have handles, an element
  and a key are added once, only elements of the table are deleted; \<open>HASH_SELECT\<close> is not among them) and that ran to its
  end, with a \<open>malloc\<close> that refuses blocks of \<open>2^35\<close> bytes and more, the check \<open>HASH_FSCK\<close> of the whole table finds
  nothing: the counts of all buckets, their back links, the number of items and the back links of the list are right.\<close>

theorem fsck_never_fails:
  assumes "\<forall>e \<in> E. hhs st (e + hh) \<noteq> None" and "\<forall>n. can_alloc st n \<longrightarrow> n < 2 ^ 35" and "ut_legal E ops []"
    and "ut_run fcn hh ops None st = Runs (head, as) st'"
  shows "HASH_FSCK hh head st' = Runs () st'"
  using run_refines [OF ut_rel_start [OF assms(1)] assms(2,3), of fcn] assms(4) HASH_FSCK_run ut_relD(1,2) by fastforce

theorem fsck_never_fails_witness:
  "\<exists>head as st'. ut_run first_byte 0 [UAdd [7] 0, UAdd [5] 1, UDel 0] None three_elements = Runs (head, as) st' \<and> HASH_FSCK 0 head st' = Runs () st'"
proof -
  have e: "\<forall>e \<in> {0, 1, 2}. hhs three_elements (e + 0) \<noteq> None" "\<forall>n. can_alloc three_elements n \<longrightarrow> n < 2 ^ 35"
    by (simp_all add: three_elements_def)
  have l: "ut_legal {0, 1, 2} [UAdd [7] 0, UAdd [5] 1, UDel 0] []" by simp
  have m: "\<not> refused (can_alloc three_elements) (16 * fold grown [UAdd [7] 0, UAdd [5] 1, UDel 0] 32) r" for r :: "(ptr \<times> ut_answer list) ut_result"
    by (auto simp: refused_def three_elements_def)
  from run_refines [OF ut_rel_start [OF e(1)] e(2) l, of first_byte] m obtain head as st' where
    r: "ut_run first_byte 0 [UAdd [7] 0, UAdd [5] 1, UDel 0] None three_elements = Runs (head, as) st'" by blast
  from fsck_never_fails [OF e l r] r show ?thesis by blast
qed

section \<open>Sorting\<close>

text \<open>C8: \<open>HASH_SRT\<close> sorts the list of elements in place and stably by any comparison that agrees with a key, with
  bottom-up merges of the links; the buckets, the keys and the search stay as they were. It ends for every table.\<close>

theorem hash_sort_correct:
  assumes "ut_inv fcn hh B st es" and "compares cmp f (set es)"
  shows "\<exists>st'. HASH_SRT hh (head_of es) cmp st = Runs (head_of (sort_key f es)) st' \<and> ut_inv fcn hh B st' (sort_key f es) \<and>
    HASH_ITER hh (head_of (sort_key f es)) st' = Runs (sort_key f es) st' \<and> key_of hh st' = key_of hh st"
  using HASH_SRT_run [OF assms] HASH_ITER_run by blast

theorem hash_sort_correct_witness:
  "\<exists>B st st'. ut_inv first_byte 0 B st [0, 1] \<and> HASH_SRT 0 (Some 0) (\<lambda>a b. int b - int a) st = Runs (Some 1) st' \<and>
    HASH_ITER 0 (Some 1) st' = Runs [1, 0] st'"
proof -
  have e: "\<forall>e \<in> {0, 1, 2}. hhs three_elements (e + 0) \<noteq> None" "\<forall>n. can_alloc three_elements n \<longrightarrow> n < 2 ^ 35"
    by (simp_all add: three_elements_def)
  have l: "ut_legal {0, 1, 2} [UAdd [7] 0, UAdd [5] 1] []" by simp
  have m: "\<not> refused (can_alloc three_elements) (16 * fold grown [UAdd [7] 0, UAdd [5] 1] 32) r" for r :: "(ptr \<times> ut_answer list) ut_result"
    by (auto simp: refused_def three_elements_def)
  from run_refines [OF ut_rel_start [OF e(1)] e(2) l, of first_byte] m obtain B head st where
    "ut_rel first_byte 0 {0, 1, 2} (can_alloc three_elements) B [([7], 0), ([5], 1)] head st" by auto
  then have i: "ut_inv first_byte 0 B st [0, 1]" using ut_relD(1) by fastforce
  have c: "compares (\<lambda>a b. int b - int a) (\<lambda>a. - int a) (set [0, 1])" by (simp add: compares_def)
  have "head_of [0, 1] = Some 0" "head_of (sort_key (\<lambda>a. - int a) [0, 1]) = Some 1" "sort_key (\<lambda>a. - int a) [0, 1] = [1, 0]" by simp_all
  with hash_sort_correct [OF i c] i show ?thesis by metis
qed

end
