(* ===== verification/UtBloom.thy ===== *)
theory UtBloom
  imports UtHash
begin

unbundle bit_operations_syntax

text \<open>The Bloom filter of \<open>uthash.h\<close>: a hash value that was added is always found. The shift that makes the
  mask is undefined in C for \<open>nbits \<ge> 64\<close>; the bit vector of such a filter would need \<open>2 ^ 61\<close> bytes, so the model reads the
  mask as all ones there.\<close>

section \<open>Bits\<close>

lemma bloom_index_take_bit: "bloom_index n h = unat (take_bit n h)"
  by (simp add: bloom_index_def take_bit_eq_mask mask_eq_exp_minus_1)

lemma bloom_index_less: "bloom_index n h < 2 ^ n"
  unfolding bloom_index_take_bit by (simp add: unsigned_take_bit_eq)

lemma bloom_byte_less: "bloom_index n h div 8 < bloom_bytes n"
proof -
  have round: "(m + 7) div 8 \<le> m div 8 + (if m mod 8 \<noteq> 0 then 1 else 0)" for m :: nat by presburger
  have "bloom_index n h div 8 < (2 ^ n + 7) div 8" using bloom_index_less [of n h] by (simp add: div_less_iff_less_mult)
  also have "\<dots> \<le> bloom_bytes n" unfolding bloom_bytes_def by (rule round)
  finally show ?thesis .
qed

text \<open>The test of a bit of a byte.\<close>

lemma byte_bit: "(b :: byte) AND 2 ^ j \<noteq> 0 \<longleftrightarrow> bit b j"
  by (simp add: and_exp_eq_0_iff_not_bit)

text \<open>The bit of the filter that belongs to a hash value.\<close>

definition filter_bit :: "nat \<Rightarrow> byte list \<Rightarrow> 32 word \<Rightarrow> bool" where
  "filter_bit n bv h \<longleftrightarrow> bit (bv ! (bloom_index n h div 8)) (bloom_index n h mod 8)"

lemma bloom_test_bit:
  assumes "length bv = bloom_bytes n"
  shows "HASH_BLOOM_TEST n bv h = Some (filter_bit n bv h)"
  using assms bloom_byte_less [of n h] by (simp add: HASH_BLOOM_TEST_def filter_bit_def byte_bit Let_def)

lemma bloom_add_bit:
  assumes "length bv = bloom_bytes n"
  shows "\<exists>bv'. HASH_BLOOM_ADD n bv h = Some bv' \<and> length bv' = bloom_bytes n \<and>
    (\<forall>h'. filter_bit n bv' h' \<longleftrightarrow> filter_bit n bv h' \<or> bloom_index n h' = bloom_index n h)"
proof -
  let ?i = "bloom_index n h"
  let ?bv = "bv[?i div 8 := bv ! (?i div 8) OR push_bit (?i mod 8) 1]"
  have l: "?i div 8 < length bv" using assms bloom_byte_less [of n h] by simp
  have "filter_bit n ?bv h' \<longleftrightarrow> filter_bit n bv h' \<or> bloom_index n h' = ?i" for h'
  proof (cases "bloom_index n h' div 8 = ?i div 8")
    case True
    have "bit (push_bit (?i mod 8) (1 :: byte)) (bloom_index n h' mod 8) \<longleftrightarrow> bloom_index n h' mod 8 = ?i mod 8"
      by (auto simp: bit_simps)
    moreover have "bloom_index n h' mod 8 = ?i mod 8 \<longleftrightarrow> bloom_index n h' = ?i" using True by (metis mult_div_mod_eq)
    ultimately show ?thesis using True l by (simp add: filter_bit_def bit_or_iff)
  next
    case False
    then have "bloom_index n h' \<noteq> ?i" by metis
    then show ?thesis using False by (simp add: filter_bit_def)
  qed
  then show ?thesis using l assms by (simp add: HASH_BLOOM_ADD_def Let_def)
qed

section \<open>A filter of many values\<close>

fun bloom_add_all :: "nat \<Rightarrow> 32 word list \<Rightarrow> byte list \<Rightarrow> byte list option" where
  "bloom_add_all n [] bv = Some bv"
| "bloom_add_all n (h # hs) bv = Option.bind (HASH_BLOOM_ADD n bv h) (bloom_add_all n hs)"

lemma bloom_add_all_bits:
  assumes "length bv = bloom_bytes n"
  shows "\<exists>bv'. bloom_add_all n hs bv = Some bv' \<and> length bv' = bloom_bytes n \<and>
    (\<forall>h'. filter_bit n bv' h' \<longleftrightarrow> filter_bit n bv h' \<or> bloom_index n h' \<in> bloom_index n ` set hs)"
  using assms
proof (induction hs arbitrary: bv)
  case (Cons h hs)
  from bloom_add_bit [OF Cons.prems, of h] obtain bv1 where b: "HASH_BLOOM_ADD n bv h = Some bv1" "length bv1 = bloom_bytes n"
    "\<forall>h'. filter_bit n bv1 h' \<longleftrightarrow> filter_bit n bv h' \<or> bloom_index n h' = bloom_index n h" by blast
  from Cons.IH [OF b(2)] b(1,3) show ?case by auto
qed simp

text \<open>C40: The Bloom filter has no false negatives, and what it answers is exact for the low bits: after any hash values
  were added to a new filter of \<open>2 ^ nbits\<close> bits, no access is outside the bit vector, and the test of a value answers
  whether a value with the same low \<open>nbits\<close> bits was added, so it is true for every value that was.\<close>

theorem bloom_filter_exact:
  "\<exists>bv. bloom_add_all nbits hs (HASH_BLOOM_MAKE nbits) = Some bv \<and>
    (\<forall>h. HASH_BLOOM_TEST nbits bv h = Some (\<exists>h' \<in> set hs. take_bit nbits h' = take_bit nbits h))"
proof -
  have l: "length (HASH_BLOOM_MAKE nbits) = bloom_bytes nbits" by (simp add: HASH_BLOOM_MAKE_def)
  have z: "\<not> filter_bit nbits (HASH_BLOOM_MAKE nbits) h" for h
    using bloom_byte_less [of nbits h] by (simp add: filter_bit_def HASH_BLOOM_MAKE_def)
  from bloom_add_all_bits [OF l, of hs] z obtain bv where b: "bloom_add_all nbits hs (HASH_BLOOM_MAKE nbits) = Some bv"
    "length bv = bloom_bytes nbits" "\<forall>h. filter_bit nbits bv h \<longleftrightarrow> bloom_index nbits h \<in> bloom_index nbits ` set hs" by auto
  have "bloom_index nbits h \<in> bloom_index nbits ` set hs \<longleftrightarrow> (\<exists>h' \<in> set hs. take_bit nbits h' = take_bit nbits h)" for h
    by (auto simp: bloom_index_take_bit image_iff word_unat_eq_iff eq_commute)
  then show ?thesis using b bloom_test_bit [OF b(2)] by simp
qed

end
