(* ===== verification/Spec2Isabelle.thy ===== *)
theory Spec2Isabelle
  imports HashTableProps SymbolTableProps SymbolTable3 TypeTable CodeGenProps CompilerProps GhtProps FreqTable ArrayTable TypeNames StoresRemoval ScanProps UtProps UtBloom
begin

text \<open>
  A verification library for the C-- repository: the compiler of \<open>src/Assig4\<close>, the scanner of \<open>src/Assig1\<close>
  with the tables of the earlier assignments and the hash table macros, the hash table library \<open>src/lib/libghthash-0.6.2\<close>, and
  the optimisation pass of \<open>src/Assig5\<close>.

  \<^bold>\<open>The compiler.\<close> It reads a C-- program and writes MIPS assembly. The scanner
  (\<open>lexer3.l\<close>) turns names and constants into symbols of a symbol table (\<open>symboltable.c\<close>), whose
  keys are scope numbers followed by names, in a hash table with chained slots (\<open>hashtable.c\<close>).
  A second table of that kind holds structures and typedefs (\<open>typetable.c\<close>). The semantic
  actions of the parser (\<open>parser.y\<close>) check types and emit code through the code generator
  (\<open>codegen.c\<close>), which hands out temporary registers, keeps the string constants of a function,
  and a stack of label numbers.

  \<^item> \<open>Prelude\<close>: strings, addresses, the heap with allocation and freeing.
  \<^item> \<open>HashTable\<close> models \<open>hashtable.c\<close> with pointers: \<open>None\<close> is undefined behaviour or a failed
    \<open>assert\<close>. \<open>HashTableInv\<close> has the invariant (each slot is a list of entries that hash to it, no
    key twice), \<open>HashTableOps\<close> the operations under it, \<open>Dictionary\<close> the interfaces \<open>dictionary\<close> and
    \<open>chained_dictionary\<close> through which the other components use a table, \<open>HashTableSpec\<close> their
    interpretation \<open>ht\<close>, and \<open>HashTableProps\<close> the properties, on sequences of calls whose state has the table and the
    data that \<open>h_remove\<close> freed: to free a block a second time is undefined.
  \<^item> \<open>Common\<close>, \<open>SymbolTable\<close>, \<open>SymbolTableInv\<close>, \<open>SymbolTableProps\<close> model \<open>common.c\<close> and
    \<open>symboltable.c\<close>: the symbols are objects of a memory, \<open>declared\<close> reads the table as a map from
    name and scope to a symbol. \<open>SymbolTable3\<close> has the version of \<open>src/Assig3\<close> and its relation to this one.
  \<^item> \<open>TypeTable\<close> models \<open>typetable.c\<close>.
  \<^item> \<open>CodeGen\<close> models \<open>codegen.c\<close>; an instruction is a value of \<open>asm\<close>, printed by \<open>render\<close>.
    \<open>CodeGenInterfaces\<close> has the interfaces \<open>bounded_stack\<close> and \<open>register_pool\<close>, \<open>CodeGenSpec\<close> their
    interpretations \<open>ls\<close> and \<open>rp\<close>, \<open>CodeGenProps\<close> the properties.
  \<^item> \<open>Lexer\<close> has the parser's state and the scanner's actions. An action maps a state to \<open>Ok\<close> with a
    value and a state, to \<open>Exit\<close> with the message of \<open>yyerror\<close>, or to \<open>Undef\<close>. \<open>Parser\<close>,
    \<open>Declarations\<close> and \<open>Statements\<close> have the parse trees and the actions of \<open>parser.y\<close>; \<open>compile\<close> is
    \<open>main\<close>.
  \<^item> \<open>Effects\<close>, \<open>ControlFlow\<close>, \<open>FunctionFlow\<close> show what actions do to the state and to the output:
    a step relation for the actions that emit no label, and segments of code for statements,
    functions and programs.
  \<^item> \<open>Machine\<close> has the part of the target machine that runs the code of expressions; the arithmetic
    of its instructions is a parameter. It also has the meaning of expressions, written without the compiler's own
    choices: the operations of C-- with their mnemonics and types, and the value in C (\<open>c_value\<close>) that an expression
    has on the integers of 32 bits when no operation overflows. \<open>ExprSpec\<close> shows that the code of an arithmetic expression
    computes its value. \<open>CompilerProps\<close> has the properties of the compiler.

  \<^bold>\<open>The scanner of the first assignment.\<close> \<open>lexer.lex\<close> and the program \<open>lex.yy.c\<close> that flex made of
  it, with the tables of identifiers and comments in \<open>symboltable.c\<close>.

  \<^item> \<open>ScanTables\<close> has the tables of \<open>lex.yy.c\<close> and the transition computed from them, \<open>ScanPatterns\<close> the
    patterns of \<open>lexer.lex\<close> as regular expressions with derivatives. \<open>ScanStates\<close> gives each state a word that
    leads to it and checks every entry of the tables against the derivatives, \<open>ScanDfa\<close> concludes that
    the automaton decides the patterns.
  \<^item> \<open>ScanState\<close> has the static variables, the blocks of characters, the files, and steps that end normally
    (\<open>Done\<close>), exit with a message (\<open>Fatal\<close>), or are undefined (\<open>Fail\<close>). \<open>ScanBuffer\<close> models the operations on
    buffers, \<open>ScanInput\<close> reading, refilling, \<open>yyunput\<close> and \<open>input\<close>, \<open>ScanLex\<close> the function \<open>yylex\<close>, with its
    labels as the constructors of \<open>yy_label\<close>, and \<open>main\<close>.
  \<^item> \<open>ScanText\<close> is the specification: \<open>scan_text\<close> takes the longest prefix that a rule admits and does the
    action of the rule, on a plain string. \<open>ScanFrame\<close> describes a scanner that reads one file, \<open>ScanRefill\<close>
    shows what a refill keeps, \<open>ScanMatch\<close> that the match loop finds the longest match across refills, zero
    bytes and backing up, \<open>ScanComment\<close> the comment rule, \<open>ScanRun\<close> the loop over the tokens, and
    \<open>ScanProps\<close> the properties of the program.
  \<^item> \<open>ArrayTable\<close> models \<open>symboltable.c\<close> of the same directory, two arrays without bounds checks.

  \<^bold>\<open>Other tables.\<close> \<open>GlobalTable\<close> models \<open>assignment1/hashtable.c\<close>, whose table is a global variable, over the
  slots of \<open>HashTable\<close>; \<open>FreqTable\<close> the identifier frequencies of \<open>assignment1/symboltable.c\<close> that use it, and
  \<open>TypeNames\<close> the type names of \<open>Assig2/table.c\<close>.

  \<^bold>\<open>The hash table library.\<close> \<open>GhtHash\<close> has the hash functions of \<open>hash_functions.c\<close> on 32-bit words,
  \<open>GhtTable\<close> every function of \<open>hash_table.c\<close> over a memory of entries, each on a doubly linked list of its bucket and
  on one of all entries by age. \<open>DoublyLinked\<close> has such lists in general; \<open>GhtInv\<close> the invariant;
  \<open>GhtLinks\<close>, \<open>GhtMove\<close>, \<open>GhtOps\<close>, \<open>GhtChange\<close>, \<open>GhtInsert\<close>, \<open>GhtRehash\<close>, \<open>GhtGrow\<close>, \<open>GhtBounded\<close> what linking, the two
  heuristics, searching, removing, inserting, iterating, growing and the bound on buckets do under it. \<open>GhtSpec\<close> is the
  specification, a list of pairs in the order of insertion, and \<open>GhtProps\<close> has the properties.

  \<^bold>\<open>The hash table macros.\<close> \<open>uthash.h\<close> of \<open>src/Assig1\<close>, with a handle inside each element of the client.
  \<open>UtHash\<close> has the hash functions and the Bloom filter, \<open>UtBloom\<close> its property; \<open>UtTable\<close> the records and the macros that make, grow, search and
  change a table, as steps that run, exit at a block that \<open>malloc\<close> refused (\<open>Refused\<close> with its size) or at a failed check (\<open>Oops\<close>), or are
  undefined; \<open>UtMerge\<close> and \<open>UtSort\<close> the sort
  \<open>HASH_SRT\<close>, \<open>UtCheck\<close> the integrity check \<open>HASH_FSCK\<close>, \<open>UtSelect\<close> the copying of elements to a second table, with what becomes of
  its list when an element is added to it.

  \<^item> \<open>UtInv\<close> has the invariant: one doubly linked list of the elements in their order, one of the handles of every bucket, and
    the counts. \<open>UtFind\<close>, \<open>UtExpand\<close>, \<open>UtAdd\<close>, \<open>UtDelete\<close>, \<open>UtSort\<close>, \<open>UtCheck\<close> show what each macro does under it.
  \<^item> \<open>UtSpec\<close> is the contract, a list of keys and elements, with the obligations of the client, and the simulation of every
    operation; \<open>UtProps\<close> has the properties. An addition at most doubles the buckets, so the bound on them, and with it the
    largest block that is asked for, follows from the number of additions.

  \<^bold>\<open>The pass.\<close> \<open>StoresRemoval\<close> models \<open>runOnBasicBlock\<close> of \<open>StoresRemoval.cpp\<close> on the opcodes, operands and results of
  instructions, of which the pass reads the opcode and the names of the operands. The meaning of a block is a change of a
  memory and of the values of its instructions: a load reads the memory, a store writes the value of its operand, every other
  instruction computes a value from those before it, by a function that is a parameter.

  \<^bold>\<open>Bounds.\<close> No fuel is used: loops that may not end are partial functions into options, and
  \<open>None\<close> then includes not returning; the properties say for which states there is a result. The
  code of an expression is described when the registers it needs (\<open>need\<close>) are free; with
  fewer the generator names a register that does not exist. The scanner is described for texts of less than
  \<open>2 ^ 31\<close> bytes, where its \<open>int\<close> offsets do not overflow; its buffer then stays below
  \<open>16384 + 2 * 2 ^ 31\<close> bytes. Tables of the hash table library have at most \<open>2 ^ 30\<close> buckets when they grow, and
  those of \<open>uthash.h\<close> too, since \<open>malloc\<close> is assumed to refuse blocks of \<open>2 ^ 35\<close> bytes.

  \<^bold>\<open>Not modelled.\<close> The automaton that bison generates is not part of the repository: a program is a parse
  tree, and the actions run over it bottom-up and left to right. The debug output, and the messages on \<open>stderr\<close>. The
  buffers \<open>reg_str\<close> of three bytes, which overflow for \<open>$10\<close> to \<open>$15\<close>; such a write is logged and
  ignored. The buffer of 260 bytes for the key of a symbol: the names that the scanner makes have at most 256 characters, and
  longer ones are accepted by the model. The counters \<open>cnt\<close> of the arguments of a call and \<open>p_nr\<close> of bounded buckets are integers
  without a width, and the callback of a bounded bucket is recorded and does not call the table again. The mask of the
  Bloom filter for 64 bits and more, where the shift is undefined in C. Memory allocation never fails, except where a function of the hash table library answers for it. The parser
  of \<open>src/Assig3\<close>, an earlier version of the compiler without code generation, reads semantic values that no action
  sets, so its behaviour depends on what bison leaves on its stack; the actions of \<open>src/Assig2\<close> only print and insert
  type names. \<open>src/Assig4/Assig4-final\<close>,
  \<open>src/lib/tmp\<close> and \<open>src/hash-sandbox\<close> hold copies of files that are modelled; the examples of the hash table library
  and the test programs are inputs and demonstrations.
\<close>

end
